(* ===== verification/Prelude.thy ===== *)
theory Prelude
  imports Main "HOL-Library.Multiset" "HOL-Library.List_Lexorder" "HOL-Library.Char_ord"
begin

text \<open>
  What every component of the development shares: the collections of simplification and
  invariant rules, the result type of fallible Go functions, the parts of Go's
  \<^verbatim>\<open>strings\<close>, \<^verbatim>\<open>strconv\<close> and \<^verbatim>\<open>sort\<close> packages the program uses, and generic facts about
  lists and maps.

  A Go string is a sequence of bytes; it is a \<^typ>\<open>string\<close> here (a list of 8-bit characters),
  and Go's \<open><\<close> on strings is the lexicographic order on bytes, which is the order of
  \<^verbatim>\<open>List_Lexorder\<close> over \<^verbatim>\<open>Char_ord\<close>.
\<close>

named_theorems go_simps \<open>unfolding rules of the models of Go library functions\<close>
named_theorems inv_intros \<open>invariant preservation rules\<close>

section \<open>Results of fallible functions\<close>

text \<open>\<open>Inl e\<close> is a returned error (or a panic), \<open>Inr v\<close> a normal return.\<close>

type_synonym ('e, 'a) result = "'e + 'a"

definition bindR :: "('e, 'a) result \<Rightarrow> ('a \<Rightarrow> ('e, 'b) result) \<Rightarrow> ('e, 'b) result" where
  "bindR m k = (case m of Inl e \<Rightarrow> Inl e | Inr x \<Rightarrow> k x)"

lemma bindR_Inl [simp]: "bindR (Inl e) k = Inl e"
  by (simp add: bindR_def)

lemma bindR_Inr [simp]: "bindR (Inr x) k = k x"
  by (simp add: bindR_def)

lemma bindR_eq_Inr [simp]: "bindR m k = Inr y \<longleftrightarrow> (\<exists>x. m = Inr x \<and> k x = Inr y)"
  by (cases m) auto

lemma bindR_cong [fundef_cong]:
  "m = m' \<Longrightarrow> (\<And>x. m' = Inr x \<Longrightarrow> k x = k' x) \<Longrightarrow> bindR m k = bindR m' k'"
  by (cases m') auto

section \<open>Strings\<close>

text \<open>\<^verbatim>\<open>strings.HasPrefix\<close>, \<^verbatim>\<open>strings.HasSuffix\<close>, \<^verbatim>\<open>strings.TrimPrefix\<close> and \<^verbatim>\<open>strings.TrimSuffix\<close>.\<close>

fun HasPrefix :: "string \<Rightarrow> string \<Rightarrow> bool" where
  "HasPrefix s [] = True"
| "HasPrefix [] (p # ps) = False"
| "HasPrefix (c # s) (p # ps) = (c = p \<and> HasPrefix s ps)"

definition HasSuffix :: "string \<Rightarrow> string \<Rightarrow> bool" where
  "HasSuffix s suf = HasPrefix (rev s) (rev suf)"

definition TrimPrefix :: "string \<Rightarrow> string \<Rightarrow> string" where
  "TrimPrefix s p = (if HasPrefix s p then drop (length p) s else s)"

definition TrimSuffix :: "string \<Rightarrow> string \<Rightarrow> string" where
  "TrimSuffix s suf = (if HasSuffix s suf then take (length s - length suf) s else s)"

text \<open>\<^verbatim>\<open>strings.Contains\<close>: some position of the string has the needle as a prefix.\<close>

fun Contains :: "string \<Rightarrow> string \<Rightarrow> bool" where
  "Contains [] p = (p = [])"
| "Contains (c # s) p = (HasPrefix (c # s) p \<or> Contains s p)"

text \<open>\<^verbatim>\<open>strings.Trim\<close> with a cutset of single-byte characters.\<close>

definition Trim :: "string \<Rightarrow> char set \<Rightarrow> string" where
  "Trim s cutset = rev (dropWhile (\<lambda>c. c \<in> cutset) (rev (dropWhile (\<lambda>c. c \<in> cutset) s)))"

text \<open>\<^verbatim>\<open>strings.Join\<close> with a separator, and \<^verbatim>\<open>strings.Split\<close> at a single-byte separator.\<close>

fun Join :: "string list \<Rightarrow> string \<Rightarrow> string" where
  "Join [] sep = []"
| "Join [s] sep = s"
| "Join (s # t # ss) sep = s @ sep @ Join (t # ss) sep"

fun Split :: "string \<Rightarrow> char \<Rightarrow> string list" where
  "Split [] sep = [[]]"
| "Split (c # s) sep =
     (if c = sep then [] # Split s sep
      else (case Split s sep of [] \<Rightarrow> [[c]] | p # ps \<Rightarrow> (c # p) # ps))"

text \<open>
  \<^verbatim>\<open>strings.ToUpper\<close>, \<^verbatim>\<open>strings.ToLower\<close>, \<^verbatim>\<open>strings.TrimSpace\<close> and \<^verbatim>\<open>strings.EqualFold\<close> on ASCII text: Go maps
  code points beyond ASCII by the Unicode tables, which are not modelled; the properties that
  depend on these functions ask for ASCII inputs.
\<close>

definition ascii :: "string \<Rightarrow> bool" where
  "ascii s = list_all (\<lambda>c. (of_char c :: nat) < 128) s"

definition upper_char :: "char \<Rightarrow> char" where
  "upper_char c = (let n = (of_char c :: nat) in if 97 \<le> n \<and> n \<le> 122 then char_of (n - 32) else c)"

definition ToUpper :: "string \<Rightarrow> string" where
  "ToUpper s = map upper_char s"

definition lower_char :: "char \<Rightarrow> char" where
  "lower_char c = (let n = (of_char c :: nat) in if 65 \<le> n \<and> n \<le> 90 then char_of (n + 32) else c)"

definition ToLower :: "string \<Rightarrow> string" where
  "ToLower s = map lower_char s"

definition is_space :: "char \<Rightarrow> bool" where
  "is_space c = (let n = (of_char c :: nat) in n = 32 \<or> (9 \<le> n \<and> n \<le> 13))"

definition TrimSpace :: "string \<Rightarrow> string" where
  "TrimSpace s = rev (dropWhile is_space (rev (dropWhile is_space s)))"

definition EqualFold :: "string \<Rightarrow> string \<Rightarrow> bool" where
  "EqualFold s t = (ToUpper s = ToUpper t)"

lemma HasPrefix_append [simp]: "HasPrefix (p @ s) p"
  by (induction p) auto

lemma HasPrefix_iff: "HasPrefix s p \<longleftrightarrow> (\<exists>r. s = p @ r)"
  by (induction s p rule: HasPrefix.induct) auto

lemma TrimPrefix_append [simp]: "TrimPrefix (p @ s) p = s"
  by (simp add: TrimPrefix_def)

lemma HasPrefix_length: "HasPrefix s p \<Longrightarrow> length p \<le> length s"
  by (auto simp: HasPrefix_iff)

lemma Contains_iff: "Contains s p \<longleftrightarrow> (\<exists>a b. s = a @ p @ b)"
proof (induction s)
  case Nil
  then show ?case by simp
next
  case (Cons c s)
  show ?case
  proof
    assume "Contains (c # s) p"
    then consider "HasPrefix (c # s) p" | "Contains s p" by auto
    then show "\<exists>a b. c # s = a @ p @ b"
    proof cases
      case 1
      then show ?thesis by (metis HasPrefix_iff append_Nil)
    next
      case 2
      then obtain a b where "s = a @ p @ b" using Cons.IH by blast
      then have "c # s = (c # a) @ p @ b" by simp
      then show ?thesis by blast
    qed
  next
    assume "\<exists>a b. c # s = a @ p @ b"
    then obtain a b where ab: "c # s = a @ p @ b" by blast
    show "Contains (c # s) p"
    proof (cases a)
      case Nil
      then have "HasPrefix (c # s) p" using ab by (auto simp only: HasPrefix_iff append_Nil)
      then show ?thesis by simp
    next
      case (Cons x a')
      with ab have "s = a' @ p @ b" by simp
      with Cons.IH show ?thesis by auto
    qed
  qed
qed

lemma Split_not_Nil [simp]: "Split s sep \<noteq> []"
  by (induction s sep rule: Split.induct) (auto split: list.splits)

lemma Split_no_sep: "sep \<notin> set s \<Longrightarrow> Split s sep = [s]"
  by (induction s) auto

lemma Split_append_sep: "sep \<notin> set s \<Longrightarrow> Split (s @ sep # t) sep = s # Split t sep"
  by (induction s) auto

text \<open>Splitting undoes joining, when no part holds the separator.\<close>

lemma Split_Join:
  "ss \<noteq> [] \<Longrightarrow> \<forall>s\<in>set ss. sep \<notin> set s \<Longrightarrow> Split (Join ss [sep]) sep = ss"
  by (induction ss "[sep]" rule: Join.induct) (auto simp: Split_no_sep Split_append_sep)

lemma Split_parts: "p \<in> set (Split s sep) \<Longrightarrow> sep \<notin> set p"
proof (induction s arbitrary: p)
  case Nil
  then show ?case by simp
next
  case (Cons c s)
  then show ?case
    by (cases "Split s sep") (auto split: if_splits)
qed

section \<open>Integers in decimal\<close>

text \<open>\<^verbatim>\<open>%d\<close> of \<^verbatim>\<open>fmt.Sprintf\<close>, on a natural number.\<close>

definition digit_char :: "nat \<Rightarrow> char" where
  "digit_char d = char_of (48 + d)"

fun itoa :: "nat \<Rightarrow> string" where
  "itoa n = (if n < 10 then [digit_char n] else itoa (n div 10) @ [digit_char (n mod 10)])"

declare itoa.simps [simp del]

text \<open>
  \<^verbatim>\<open>strconv.Atoi\<close>: an optional sign, then at least one decimal digit and nothing else; the
  value must fit in 64 signed bits. \<open>None\<close> is the returned error.
\<close>

definition digit_val :: "char \<Rightarrow> nat option" where
  "digit_val c = (let n = (of_char c :: nat) in if 48 \<le> n \<and> n \<le> 57 then Some (n - 48) else None)"

fun digits_val :: "nat \<Rightarrow> string \<Rightarrow> nat option" where
  "digits_val acc [] = Some acc"
| "digits_val acc (c # s) =
     (case digit_val c of None \<Rightarrow> None | Some d \<Rightarrow> digits_val (10 * acc + d) s)"

definition Atoi :: "string \<Rightarrow> int option" where
  "Atoi s =
     (let neg = (HasPrefix s ''-'');
          ds = (if HasPrefix s ''-'' \<or> HasPrefix s ''+'' then tl s else s)
      in if ds = [] then None
         else (case digits_val 0 ds of
                 None \<Rightarrow> None
               | Some n \<Rightarrow>
                   (let v = (if neg then - int n else int n)
                    in if - (2 ^ 63) \<le> v \<and> v < 2 ^ 63 then Some v else None)))"

lemma of_char_digit_char [simp]: "d < 10 \<Longrightarrow> (of_char (digit_char d) :: nat) = 48 + d"
  by (simp add: digit_char_def)

lemma digit_val_digit_char [simp]: "d < 10 \<Longrightarrow> digit_val (digit_char d) = Some d"
  by (simp add: digit_val_def)

lemma digits_val_append:
  "digits_val acc (s @ t) =
     (case digits_val acc s of None \<Rightarrow> None | Some n \<Rightarrow> digits_val n t)"
  by (induction s arbitrary: acc) (auto split: option.splits)

lemma itoa_not_Nil [simp]: "itoa n \<noteq> []"
  by (subst itoa.simps) simp

lemma digits_val_itoa [simp]: "digits_val 0 (itoa n) = Some n"
proof (induction n rule: itoa.induct)
  case (1 n)
  show ?case
  proof (cases "n < 10")
    case True
    then show ?thesis by (simp add: itoa.simps [of n])
  next
    case False
    with 1 show ?thesis
      by (simp add: itoa.simps [of n] digits_val_append)
  qed
qed

lemma itoa_chars: "c \<in> set (itoa n) \<Longrightarrow> \<exists>d<10. c = digit_char d"
proof (induction n rule: itoa.induct)
  case (1 n)
  show ?case
  proof (cases "n < 10")
    case True
    with 1 show ?thesis by (auto simp: itoa.simps [of n])
  next
    case False
    then consider (rest) "c \<in> set (itoa (n div 10))" | (end_digit) "c = digit_char (n mod 10)"
      using 1(2) by (auto simp: itoa.simps [of n])
    then show ?thesis
    proof cases
      case rest
      with "1.IH" False show ?thesis by blast
    next
      case end_digit
      then show ?thesis by (intro exI [of _ "n mod 10"]) simp
    qed
  qed
qed

lemma itoa_inj: "itoa m = itoa n \<longleftrightarrow> m = n"
  by (metis digits_val_itoa option.inject)

lemma digit_char_neq:
  assumes "d < 10" and "(of_char c :: nat) < 48 \<or> 57 < (of_char c :: nat)"
  shows "digit_char d \<noteq> c"
  using assms of_char_digit_char [of d] by fastforce

lemma itoa_not_mem:
  "(of_char c :: nat) < 48 \<or> 57 < (of_char c :: nat) \<Longrightarrow> c \<notin> set (itoa n)"
  using itoa_chars digit_char_neq by blast

lemma Atoi_itoa:
  assumes "n < 2 ^ 63"
  shows "Atoi (itoa n) = Some (int n)"
proof -
  obtain c s where cs: "itoa n = c # s" by (cases "itoa n") auto
  then obtain d where "d < 10" "c = digit_char d"
    using itoa_chars [of c n] by auto
  then have "c \<noteq> CHR ''-''" and "c \<noteq> CHR ''+''"
    using digit_char_neq by auto
  then have sg: "\<not> HasPrefix (itoa n) ''-''" "\<not> HasPrefix (itoa n) ''+''"
    using cs by auto
  have b: "- (2 ^ 63) \<le> int n" by simp
  have "int n < int (2 ^ 63)"
    using assms by linarith
  then have "int n < 2 ^ 63" by simp
  with sg b show ?thesis
    by (simp add: Atoi_def Let_def)
qed

section \<open>Sorting slices\<close>

text \<open>
  \<^verbatim>\<open>sort.Slice\<close> permutes a slice so that no element is less than one before it. It is not
  stable, so where two elements are not ordered their relative order is unspecified: the
  functions that call it take the sorting function as a parameter, and \<open>slice_sorter\<close> states
  what the package documents of it.
\<close>

definition strict_weak_order :: "('a \<Rightarrow> 'a \<Rightarrow> bool) \<Rightarrow> bool" where
  "strict_weak_order lt \<longleftrightarrow>
     (\<forall>a. \<not> lt a a) \<and> (\<forall>a b c. lt a b \<longrightarrow> lt b c \<longrightarrow> lt a c) \<and>
     (\<forall>a b c. \<not> lt a b \<longrightarrow> \<not> lt b c \<longrightarrow> \<not> lt a c)"

lemma swo_irrefl: "strict_weak_order lt \<Longrightarrow> \<not> lt a a"
  by (simp add: strict_weak_order_def)

lemma swo_asym: "strict_weak_order lt \<Longrightarrow> lt a b \<Longrightarrow> \<not> lt b a"
  unfolding strict_weak_order_def by metis

lemma swo_not_trans: "strict_weak_order lt \<Longrightarrow> \<not> lt a b \<Longrightarrow> \<not> lt b c \<Longrightarrow> \<not> lt a c"
  unfolding strict_weak_order_def by metis

locale slice_sorter =
  fixes srt :: "('a \<Rightarrow> 'a \<Rightarrow> bool) \<Rightarrow> 'a list \<Rightarrow> 'a list"
  assumes srt_mset: "mset (srt lt xs) = mset xs"
    and srt_ordered: "strict_weak_order lt \<Longrightarrow> sorted_wrt (\<lambda>a b. \<not> lt b a) (srt lt xs)"
begin

lemma srt_set: "set (srt lt xs) = set xs"
  by (metis set_mset_mset srt_mset)

lemma srt_length: "length (srt lt xs) = length xs"
  by (metis size_mset srt_mset)

lemma srt_filter_length: "length (filter P (srt lt xs)) = length (filter P xs)"
  by (metis mset_filter size_mset srt_mset)

lemma srt_distinct: "distinct (srt lt xs) = distinct xs"
  by (metis mset_eq_imp_distinct_iff srt_mset)

lemma srt_map_mset: "mset (map f (srt lt xs)) = mset (map f xs)"
  by (simp add: srt_mset)

text \<open>Two sorters agree up to the order of elements the comparison does not separate.\<close>

lemma srt_hd_minimal:
  assumes "strict_weak_order lt" and "srt lt xs = y # ys" and "x \<in> set xs"
  shows "\<not> lt x y"
proof -
  have "x \<in> set (y # ys)" using assms srt_set by metis
  moreover have "sorted_wrt (\<lambda>a b. \<not> lt b a) (y # ys)"
    using srt_ordered [OF assms(1), of xs] assms(2) by simp
  moreover have "\<not> lt y y" using assms(1) by (simp add: strict_weak_order_def)
  ultimately show ?thesis by auto
qed

end

text \<open>A concrete sorter, stable insertion, for evaluation.\<close>

fun insert_by :: "('a \<Rightarrow> 'a \<Rightarrow> bool) \<Rightarrow> 'a \<Rightarrow> 'a list \<Rightarrow> 'a list" where
  "insert_by lt x [] = [x]"
| "insert_by lt x (y # ys) = (if lt y x then y # insert_by lt x ys else x # y # ys)"

fun insertion_sort :: "('a \<Rightarrow> 'a \<Rightarrow> bool) \<Rightarrow> 'a list \<Rightarrow> 'a list" where
  "insertion_sort lt [] = []"
| "insertion_sort lt (x # xs) = insert_by lt x (insertion_sort lt xs)"

lemma mset_insert_by [simp]: "mset (insert_by lt x ys) = add_mset x (mset ys)"
  by (induction ys) auto

lemma set_insert_by [simp]: "set (insert_by lt x ys) = insert x (set ys)"
  by (induction ys) auto

lemma mset_insertion_sort [simp]: "mset (insertion_sort lt xs) = mset xs"
  by (induction xs) auto

lemma sorted_insert_by:
  assumes swo: "strict_weak_order lt" and "sorted_wrt (\<lambda>a b. \<not> lt b a) ys"
  shows "sorted_wrt (\<lambda>a b. \<not> lt b a) (insert_by lt x ys)"
  using assms(2)
proof (induction ys)
  case Nil
  then show ?case by simp
next
  case (Cons y ys)
  show ?case
  proof (cases "lt y x")
    case True
    then have "\<not> lt x y" by (rule swo_asym [OF swo])
    with True Cons show ?thesis by auto
  next
    case False
    then have "\<forall>z\<in>set ys. \<not> lt z x"
      using Cons.prems swo_not_trans [OF swo, of _ y x] by simp
    with False Cons.prems show ?thesis by auto
  qed
qed

lemma sorted_insertion_sort:
  "strict_weak_order lt \<Longrightarrow> sorted_wrt (\<lambda>a b. \<not> lt b a) (insertion_sort lt xs)"
  by (induction xs) (auto intro: sorted_insert_by)

interpretation stable: slice_sorter insertion_sort
  by unfold_locales (auto intro: sorted_insertion_sort)

text \<open>The order of a key function is a strict weak order.\<close>

lemma strict_weak_order_key:
  fixes f :: "'a \<Rightarrow> 'k::linorder"
  shows "strict_weak_order (\<lambda>a b. f a < f b)"
  unfolding strict_weak_order_def by auto

lemma strict_weak_order_flip:
  "strict_weak_order lt \<Longrightarrow> strict_weak_order (\<lambda>a b. lt b a)"
  unfolding strict_weak_order_def by blast

section \<open>Lists\<close>

text \<open>Elements kept by an optional function, in order: the shape of a filtering append loop.\<close>

lemma map_filter_all:
  "\<forall>x\<in>set xs. f x = Some (g x) \<Longrightarrow> List.map_filter f xs = map g xs"
  by (induction xs) (auto simp: List.map_filter_def)

lemma distinct_swap_remove:
  assumes "distinct (xs @ x # ys)" and "ys \<noteq> []"
  shows "distinct (xs @ last ys # butlast ys)"
    and "set (xs @ last ys # butlast ys) = set (xs @ x # ys) - {x}"
proof -
  have ys: "butlast ys @ [last ys] = ys" using assms(2) by simp
  have m: "mset (xs @ last ys # butlast ys) = mset (xs @ ys)"
    by (subst (3) ys [symmetric]) simp
  have d: "distinct (xs @ ys)" using assms(1) by simp
  show "distinct (xs @ last ys # butlast ys)"
    using mset_eq_imp_distinct_iff [OF m] d by simp
  have "set (xs @ last ys # butlast ys) = set (xs @ ys)"
    using m by (metis set_mset_mset)
  also have "\<dots> = set (xs @ x # ys) - {x}" using assms(1) by auto
  finally show "set (xs @ last ys # butlast ys) = set (xs @ x # ys) - {x}" .
qed

text \<open>A fold keeps what every step keeps, and reaches what one of its steps establishes.\<close>

lemma fold_keeps: "P s \<Longrightarrow> (\<And>x s. P s \<Longrightarrow> P (f x s)) \<Longrightarrow> P (fold f xs s)"
  by (induction xs arbitrary: s) auto

lemma fold_reaches:
  assumes "x \<in> set xs" and est: "\<And>s. P (f x s)" and keep: "\<And>y s. P s \<Longrightarrow> P (f y s)"
  shows "P (fold f xs s)"
proof -
  obtain as bs where "xs = as @ x # bs" using assms(1) by (meson split_list)
  then show ?thesis
    using fold_keeps [of P "f x (fold f as s)" f bs] est keep by simp
qed

text \<open>The values of a map after a new key is added.\<close>

lemma ex_map_upd_fresh:
  assumes "m k = None"
  shows "(\<exists>k' t. (m(k \<mapsto> v)) k' = Some t \<and> P t) \<longleftrightarrow> P v \<or> (\<exists>k' t. m k' = Some t \<and> P t)"
proof
  assume "\<exists>k' t. (m(k \<mapsto> v)) k' = Some t \<and> P t"
  then show "P v \<or> (\<exists>k' t. m k' = Some t \<and> P t)"
    by (auto split: if_splits)
next
  assume "P v \<or> (\<exists>k' t. m k' = Some t \<and> P t)"
  then show "\<exists>k' t. (m(k \<mapsto> v)) k' = Some t \<and> P t"
  proof
    assume "P v"
    then show ?thesis by (intro exI [of _ k] exI [of _ v]) simp
  next
    assume "\<exists>k' t. m k' = Some t \<and> P t"
    then obtain k' t where "m k' = Some t" "P t" by blast
    with assms show ?thesis by (intro exI [of _ k'] exI [of _ t]) auto
  qed
qed

text \<open>A list strictly sorted by a key is determined by its elements.\<close>

lemma strictly_sorted_unique:
  fixes f :: "'a \<Rightarrow> 'k::linorder"
  assumes "sorted_wrt (<) (map f xs)" and "sorted_wrt (<) (map f ys)" and "set xs = set ys"
  shows "xs = ys"
  using assms
proof (induction xs arbitrary: ys)
  case Nil
  then show ?case by simp
next
  case (Cons x xs)
  then obtain y ys' where ys: "ys = y # ys'" by (cases ys) auto
  have "x \<in> insert y (set ys')" "y \<in> insert x (set xs)" using Cons.prems(3) ys by auto
  then have xy: "x = y" using Cons.prems ys by fastforce
  have "x \<notin> set xs" "y \<notin> set ys'" using Cons.prems ys by auto
  with Cons.prems(3) ys xy have "set xs = set ys'" by auto
  with Cons.prems ys have "xs = ys'" by (intro Cons.IH) auto
  with ys xy show ?case by simp
qed

section \<open>Counting\<close>

text \<open>How many elements of a list satisfy a predicate, as an integer.\<close>

definition cnt :: "('a \<Rightarrow> bool) \<Rightarrow> 'a list \<Rightarrow> int" where
  "cnt P xs = int (length (filter P xs))"

lemma cnt_simps [simp]: "cnt P [] = 0" "cnt P (xs @ [x]) = cnt P xs + of_bool (P x)"
  by (simp_all add: cnt_def)

lemma cnt_nonneg [simp]: "0 \<le> cnt P xs"
  by (simp add: cnt_def)

lemma cnt_update:
  assumes "p < length xs"
  shows "cnt P (xs[p := y]) = cnt P xs - of_bool (P (xs ! p)) + of_bool (P y)"
  using assms
proof (induction xs arbitrary: p)
  case (Cons x xs)
  then show ?case by (cases p) (auto simp: cnt_def)
qed simp

lemma cnt_pos: "x \<in> set xs \<Longrightarrow> P x \<Longrightarrow> 0 < cnt P xs"
  by (auto simp: cnt_def filter_empty_conv)

lemma cnt_zero: "cnt P xs = 0 \<longleftrightarrow> (\<forall>x\<in>set xs. \<not> P x)"
  by (auto simp: cnt_def filter_empty_conv)

end
