(* ===== verification/KnowledgeGraph.thy ===== *)
theory KnowledgeGraph
  imports Prelude
begin

text \<open>
  The in-memory knowledge graph (\<^verbatim>\<open>internal/knowledgegraph/knowledgegraph.go\<close>) over the data
  model of \<^verbatim>\<open>api/schemas/knowledge_graph.go\<close>. The graph keeps three maps: nodes by ID, edges
  by ID, and an index from a node ID to the IDs of its outgoing edges. Every exported operation
  holds the graph's mutex from its first access to its return, so an operation is one function
  of the state. \<open>kg_inv\<close> says that the index lists exactly the stored edges of each source node,
  once each, and that both ends of every edge exist; it makes the two \<^verbatim>\<open>continue\<close> branches of
  the read loops dead code.
\<close>

section \<open>Data model\<close>

record kg_node =
  nID :: string
  nType :: string
  nLabel :: string
  nStatus :: string
  nProperties :: string
  nCreatedAt :: int
  nLastSeen :: int

record kg_edge =
  eID :: string
  eFrom :: string
  eTo :: string
  eType :: string
  eLabel :: string
  eProperties :: string
  eCreatedAt :: int
  eLastSeen :: int

definition NodeImprovementAttempt :: string where
  "NodeImprovementAttempt = ''IMPROVEMENT_ATTEMPT''"

datatype kg_error =
    SourceNodeNotFound string
  | DestinationNodeNotFound string
  | NodeNotFound string
  | EdgeNotFound string

record kg =
  kg_nodes :: "string \<rightharpoonup> kg_node"
  kg_edges :: "string \<rightharpoonup> kg_edge"
  outgoingEdges :: "string \<rightharpoonup> string list"

section \<open>Operations\<close>

definition NewInMemoryKG :: kg where
  "NewInMemoryKG = \<lparr>kg_nodes = Map.empty, kg_edges = Map.empty, outgoingEdges = Map.empty\<rparr>"

definition AddNode :: "kg \<Rightarrow> kg_node \<Rightarrow> kg" where
  "AddNode g n = g\<lparr>kg_nodes := (kg_nodes g)(nID n \<mapsto> n)\<rparr>"

text \<open>The index entry of a node, the nil slice when there is none.\<close>

definition outgoing :: "kg \<Rightarrow> string \<Rightarrow> string list" where
  "outgoing g n = (case outgoingEdges g n of None \<Rightarrow> [] | Some ids \<Rightarrow> ids)"

text \<open>The scan of \<^verbatim>\<open>removeFromOutgoing\<close>: at the first occurrence, swap with the last and truncate.\<close>

function swap_remove :: "string list \<Rightarrow> nat \<Rightarrow> string \<Rightarrow> string list option" where
  "swap_remove edges i edgeID =
     (if i < length edges
      then (if edges ! i = edgeID then Some (butlast (edges[i := last edges]))
            else swap_remove edges (Suc i) edgeID)
      else None)"
  by pat_completeness auto
termination
  by (relation "measure (\<lambda>(edges, i, _). length edges - i)") auto

declare swap_remove.simps [simp del]

definition removeFromOutgoing :: "kg \<Rightarrow> string \<Rightarrow> string \<Rightarrow> kg" where
  "removeFromOutgoing g nodeID edgeID =
     (case swap_remove (outgoing g nodeID) 0 edgeID of
        None \<Rightarrow> g
      | Some es \<Rightarrow> g\<lparr>outgoingEdges := (outgoingEdges g)(nodeID \<mapsto> es)\<rparr>)"

definition appendOutgoing :: "kg \<Rightarrow> string \<Rightarrow> string \<Rightarrow> kg" where
  "appendOutgoing g nodeID edgeID =
     g\<lparr>outgoingEdges := (outgoingEdges g)(nodeID \<mapsto> outgoing g nodeID @ [edgeID])\<rparr>"

definition AddEdge :: "kg \<Rightarrow> kg_edge \<Rightarrow> (kg_error, kg) result" where
  "AddEdge g e =
     (if kg_nodes g (eFrom e) = None then Inl (SourceNodeNotFound (eFrom e))
      else if kg_nodes g (eTo e) = None then Inl (DestinationNodeNotFound (eTo e))
      else
        (let g' = (case kg_edges g (eID e) of
                     Some existing \<Rightarrow>
                       if eFrom existing \<noteq> eFrom e
                       then appendOutgoing (removeFromOutgoing g (eFrom existing) (eID e)) (eFrom e) (eID e)
                       else g
                   | None \<Rightarrow> appendOutgoing g (eFrom e) (eID e))
         in Inr (g'\<lparr>kg_edges := (kg_edges g')(eID e \<mapsto> e)\<rparr>)))"

definition GetNode :: "kg \<Rightarrow> string \<Rightarrow> (kg_error, kg_node) result" where
  "GetNode g i = (case kg_nodes g i of None \<Rightarrow> Inl (NodeNotFound i) | Some n \<Rightarrow> Inr n)"

definition GetEdge :: "kg \<Rightarrow> string \<Rightarrow> (kg_error, kg_edge) result" where
  "GetEdge g i = (case kg_edges g i of None \<Rightarrow> Inl (EdgeNotFound i) | Some e \<Rightarrow> Inr e)"

fun neighbor_loop :: "kg \<Rightarrow> string list \<Rightarrow> kg_node list" where
  "neighbor_loop g [] = []"
| "neighbor_loop g (edgeID # ids) =
     (case kg_edges g edgeID of
        None \<Rightarrow> neighbor_loop g ids
      | Some e \<Rightarrow>
          (case kg_nodes g (eTo e) of
             None \<Rightarrow> neighbor_loop g ids
           | Some n \<Rightarrow> n # neighbor_loop g ids))"

definition GetNeighbors :: "kg \<Rightarrow> string \<Rightarrow> (kg_error, kg_node list) result" where
  "GetNeighbors g nodeID =
     (case kg_nodes g nodeID of
        None \<Rightarrow> Inl (NodeNotFound nodeID)
      | Some _ \<Rightarrow>
          (case outgoingEdges g nodeID of
             None \<Rightarrow> Inr []
           | Some ids \<Rightarrow> Inr (neighbor_loop g ids)))"

fun edge_loop :: "kg \<Rightarrow> string list \<Rightarrow> kg_edge list" where
  "edge_loop g [] = []"
| "edge_loop g (edgeID # ids) =
     (case kg_edges g edgeID of
        None \<Rightarrow> edge_loop g ids
      | Some e \<Rightarrow> e # edge_loop g ids)"

definition GetEdges :: "kg \<Rightarrow> string \<Rightarrow> (kg_error, kg_edge list) result" where
  "GetEdges g nodeID =
     (case kg_nodes g nodeID of
        None \<Rightarrow> Inl (NodeNotFound nodeID)
      | Some _ \<Rightarrow>
          (case outgoingEdges g nodeID of
             None \<Rightarrow> Inr []
           | Some ids \<Rightarrow> Inr (edge_loop g ids)))"

text \<open>
  \<^verbatim>\<open>QueryImprovementHistory\<close> ranges over the node map, whose iteration order Go leaves open:
  \<open>ids\<close> is the order of one run (an enumeration of the keys). \<open>srt\<close> is \<^verbatim>\<open>sort.Slice\<close>, and
  \<open>unmarshal\<close> stands for \<^verbatim>\<open>json.Unmarshal\<close> into \<^verbatim>\<open>ImprovementAttemptProperties\<close>, of which the
  loop reads only the goal objective (\<open>None\<close> is the decoding error).
\<close>

definition history_match :: "(string \<Rightarrow> string option) \<Rightarrow> string \<Rightarrow> kg_node \<Rightarrow> bool" where
  "history_match unmarshal goal n \<longleftrightarrow>
     nType n = NodeImprovementAttempt \<and>
     \<not> (length (nProperties n) = 0 \<or> nProperties n = ''null'') \<and>
     (case unmarshal (nProperties n) of
        None \<Rightarrow> False
      | Some g \<Rightarrow> EqualFold g goal)"

fun history_loop :: "(string \<Rightarrow> string option) \<Rightarrow> kg \<Rightarrow> string \<Rightarrow> string list \<Rightarrow> kg_node list" where
  "history_loop unmarshal g goal [] = []"
| "history_loop unmarshal g goal (i # ids) =
     (case kg_nodes g i of
        None \<Rightarrow> history_loop unmarshal g goal ids
      | Some n \<Rightarrow>
          if history_match unmarshal goal n
          then n # history_loop unmarshal g goal ids
          else history_loop unmarshal g goal ids)"

definition created_after :: "kg_node \<Rightarrow> kg_node \<Rightarrow> bool" where
  "created_after a b \<longleftrightarrow> nCreatedAt a > nCreatedAt b"

definition QueryImprovementHistory ::
    "((kg_node \<Rightarrow> kg_node \<Rightarrow> bool) \<Rightarrow> kg_node list \<Rightarrow> kg_node list) \<Rightarrow>
     (string \<Rightarrow> string option) \<Rightarrow> string list \<Rightarrow> kg \<Rightarrow> string \<Rightarrow> int \<Rightarrow> kg_node list" where
  "QueryImprovementHistory srt unmarshal ids g goal limit =
     (let sorted_nodes = srt created_after (history_loop unmarshal g goal ids)
      in if limit > 0 \<and> int (length sorted_nodes) > limit
         then take (nat limit) sorted_nodes else sorted_nodes)"

section \<open>Invariant\<close>

definition edges_from :: "kg \<Rightarrow> string \<Rightarrow> string set" where
  "edges_from g n = {i. \<exists>e. kg_edges g i = Some e \<and> eFrom e = n}"

definition kg_inv :: "kg \<Rightarrow> bool" where
  "kg_inv g \<longleftrightarrow>
     (\<forall>i n. kg_nodes g i = Some n \<longrightarrow> nID n = i) \<and>
     (\<forall>i e. kg_edges g i = Some e \<longrightarrow>
        eID e = i \<and> kg_nodes g (eFrom e) \<noteq> None \<and> kg_nodes g (eTo e) \<noteq> None) \<and>
     (\<forall>n. distinct (outgoing g n) \<and> set (outgoing g n) = edges_from g n)"

lemma kg_invD:
  assumes "kg_inv g"
  shows "kg_nodes g i = Some n \<Longrightarrow> nID n = i"
    and "kg_edges g i = Some e \<Longrightarrow> eID e = i"
    and "kg_edges g i = Some e \<Longrightarrow> kg_nodes g (eFrom e) \<noteq> None"
    and "kg_edges g i = Some e \<Longrightarrow> kg_nodes g (eTo e) \<noteq> None"
    and "distinct (outgoing g k)"
    and "set (outgoing g k) = edges_from g k"
  using assms by (auto simp: kg_inv_def)

lemma kg_inv_empty [inv_intros]: "kg_inv NewInMemoryKG"
  by (simp add: kg_inv_def NewInMemoryKG_def outgoing_def edges_from_def)

lemma kg_inv_AddNode [inv_intros]: "kg_inv g \<Longrightarrow> kg_inv (AddNode g n)"
  by (simp add: kg_inv_def AddNode_def outgoing_def edges_from_def)

text \<open>What the swap-and-truncate scan computes on a list without repetitions.\<close>

lemma swap_remove_prefix:
  assumes "edgeID \<notin> set xs" and "i \<le> length xs"
  shows "swap_remove (xs @ edgeID # ys) i edgeID =
         Some (if ys = [] then xs else xs @ last ys # butlast ys)"
  using assms(2)
proof (induction "length xs - i" arbitrary: i)
  case 0
  then have "i = length xs" by simp
  then show ?case
    by (subst swap_remove.simps) (auto simp: butlast_append)
next
  case (Suc d)
  then have i: "i < length xs" by simp
  then have "xs ! i \<noteq> edgeID" using assms(1) nth_mem by metis
  then have "swap_remove (xs @ edgeID # ys) i edgeID = swap_remove (xs @ edgeID # ys) (Suc i) edgeID"
    using i by (subst swap_remove.simps) (simp add: nth_append)
  with Suc i show ?case by simp
qed

lemma swap_remove_set:
  assumes "distinct xs" and "x \<in> set xs"
  shows "\<exists>ys. swap_remove xs 0 x = Some ys \<and> distinct ys \<and> set ys = set xs - {x}"
proof -
  obtain as bs where xs: "xs = as @ x # bs" and nin: "x \<notin> set as"
    using assms(2) by (meson split_list_first)
  have r: "swap_remove xs 0 x = Some (if bs = [] then as else as @ last bs # butlast bs)"
    unfolding xs by (rule swap_remove_prefix [OF nin]) simp
  show ?thesis
  proof (cases "bs = []")
    case True
    with r assms(1) nin xs show ?thesis by auto
  next
    case False
    with r distinct_swap_remove [of as x bs] assms(1) xs show ?thesis by auto
  qed
qed

lemma appendOutgoing_simps [simp]:
  "kg_nodes (appendOutgoing g n i) = kg_nodes g"
  "kg_edges (appendOutgoing g n i) = kg_edges g"
  "outgoing (appendOutgoing g n i) m = (if m = n then outgoing g n @ [i] else outgoing g m)"
  by (auto simp: appendOutgoing_def outgoing_def)

lemma removeFromOutgoing_simps [simp]:
  "kg_nodes (removeFromOutgoing g n i) = kg_nodes g"
  "kg_edges (removeFromOutgoing g n i) = kg_edges g"
  by (auto simp: removeFromOutgoing_def split: option.splits)

lemma outgoing_removeFromOutgoing:
  assumes "distinct (outgoing g n)" and "i \<in> set (outgoing g n)"
  shows "distinct (outgoing (removeFromOutgoing g n i) n)"
    and "set (outgoing (removeFromOutgoing g n i) n) = set (outgoing g n) - {i}"
    and "m \<noteq> n \<Longrightarrow> outgoing (removeFromOutgoing g n i) m = outgoing g m"
  using swap_remove_set [OF assms]
  by (auto simp: removeFromOutgoing_def outgoing_def)

lemma outgoing_edges_update [simp]: "outgoing (g\<lparr>kg_edges := es\<rparr>) n = outgoing g n"
  by (simp add: outgoing_def)

lemma edges_from_store:
  "edges_from (g\<lparr>kg_edges := (kg_edges g)(eID e \<mapsto> e)\<rparr>) n =
     (if eFrom e = n then insert (eID e) (edges_from g n) else edges_from g n - {eID e})"
  by (auto simp: edges_from_def)

text \<open>\<^verbatim>\<open>AddEdge\<close> keeps the invariant, whether the edge is new, updated in place or moved.\<close>

lemma kg_inv_AddEdge [inv_intros]:
  assumes inv: "kg_inv g" and ok: "AddEdge g e = Inr g'"
  shows "kg_inv g'"
proof -
  define h where "h = (case kg_edges g (eID e) of
      Some existing \<Rightarrow>
        if eFrom existing \<noteq> eFrom e
        then appendOutgoing (removeFromOutgoing g (eFrom existing) (eID e)) (eFrom e) (eID e)
        else g
    | None \<Rightarrow> appendOutgoing g (eFrom e) (eID e))"
  have ends: "kg_nodes g (eFrom e) \<noteq> None" "kg_nodes g (eTo e) \<noteq> None"
    and g': "g' = h\<lparr>kg_edges := (kg_edges h)(eID e \<mapsto> e)\<rparr>"
    using ok by (auto simp: AddEdge_def h_def Let_def split: if_splits)
  have same: "kg_nodes h = kg_nodes g" "kg_edges h = kg_edges g"
    by (auto simp: h_def split: option.splits)
  have idx: "distinct (outgoing h n) \<and> set (outgoing h n) = edges_from g' n" for n
  proof (cases "kg_edges g (eID e)")
    case None
    then have "eID e \<notin> edges_from g m" for m by (auto simp: edges_from_def)
    then show ?thesis
      using None kg_invD(5,6) [OF inv] same
      by (auto simp: g' h_def edges_from_store edges_from_def)
  next
    case (Some old)
    then have old: "eID e \<in> set (outgoing g (eFrom old))"
      using kg_invD(6) [OF inv] by (auto simp: edges_from_def)
    have other: "eID e \<in> edges_from g m \<longleftrightarrow> m = eFrom old" for m
      using Some by (auto simp: edges_from_def)
    note rm = outgoing_removeFromOutgoing [OF kg_invD(5) [OF inv] old]
    have from_g': "edges_from g' m =
        (if eFrom e = m then insert (eID e) (edges_from g m) else edges_from g m - {eID e})" for m
      using same by (auto simp: g' edges_from_def)
    show ?thesis
    proof (cases "eFrom old = eFrom e")
      case True
      then show ?thesis
        using Some kg_invD(5,6) [OF inv] other [of n] from_g' [of n] by (auto simp: h_def)
    next
      case False
      then have h: "h = appendOutgoing (removeFromOutgoing g (eFrom old) (eID e)) (eFrom e) (eID e)"
        using Some by (simp add: h_def)
      have "outgoing (removeFromOutgoing g (eFrom old) (eID e)) (eFrom e) = outgoing g (eFrom e)"
        using rm(3) False by simp
      moreover have "eID e \<notin> set (outgoing g (eFrom e))"
        using other [of "eFrom e"] False kg_invD(6) [OF inv] by simp
      ultimately show ?thesis
        using rm kg_invD(5,6) [OF inv] other [of n] from_g' [of n] False
        by (cases "n = eFrom old") (auto simp: h)
    qed
  qed
  show ?thesis
    using inv idx same ends unfolding kg_inv_def g' by auto
qed


lemma AddEdge_cases:
  "AddEdge g e = Inl err \<longleftrightarrow>
     (kg_nodes g (eFrom e) = None \<and> err = SourceNodeNotFound (eFrom e)) \<or>
     (kg_nodes g (eFrom e) \<noteq> None \<and> kg_nodes g (eTo e) = None \<and>
      err = DestinationNodeNotFound (eTo e))"
  by (auto simp: AddEdge_def Let_def)

lemma AddEdge_store:
  assumes "AddEdge g e = Inr g'"
  shows "kg_nodes g' = kg_nodes g" and "kg_edges g' = (kg_edges g)(eID e \<mapsto> e)"
  using assms by (auto simp: AddEdge_def Let_def split: if_splits option.splits)

section \<open>Reads\<close>

lemma outgoing_entry: "outgoingEdges g n = Some ids \<Longrightarrow> outgoing g n = ids"
  "outgoingEdges g n = None \<Longrightarrow> outgoing g n = []"
  by (simp_all add: outgoing_def)

text \<open>In a consistent graph neither loop skips an entry.\<close>

lemma edge_loop_all:
  "\<forall>i\<in>set ids. kg_edges g i \<noteq> None \<Longrightarrow> edge_loop g ids = map (\<lambda>i. the (kg_edges g i)) ids"
  by (induction ids) auto

lemma neighbor_loop_all:
  assumes "\<forall>i\<in>set ids. \<exists>e. kg_edges g i = Some e \<and> kg_nodes g (eTo e) \<noteq> None"
  shows "neighbor_loop g ids = map (\<lambda>e. the (kg_nodes g (eTo e))) (edge_loop g ids)"
  using assms by (induction ids) auto

lemma GetEdges_outgoing:
  "kg_nodes g n \<noteq> None \<Longrightarrow> GetEdges g n = Inr (edge_loop g (outgoing g n))"
  by (auto simp: GetEdges_def outgoing_def split: option.splits)

lemma GetNeighbors_outgoing:
  "kg_nodes g n \<noteq> None \<Longrightarrow> GetNeighbors g n = Inr (neighbor_loop g (outgoing g n))"
  by (auto simp: GetNeighbors_def outgoing_def split: option.splits)

lemma GetEdges_exact:
  assumes inv: "kg_inv g" and n: "kg_nodes g n \<noteq> None"
  shows "\<exists>es. GetEdges g n = Inr es \<and> distinct es \<and>
           (\<forall>e. e \<in> set es \<longleftrightarrow> kg_edges g (eID e) = Some e \<and> eFrom e = n)"
proof -
  let ?ids = "outgoing g n"
  have ids: "set ?ids = edges_from g n" "distinct ?ids"
    using kg_invD [OF inv] by auto
  then have all: "\<forall>i\<in>set ?ids. kg_edges g i \<noteq> None"
    by (auto simp: edges_from_def)
  have es: "edge_loop g ?ids = map (\<lambda>i. the (kg_edges g i)) ?ids"
    by (rule edge_loop_all [OF all])
  have id_of: "eID (the (kg_edges g i)) = i" if "i \<in> set ?ids" for i
    using all that kg_invD(2) [OF inv, of i] by auto
  have "inj_on (\<lambda>i. the (kg_edges g i)) (set ?ids)"
    by (rule inj_onI) (metis id_of)
  then have "distinct (edge_loop g ?ids)"
    by (simp add: es ids distinct_map)
  moreover have "e \<in> set (edge_loop g ?ids) \<longleftrightarrow> kg_edges g (eID e) = Some e \<and> eFrom e = n" for e
  proof
    assume "e \<in> set (edge_loop g ?ids)"
    then obtain i where "i \<in> edges_from g n" "e = the (kg_edges g i)"
      by (auto simp: es ids(1))
    then show "kg_edges g (eID e) = Some e \<and> eFrom e = n"
      using kg_invD(2) [OF inv, of i] by (auto simp: edges_from_def)
  next
    assume e: "kg_edges g (eID e) = Some e \<and> eFrom e = n"
    then have "eID e \<in> set ?ids" by (auto simp: ids(1) edges_from_def)
    then have "the (kg_edges g (eID e)) \<in> set (edge_loop g ?ids)" by (simp add: es)
    with e show "e \<in> set (edge_loop g ?ids)" by simp
  qed
  ultimately show ?thesis
    using GetEdges_outgoing [OF n] by blast
qed

lemma GetNeighbors_targets:
  assumes inv: "kg_inv g" and "GetEdges g n = Inr es"
  shows "GetNeighbors g n = Inr (map (\<lambda>e. the (kg_nodes g (eTo e))) es)"
proof -
  have n: "kg_nodes g n \<noteq> None"
    using assms(2) by (auto simp: GetEdges_def split: option.splits)
  have "\<forall>i\<in>set (outgoing g n). \<exists>e. kg_edges g i = Some e \<and> kg_nodes g (eTo e) \<noteq> None"
    using kg_invD(4,6) [OF inv] by (auto simp: edges_from_def)
  from neighbor_loop_all [OF this] show ?thesis
    using assms(2) GetEdges_outgoing [OF n] GetNeighbors_outgoing [OF n] by simp
qed

section \<open>The client interface\<close>

text \<open>
  What the agent relies on in \<^verbatim>\<open>schemas.KnowledgeGraphClient\<close>: the laws of the operations,
  with the lemmas a client proves from them alone.
\<close>

locale graph_client =
  fixes empty_graph :: 'g
    and add_node :: "'g \<Rightarrow> kg_node \<Rightarrow> 'g"
    and add_edge :: "'g \<Rightarrow> kg_edge \<Rightarrow> (kg_error, 'g) result"
    and get_node :: "'g \<Rightarrow> string \<Rightarrow> (kg_error, kg_node) result"
    and get_edge :: "'g \<Rightarrow> string \<Rightarrow> (kg_error, kg_edge) result"
    and get_edges :: "'g \<Rightarrow> string \<Rightarrow> (kg_error, kg_edge list) result"
    and invar :: "'g \<Rightarrow> bool"
  assumes invar_empty: "invar empty_graph"
    and invar_add_node: "invar g \<Longrightarrow> invar (add_node g n)"
    and invar_add_edge: "invar g \<Longrightarrow> add_edge g e = Inr g' \<Longrightarrow> invar g'"
    and get_node_empty: "get_node empty_graph i = Inl (NodeNotFound i)"
    and get_node_add_node: "get_node (add_node g n) i = (if i = nID n then Inr n else get_node g i)"
    and get_node_add_edge: "add_edge g e = Inr g' \<Longrightarrow> get_node g' i = get_node g i"
    and get_edge_add_node: "get_edge (add_node g n) i = get_edge g i"
    and get_edge_add_edge:
      "add_edge g e = Inr g' \<Longrightarrow> get_edge g' i = (if i = eID e then Inr e else get_edge g i)"
    and add_edge_ok:
      "(\<exists>g'. add_edge g e = Inr g') \<longleftrightarrow>
         (\<exists>n. get_node g (eFrom e) = Inr n) \<and> (\<exists>m. get_node g (eTo e) = Inr m)"
    and get_edges_exact:
      "invar g \<Longrightarrow> get_node g k = Inr n \<Longrightarrow>
         \<exists>es. get_edges g k = Inr es \<and> distinct es \<and>
           (\<forall>e. e \<in> set es \<longleftrightarrow> get_edge g (eID e) = Inr e \<and> eFrom e = k)"
begin

text \<open>Recording two nodes and then an edge between them always succeeds and the edge is listed.\<close>

lemma link:
  assumes "invar g" and "eFrom e = nID a" and "eTo e = nID b"
  shows "\<exists>g' es. add_edge (add_node (add_node g a) b) e = Inr g' \<and> invar g' \<and>
           get_edges g' (nID a) = Inr es \<and> e \<in> set es"
proof -
  let ?h = "add_node (add_node g a) b"
  have h: "invar ?h" using assms(1) by (intro invar_add_node)
  obtain a' where a': "get_node ?h (nID a) = Inr a'"
    by (cases "nID a = nID b") (auto simp: get_node_add_node)
  have "get_node ?h (nID b) = Inr b" by (simp add: get_node_add_node)
  with a' assms obtain g' where g': "add_edge ?h e = Inr g'"
    using add_edge_ok [of ?h e] by auto
  have inv': "invar g'" by (rule invar_add_edge [OF h g'])
  have "get_node g' (nID a) = Inr a'" using a' by (simp add: get_node_add_edge [OF g'])
  from get_edges_exact [OF inv' this] obtain es where
    "get_edges g' (nID a) = Inr es"
    "\<forall>e. e \<in> set es \<longleftrightarrow> get_edge g' (eID e) = Inr e \<and> eFrom e = nID a" by blast
  moreover have "get_edge g' (eID e) = Inr e" by (simp add: get_edge_add_edge [OF g'])
  ultimately show ?thesis using g' inv' assms(2) by blast
qed

text \<open>Storing an edge under an ID already in use leaves one edge with that ID, at its new source.\<close>

lemma replaced:
  assumes inv: "invar g" and ok: "add_edge g e = Inr g'"
    and es: "get_edges g' k = Inr es" "get_node g' k = Inr n"
    and "x \<in> set es" and "eID x = eID e"
  shows "x = e" and "k = eFrom e"
proof -
  obtain es' where "get_edges g' k = Inr es'"
    and mem: "\<forall>e. e \<in> set es' \<longleftrightarrow> get_edge g' (eID e) = Inr e \<and> eFrom e = k"
    using get_edges_exact [OF invar_add_edge [OF inv ok] es(2)] by blast
  with es(1) have "es' = es" by simp
  with mem assms(5) have x: "get_edge g' (eID x) = Inr x" "eFrom x = k" by blast+
  have "get_edge g' (eID e) = Inr e" by (simp add: get_edge_add_edge [OF ok])
  with x(1) assms(6) show "x = e" by simp
  with x(2) show "k = eFrom e" by simp
qed

end

lemma GetNode_Inr: "GetNode g i = Inr n \<longleftrightarrow> kg_nodes g i = Some n"
  by (auto simp: GetNode_def split: option.splits)

lemma GetEdge_Inr: "GetEdge g i = Inr e \<longleftrightarrow> kg_edges g i = Some e"
  by (auto simp: GetEdge_def split: option.splits)

lemma GetEdges_client:
  assumes "kg_inv g" and "GetNode g k = Inr n"
  shows "\<exists>es. GetEdges g k = Inr es \<and> distinct es \<and>
           (\<forall>e. e \<in> set es \<longleftrightarrow> GetEdge g (eID e) = Inr e \<and> eFrom e = k)"
  using GetEdges_exact [OF assms(1), of k] assms(2) by (simp add: GetNode_Inr GetEdge_Inr)

lemma AddEdge_ok_iff:
  "(\<exists>g'. AddEdge g e = Inr g') \<longleftrightarrow>
     (\<exists>n. GetNode g (eFrom e) = Inr n) \<and> (\<exists>m. GetNode g (eTo e) = Inr m)"
  by (auto simp: AddEdge_def GetNode_Inr Let_def)

interpretation in_memory: graph_client NewInMemoryKG AddNode AddEdge GetNode GetEdge GetEdges kg_inv
proof (unfold_locales, goal_cases)
  case 10
  then show ?case by (rule GetEdges_client)
next
  case 9
  show ?case by (rule AddEdge_ok_iff)
next
  case 1
  show ?case by (rule kg_inv_empty)
next
  case 2
  then show ?case by (rule kg_inv_AddNode)
qed (auto intro: inv_intros simp: GetNode_def GetEdge_def AddNode_def NewInMemoryKG_def AddEdge_store)

section \<open>Histories of updates\<close>

text \<open>A run of the graph: any sequence of updates from the empty graph, failed ones included.\<close>

datatype kg_op = OpAddNode kg_node | OpAddEdge kg_edge

fun kg_apply :: "kg \<Rightarrow> kg_op \<Rightarrow> kg" where
  "kg_apply g (OpAddNode n) = AddNode g n"
| "kg_apply g (OpAddEdge e) = (case AddEdge g e of Inl _ \<Rightarrow> g | Inr g' \<Rightarrow> g')"

definition kg_run :: "kg_op list \<Rightarrow> kg" where
  "kg_run ops = foldl kg_apply NewInMemoryKG ops"

lemma kg_inv_apply [inv_intros]: "kg_inv g \<Longrightarrow> kg_inv (kg_apply g op)"
  by (cases op) (auto intro: inv_intros split: sum.splits)

lemma kg_inv_foldl: "kg_inv g \<Longrightarrow> kg_inv (foldl kg_apply g ops)"
  by (induction ops arbitrary: g) (auto intro: inv_intros)

lemma kg_inv_run: "kg_inv (kg_run ops)"
  unfolding kg_run_def by (rule kg_inv_foldl [OF kg_inv_empty])

section \<open>Improvement history\<close>

lemma set_history_loop:
  "set (history_loop u g goal ids) =
     {n. \<exists>i\<in>set ids. kg_nodes g i = Some n \<and> history_match u goal n}"
  by (induction ids) (auto split: option.splits)

lemma distinct_history_loop:
  assumes inv: "\<forall>i n. kg_nodes g i = Some n \<longrightarrow> nID n = i" and "distinct ids"
  shows "distinct (history_loop u g goal ids)"
  using assms(2)
proof (induction ids)
  case Nil
  then show ?case by simp
next
  case (Cons i ids)
  then show ?case
    using inv by (auto simp: set_history_loop split: option.splits)
qed

lemma swo_created_after: "strict_weak_order created_after"
proof -
  have "strict_weak_order (\<lambda>a b. - nCreatedAt a < - nCreatedAt b)"
    by (rule strict_weak_order_key)
  then show ?thesis by (simp add: created_after_def [abs_def])
qed

text \<open>
  What the query promises, as a predicate on its result: the matching nodes, most recent first,
  and when a positive limit cuts the list, only nodes no newer than those returned are left out.
\<close>

definition history_spec ::
    "(string \<Rightarrow> string option) \<Rightarrow> kg \<Rightarrow> string \<Rightarrow> int \<Rightarrow> kg_node list \<Rightarrow> bool" where
  "history_spec u g goal limit res \<longleftrightarrow>
     (let matching = {n. \<exists>i. kg_nodes g i = Some n \<and> history_match u goal n}
      in distinct res \<and> set res \<subseteq> matching \<and>
         sorted_wrt (\<lambda>a b. nCreatedAt b \<le> nCreatedAt a) res \<and>
         (limit \<le> 0 \<longrightarrow> set res = matching) \<and>
         (limit > 0 \<longrightarrow> int (length res) = min limit (int (card matching))) \<and>
         (\<forall>x\<in>matching - set res. \<forall>y\<in>set res. nCreatedAt x \<le> nCreatedAt y))"

lemma history_spec_query:
  assumes srt: "slice_sorter srt" and inv: "kg_inv g"
    and ids: "distinct ids" "set ids = dom (kg_nodes g)"
  shows "history_spec u g goal limit (QueryImprovementHistory srt u ids g goal limit)"
proof -
  let ?l = "history_loop u g goal ids"
  define s where "s = srt created_after ?l"
  define m where "m = {n. \<exists>i. kg_nodes g i = Some n \<and> history_match u goal n}"
  have set_s: "set s = m"
    using slice_sorter.srt_set [OF srt] ids(2)
    by (auto simp: s_def m_def set_history_loop)
  have dist_s: "distinct s"
    using slice_sorter.srt_distinct [OF srt] distinct_history_loop [OF _ ids(1)] inv
    by (simp add: s_def kg_inv_def)
  have ord_s: "sorted_wrt (\<lambda>a b. nCreatedAt b \<le> nCreatedAt a) s"
    using slice_sorter.srt_ordered [OF srt swo_created_after, of ?l]
    by (simp add: s_def created_after_def not_less)
  have card_m: "card m = length s"
    using set_s dist_s distinct_card by metis
  show ?thesis
  proof (cases "limit > 0 \<and> int (length s) > limit")
    case True
    then have q: "QueryImprovementHistory srt u ids g goal limit = take (nat limit) s"
      by (simp add: QueryImprovementHistory_def s_def Let_def)
    have split: "s = take (nat limit) s @ drop (nat limit) s" by simp
    have rest: "\<forall>x\<in>m - set (take (nat limit) s). x \<in> set (drop (nat limit) s)"
      using set_s split by (metis DiffE Un_iff set_append)
    have cross: "\<forall>y\<in>set (take (nat limit) s). \<forall>x\<in>set (drop (nat limit) s). nCreatedAt x \<le> nCreatedAt y"
      using ord_s split by (metis sorted_wrt_append)
    show ?thesis
      unfolding q history_spec_def m_def [symmetric] Let_def
      using True rest cross ord_s dist_s set_s card_m
      by (auto simp: sorted_wrt_take dest: in_set_takeD)
  next
    case False
    then have q: "QueryImprovementHistory srt u ids g goal limit = s"
      by (auto simp: QueryImprovementHistory_def s_def Let_def)
    show ?thesis
      unfolding q history_spec_def m_def [symmetric] Let_def
      using False ord_s dist_s set_s card_m by auto
  qed
qed

section \<open>Properties\<close>

text \<open>
  C32. After any sequence of node and edge updates (failed ones included), the edges listed for a
  stored node are exactly the stored edges with that source, each once, the neighbours are the
  stored targets of those edges in the same order, and so no index entry is ever skipped as
  inconsistent.
\<close>

theorem kg_reads_exact:
  assumes "GetNode (kg_run ops) n = Inr x"
  shows "\<exists>es. GetEdges (kg_run ops) n = Inr es \<and> distinct es \<and>
           (\<forall>e. e \<in> set es \<longleftrightarrow> GetEdge (kg_run ops) (eID e) = Inr e \<and> eFrom e = n) \<and>
           (\<exists>ns. GetNeighbors (kg_run ops) n = Inr ns \<and>
              map Inr ns = map (\<lambda>e. GetNode (kg_run ops) (eTo e)) es)"
proof -
  let ?g = "kg_run ops"
  have inv: "kg_inv ?g" by (rule kg_inv_run)
  obtain es where es: "GetEdges ?g n = Inr es" "distinct es"
      "\<forall>e. e \<in> set es \<longleftrightarrow> GetEdge ?g (eID e) = Inr e \<and> eFrom e = n"
    using in_memory.get_edges_exact [OF inv assms] by blast
  have "GetNode ?g (eTo e) = Inr (the (kg_nodes ?g (eTo e)))" if "e \<in> set es" for e
    using es(3) that kg_invD(4) [OF inv, of "eID e" e] by (auto simp: GetNode_Inr GetEdge_Inr)
  then show ?thesis
    using es GetNeighbors_targets [OF inv es(1)] by auto
qed

definition example_node :: "string \<Rightarrow> kg_node" where
  "example_node i = \<lparr>nID = i, nType = ''HOST'', nLabel = i, nStatus = ''new'',
     nProperties = ''{}'', nCreatedAt = 0, nLastSeen = 0\<rparr>"

definition example_edge :: "string \<Rightarrow> string \<Rightarrow> string \<Rightarrow> kg_edge" where
  "example_edge i a b = \<lparr>eID = i, eFrom = a, eTo = b, eType = ''USES'', eLabel = '''',
     eProperties = ''{}'', eCreatedAt = 0, eLastSeen = 0\<rparr>"

definition example_ops :: "kg_op list" where
  "example_ops =
     [OpAddNode (example_node ''a''), OpAddNode (example_node ''b''),
      OpAddEdge (example_edge ''x'' ''a'' ''b''), OpAddEdge (example_edge ''y'' ''a'' ''a''),
      OpAddEdge (example_edge ''x'' ''b'' ''a''), OpAddEdge (example_edge ''z'' ''c'' ''a'')]"

lemma example_run_node: "GetNode (kg_run example_ops) ''b'' = Inr (example_node ''b'')"
  by (simp add: kg_run_def example_ops_def AddNode_def AddEdge_def NewInMemoryKG_def GetNode_def
      example_node_def example_edge_def appendOutgoing_def removeFromOutgoing_def outgoing_def
      swap_remove.simps Let_def)

theorem kg_reads_exact_witness:
  "\<exists>es. GetEdges (kg_run example_ops) ''b'' = Inr es \<and> distinct es \<and>
     (\<forall>e. e \<in> set es \<longleftrightarrow> GetEdge (kg_run example_ops) (eID e) = Inr e \<and> eFrom e = ''b'')"
  using kg_reads_exact [OF example_run_node] by blast

text \<open>
  C33. Storing an edge fails exactly when its source (checked first) or its destination is
  missing, and otherwise stores it under its ID, leaves every other edge and every node as they
  were, and keeps the index consistent, also when the edge moves to another source.
\<close>

theorem kg_add_edge_behaviour:
  assumes "kg_inv g"
  shows "case AddEdge g e of
           Inl err \<Rightarrow>
             (err = SourceNodeNotFound (eFrom e) \<and> kg_nodes g (eFrom e) = None) \<or>
             (err = DestinationNodeNotFound (eTo e) \<and> kg_nodes g (eFrom e) \<noteq> None \<and>
              kg_nodes g (eTo e) = None)
         | Inr g' \<Rightarrow>
             kg_inv g' \<and> kg_nodes g (eFrom e) \<noteq> None \<and> kg_nodes g (eTo e) \<noteq> None \<and>
             kg_nodes g' = kg_nodes g \<and> kg_edges g' = (kg_edges g)(eID e \<mapsto> e)"
proof (cases "AddEdge g e")
  case (Inl err)
  with AddEdge_cases [of g e err] show ?thesis by auto
next
  case (Inr g')
  then have "kg_nodes g (eFrom e) \<noteq> None \<and> kg_nodes g (eTo e) \<noteq> None"
    by (auto simp: AddEdge_def split: if_splits)
  then show ?thesis
    using Inr kg_inv_AddEdge [OF assms Inr] AddEdge_store [OF Inr] by simp
qed

theorem kg_add_edge_behaviour_witness:
  "kg_inv (AddNode NewInMemoryKG (example_node ''a'')) \<and>
   (case AddEdge (AddNode NewInMemoryKG (example_node ''a'')) (example_edge ''x'' ''a'' ''a'') of
      Inl err \<Rightarrow> False
    | Inr g' \<Rightarrow> kg_inv g' \<and> kg_edges g' ''x'' = Some (example_edge ''x'' ''a'' ''a''))"
proof -
  let ?g = "AddNode NewInMemoryKG (example_node ''a'')"
  have inv: "kg_inv ?g" by (intro inv_intros)
  show ?thesis
    using inv kg_add_edge_behaviour [OF inv, of "example_edge ''x'' ''a'' ''a''"]
    by (auto simp: AddNode_def NewInMemoryKG_def example_node_def example_edge_def split: sum.splits)
qed

text \<open>
  C35. A history query on a consistent graph returns, for any iteration order of the node map and
  any sorting that meets its contract, the improvement attempts for the goal, most recent first;
  a positive limit keeps the most recent ones, and a limit of zero or less keeps all.
\<close>

theorem kg_history_correct:
  assumes "slice_sorter srt" and "kg_inv g" and "distinct ids" and "set ids = dom (kg_nodes g)"
  shows "history_spec u g goal limit (QueryImprovementHistory srt u ids g goal limit)"
  using assms by (rule history_spec_query)

definition example_attempt :: "string \<Rightarrow> int \<Rightarrow> kg_node" where
  "example_attempt i t = \<lparr>nID = i, nType = NodeImprovementAttempt, nLabel = i, nStatus = ''new'',
     nProperties = ''fix'', nCreatedAt = t, nLastSeen = t\<rparr>"

theorem kg_history_correct_witness:
  "let g = kg_run [OpAddNode (example_attempt ''p'' 1), OpAddNode (example_attempt ''q'' 2)];
       res = QueryImprovementHistory insertion_sort Some [''p'', ''q''] g ''FIX'' 1
   in history_spec Some g ''FIX'' 1 res \<and> map nID res = [''q'']"
proof -
  let ?g = "kg_run [OpAddNode (example_attempt ''p'' 1), OpAddNode (example_attempt ''q'' 2)]"
  have d: "distinct [''p'', ''q'']" by simp
  have s: "set [''p'', ''q''] = dom (kg_nodes ?g)"
    by (auto simp: kg_run_def AddNode_def NewInMemoryKG_def example_attempt_def)
  have f: "EqualFold ''fix'' ''FIX''" by code_simp
  have h: "history_loop Some ?g ''FIX'' [''p'', ''q''] = [example_attempt ''p'' 1, example_attempt ''q'' 2]"
    by (simp add: kg_run_def AddNode_def NewInMemoryKG_def example_attempt_def history_match_def f)
  have "map nID (QueryImprovementHistory insertion_sort Some [''p'', ''q''] ?g ''FIX'' 1) = [''q'']"
    unfolding QueryImprovementHistory_def h
    by (simp add: created_after_def example_attempt_def Let_def)
  with kg_history_correct [OF stable.slice_sorter_axioms kg_inv_run d s, of Some "''FIX''" 1]
  show ?thesis by (simp add: Let_def)
qed

end
