(* ===== verification/JsCore.thy ===== *)
theory JsCore
  imports Prelude
begin

text \<open>
  The shared taint vocabulary of the static JavaScript analyser
  (\<^verbatim>\<open>internal/analysis/core/definitions.go\<close>: sources, sanitizers, the unified sink list, the
  mapping of canonical sinks to impact categories) and the sink tables that
  \<^verbatim>\<open>internal/analysis/static/javascript/definitions.go\<close> builds from it in its \<^verbatim>\<open>init\<close> function,
  with their lookups. \<^verbatim>\<open>TaintSource\<close>, \<^verbatim>\<open>TaintSink\<close> and \<^verbatim>\<open>SinkType\<close> are string types in the source.
\<close>

section \<open>Canonical sinks, impact categories and sources\<close>

abbreviation SinkEval :: string where "SinkEval \<equiv> ''EVAL''"
abbreviation SinkFunctionConstructor :: string where "SinkFunctionConstructor \<equiv> ''FUNCTION_CONSTRUCTOR''"
abbreviation SinkSetTimeout :: string where "SinkSetTimeout \<equiv> ''SET_TIMEOUT''"
abbreviation SinkSetInterval :: string where "SinkSetInterval \<equiv> ''SET_INTERVAL''"
abbreviation SinkEventHandler :: string where "SinkEventHandler \<equiv> ''EVENT_HANDLER''"
abbreviation SinkInnerHTML :: string where "SinkInnerHTML \<equiv> ''INNER_HTML''"
abbreviation SinkOuterHTML :: string where "SinkOuterHTML \<equiv> ''OUTER_HTML''"
abbreviation SinkInsertAdjacentHTML :: string where "SinkInsertAdjacentHTML \<equiv> ''INSERT_ADJACENT_HTML''"
abbreviation SinkDocumentWrite :: string where "SinkDocumentWrite \<equiv> ''DOCUMENT_WRITE''"
abbreviation SinkScriptSrc :: string where "SinkScriptSrc \<equiv> ''SCRIPT_SRC''"
abbreviation SinkIframeSrc :: string where "SinkIframeSrc \<equiv> ''IFRAME_SRC''"
abbreviation SinkIframeSrcDoc :: string where "SinkIframeSrcDoc \<equiv> ''IFRAME_SRCDOC''"
abbreviation SinkWorkerSrc :: string where "SinkWorkerSrc \<equiv> ''WORKER_SRC''"
abbreviation SinkEmbedSrc :: string where "SinkEmbedSrc \<equiv> ''EMBED_SRC''"
abbreviation SinkObjectData :: string where "SinkObjectData \<equiv> ''OBJECT_DATA''"
abbreviation SinkBaseHref :: string where "SinkBaseHref \<equiv> ''BASE_HREF''"
abbreviation SinkNavigation :: string where "SinkNavigation \<equiv> ''NAVIGATION''"
abbreviation SinkFetch :: string where "SinkFetch \<equiv> ''FETCH_BODY''"
abbreviation SinkFetchURL :: string where "SinkFetchURL \<equiv> ''FETCH_URL''"
abbreviation SinkXMLHTTPRequest :: string where "SinkXMLHTTPRequest \<equiv> ''XHR_BODY''"
abbreviation SinkXMLHTTPRequestURL :: string where "SinkXMLHTTPRequestURL \<equiv> ''XHR_URL''"
abbreviation SinkWebSocketSend :: string where "SinkWebSocketSend \<equiv> ''WEBSOCKET_SEND''"
abbreviation SinkSendBeacon :: string where "SinkSendBeacon \<equiv> ''SEND_BEACON''"
abbreviation SinkPostMessage :: string where "SinkPostMessage \<equiv> ''POST_MESSAGE''"
abbreviation SinkWorkerPostMessage :: string where "SinkWorkerPostMessage \<equiv> ''WORKER_POST_MESSAGE''"
abbreviation SinkStyleCSS :: string where "SinkStyleCSS \<equiv> ''STYLE_CSS''"
abbreviation SinkStyleInsertRule :: string where "SinkStyleInsertRule \<equiv> ''STYLE_INSERT_RULE''"
abbreviation SinkExecution :: string where "SinkExecution \<equiv> ''EXECUTION_PROOF''"
abbreviation SinkOASTInteraction :: string where "SinkOASTInteraction \<equiv> ''OAST_INTERACTION''"
abbreviation SinkPrototypePollution :: string where "SinkPrototypePollution \<equiv> ''PROTOTYPE_POLLUTION_CONFIRMED''"

abbreviation SinkTypeExecution :: string where "SinkTypeExecution \<equiv> ''Code Execution''"
abbreviation SinkTypeHTMLInjection :: string where "SinkTypeHTMLInjection \<equiv> ''DOM XSS (HTML Injection)''"
abbreviation SinkTypeURLRedirection :: string where "SinkTypeURLRedirection \<equiv> ''Open Redirect/URL Manipulation''"
abbreviation SinkTypeCookieManipulation :: string where "SinkTypeCookieManipulation \<equiv> ''Cookie Manipulation''"
abbreviation SinkTypeAttributeInjection :: string where "SinkTypeAttributeInjection \<equiv> ''DOM XSS (Attribute Injection)''"
abbreviation SinkTypeDataLeak :: string where "SinkTypeDataLeak \<equiv> ''Data Leakage''"
abbreviation SinkTypeUnknown :: string where "SinkTypeUnknown \<equiv> ''Unknown''"

definition SourceLocationHash :: string where "SourceLocationHash = ''location.hash''"
definition SourceLocationSearch :: string where "SourceLocationSearch = ''location.search''"
definition SourceLocationHref :: string where "SourceLocationHref = ''location.href''"
definition SourceDocumentCookie :: string where "SourceDocumentCookie = ''document.cookie''"
definition SourceDocumentReferrer :: string where "SourceDocumentReferrer = ''document.referrer''"
definition SourceWindowName :: string where "SourceWindowName = ''window.name''"
definition SourceLocalStorage :: string where "SourceLocalStorage = ''localStorage.getItem''"
definition SourceSessionStorage :: string where "SourceSessionStorage = ''sessionStorage.getItem''"
definition SourcePostMessageData :: string where "SourcePostMessageData = ''message.data''"
definition SourceUnknown :: string where "SourceUnknown = ''unknown_source''"

lemmas source_names = SourceLocationHash_def SourceLocationSearch_def SourceLocationHref_def
  SourceDocumentCookie_def SourceDocumentReferrer_def SourceWindowName_def SourceLocalStorage_def
  SourceSessionStorage_def SourcePostMessageData_def SourceUnknown_def

record SinkDefinition =
  sdName :: string
  sdType :: string
  sdSetter :: bool
  sdArgIndex :: int
  sdConditionID :: string

definition DefaultSinks :: "SinkDefinition list" where
  "DefaultSinks =
    [\<lparr>sdName = ''eval'', sdType = SinkEval, sdSetter = False, sdArgIndex = 0, sdConditionID = ''''\<rparr>,
     \<lparr>sdName = ''setTimeout'', sdType = SinkEval, sdSetter = False, sdArgIndex = 0, sdConditionID = ''IS_STRING_ARG0''\<rparr>,
     \<lparr>sdName = ''setInterval'', sdType = SinkEval, sdSetter = False, sdArgIndex = 0, sdConditionID = ''IS_STRING_ARG0''\<rparr>,
     \<lparr>sdName = ''Function'', sdType = SinkFunctionConstructor, sdSetter = False, sdArgIndex = 0, sdConditionID = ''''\<rparr>,
     \<lparr>sdName = ''Function.prototype.constructor'', sdType = SinkFunctionConstructor, sdSetter = False, sdArgIndex = 0, sdConditionID = ''''\<rparr>,
     \<lparr>sdName = ''document.write'', sdType = SinkDocumentWrite, sdSetter = False, sdArgIndex = 0, sdConditionID = ''''\<rparr>,
     \<lparr>sdName = ''document.writeln'', sdType = SinkDocumentWrite, sdSetter = False, sdArgIndex = 0, sdConditionID = ''''\<rparr>,
     \<lparr>sdName = ''Element.prototype.innerHTML'', sdType = SinkInnerHTML, sdSetter = True, sdArgIndex = 0, sdConditionID = ''''\<rparr>,
     \<lparr>sdName = ''Element.prototype.outerHTML'', sdType = SinkOuterHTML, sdSetter = True, sdArgIndex = 0, sdConditionID = ''''\<rparr>,
     \<lparr>sdName = ''Element.prototype.insertAdjacentHTML'', sdType = SinkInnerHTML, sdSetter = False, sdArgIndex = 1, sdConditionID = ''''\<rparr>,
     \<lparr>sdName = ''DOMParser.prototype.parseFromString'', sdType = SinkInnerHTML, sdSetter = False, sdArgIndex = 0, sdConditionID = ''''\<rparr>,
     \<lparr>sdName = ''jQuery.prototype.html'', sdType = SinkInnerHTML, sdSetter = False, sdArgIndex = 0, sdConditionID = ''''\<rparr>,
     \<lparr>sdName = ''jQuery.prototype.append'', sdType = SinkInnerHTML, sdSetter = False, sdArgIndex = 0, sdConditionID = ''''\<rparr>,
     \<lparr>sdName = ''jQuery.prototype.prepend'', sdType = SinkInnerHTML, sdSetter = False, sdArgIndex = 0, sdConditionID = ''''\<rparr>,
     \<lparr>sdName = ''jQuery.prototype.after'', sdType = SinkInnerHTML, sdSetter = False, sdArgIndex = 0, sdConditionID = ''''\<rparr>,
     \<lparr>sdName = ''jQuery.prototype.before'', sdType = SinkInnerHTML, sdSetter = False, sdArgIndex = 0, sdConditionID = ''''\<rparr>,
     \<lparr>sdName = ''jQuery.prototype.replaceWith'', sdType = SinkInnerHTML, sdSetter = False, sdArgIndex = 0, sdConditionID = ''''\<rparr>,
     \<lparr>sdName = ''jQuery.globalEval'', sdType = SinkEval, sdSetter = False, sdArgIndex = 0, sdConditionID = ''''\<rparr>,
     \<lparr>sdName = ''jQuery.parseHTML'', sdType = SinkInnerHTML, sdSetter = False, sdArgIndex = 0, sdConditionID = ''''\<rparr>,
     \<lparr>sdName = ''Location.prototype.href'', sdType = SinkNavigation, sdSetter = True, sdArgIndex = 0, sdConditionID = ''''\<rparr>,
     \<lparr>sdName = ''Location.prototype.assign'', sdType = SinkNavigation, sdSetter = False, sdArgIndex = 0, sdConditionID = ''''\<rparr>,
     \<lparr>sdName = ''Location.prototype.replace'', sdType = SinkNavigation, sdSetter = False, sdArgIndex = 0, sdConditionID = ''''\<rparr>,
     \<lparr>sdName = ''open'', sdType = SinkNavigation, sdSetter = False, sdArgIndex = 0, sdConditionID = ''''\<rparr>,
     \<lparr>sdName = ''History.prototype.pushState'', sdType = SinkNavigation, sdSetter = False, sdArgIndex = 2, sdConditionID = ''''\<rparr>,
     \<lparr>sdName = ''History.prototype.replaceState'', sdType = SinkNavigation, sdSetter = False, sdArgIndex = 2, sdConditionID = ''''\<rparr>,
     \<lparr>sdName = ''HTMLScriptElement.prototype.src'', sdType = SinkScriptSrc, sdSetter = True, sdArgIndex = 0, sdConditionID = ''''\<rparr>,
     \<lparr>sdName = ''HTMLIFrameElement.prototype.src'', sdType = SinkIframeSrc, sdSetter = True, sdArgIndex = 0, sdConditionID = ''''\<rparr>,
     \<lparr>sdName = ''HTMLIFrameElement.prototype.srcdoc'', sdType = SinkIframeSrcDoc, sdSetter = True, sdArgIndex = 0, sdConditionID = ''''\<rparr>,
     \<lparr>sdName = ''WebSocket.prototype.send'', sdType = SinkWebSocketSend, sdSetter = False, sdArgIndex = 0, sdConditionID = ''''\<rparr>,
     \<lparr>sdName = ''navigator.sendBeacon'', sdType = SinkSendBeacon, sdSetter = False, sdArgIndex = 1, sdConditionID = ''SEND_BEACON_DATA_EXISTS''\<rparr>,
     \<lparr>sdName = ''XMLHttpRequest.prototype.send'', sdType = SinkXMLHTTPRequest, sdSetter = False, sdArgIndex = 0, sdConditionID = ''XHR_SEND_DATA_EXISTS''\<rparr>,
     \<lparr>sdName = ''XMLHttpRequest.prototype.open'', sdType = SinkXMLHTTPRequestURL, sdSetter = False, sdArgIndex = 1, sdConditionID = ''''\<rparr>,
     \<lparr>sdName = ''fetch'', sdType = SinkFetchURL, sdSetter = False, sdArgIndex = 0, sdConditionID = ''''\<rparr>,
     \<lparr>sdName = ''fetch'', sdType = SinkFetch, sdSetter = False, sdArgIndex = 1, sdConditionID = ''''\<rparr>,
     \<lparr>sdName = ''Window.prototype.postMessage'', sdType = SinkPostMessage, sdSetter = False, sdArgIndex = 0, sdConditionID = ''''\<rparr>,
     \<lparr>sdName = ''Worker.prototype.postMessage'', sdType = SinkWorkerPostMessage, sdSetter = False, sdArgIndex = 0, sdConditionID = ''''\<rparr>,
     \<lparr>sdName = ''DedicatedWorkerGlobalScope.prototype.postMessage'', sdType = SinkPostMessage, sdSetter = False, sdArgIndex = 0, sdConditionID = ''''\<rparr>]"

definition GetSinkType :: "string \<Rightarrow> string" where
  "GetSinkType canonical =
     (if canonical \<in> {SinkEval, SinkFunctionConstructor, SinkScriptSrc, SinkExecution}
      then SinkTypeExecution
      else if canonical \<in> {SinkInnerHTML, SinkOuterHTML, SinkDocumentWrite, SinkIframeSrcDoc}
      then SinkTypeHTMLInjection
      else if canonical \<in> {SinkNavigation, SinkIframeSrc, SinkWorkerSrc}
      then SinkTypeURLRedirection
      else if canonical \<in> {SinkWebSocketSend, SinkXMLHTTPRequest, SinkXMLHTTPRequestURL, SinkFetch,
             SinkFetchURL, SinkSendBeacon, SinkPostMessage, SinkWorkerPostMessage, SinkOASTInteraction}
      then SinkTypeDataLeak
      else if Contains canonical ''HTML'' then SinkTypeHTMLInjection
      else if Contains canonical ''ATTRIBUTE'' then SinkTypeAttributeInjection
      else SinkTypeUnknown)"

section \<open>Known sources and sanitizers\<close>

definition knownPropertySources :: "string \<rightharpoonup> string" where
  "knownPropertySources = map_of
    [(SourceLocationHash, SourceLocationHash),
     (SourceLocationSearch, SourceLocationSearch),
     (SourceLocationHref, SourceLocationHref),
     (SourceDocumentCookie, SourceDocumentCookie),
     (SourceDocumentReferrer, SourceDocumentReferrer),
     (SourceWindowName, SourceWindowName),
     (''window.location.hash'', SourceLocationHash),
     (''window.location.search'', SourceLocationSearch),
     (''window.location.href'', SourceLocationHref)]"

definition knownFunctionSources :: "string \<rightharpoonup> string" where
  "knownFunctionSources = map_of
    [(''localStorage.getItem'', SourceLocalStorage),
     (''sessionStorage.getItem'', SourceSessionStorage),
     (''window.localStorage.getItem'', SourceLocalStorage),
     (''window.sessionStorage.getItem'', SourceSessionStorage)]"

definition knownSanitizers :: "string \<Rightarrow> bool" where
  "knownSanitizers name \<longleftrightarrow> name \<in>
    {''encodeURI'', ''encodeURIComponent'', ''JSON.stringify'', ''parseInt'', ''parseFloat'', ''Number'', ''DOMPurify.sanitize''}"

definition CheckIfPropertySource :: "string list \<Rightarrow> string option" where
  "CheckIfPropertySource path =
     (if path = [] then None else knownPropertySources (Join path ''.''))"

definition CheckIfFunctionSource :: "string list \<Rightarrow> string option" where
  "CheckIfFunctionSource path =
     (if path = [] then None else knownFunctionSources (Join path ''.''))"

definition CheckIfSanitizer :: "string list \<Rightarrow> bool" where
  "CheckIfSanitizer path =
     (if path = [] then False
      else if knownSanitizers (Join path ''.'') then True
      else knownSanitizers (last path))"

section \<open>Sink tables of the static analyser\<close>

record StaticSinkDefinition =
  ssName :: string
  ssType :: string
  ssCanonicalType :: string
  ssTaintedArgs :: "int list"

type_synonym sink_table = "string \<rightharpoonup> StaticSinkDefinition"

definition mergeArgs :: "StaticSinkDefinition \<Rightarrow> int \<Rightarrow> StaticSinkDefinition" where
  "mergeArgs d newArg =
     (if newArg \<in> set (ssTaintedArgs d) then d
      else d\<lparr>ssTaintedArgs := ssTaintedArgs d @ [newArg]\<rparr>)"

definition baseDef :: "SinkDefinition \<Rightarrow> string \<Rightarrow> StaticSinkDefinition" where
  "baseDef sink name =
     \<lparr>ssName = name, ssType = GetSinkType (sdType sink), ssCanonicalType = sdType sink,
      ssTaintedArgs = [sdArgIndex sink]\<rparr>"

definition staticName :: "SinkDefinition \<Rightarrow> string" where
  "staticName sink = last (Split (sdName sink) (CHR ''.''))"

text \<open>One entry of the function table: a new entry, or one more argument index on an old one.\<close>

definition register_function :: "SinkDefinition \<Rightarrow> string \<Rightarrow> sink_table \<Rightarrow> sink_table" where
  "register_function sink key tab =
     (case tab key of
        Some existing \<Rightarrow> tab(key \<mapsto> mergeArgs existing (sdArgIndex sink))
      | None \<Rightarrow> tab(key \<mapsto> baseDef sink key))"

definition init_sink :: "SinkDefinition \<Rightarrow> sink_table \<times> sink_table \<Rightarrow> sink_table \<times> sink_table" where
  "init_sink sink tabs =
     (let (functions, properties) = tabs in
      if sdSetter sink
      then (let p1 = properties(sdName sink \<mapsto> baseDef sink (sdName sink));
                p2 = (if sdName sink \<noteq> staticName sink
                      then p1(staticName sink \<mapsto> baseDef sink (staticName sink)) else p1)
            in (functions, p2))
      else (let f1 = register_function sink (sdName sink) functions;
                f2 = (if sdName sink \<noteq> staticName sink
                      then register_function sink (staticName sink) f1 else f1)
            in (f2, properties)))"

definition init_tables :: "SinkDefinition list \<Rightarrow> sink_table \<times> sink_table" where
  "init_tables sinks = fold init_sink sinks (Map.empty, Map.empty)"

definition knownSinkFunctions :: sink_table where
  "knownSinkFunctions = fst (init_tables DefaultSinks)"

definition knownSinkPropertyPaths :: sink_table where
  "knownSinkPropertyPaths = snd (init_tables DefaultSinks)"

definition lookup_sink :: "sink_table \<Rightarrow> string list \<Rightarrow> StaticSinkDefinition option" where
  "lookup_sink tab path =
     (if path = [] then None
      else (case tab (Join path ''.'') of
              Some d \<Rightarrow> Some d
            | None \<Rightarrow> tab (last path)))"

definition CheckIfSinkProperty :: "string list \<Rightarrow> StaticSinkDefinition option" where
  "CheckIfSinkProperty path = lookup_sink knownSinkPropertyPaths path"

definition CheckIfSinkFunction :: "string list \<Rightarrow> StaticSinkDefinition option" where
  "CheckIfSinkFunction path = lookup_sink knownSinkFunctions path"

section \<open>Facts about the tables\<close>

text \<open>
  The shape of every entry: it is stored under its own name, its impact category is that of its
  canonical type, and its argument indices do not repeat.
\<close>

definition sink_entry_ok :: "string \<Rightarrow> StaticSinkDefinition \<Rightarrow> bool" where
  "sink_entry_ok key d \<longleftrightarrow>
     ssName d = key \<and> ssType d = GetSinkType (ssCanonicalType d) \<and> distinct (ssTaintedArgs d)"

definition sink_table_ok :: "sink_table \<Rightarrow> bool" where
  "sink_table_ok tab \<longleftrightarrow> (\<forall>key d. tab key = Some d \<longrightarrow> sink_entry_ok key d)"

lemma sink_entry_ok_baseDef [simp]: "sink_entry_ok key (baseDef sink key)"
  by (simp add: sink_entry_ok_def baseDef_def)

lemma sink_entry_ok_mergeArgs [simp]: "sink_entry_ok key d \<Longrightarrow> sink_entry_ok key (mergeArgs d i)"
  by (simp add: sink_entry_ok_def mergeArgs_def)

lemma sink_table_ok_upd [inv_intros]:
  "sink_table_ok tab \<Longrightarrow> sink_entry_ok key d \<Longrightarrow> sink_table_ok (tab(key \<mapsto> d))"
  by (auto simp: sink_table_ok_def)

lemma sink_table_ok_register [inv_intros]:
  "sink_table_ok tab \<Longrightarrow> sink_table_ok (register_function sink key tab)"
  by (auto simp: register_function_def sink_table_ok_def split: option.splits)

lemma init_sink_ok:
  "sink_table_ok (fst tabs) \<Longrightarrow> sink_table_ok (snd tabs) \<Longrightarrow>
     sink_table_ok (fst (init_sink sink tabs)) \<and> sink_table_ok (snd (init_sink sink tabs))"
  by (auto simp: init_sink_def Let_def split: prod.splits intro!: inv_intros)

lemma init_tables_ok:
  "sink_table_ok (fst (init_tables sinks))" "sink_table_ok (snd (init_tables sinks))"
proof -
  have "sink_table_ok (fst (init_tables sinks)) \<and> sink_table_ok (snd (init_tables sinks))"
    unfolding init_tables_def
  proof (rule fold_keeps [where P = "\<lambda>t. sink_table_ok (fst t) \<and> sink_table_ok (snd t)"])
    show "sink_table_ok (fst (Map.empty, Map.empty)) \<and> sink_table_ok (snd (Map.empty, Map.empty))"
      by (simp add: sink_table_ok_def)
  qed (simp add: init_sink_ok)
  then show "sink_table_ok (fst (init_tables sinks))" "sink_table_ok (snd (init_tables sinks))"
    by simp_all
qed

text \<open>Once a key covers an argument index, no later registration removes it.\<close>

definition covers :: "sink_table \<Rightarrow> string \<Rightarrow> int \<Rightarrow> bool" where
  "covers tab key i \<longleftrightarrow> (\<exists>d. tab key = Some d \<and> i \<in> set (ssTaintedArgs d))"

lemma mergeArgs_args: "set (ssTaintedArgs (mergeArgs d i)) = insert i (set (ssTaintedArgs d))"
  by (auto simp: mergeArgs_def)

lemma covers_register: "covers (register_function sink key tab) key (sdArgIndex sink)"
  by (auto simp: covers_def register_function_def mergeArgs_args baseDef_def split: option.splits)

lemma covers_register_mono: "covers tab k i \<Longrightarrow> covers (register_function sink key tab) k i"
  by (auto simp: covers_def register_function_def mergeArgs_args split: option.splits)

lemma covers_init_sink_mono: "covers (fst tabs) k i \<Longrightarrow> covers (fst (init_sink sink tabs)) k i"
  by (auto simp: init_sink_def Let_def covers_register_mono split: prod.splits)

lemma covers_init_sink:
  "\<not> sdSetter sink \<Longrightarrow> covers (fst (init_sink sink tabs)) (sdName sink) (sdArgIndex sink)"
  "\<not> sdSetter sink \<Longrightarrow> covers (fst (init_sink sink tabs)) (staticName sink) (sdArgIndex sink)"
  by (auto simp: init_sink_def Let_def covers_register covers_register_mono split: prod.splits)

lemma covers_fold:
  assumes "sink \<in> set sinks" and "\<not> sdSetter sink"
  shows "covers (fst (fold init_sink sinks tabs)) (sdName sink) (sdArgIndex sink)"
    and "covers (fst (fold init_sink sinks tabs)) (staticName sink) (sdArgIndex sink)"
  by (rule fold_reaches [where P = "\<lambda>t. covers (fst t) k i" for k i, OF assms(1)],
      simp_all add: covers_init_sink assms(2) covers_init_sink_mono)+

lemma property_init_sink_mono: "snd tabs k \<noteq> None \<Longrightarrow> snd (init_sink sink tabs) k \<noteq> None"
  by (auto simp: init_sink_def Let_def split: prod.splits)

lemma property_init_sink:
  "sdSetter sink \<Longrightarrow> snd (init_sink sink tabs) (sdName sink) \<noteq> None"
  "sdSetter sink \<Longrightarrow> snd (init_sink sink tabs) (staticName sink) \<noteq> None"
  by (auto simp: init_sink_def Let_def split: prod.splits)

lemma property_fold:
  assumes "sink \<in> set sinks" and "sdSetter sink"
  shows "snd (fold init_sink sinks tabs) (sdName sink) \<noteq> None"
    and "snd (fold init_sink sinks tabs) (staticName sink) \<noteq> None"
  by (rule fold_reaches [where P = "\<lambda>t. snd t k \<noteq> None" for k, OF assms(1)],
      simp_all add: property_init_sink assms(2) property_init_sink_mono del: not_None_eq)+

lemma lookup_sink_last: "tab s \<noteq> None \<Longrightarrow> \<exists>d. lookup_sink tab (recv @ [s]) = Some d"
  by (auto simp: lookup_sink_def split: option.splits)

lemma Join_Split: "Join (Split s sep) [sep] = s"
proof (induction s)
  case Nil
  then show ?case by simp
next
  case (Cons c s)
  obtain p ps where ps: "Split s sep = p # ps"
    by (cases "Split s sep") auto
  then show ?case
    using Cons by (cases ps) auto
qed

lemma lookup_sink_exact:
  assumes "tab name = Some d"
  shows "lookup_sink tab (Split name (CHR ''.'')) = Some d"
  using assms Join_Split [of name "CHR ''.''"] by (simp add: lookup_sink_def)

lemma default_function_entry:
  assumes "sink \<in> set DefaultSinks" and "\<not> sdSetter sink"
  shows "covers knownSinkFunctions (sdName sink) (sdArgIndex sink)"
    and "covers knownSinkFunctions (staticName sink) (sdArgIndex sink)"
  unfolding knownSinkFunctions_def init_tables_def
  by (rule covers_fold [OF assms])+

lemma default_property_entry:
  assumes "sink \<in> set DefaultSinks" and "sdSetter sink"
  shows "knownSinkPropertyPaths (sdName sink) \<noteq> None"
    and "knownSinkPropertyPaths (staticName sink) \<noteq> None"
  unfolding knownSinkPropertyPaths_def init_tables_def
  by (rule property_fold [OF assms])+

text \<open>
  Every sink of the unified list is recognised: a function sink under its full dotted path,
  reported under that name, with its argument index among the checked ones, and by its last
  component on any receiver; a property sink likewise under both.
\<close>

theorem default_sinks_recognised:
  assumes "sink \<in> set DefaultSinks"
  shows "if sdSetter sink
         then (\<exists>d. CheckIfSinkProperty (Split (sdName sink) (CHR ''.'')) = Some d \<and> ssName d = sdName sink) \<and>
              (\<exists>d. CheckIfSinkProperty (recv @ [staticName sink]) = Some d)
         else (\<exists>d. CheckIfSinkFunction (Split (sdName sink) (CHR ''.'')) = Some d \<and>
                   ssName d = sdName sink \<and> sdArgIndex sink \<in> set (ssTaintedArgs d)) \<and>
              (\<exists>d. CheckIfSinkFunction (recv @ [staticName sink]) = Some d)"
proof (cases "sdSetter sink")
  case True
  obtain d where d: "knownSinkPropertyPaths (sdName sink) = Some d"
    using default_property_entry(1) [OF assms True] by auto
  moreover have "ssName d = sdName sink"
    using d init_tables_ok(2) unfolding knownSinkPropertyPaths_def sink_table_ok_def sink_entry_ok_def
    by blast
  ultimately show ?thesis
    using True lookup_sink_exact [of knownSinkPropertyPaths, OF d] lookup_sink_last [of knownSinkPropertyPaths, OF default_property_entry(2) [OF assms True]]
    by (simp add: CheckIfSinkProperty_def)
next
  case False
  obtain d where d: "knownSinkFunctions (sdName sink) = Some d" "sdArgIndex sink \<in> set (ssTaintedArgs d)"
    using default_function_entry(1) [OF assms False] by (auto simp: covers_def)
  moreover have "ssName d = sdName sink"
    using d(1) init_tables_ok(1) unfolding knownSinkFunctions_def sink_table_ok_def sink_entry_ok_def
    by blast
  moreover have "knownSinkFunctions (staticName sink) \<noteq> None"
    using default_function_entry(2) [OF assms False] by (auto simp: covers_def)
  ultimately show ?thesis
    using False lookup_sink_exact [of knownSinkFunctions, OF d(1)] lookup_sink_last
    by (simp add: CheckIfSinkFunction_def)
qed

theorem default_sinks_recognised_witness:
  "(\<exists>d. CheckIfSinkFunction (Split ''eval'' (CHR ''.'')) = Some d \<and> ssName d = ''eval'' \<and>
        0 \<in> set (ssTaintedArgs d)) \<and>
   (\<exists>d. CheckIfSinkFunction ([''window''] @ [staticName (hd DefaultSinks)]) = Some d)"
proof -
  have mem: "hd DefaultSinks \<in> set DefaultSinks" by (simp add: DefaultSinks_def)
  have hd: "\<not> sdSetter (hd DefaultSinks)" "sdName (hd DefaultSinks) = ''eval''"
      "sdArgIndex (hd DefaultSinks) = 0"
    by (simp_all add: DefaultSinks_def)
  show ?thesis
    using default_sinks_recognised [OF mem, of "[''window'']"] hd by simp
qed

end
