(* ===== verification/JsTaint.thy ===== *)
theory JsTaint
  imports JsCore "HOL-Library.AList"
begin

text \<open>
  The abstract taint states of the static analyser
  (\<^verbatim>\<open>internal/analysis/static/javascript/state.go\<close>). A \<^verbatim>\<open>SimpleTaint\<close> is a value; an
  \<^verbatim>\<open>ObjectTaint\<close> is used through a pointer and is updated in place through every alias, so object
  states live in an explicit heap (the list of allocated objects) and a state refers to one by its
  address. A Go map that the code ranges over is a list of key/value pairs, whose order is the
  iteration order of the run; the results are stated for every list.

  The methods of \<^verbatim>\<open>ObjectTaint\<close> recurse into the property states. They return when the heap has
  no cycle (\<open>heap_ok\<close> gives every object a rank below the number of objects); on a cyclic heap the
  recursion has no end, which the fuelled functions return as \<open>None\<close>. The fuel used is one more
  than the number of objects.
\<close>

section \<open>States and heap\<close>

datatype taint = SimpleTaint (tSources: "string set") (tLine: int) | ObjectRef nat

type_synonym prop_list = "(string \<times> taint) list"

record object_taint =
  Properties :: prop_list
  StructureTainted :: bool

type_synonym taint_heap = "object_taint list"

definition heap_get :: "taint_heap \<Rightarrow> nat \<Rightarrow> object_taint option" where
  "heap_get h a = (if a < length h then Some (h ! a) else None)"

definition NewSimpleTaint :: "string \<Rightarrow> int \<Rightarrow> taint" where
  "NewSimpleTaint source line =
     (if source = [] then SimpleTaint {} 0 else SimpleTaint {source} line)"

definition NewObjectTaint :: object_taint where
  "NewObjectTaint = \<lparr>Properties = [], StructureTainted = False\<rparr>"

section \<open>Reading a state\<close>

text \<open>The loop of \<^verbatim>\<open>IsTainted\<close> over the property states: it stops at the first tainted one.\<close>

fun any_tainted :: "(taint \<Rightarrow> bool option) \<Rightarrow> taint list \<Rightarrow> bool option" where
  "any_tainted f [] = Some False"
| "any_tainted f (t # ts) =
     (case f t of
        None \<Rightarrow> None
      | Some b \<Rightarrow> if b then Some True else any_tainted f ts)"

fun isTaintedF :: "nat \<Rightarrow> taint_heap \<Rightarrow> taint \<Rightarrow> bool option" where
  "isTaintedF 0 h t = None"
| "isTaintedF (Suc k) h (SimpleTaint S l) = Some (S \<noteq> {})"
| "isTaintedF (Suc k) h (ObjectRef a) =
     (case heap_get h a of
        None \<Rightarrow> None
      | Some ob \<Rightarrow>
          if StructureTainted ob then Some True
          else any_tainted (isTaintedF k h) (map snd (Properties ob)))"

definition IsTainted :: "taint_heap \<Rightarrow> taint \<Rightarrow> bool option" where
  "IsTainted h t = isTaintedF (Suc (length h)) h t"

text \<open>The loop of \<^verbatim>\<open>GetSources\<close>: the sources of every tainted property are added to the set.\<close>

fun union_sources ::
    "(taint \<Rightarrow> bool option) \<Rightarrow> (taint \<Rightarrow> string set option) \<Rightarrow> taint list \<Rightarrow> string set \<Rightarrow> string set option" where
  "union_sources tnt src [] acc = Some acc"
| "union_sources tnt src (t # ts) acc =
     (case tnt t of
        None \<Rightarrow> None
      | Some b \<Rightarrow>
          if b then (case src t of None \<Rightarrow> None | Some S \<Rightarrow> union_sources tnt src ts (acc \<union> S))
          else union_sources tnt src ts acc)"

fun getSourcesF :: "nat \<Rightarrow> taint_heap \<Rightarrow> taint \<Rightarrow> string set option" where
  "getSourcesF 0 h t = None"
| "getSourcesF (Suc k) h (SimpleTaint S l) = Some S"
| "getSourcesF (Suc k) h (ObjectRef a) =
     (case heap_get h a of
        None \<Rightarrow> None
      | Some ob \<Rightarrow>
          union_sources (IsTainted h) (getSourcesF k h) (map snd (Properties ob))
            (if StructureTainted ob then {SourceUnknown} else {}))"

definition GetSources :: "taint_heap \<Rightarrow> taint \<Rightarrow> string set option" where
  "GetSources h t = getSourcesF (Suc (length h)) h t"

text \<open>A representative source: the single one, or all of them sorted and joined by \<open>|\<close>.\<close>

definition simple_source :: "string set \<Rightarrow> string" where
  "simple_source S =
     (if S = {} then []
      else (case sorted_list_of_set S of
              [s] \<Rightarrow> s
            | ss \<Rightarrow> Join ss ''|''))"

definition GetSource :: "taint_heap \<Rightarrow> taint \<Rightarrow> string option" where
  "GetSource h t =
     (case t of
        SimpleTaint S l \<Rightarrow> Some (simple_source S)
      | ObjectRef a \<Rightarrow>
          (case IsTainted h t of
             None \<Rightarrow> None
           | Some b \<Rightarrow> Some (if b then SourceUnknown else [])))"

text \<open>\<open>Some None\<close> is the nil interface value, \<open>None\<close> a recursion without end.\<close>

definition GetPropertyTaint :: "taint_heap \<Rightarrow> nat \<Rightarrow> string \<Rightarrow> taint option option" where
  "GetPropertyTaint h a propName =
     (case heap_get h a of
        None \<Rightarrow> None
      | Some ob \<Rightarrow>
          (let fallback = (if StructureTainted ob then Some (NewSimpleTaint SourceUnknown 0) else None)
           in case map_of (Properties ob) propName of
                None \<Rightarrow> Some fallback
              | Some state \<Rightarrow>
                  (case IsTainted h state of
                     None \<Rightarrow> None
                   | Some b \<Rightarrow> Some (if b then Some state else fallback))))"

section \<open>Updating a state\<close>

definition put_props :: "taint_heap \<Rightarrow> nat \<Rightarrow> prop_list \<Rightarrow> taint_heap" where
  "put_props h a ps = h[a := (h ! a)\<lparr>Properties := ps\<rparr>]"

definition SetPropertyTaint :: "taint_heap \<Rightarrow> nat \<Rightarrow> string \<Rightarrow> taint option \<Rightarrow> taint_heap option" where
  "SetPropertyTaint h a propName state =
     (case heap_get h a of
        None \<Rightarrow> None
      | Some ob \<Rightarrow>
          (case state of
             None \<Rightarrow> Some (put_props h a (AList.delete propName (Properties ob)))
           | Some t \<Rightarrow>
               (case IsTainted h t of
                  None \<Rightarrow> None
                | Some b \<Rightarrow>
                    Some (put_props h a
                      (if b then AList.update propName t (Properties ob)
                       else AList.delete propName (Properties ob))))))"

definition mergeSources :: "string set \<Rightarrow> int \<Rightarrow> string set \<Rightarrow> int \<Rightarrow> taint" where
  "mergeSources S l otherSources otherLine =
     SimpleTaint (S \<union> otherSources)
       (if otherLine > 0 \<and> (l = 0 \<or> otherLine < l) then otherLine else l)"

definition SimpleTaint_Merge :: "taint_heap \<Rightarrow> string set \<Rightarrow> int \<Rightarrow> taint option \<Rightarrow> taint option" where
  "SimpleTaint_Merge h S l other =
     (case other of
        None \<Rightarrow> Some (SimpleTaint S l)
      | Some t \<Rightarrow>
          (case IsTainted h t of
             None \<Rightarrow> None
           | Some b \<Rightarrow>
               if \<not> b then Some (SimpleTaint S l)
               else if S = {} then Some t
               else
                 (case GetSources h t of
                    None \<Rightarrow> None
                  | Some otherSources \<Rightarrow>
                      (let otherLine = (case t of SimpleTaint _ l' \<Rightarrow> l' | ObjectRef _ \<Rightarrow> 0);
                           needsMerge =
                             ((otherLine > 0 \<and> (l = 0 \<or> otherLine < l)) \<or> \<not> otherSources \<subseteq> S)
                       in if needsMerge then Some (mergeSources S l otherSources otherLine)
                          else Some (SimpleTaint S l)))))"

text \<open>
  \<^verbatim>\<open>ObjectTaint.Merge\<close> of two objects: the properties of the first are copied, those of the second
  are merged in, and the result is a new object. (It is allocated when its properties are known;
  nothing refers to it before.)
\<close>

fun merge_props ::
    "(taint_heap \<Rightarrow> taint \<Rightarrow> taint \<Rightarrow> (taint \<times> taint_heap) option) \<Rightarrow> taint_heap \<Rightarrow>
     prop_list \<Rightarrow> prop_list \<Rightarrow> (prop_list \<times> taint_heap) option" where
  "merge_props mrg h merged [] = Some (merged, h)"
| "merge_props mrg h merged ((k, v) # others) =
     (case map_of merged k of
        Some existing \<Rightarrow>
          (case mrg h existing v of
             None \<Rightarrow> None
           | Some (m, h') \<Rightarrow> merge_props mrg h' (AList.update k m merged) others)
      | None \<Rightarrow> merge_props mrg h (AList.update k v merged) others)"

fun mergeF :: "nat \<Rightarrow> taint_heap \<Rightarrow> taint \<Rightarrow> taint option \<Rightarrow> (taint \<times> taint_heap) option" where
  "mergeF 0 h t other = None"
| "mergeF (Suc n) h (SimpleTaint S l) other =
     map_option (\<lambda>t. (t, h)) (SimpleTaint_Merge h S l other)"
| "mergeF (Suc n) h (ObjectRef a) None = Some (ObjectRef a, h)"
| "mergeF (Suc n) h (ObjectRef a) (Some other) =
     (case IsTainted h other of
        None \<Rightarrow> None
      | Some b \<Rightarrow>
          if \<not> b then Some (ObjectRef a, h)
          else (case other of
             SimpleTaint S l \<Rightarrow>
               map_option (\<lambda>t. (t, h)) (SimpleTaint_Merge h S l (Some (ObjectRef a)))
           | ObjectRef c \<Rightarrow>
               (case (heap_get h a, heap_get h c) of
                  (Some oa, Some oc) \<Rightarrow>
                    (case merge_props (\<lambda>h' t' o'. mergeF n h' t' (Some o')) h (Properties oa) (Properties oc) of
                       None \<Rightarrow> None
                     | Some (ps, h') \<Rightarrow>
                         Some (ObjectRef (length h'),
                               h' @ [\<lparr>Properties = ps,
                                      StructureTainted = (StructureTainted oa \<or> StructureTainted oc)\<rparr>]))
                | _ \<Rightarrow> None)))"

definition Merge :: "taint_heap \<Rightarrow> taint \<Rightarrow> taint option \<Rightarrow> (taint \<times> taint_heap) option" where
  "Merge h t other = mergeF (Suc (length h)) h t other"

section \<open>Function summaries\<close>

text \<open>
  \<^verbatim>\<open>TaintedParams\<close> and \<^verbatim>\<open>ParamToReturn\<close> are maps to \<^verbatim>\<open>bool\<close> that are only ever set to true: the
  set of their keys.
\<close>

record FunctionSummary =
  fsRefID :: string
  TaintsReturn :: bool
  TaintedParams :: "int set"
  ParamToReturn :: "int set"

definition NewFunctionSummary :: "string \<Rightarrow> FunctionSummary" where
  "NewFunctionSummary i =
     \<lparr>fsRefID = i, TaintsReturn = False, TaintedParams = {}, ParamToReturn = {}\<rparr>"

section \<open>What a state stands for\<close>

text \<open>The sources of a state, following pointers: the abstraction all operations are specified by.\<close>

inductive has_source :: "taint_heap \<Rightarrow> taint \<Rightarrow> string \<Rightarrow> bool" for h where
  src_simple: "s \<in> S \<Longrightarrow> has_source h (SimpleTaint S l) s"
| src_structure: "a < length h \<Longrightarrow> StructureTainted (h ! a) \<Longrightarrow> has_source h (ObjectRef a) SourceUnknown"
| src_property: "a < length h \<Longrightarrow> (k, t) \<in> set (Properties (h ! a)) \<Longrightarrow> has_source h t s \<Longrightarrow>
     has_source h (ObjectRef a) s"

inductive_simps has_source_SimpleTaint [simp]: "has_source h (SimpleTaint S l) s"
inductive_cases has_source_ObjectRefE: "has_source h (ObjectRef a) s"

lemma has_source_ObjectRef:
  "has_source h (ObjectRef a) s \<longleftrightarrow>
     a < length h \<and>
     (StructureTainted (h ! a) \<and> s = SourceUnknown \<or>
      (\<exists>t\<in>set (map snd (Properties (h ! a))). has_source h t s))"
  by (force elim: has_source_ObjectRefE intro: has_source.intros)

definition opt_source :: "taint_heap \<Rightarrow> taint option \<Rightarrow> string \<Rightarrow> bool" where
  "opt_source h x s = (case x of None \<Rightarrow> False | Some t \<Rightarrow> has_source h t s)"

lemma opt_source_simps [simp]:
  "opt_source h None s = False" "opt_source h (Some t) s = has_source h t s"
  by (simp_all add: opt_source_def)

text \<open>Well-formed heaps: no dangling pointer, no repeated key, and a rank that falls along pointers.\<close>

definition valid_ref :: "taint_heap \<Rightarrow> taint \<Rightarrow> bool" where
  "valid_ref h t = (case t of SimpleTaint _ _ \<Rightarrow> True | ObjectRef a \<Rightarrow> a < length h)"

definition taint_rank :: "(nat \<Rightarrow> nat) \<Rightarrow> taint \<Rightarrow> nat" where
  "taint_rank r t = (case t of SimpleTaint _ _ \<Rightarrow> 1 | ObjectRef a \<Rightarrow> r a + 2)"

definition object_ok :: "taint_heap \<Rightarrow> (nat \<Rightarrow> nat) \<Rightarrow> nat \<Rightarrow> object_taint \<Rightarrow> bool" where
  "object_ok h r bound ob \<longleftrightarrow>
     distinct (map fst (Properties ob)) \<and>
     (\<forall>t\<in>set (map snd (Properties ob)). valid_ref h t \<and> taint_rank r t \<le> Suc bound)"

definition heap_ok :: "taint_heap \<Rightarrow> (nat \<Rightarrow> nat) \<Rightarrow> bool" where
  "heap_ok h r \<longleftrightarrow> (\<forall>a<length h. r a < length h \<and> object_ok h r (r a) (h ! a))"

lemma valid_ref_simps [simp]:
  "valid_ref h (SimpleTaint S l)" "valid_ref h (ObjectRef a) = (a < length h)"
  by (simp_all add: valid_ref_def)

lemma taint_rank_simps [simp]:
  "taint_rank r (SimpleTaint S l) = 1" "taint_rank r (ObjectRef a) = r a + 2"
  by (simp_all add: taint_rank_def)

lemma heap_get_eq [simp]: "heap_get h a = Some ob \<longleftrightarrow> a < length h \<and> ob = h ! a"
  by (auto simp: heap_get_def)

lemma heap_okD:
  assumes "heap_ok h r" and "a < length h"
  shows "r a < length h" and "distinct (map fst (Properties (h ! a)))"
    and "t \<in> set (map snd (Properties (h ! a))) \<Longrightarrow> valid_ref h t"
    and "t \<in> set (map snd (Properties (h ! a))) \<Longrightarrow> taint_rank r t \<le> Suc (r a)"
  using assms by (auto simp: heap_ok_def object_ok_def)

lemma heap_ok_fuel: "heap_ok h r \<Longrightarrow> valid_ref h t \<Longrightarrow> taint_rank r t \<le> Suc (length h)"
  by (cases t) (auto dest: heap_okD(1))

lemma heap_ok_Nil [simp]: "heap_ok [] r"
  by (simp add: heap_ok_def)

section \<open>Reading is total and exact on well-formed heaps\<close>

lemma any_tainted_spec:
  assumes "\<forall>t\<in>set ts. f t = Some (P t)"
  shows "any_tainted f ts = Some (\<exists>t\<in>set ts. P t)"
  using assms by (induction ts) auto

lemma isTaintedF_spec:
  assumes ok: "heap_ok h r"
  shows "valid_ref h t \<Longrightarrow> taint_rank r t \<le> k \<Longrightarrow> isTaintedF k h t = Some (\<exists>s. has_source h t s)"
proof (induction k arbitrary: t)
  case 0
  then show ?case by (cases t) auto
next
  case (Suc k)
  show ?case
  proof (cases t)
    case (SimpleTaint S l)
    then show ?thesis by auto
  next
    case (ObjectRef a)
    with Suc.prems have a: "a < length h" and k: "Suc (r a) \<le> k" by auto
    have "any_tainted (isTaintedF k h) (map snd (Properties (h ! a))) =
        Some (\<exists>t\<in>set (map snd (Properties (h ! a))). \<exists>s. has_source h t s)"
    proof (rule any_tainted_spec, rule ballI)
      fix t assume t: "t \<in> set (map snd (Properties (h ! a)))"
      show "isTaintedF k h t = Some (\<exists>s. has_source h t s)"
        using heap_okD(3,4) [OF ok a t] k by (intro Suc.IH) auto
    qed
    with ObjectRef a show ?thesis
      by (auto simp: has_source_ObjectRef heap_get_def)
  qed
qed

lemma IsTainted_spec:
  assumes "heap_ok h r" and "valid_ref h t"
  shows "IsTainted h t = Some (\<exists>s. has_source h t s)"
  unfolding IsTainted_def
  using isTaintedF_spec [OF assms] heap_ok_fuel [OF assms] by blast

lemma union_sources_spec:
  assumes "\<forall>t\<in>set ts. tnt t = Some (\<exists>s. P t s)" and "\<forall>t\<in>set ts. src t = Some {s. P t s}"
  shows "union_sources tnt src ts acc = Some (acc \<union> {s. \<exists>t\<in>set ts. P t s})"
  using assms by (induction ts arbitrary: acc) auto

lemma getSourcesF_spec:
  assumes ok: "heap_ok h r"
  shows "valid_ref h t \<Longrightarrow> taint_rank r t \<le> k \<Longrightarrow> getSourcesF k h t = Some {s. has_source h t s}"
proof (induction k arbitrary: t)
  case 0
  then show ?case by (cases t) auto
next
  case (Suc k)
  show ?case
  proof (cases t)
    case (SimpleTaint S l)
    then show ?thesis by simp
  next
    case (ObjectRef a)
    with Suc.prems have a: "a < length h" and k: "Suc (r a) \<le> k" by auto
    have tnt: "\<forall>t\<in>set (map snd (Properties (h ! a))). IsTainted h t = Some (\<exists>s. has_source h t s)"
      using IsTainted_spec [OF ok] heap_okD(3) [OF ok a] by blast
    have src: "\<forall>t\<in>set (map snd (Properties (h ! a))). getSourcesF k h t = Some {s. has_source h t s}"
      using Suc.IH heap_okD(3,4) [OF ok a] k by (meson le_trans)
    show ?thesis
      using ObjectRef a union_sources_spec [OF tnt src]
      by (auto simp: has_source_ObjectRef heap_get_def)
  qed
qed

lemma GetSources_spec:
  assumes "heap_ok h r" and "valid_ref h t"
  shows "GetSources h t = Some {s. has_source h t s}"
  unfolding GetSources_def
  using getSourcesF_spec [OF assms] heap_ok_fuel [OF assms] by blast

section \<open>Growing the heap\<close>

text \<open>\<open>extends h r h' r'\<close>: more objects may have been allocated, the old ones are untouched.\<close>

definition extends :: "taint_heap \<Rightarrow> (nat \<Rightarrow> nat) \<Rightarrow> taint_heap \<Rightarrow> (nat \<Rightarrow> nat) \<Rightarrow> bool" where
  "extends h r h' r' \<longleftrightarrow> heap_ok h' r' \<and> (\<exists>e. h' = h @ e) \<and> (\<forall>a<length h. r' a = r a)"

lemma extends_refl [simp]: "heap_ok h r \<Longrightarrow> extends h r h r"
  by (simp add: extends_def)

lemma extends_trans: "extends h r h1 r1 \<Longrightarrow> extends h1 r1 h2 r2 \<Longrightarrow> extends h r h2 r2"
  by (auto simp: extends_def)

lemma extends_ok: "extends h r h' r' \<Longrightarrow> heap_ok h' r'"
  by (simp add: extends_def)

lemma extends_valid: "extends h r h' r' \<Longrightarrow> valid_ref h t \<Longrightarrow> valid_ref h' t"
  by (cases t) (auto simp: extends_def)

lemma extends_rank: "extends h r h' r' \<Longrightarrow> valid_ref h t \<Longrightarrow> taint_rank r' t = taint_rank r t"
  by (cases t) (auto simp: extends_def)

lemma has_source_append_iff:
  assumes ok: "heap_ok h r"
  shows "valid_ref h t \<Longrightarrow> has_source (h @ e) t s \<longleftrightarrow> has_source h t s"
proof
  assume "has_source (h @ e) t s" and "valid_ref h t"
  then show "has_source h t s"
  proof (induction rule: has_source.induct)
    case (src_property a k t s)
    then have a: "a < length h" and kt: "(k, t) \<in> set (Properties (h ! a))"
      by (auto simp: nth_append)
    then have "valid_ref h t" using heap_okD(3) [OF ok a] by force
    with src_property a kt show ?case by (auto intro: has_source.intros)
  qed (auto intro: has_source.intros simp: nth_append)
next
  assume "has_source h t s"
  then show "has_source (h @ e) t s"
  proof (induction rule: has_source.induct)
    case (src_structure a)
    then show ?case
      by (intro has_source.src_structure) (simp_all add: nth_append)
  next
    case (src_property a k t s)
    then show ?case
      by (intro has_source.src_property [of a _ k t]) (simp_all add: nth_append)
  qed (auto intro: has_source.intros)
qed

lemma extends_source:
  assumes "heap_ok h r" and "extends h r h' r'" and "valid_ref h t"
  shows "has_source h' t s \<longleftrightarrow> has_source h t s"
  using assms has_source_append_iff by (auto simp: extends_def)

lemma heap_ok_alloc:
  assumes ok: "heap_ok h r"
    and ob: "distinct (map fst (Properties ob))" "\<forall>t\<in>set (map snd (Properties ob)). valid_ref h t"
  shows "extends h r (h @ [ob]) (r(length h := length h))"
proof -
  let ?r = "r(length h := length h)"
  have valid: "valid_ref (h @ [ob]) t" if "valid_ref h t" for t
    using that by (cases t) auto
  have rank: "taint_rank ?r t = taint_rank r t" if "valid_ref h t" for t
    using that by (cases t) auto
  have old: "object_ok (h @ [ob]) ?r (r a) (h ! a)" if "a < length h" for a
    using heap_okD [OF ok that] valid rank by (auto simp: object_ok_def)
  have new: "object_ok (h @ [ob]) ?r (length h) ob"
    using ob valid rank heap_ok_fuel [OF ok] by (auto simp: object_ok_def)
  have "heap_ok (h @ [ob]) ?r"
    unfolding heap_ok_def
    using old new heap_okD(1) [OF ok] by (auto simp: nth_append less_Suc_eq)
  then show ?thesis by (simp add: extends_def)
qed

section \<open>Merging joins the sources\<close>

text \<open>The sources of a property list, by key.\<close>

definition props_source :: "taint_heap \<Rightarrow> prop_list \<Rightarrow> string \<Rightarrow> bool" where
  "props_source h ps s \<longleftrightarrow> (\<exists>k t. map_of ps k = Some t \<and> has_source h t s)"

definition props_valid :: "taint_heap \<Rightarrow> prop_list \<Rightarrow> bool" where
  "props_valid h ps \<longleftrightarrow> distinct (map fst ps) \<and> (\<forall>k t. map_of ps k = Some t \<longrightarrow> valid_ref h t)"

lemma props_valid_iff:
  "props_valid h ps \<longleftrightarrow> distinct (map fst ps) \<and> (\<forall>t\<in>set (map snd ps). valid_ref h t)"
  by (force simp: props_valid_def)

lemma props_source_set:
  "distinct (map fst ps) \<Longrightarrow> props_source h ps s \<longleftrightarrow> (\<exists>t\<in>set (map snd ps). has_source h t s)"
  by (simp add: props_source_def) force

lemma props_valid_object: "heap_ok h r \<Longrightarrow> a < length h \<Longrightarrow> props_valid h (Properties (h ! a))"
  using heap_okD by (auto simp: props_valid_iff)

lemma has_source_object:
  "heap_ok h r \<Longrightarrow> a < length h \<Longrightarrow>
     has_source h (ObjectRef a) s \<longleftrightarrow>
       (StructureTainted (h ! a) \<and> s = SourceUnknown) \<or> props_source h (Properties (h ! a)) s"
  using props_source_set [OF heap_okD(2)] by (auto simp: has_source_ObjectRef)

lemma props_valid_update:
  "props_valid h ps \<Longrightarrow> valid_ref h t \<Longrightarrow> props_valid h (AList.update k t ps)"
  by (auto simp: props_valid_def update_conv distinct_update split: if_splits)

lemma props_valid_extends:
  "extends h r h' r' \<Longrightarrow> props_valid h ps \<Longrightarrow> props_valid h' ps"
  by (auto simp: props_valid_def intro: extends_valid)

lemma props_source_extends:
  assumes "heap_ok h r" and "extends h r h' r'" and "props_valid h ps"
  shows "props_source h' ps s \<longleftrightarrow> props_source h ps s"
  using assms extends_source unfolding props_source_def props_valid_def by blast

text \<open>
  What a merge of two states has to do: it returns, only allocates, and the sources of its result
  are those of both operands.
\<close>

definition joins :: "taint_heap \<Rightarrow> (nat \<Rightarrow> nat) \<Rightarrow> (string \<Rightarrow> bool) \<Rightarrow> (taint \<times> taint_heap) option \<Rightarrow> bool" where
  "joins h r P res \<longleftrightarrow>
     (\<exists>t' h' r'. res = Some (t', h') \<and> extends h r h' r' \<and> valid_ref h' t' \<and>
        (\<forall>s. has_source h' t' s \<longleftrightarrow> P s))"

lemma merge_props_spec:
  assumes step: "\<And>h' r' t v. heap_ok h' r' \<Longrightarrow> valid_ref h' t \<Longrightarrow> taint_rank r' t \<le> n \<Longrightarrow> valid_ref h' v \<Longrightarrow>
      joins h' r' (\<lambda>s. has_source h' t s \<or> has_source h' v s) (mrg h' t v)"
  shows "heap_ok h r \<Longrightarrow> props_valid h merged \<Longrightarrow> props_valid h others \<Longrightarrow>
    (\<forall>k\<in>fst ` set others. \<forall>t. map_of merged k = Some t \<longrightarrow> taint_rank r t \<le> n) \<Longrightarrow>
    \<exists>ps h' r'. merge_props mrg h merged others = Some (ps, h') \<and> extends h r h' r' \<and>
      props_valid h' ps \<and>
      (\<forall>s. props_source h' ps s \<longleftrightarrow> props_source h merged s \<or> props_source h others s)"
proof (induction others arbitrary: h r merged)
  case Nil
  then have "merge_props mrg h merged [] = Some (merged, h)" by simp
  with Nil show ?case
    by (intro exI [of _ merged] exI [of _ h] exI [of _ r]) (auto simp: props_source_def)
next
  case (Cons kv others)
  obtain k v where kv: "kv = (k, v)" by (cases kv)
  have v: "valid_ref h v" and knew: "k \<notin> fst ` set others" and ov: "props_valid h others"
    using Cons.prems(3) by (auto simp: kv props_valid_def split: if_splits)
  have "map_of others k = None" using knew by (simp add: map_of_eq_None_iff)
  then have src_others: "props_source h ((k, v) # others) s \<longleftrightarrow> has_source h v s \<or> props_source h others s" for s
    unfolding props_source_def by (simp only: map_of.simps fst_conv snd_conv ex_map_upd_fresh)
  show ?case
  proof (cases "map_of merged k")
    case None
    let ?m = "AList.update k v merged"
    have m: "props_valid h ?m" by (rule props_valid_update [OF Cons.prems(2) v])
    have src_m: "props_source h ?m s \<longleftrightarrow> props_source h merged s \<or> has_source h v s" for s
      unfolding props_source_def update_conv' ex_map_upd_fresh [of "map_of merged", OF None]
      by (rule disj_commute)
    have rank: "\<forall>k'\<in>fst ` set others. \<forall>t. map_of ?m k' = Some t \<longrightarrow> taint_rank r t \<le> n"
      using Cons.prems(4) knew by (auto simp: kv update_conv)
    from Cons.IH [OF Cons.prems(1) m ov rank] show ?thesis
      using None by (auto simp: kv src_m src_others)
  next
    case (Some existing)
    have e: "valid_ref h existing" "taint_rank r existing \<le> n"
      using Some Cons.prems(2,4) by (auto simp: kv props_valid_def)
    obtain t' h' r' where st: "mrg h existing v = Some (t', h')" "extends h r h' r'" "valid_ref h' t'"
        "\<forall>s. has_source h' t' s \<longleftrightarrow> has_source h existing s \<or> has_source h v s"
      using step [OF Cons.prems(1) e v] by (auto simp: joins_def)
    let ?m = "AList.update k t' merged"
    have ok': "heap_ok h' r'" using st(2) by (rule extends_ok)
    have m: "props_valid h' ?m"
      using props_valid_extends [OF st(2) Cons.prems(2)] st(3) by (rule props_valid_update)
    have ov': "props_valid h' others" by (rule props_valid_extends [OF st(2) ov])
    have same: "has_source h' t s \<longleftrightarrow> has_source h t s" if "map_of merged k' = Some t" for k' t s
      using that Cons.prems(2) extends_source [OF Cons.prems(1) st(2)] by (auto simp: props_valid_def)
    have src_m: "props_source h' ?m s \<longleftrightarrow> props_source h merged s \<or> has_source h v s" for s
    proof -
      have "props_source h' ?m s \<longleftrightarrow>
          has_source h' t' s \<or> (\<exists>k' t. k' \<noteq> k \<and> map_of merged k' = Some t \<and> has_source h' t s)"
        unfolding props_source_def update_conv by auto
      also have "\<dots> \<longleftrightarrow> has_source h existing s \<or> has_source h v s \<or>
          (\<exists>k' t. k' \<noteq> k \<and> map_of merged k' = Some t \<and> has_source h t s)"
        using st(4) same by blast
      also have "\<dots> \<longleftrightarrow> props_source h merged s \<or> has_source h v s"
        using Some unfolding props_source_def by (metis option.inject)
      finally show ?thesis .
    qed
    have rank: "\<forall>k'\<in>fst ` set others. \<forall>t. map_of ?m k' = Some t \<longrightarrow> taint_rank r' t \<le> n"
    proof (intro ballI allI impI)
      fix k' t assume k': "k' \<in> fst ` set others" and "map_of ?m k' = Some t"
      with knew have t: "map_of merged k' = Some t" by (auto simp: update_conv split: if_splits)
      then have "taint_rank r t \<le> n" using Cons.prems(4) k' by (auto simp: kv)
      then show "taint_rank r' t \<le> n"
        using t Cons.prems(2) extends_rank [OF st(2)] by (auto simp: props_valid_def)
    qed
    from Cons.IH [OF ok' m ov' rank] obtain ps h2 r2 where res:
      "merge_props mrg h' ?m others = Some (ps, h2)" "extends h' r' h2 r2" "props_valid h2 ps"
      "\<forall>s. props_source h2 ps s \<longleftrightarrow> props_source h' ?m s \<or> props_source h' others s" by blast
    have "extends h r h2 r2" by (rule extends_trans [OF st(2) res(2)])
    moreover have "props_source h' others s \<longleftrightarrow> props_source h others s" for s
      by (rule props_source_extends [OF Cons.prems(1) st(2) ov])
    ultimately show ?thesis
      using Some st(1) res by (auto simp: kv src_m src_others)
  qed
qed

lemma SimpleTaint_Merge_spec:
  assumes ok: "heap_ok h r" and other: "\<forall>t. other = Some t \<longrightarrow> valid_ref h t"
  shows "\<exists>t'. SimpleTaint_Merge h S l other = Some t' \<and> valid_ref h t' \<and>
           (\<forall>s. has_source h t' s \<longleftrightarrow> s \<in> S \<or> opt_source h other s)"
proof (cases other)
  case None
  then show ?thesis by (simp add: SimpleTaint_Merge_def)
next
  case (Some t)
  with other have "valid_ref h t" by simp
  note t = IsTainted_spec [OF ok this] GetSources_spec [OF ok this]
  show ?thesis
  proof (cases "(\<exists>s. has_source h t s) \<and> S \<noteq> {}")
    case True
    then show ?thesis
      using Some t by (auto simp: SimpleTaint_Merge_def mergeSources_def Let_def)
  next
    case False
    then show ?thesis
      using Some t \<open>valid_ref h t\<close> by (auto simp: SimpleTaint_Merge_def)
  qed
qed

lemma mergeF_spec:
  "heap_ok h r \<Longrightarrow> valid_ref h t \<Longrightarrow> taint_rank r t \<le> n \<Longrightarrow> \<forall>v. other = Some v \<longrightarrow> valid_ref h v \<Longrightarrow>
     joins h r (\<lambda>s. has_source h t s \<or> opt_source h other s) (mergeF n h t other)"
proof (induction n arbitrary: h r t other)
  case 0
  then show ?case by (cases t) auto
next
  case (Suc n)
  note ok = Suc.prems(1)
  have keep: "joins h r P (Some (x, h))" if "valid_ref h x" "\<And>s. has_source h x s \<longleftrightarrow> P s" for x P
    unfolding joins_def using that ok by (intro exI [of _ x] exI [of _ h] exI [of _ r]) simp
  show ?case
  proof (cases t)
    case (SimpleTaint S l)
    then show ?thesis
      using SimpleTaint_Merge_spec [OF ok Suc.prems(4), of S l] keep by auto
  next
    case (ObjectRef a)
    then have a: "a < length h" and ra: "Suc (r a) \<le> n" using Suc.prems by auto
    show ?thesis
    proof (cases other)
      case None
      then show ?thesis using ObjectRef Suc.prems(2) keep by auto
    next
      case (Some v)
      then have v: "valid_ref h v" using Suc.prems(4) by simp
      show ?thesis
      proof (cases "\<exists>s. has_source h v s")
        case False
        then show ?thesis
          using Some ObjectRef Suc.prems(2) IsTainted_spec [OF ok v] keep by auto
      next
        case True
        then have tv: "IsTainted h v = Some True" using IsTainted_spec [OF ok v] by simp
        show ?thesis
        proof (cases v)
          case (SimpleTaint S l)
          have "\<forall>x. Some (ObjectRef a) = Some x \<longrightarrow> valid_ref h x" using a by simp
          from SimpleTaint_Merge_spec [OF ok this, of S l] show ?thesis
            using Some ObjectRef tv SimpleTaint by (auto intro!: keep)
        next
          case ref: (ObjectRef c)
          then have c: "c < length h" using v by simp
          let ?mrg = "\<lambda>h' t' o'. mergeF n h' t' (Some o')"
          have step: "joins h' r' (\<lambda>s. has_source h' t s \<or> has_source h' v s) (?mrg h' t v)"
            if "heap_ok h' r'" "valid_ref h' t" "taint_rank r' t \<le> n" "valid_ref h' v" for h' r' t v
            using Suc.IH [OF that(1-3), of "Some v"] that(4) by simp
          have rank: "\<forall>k\<in>fst ` set (Properties (h ! c)). \<forall>t. map_of (Properties (h ! a)) k = Some t \<longrightarrow>
              taint_rank r t \<le> n"
            using heap_okD(4) [OF ok a] ra by (force dest: map_of_SomeD)
          obtain ps h' r' where mp:
            "merge_props ?mrg h (Properties (h ! a)) (Properties (h ! c)) = Some (ps, h')"
            "extends h r h' r'" "props_valid h' ps"
            "\<forall>s. props_source h' ps s \<longleftrightarrow>
               props_source h (Properties (h ! a)) s \<or> props_source h (Properties (h ! c)) s"
            using merge_props_spec [of n ?mrg, OF step ok props_valid_object [OF ok a]
                props_valid_object [OF ok c] rank] by blast
          define ob where "ob = \<lparr>Properties = ps,
              StructureTainted = (StructureTainted (h ! a) \<or> StructureTainted (h ! c))\<rparr>"
          have ok': "heap_ok h' r'" using mp(2) by (rule extends_ok)
          have ext: "extends h' r' (h' @ [ob]) (r'(length h' := length h'))"
            using mp(3) by (intro heap_ok_alloc [OF ok']) (auto simp: ob_def props_valid_iff)
          have "props_source (h' @ [ob]) ps s \<longleftrightarrow> props_source h' ps s" for s
            by (rule props_source_extends [OF ok' ext mp(3)])
          then have "has_source (h' @ [ob]) (ObjectRef (length h')) s \<longleftrightarrow>
              has_source h t s \<or> has_source h v s" for s
            using has_source_object [OF extends_ok [OF ext], of "length h'"] mp(4)
              has_source_object [OF ok a] has_source_object [OF ok c]
            by (auto simp: ob_def ObjectRef ref)
          moreover have "mergeF (Suc n) h t other = Some (ObjectRef (length h'), h' @ [ob])"
            using Some ObjectRef tv ref mp(1) a c by (simp add: ob_def heap_get_def)
          ultimately show ?thesis
            using extends_trans [OF mp(2) ext] Some by (auto simp: joins_def)
        qed
      qed
    qed
  qed
qed

lemma Merge_spec:
  assumes "heap_ok h r" and "valid_ref h t" and "\<forall>v. other = Some v \<longrightarrow> valid_ref h v"
  shows "joins h r (\<lambda>s. has_source h t s \<or> opt_source h other s) (Merge h t other)"
  unfolding Merge_def
  by (rule mergeF_spec [OF assms(1,2) heap_ok_fuel [OF assms(1,2)] assms(3)])

section \<open>Properties of single objects\<close>

lemma GetPropertyTaint_spec:
  assumes ok: "heap_ok h r" and a: "a < length h"
  shows "\<exists>res. GetPropertyTaint h a p = Some res \<and>
           (\<forall>t. res = Some t \<longrightarrow> valid_ref h t \<and> (\<exists>s. has_source h t s)) \<and>
           (\<forall>s. opt_source h res s \<longrightarrow> has_source h (ObjectRef a) s)"
proof -
  have src: "has_source h t s \<Longrightarrow> map_of (Properties (h ! a)) p = Some t \<Longrightarrow> has_source h (ObjectRef a) s"
    for t s using a by (auto intro: has_source.src_property dest: map_of_SomeD)
  have str: "StructureTainted (h ! a) \<Longrightarrow> has_source h (ObjectRef a) SourceUnknown"
    using a by (rule has_source.src_structure)
  have ne: "SourceUnknown \<noteq> []" by (simp add: SourceUnknown_def)
  show ?thesis
  proof (cases "map_of (Properties (h ! a)) p")
    case None
    then show ?thesis
      using a str ne by (auto simp: GetPropertyTaint_def heap_get_def NewSimpleTaint_def Let_def)
  next
    case (Some t)
    then have v: "valid_ref h t"
      using heap_okD(3) [OF ok a] by (force dest: map_of_SomeD)
    show ?thesis
      using Some a str src v IsTainted_spec [OF ok v] ne
      by (auto simp: GetPropertyTaint_def heap_get_def NewSimpleTaint_def Let_def)
  qed
qed

text \<open>
  A property write on an object keeps the heap well-formed when the written state has a lower rank
  than the object, as every state built before the object has; nothing else guarantees it.
\<close>

lemma props_valid_delete: "props_valid h ps \<Longrightarrow> props_valid h (AList.delete k ps)"
  by (auto simp: props_valid_def delete_conv' distinct_delete split: if_splits)

lemma heap_ok_put_props:
  assumes ok: "heap_ok h r" and a: "a < length h"
    and ps: "props_valid h ps" "\<forall>k t. map_of ps k = Some t \<longrightarrow> taint_rank r t \<le> Suc (r a)"
  shows "heap_ok (put_props h a ps) r"
proof -
  have valid: "valid_ref (put_props h a ps) t = valid_ref h t" for t
    by (cases t) (auto simp: put_props_def)
  have "object_ok (put_props h a ps) r (r b) (put_props h a ps ! b)" if "b < length h" for b
  proof (cases "b = a")
    case True
    have d: "distinct (map fst ps)" using ps(1) by (simp add: props_valid_def)
    then have "\<forall>t\<in>set (map snd ps). valid_ref h t \<and> taint_rank r t \<le> Suc (r a)"
      using ps by (auto simp: props_valid_def)
    with d True a show ?thesis by (simp add: object_ok_def valid) (simp add: put_props_def)
  next
    case False
    then show ?thesis
      using heap_okD [OF ok that] by (simp add: object_ok_def valid) (simp add: put_props_def)
  qed
  then show ?thesis
    using heap_okD(1) [OF ok] by (simp add: heap_ok_def put_props_def)
qed

section \<open>The interface the walker uses\<close>

text \<open>
  \<^verbatim>\<open>TaintState\<close> as the tree walker relies on it: both reads return, a state is tainted exactly when
  it has a source, a merge returns a state with the sources of both and disturbs no older state.
\<close>

locale taint_states =
  fixes tainted :: "'h \<Rightarrow> 't \<Rightarrow> bool option"
    and sources :: "'h \<Rightarrow> 't \<Rightarrow> string set option"
    and merge :: "'h \<Rightarrow> 't \<Rightarrow> 't option \<Rightarrow> ('t \<times> 'h) option"
    and good :: "'h \<Rightarrow> 't \<Rightarrow> bool"
    and grows :: "'h \<Rightarrow> 'h \<Rightarrow> bool"
  assumes reads: "good h t \<Longrightarrow> \<exists>S. sources h t = Some S \<and> tainted h t = Some (S \<noteq> {})"
    and merge_nil: "good h t \<Longrightarrow> merge h t None = Some (t, h)"
    and merge_join: "good h t \<Longrightarrow> good h v \<Longrightarrow>
      \<exists>t' h'. merge h t (Some v) = Some (t', h') \<and> good h' t' \<and> grows h h' \<and>
        sources h' t' = Some (the (sources h t) \<union> the (sources h v))"
    and grows_good: "grows h h' \<Longrightarrow> good h t \<Longrightarrow> good h' t \<and> sources h' t = sources h t"
begin

lemma merge_sources:
  assumes "good h t" and "good h v" and "merge h t (Some v) = Some (t', h')"
  shows "good h' t'" and "grows h h'"
    and "sources h' t' = Some (the (sources h t) \<union> the (sources h v))"
  using merge_join [OF assms(1,2)] assms(3) by auto

lemma merge_commutes:
  assumes "good h t" and "good h v"
    and "merge h t (Some v) = Some (x, h1)" and "merge h v (Some t) = Some (y, h2)"
  shows "sources h1 x = sources h2 y"
  using merge_sources(3) [OF assms(1,2,3)] merge_sources(3) [OF assms(2,1,4)] by (simp add: Un_commute)

lemma merge_idempotent:
  assumes "good h t" and "merge h t (Some t) = Some (x, h')"
  shows "sources h' x = sources h t"
  using merge_sources(3) [OF assms(1,1,2)] reads [OF assms(1)] by auto

lemma merge_associates:
  assumes g: "good h t" "good h v" "good h w"
    and l: "merge h t (Some v) = Some (tv, h1)" "merge h1 tv (Some w) = Some (x, h2)"
    and rr: "merge h v (Some w) = Some (vw, k1)" "merge k1 t (Some vw) = Some (y, k2)"
  shows "sources h2 x = sources k2 y"
proof -
  note a = merge_sources [OF g(1,2) l(1)] and b = merge_sources [OF g(2,3) rr(1)]
  have w1: "good h1 w" "sources h1 w = sources h w" using grows_good [OF a(2) g(3)] by auto
  have t1: "good k1 t" "sources k1 t = sources h t" using grows_good [OF b(2) g(1)] by auto
  show ?thesis
    using merge_sources(3) [OF a(1) w1(1) l(2)] merge_sources(3) [OF t1(1) b(1) rr(2)] a(3) b(3) w1(2) t1(2)
    by (simp add: Un_assoc)
qed

end

definition good_state :: "taint_heap \<Rightarrow> taint \<Rightarrow> bool" where
  "good_state h t \<longleftrightarrow> (\<exists>r. heap_ok h r) \<and> valid_ref h t"

definition heap_grows :: "taint_heap \<Rightarrow> taint_heap \<Rightarrow> bool" where
  "heap_grows h h' \<longleftrightarrow> (\<exists>e. h' = h @ e) \<and> (\<exists>r. heap_ok h' r)"

interpretation states: taint_states IsTainted GetSources Merge good_state heap_grows
proof (unfold_locales, goal_cases)
  case (1 h t)
  then show ?case
    using IsTainted_spec GetSources_spec by (auto simp: good_state_def)
next
  case (2 h t)
  then show ?case
    by (cases t) (simp_all add: Merge_def SimpleTaint_Merge_def)
next
  case (3 h t v)
  then obtain r where r: "heap_ok h r" "valid_ref h t" "valid_ref h v" by (auto simp: good_state_def)
  then obtain t' h' r' where m: "Merge h t (Some v) = Some (t', h')" "extends h r h' r'" "valid_ref h' t'"
      "\<forall>s. has_source h' t' s \<longleftrightarrow> has_source h t s \<or> has_source h v s"
    using Merge_spec [of h r t "Some v"] by (auto simp: joins_def)
  then show ?case
    using r GetSources_spec [OF extends_ok [OF m(2)] m(3)] GetSources_spec [OF r(1,2)] GetSources_spec [OF r(1,3)]
    by (auto simp: good_state_def heap_grows_def extends_def)
next
  case (4 h h' t)
  then obtain r r' e where r: "heap_ok h r" "heap_ok h' r'" "h' = h @ e" "valid_ref h t"
    by (auto simp: good_state_def heap_grows_def)
  then have v: "valid_ref h' t" by (cases t) auto
  then show ?case
    using r GetSources_spec [OF r(2) v] GetSources_spec [OF r(1,4)] has_source_append_iff [OF r(1,4)]
    by (auto simp: good_state_def)
qed

section \<open>Theorems\<close>

text \<open>
  C22. On a well-formed heap a merge of two taint states always returns, its sources are the union
  of theirs, it is tainted exactly when one of them is, and the operands and every other older
  state keep their sources, whatever mix of values and (aliased) objects is merged.
\<close>

theorem taint_merge_is_join:
  assumes "good_state h t" and "good_state h v"
  shows "\<exists>t' h' S V. Merge h t (Some v) = Some (t', h') \<and> GetSources h t = Some S \<and> GetSources h v = Some V \<and>
           GetSources h' t' = Some (S \<union> V) \<and> IsTainted h' t' = Some (S \<union> V \<noteq> {}) \<and> good_state h' t' \<and>
           (\<forall>u. good_state h u \<longrightarrow> good_state h' u \<and> GetSources h' u = GetSources h u)"
proof -
  obtain S V where SV: "GetSources h t = Some S" "GetSources h v = Some V"
    using states.reads [OF assms(1)] states.reads [OF assms(2)] by blast
  obtain t' h' where m: "Merge h t (Some v) = Some (t', h')" "good_state h' t'" "heap_grows h h'"
      "GetSources h' t' = Some (S \<union> V)"
    using states.merge_join [OF assms] SV by auto
  moreover have "IsTainted h' t' = Some (S \<union> V \<noteq> {})"
    using states.reads [OF m(2)] m(4) by auto
  ultimately show ?thesis
    using SV states.grows_good [OF m(3)] by blast
qed

definition example_heap :: taint_heap where
  "example_heap = [\<lparr>Properties = [(''a'', SimpleTaint {''location.hash''} 3)], StructureTainted = False\<rparr>]"

lemma example_heap_ok: "heap_ok example_heap (\<lambda>_. 0)"
  by (simp add: heap_ok_def object_ok_def example_heap_def)

theorem taint_merge_is_join_witness:
  "\<exists>t' h' S V. Merge example_heap (ObjectRef 0) (Some (SimpleTaint {''window.name''} 5)) = Some (t', h') \<and>
     GetSources example_heap (ObjectRef 0) = Some S \<and>
     GetSources example_heap (SimpleTaint {''window.name''} 5) = Some V \<and>
     GetSources h' t' = Some (S \<union> V)"
proof -
  have g: "good_state example_heap (ObjectRef 0)" "good_state example_heap (SimpleTaint {''window.name''} 5)"
    using example_heap_ok by (auto simp: good_state_def example_heap_def)
  show ?thesis using taint_merge_is_join [OF g] by blast
qed

text \<open>
  The joined representative source of a multi-source state is unambiguous: splitting it at the
  bar gives back exactly the sources in order, so long as no source holds a bar itself.
\<close>

theorem simple_source_split:
  assumes "finite S" and "S \<noteq> {}" and "\<forall>s\<in>S. CHR ''|'' \<notin> set s"
  shows "Split (simple_source S) (CHR ''|'') = sorted_list_of_set S"
proof -
  have "simple_source S = Join (sorted_list_of_set S) ''|''"
    using assms(2) by (auto simp: simple_source_def split: list.splits)
  moreover have "sorted_list_of_set S \<noteq> []" using assms(1,2) by simp
  ultimately show ?thesis
    using assms(1,3) by (simp add: Split_Join)
qed

theorem simple_source_split_witness:
  "Split (simple_source {''param:1'', ''param:0''}) (CHR ''|'') = [''param:0'', ''param:1'']"
proof -
  have "Split (simple_source {''param:1'', ''param:0''}) (CHR ''|'') =
      sorted_list_of_set {''param:1'', ''param:0''}"
    by (rule simple_source_split) auto
  also have "\<dots> = [''param:0'', ''param:1'']" by code_simp
  finally show ?thesis .
qed

end
