(* ===== verification/JsTree.thy ===== *)
theory JsTree
  imports Prelude
begin

text \<open>
  Syntax trees as the analyser sees them, and \<^verbatim>\<open>internal/analysis/static/javascript/helpers.go\<close>.
  Parsing is done by tree-sitter, which is not part of the program: a tree is any value of
  \<open>node\<close>, with the observations the code makes of a \<^verbatim>\<open>sitter.Node\<close> (type, byte range, start point,
  children in order, and the field name under which a child hangs at its parent). A nil node is
  \<open>None\<close>.
\<close>

section \<open>Nodes\<close>

datatype node =
  Node (fieldName: "string option") (nodeType: string) (StartByte: nat) (EndByte: nat)
       (StartRow: nat) (StartColumn: nat) (children: "node list")

definition ChildByFieldName :: "node \<Rightarrow> string \<Rightarrow> node option" where
  "ChildByFieldName n f = find (\<lambda>c. fieldName c = Some f) (children n)"

definition Child :: "node \<Rightarrow> nat \<Rightarrow> node option" where
  "Child n i = (if i < length (children n) then Some (children n ! i) else None)"

definition ChildCount :: "node \<Rightarrow> nat" where
  "ChildCount n = length (children n)"

text \<open>\<^verbatim>\<open>Content\<close> slices the source by the node's byte range.\<close>

definition Content :: "string \<Rightarrow> node \<Rightarrow> string" where
  "Content src n = take (EndByte n - StartByte n) (drop (StartByte n) src)"

definition NodeContent :: "string \<Rightarrow> node option \<Rightarrow> string" where
  "NodeContent src n = (case n of None \<Rightarrow> [] | Some m \<Rightarrow> Content src m)"

lemma size_child [simp]: "c \<in> set (children n) \<Longrightarrow> size c < size n"
  by (cases n) (auto simp: size_list_estimation' less_Suc_eq_le)

lemma ChildByFieldName_child: "ChildByFieldName n f = Some c \<Longrightarrow> c \<in> set (children n)"
  by (auto simp: ChildByFieldName_def find_Some_iff)

lemma Child_child: "Child n i = Some c \<Longrightarrow> c \<in> set (children n)"
  by (auto simp: Child_def split: if_splits)

lemma size_ChildByFieldName: "ChildByFieldName n f = Some c \<Longrightarrow> size c < size n"
  by (simp add: ChildByFieldName_child)

text \<open>The height of a tree bounds the depth of every recursion over it.\<close>

fun height :: "node \<Rightarrow> nat" where
  "height (Node _ _ _ _ _ _ cs) = Suc (fold max (map height cs) 0)"

lemma fold_max_ge: "(m::nat) \<le> fold max xs m" "x \<in> set xs \<Longrightarrow> x \<le> fold max xs m"
proof (induction xs arbitrary: m)
  case (Cons y ys)
  { case 1 show ?case using Cons.IH(1) [of "max y m"] by simp }
  { case 2 then show ?case using Cons.IH(1) [of "max y m"] Cons.IH(2) [of "max y m"] by auto }
qed simp_all

lemma height_child: "c \<in> set (children n) \<Longrightarrow> height c < height n"
  by (cases n) (auto simp: less_Suc_eq_le intro: fold_max_ge(2))

lemma height_pos [simp]: "0 < height n"
  by (cases n) simp

section \<open>Flattening a property chain\<close>

definition quote_chars :: "char set" where
  "quote_chars = {CHR 0x22, CHR 0x27, CHR 0x60}"

function flatten_loop :: "string \<Rightarrow> node option \<Rightarrow> string list \<Rightarrow> string list option" where
  "flatten_loop src None path = None"
| "flatten_loop src (Some n) path =
     (if nodeType n = ''identifier'' then Some (Content src n # path)
      else if nodeType n = ''this'' then Some (''this'' # path)
      else if nodeType n = ''member_expression'' then
        (case (ChildByFieldName n ''property'', ChildByFieldName n ''object'') of
           (Some property, Some object) \<Rightarrow>
             if nodeType property = ''identifier'' \<or> nodeType property = ''property_identifier''
             then flatten_loop src (Some object) (Content src property # path)
             else None
         | _ \<Rightarrow> None)
      else if nodeType n = ''subscript_expression'' then
        (case (ChildByFieldName n ''index'', ChildByFieldName n ''object'') of
           (Some index, Some object) \<Rightarrow>
             if nodeType index = ''string''
             then flatten_loop src (Some object) (Trim (Content src index) quote_chars # path)
             else None
         | _ \<Rightarrow> None)
      else None)"
  by pat_completeness auto
termination
  by (relation "measure (\<lambda>(_, n, _). case n of None \<Rightarrow> 0 | Some m \<Rightarrow> size m)")
    (auto split: option.splits dest: size_ChildByFieldName)

declare flatten_loop.simps(2) [simp del]

definition flattenPropertyAccess :: "string \<Rightarrow> node option \<Rightarrow> string list option" where
  "flattenPropertyAccess src n = flatten_loop src n []"

text \<open>A successful flattening extends the collected path, so it is never empty.\<close>

lemma flatten_loop_suffix:
  "flatten_loop src n path = Some p \<Longrightarrow> \<exists>q. q \<noteq> [] \<and> p = q @ path"
proof (induction src n path rule: flatten_loop.induct)
  case (1 src path)
  then show ?case by simp
next
  case (2 src n path)
  note step = flatten_loop.simps(2) [of src n path]
  consider (base) "nodeType n = ''identifier'' \<or> nodeType n = ''this''"
    | (mem) "nodeType n = ''member_expression''"
    | (sub) "nodeType n = ''subscript_expression''"
    | (other) "nodeType n \<notin> {''identifier'', ''this'', ''member_expression'', ''subscript_expression''}"
    by blast
  then show ?case
  proof cases
    case base
    with 2(3) show ?thesis by (auto simp: step)
  next
    case mem
    then obtain property object where po: "ChildByFieldName n ''property'' = Some property"
        "ChildByFieldName n ''object'' = Some object"
        "nodeType property = ''identifier'' \<or> nodeType property = ''property_identifier''"
        "flatten_loop src (Some object) (Content src property # path) = Some p"
      using 2(3) by (auto simp: step split: option.splits if_splits)
    then obtain q where "p = q @ Content src property # path"
      using 2(1) [of "Some property" "Some object" property object] mem by auto
    then show ?thesis by (intro exI [of _ "q @ [Content src property]"]) simp
  next
    case sub
    then obtain index object where io: "ChildByFieldName n ''index'' = Some index"
        "ChildByFieldName n ''object'' = Some object" "nodeType index = ''string''"
        "flatten_loop src (Some object) (Trim (Content src index) quote_chars # path) = Some p"
      using 2(3) by (auto simp: step split: option.splits if_splits)
    then obtain q where "p = q @ Trim (Content src index) quote_chars # path"
      using 2(2) [of "Some index" "Some object" index object] sub by auto
    then show ?thesis by (intro exI [of _ "q @ [Trim (Content src index) quote_chars]"]) simp
  next
    case other
    with 2(3) show ?thesis by (auto simp: step)
  qed
qed

lemma flattenPropertyAccess_not_Nil: "flattenPropertyAccess src n = Some p \<Longrightarrow> p \<noteq> []"
  using flatten_loop_suffix by (fastforce simp: flattenPropertyAccess_def)

section \<open>Locations\<close>

record LocationInfo =
  lFile :: string
  lLine :: nat
  lColumn :: nat
  lSnippet :: string

definition newline :: char where
  "newline = CHR 0x0A"

fun scan_back :: "string \<Rightarrow> nat \<Rightarrow> nat" where
  "scan_back src 0 = (if src ! 0 = newline then 1 else 0)"
| "scan_back src (Suc i) = (if src ! Suc i = newline then Suc i + 1 else scan_back src i)"

text \<open>The byte offset is never negative here, so the guard for negative indices has no case.\<close>

definition findLineStart :: "string \<Rightarrow> nat \<Rightarrow> nat" where
  "findLineStart src idx =
     (if idx \<ge> length src
      then (if length src = 0 then 0 else scan_back src (length src - 1))
      else scan_back src idx)"

function findLineEnd :: "string \<Rightarrow> nat \<Rightarrow> nat" where
  "findLineEnd src i =
     (if i < length src
      then (if src ! i = newline then i else findLineEnd src (Suc i))
      else length src)"
  by pat_completeness auto
termination
  by (relation "measure (\<lambda>(src, i). length src - i)") auto

declare findLineEnd.simps [simp del]

definition FormatLocation :: "string \<Rightarrow> node option \<Rightarrow> string \<Rightarrow> LocationInfo" where
  "FormatLocation file n src =
     (case n of
        None \<Rightarrow> \<lparr>lFile = file, lLine = 0, lColumn = 0, lSnippet = ''N/A''\<rparr>
      | Some m \<Rightarrow>
          (let snippet =
             (if EndByte m \<le> length src \<and> StartByte m < EndByte m
              then (let lineStart = findLineStart src (StartByte m);
                        lineEnd = findLineEnd src (StartByte m)
                    in if lineEnd > lineStart
                       then TrimSpace (take (lineEnd - lineStart) (drop lineStart src))
                       else Content src m)
              else ''N/A'')
           in \<lparr>lFile = file, lLine = StartRow m + 1, lColumn = StartColumn m + 1, lSnippet = snippet\<rparr>))"

lemma scan_back_bounds:
  assumes "i < length src" and "src ! i \<noteq> newline"
  shows "scan_back src i \<le> i" and "\<forall>j. scan_back src i \<le> j \<and> j \<le> i \<longrightarrow> src ! j \<noteq> newline"
    and "scan_back src i = 0 \<or> src ! (scan_back src i - 1) = newline"
proof -
  have "scan_back src i \<le> Suc i \<and> (\<forall>j. scan_back src i \<le> j \<and> j \<le> i \<longrightarrow> src ! j \<noteq> newline) \<and>
      (scan_back src i = 0 \<or> src ! (scan_back src i - 1) = newline)" for i
  proof (induction i)
    case 0
    then show ?case by simp
  next
    case (Suc i)
    then show ?case by (auto simp: le_Suc_eq)
  qed
  moreover have "scan_back src i \<noteq> Suc i" using assms(2) calculation [of i] by fastforce
  ultimately show "scan_back src i \<le> i" and "\<forall>j. scan_back src i \<le> j \<and> j \<le> i \<longrightarrow> src ! j \<noteq> newline"
    and "scan_back src i = 0 \<or> src ! (scan_back src i - 1) = newline"
    by (meson le_SucE)+
qed

lemma findLineEnd_bounds:
  assumes "i \<le> length src"
  shows "i \<le> findLineEnd src i" and "findLineEnd src i \<le> length src"
    and "\<forall>j. i \<le> j \<and> j < findLineEnd src i \<longrightarrow> src ! j \<noteq> newline"
    and "findLineEnd src i = length src \<or> src ! findLineEnd src i = newline"
proof -
  have "i \<le> findLineEnd src i \<and> findLineEnd src i \<le> length src \<and>
      (\<forall>j. i \<le> j \<and> j < findLineEnd src i \<longrightarrow> src ! j \<noteq> newline) \<and>
      (findLineEnd src i = length src \<or> src ! findLineEnd src i = newline)"
    using assms
  proof (induction src i rule: findLineEnd.induct)
    case (1 src i)
    show ?case
    proof (cases "i < length src \<and> src ! i \<noteq> newline")
      case True
      then have e: "findLineEnd src i = findLineEnd src (Suc i)" by (subst findLineEnd.simps) simp
      have ih: "Suc i \<le> findLineEnd src (Suc i) \<and> findLineEnd src (Suc i) \<le> length src \<and>
          (\<forall>j. Suc i \<le> j \<and> j < findLineEnd src (Suc i) \<longrightarrow> src ! j \<noteq> newline) \<and>
          (findLineEnd src (Suc i) = length src \<or> src ! findLineEnd src (Suc i) = newline)"
        using 1 True by simp
      then show ?thesis
        unfolding e using True by (metis Suc_leD Suc_leI le_neq_implies_less)
    next
      case False
      with 1(2) show ?thesis by (subst (1 2 3 4 5) findLineEnd.simps) auto
    qed
  qed
  then show "i \<le> findLineEnd src i" and "findLineEnd src i \<le> length src"
    and "\<forall>j. i \<le> j \<and> j < findLineEnd src i \<longrightarrow> src ! j \<noteq> newline"
    and "findLineEnd src i = length src \<or> src ! findLineEnd src i = newline" by blast+
qed

text \<open>
  The snippet reported for a node inside the source that does not start at a line break is the
  trimmed text of the one line it starts on: the reported range starts right after a line break (or
  at the start of the file), ends at the next one (or at the end), holds no line break and contains
  the node's first byte.
\<close>

theorem format_location_line:
  assumes "EndByte m \<le> length src" and "StartByte m < EndByte m" and "src ! StartByte m \<noteq> newline"
  shows "\<exists>a b. lSnippet (FormatLocation file (Some m) src) = TrimSpace (take (b - a) (drop a src)) \<and>
           a \<le> StartByte m \<and> StartByte m < b \<and> b \<le> length src \<and>
           (\<forall>j. a \<le> j \<and> j < b \<longrightarrow> src ! j \<noteq> newline) \<and>
           (a = 0 \<or> src ! (a - 1) = newline) \<and> (b = length src \<or> src ! b = newline) \<and>
           lLine (FormatLocation file (Some m) src) = StartRow m + 1"
proof -
  let ?i = "StartByte m" and ?a = "findLineStart src (StartByte m)" and ?b = "findLineEnd src (StartByte m)"
  have i: "?i < length src" using assms(1,2) by simp
  have a: "?a = scan_back src ?i" using i by (simp add: findLineStart_def)
  note sb = scan_back_bounds [OF i assms(3), folded a]
  note le = findLineEnd_bounds [OF less_imp_le [OF i]]
  have "?b \<noteq> ?i" using le(4) i assms(3) by auto
  then have ib: "?i < ?b" using le(1) by simp
  have clean: "\<forall>j. ?a \<le> j \<and> j < ?b \<longrightarrow> src ! j \<noteq> newline"
    using sb(2) le(3) by (meson nat_le_linear)
  have "lSnippet (FormatLocation file (Some m) src) = TrimSpace (take (?b - ?a) (drop ?a src))"
    using assms(1,2) ib sb(1) by (simp add: FormatLocation_def Let_def)
  moreover have "lLine (FormatLocation file (Some m) src) = StartRow m + 1"
    by (simp add: FormatLocation_def Let_def)
  ultimately show ?thesis
    using sb ib le(2,4) clean by blast
qed

theorem format_location_line_witness:
  "\<exists>a b. lSnippet (FormatLocation ''f.js'' (Some (Node None ''identifier'' 1 2 0 1 [])) ''ab'') =
       TrimSpace (take (b - a) (drop a ''ab'')) \<and> a \<le> 1 \<and> 1 < b"
proof -
  let ?m = "Node None ''identifier'' 1 2 0 1 []"
  have "EndByte ?m \<le> length ''ab''" "StartByte ?m < EndByte ?m" "''ab'' ! StartByte ?m \<noteq> newline"
    by (simp_all add: newline_def)
  from format_location_line [OF this, of "''f.js''"] show ?thesis by auto
qed

end
