(* ===== verification/JsWalker.thy ===== *)
theory JsWalker
  imports JsTaint JsTree
begin

text \<open>
  The abstract interpreter of the static analyser
  (\<^verbatim>\<open>internal/analysis/static/javascript/walker.go\<close>). One definition per method of \<^verbatim>\<open>astWalker\<close>,
  in the order of the file, over an explicit walker state. A method is a value of \<open>'a wm\<close>: it takes
  the walker and returns its result with the new walker, or the way the run of the program ends:
  a nil dereference (a panic) or a stack overflow (a recursion without end over a cyclic taint
  object).

  \<^verbatim>\<open>evaluateTaint\<close> and \<^verbatim>\<open>updateTaintTarget\<close> call each other on smaller and smaller nodes. The bodies
  are written with the two recursive calls as arguments (\<open>ev\<close> and \<open>upd\<close>) and the recursion is tied
  with fuel; the fuel used is one more than the height of the tree, which is proved to be enough.
\<close>

section \<open>State\<close>

datatype walker_error = NilDereference | StackOverflow | OutOfFuel

datatype WalkerMode = ModeAnalyze | ModeSummarize

record static_finding =
  fSource :: string
  fSink :: string
  fSinkType :: string
  fLocation :: LocationInfo
  fConfidence :: string
  fCanonicalType :: string

record analyzer_context =
  Summaries :: "string \<rightharpoonup> FunctionSummary"
  intraProceduralFindings :: "static_finding list"

definition NewAnalyzerContext :: analyzer_context where
  "NewAnalyzerContext = \<lparr>Summaries = Map.empty, intraProceduralFindings = []\<rparr>"

definition AddIntraProceduralFinding :: "analyzer_context \<Rightarrow> static_finding \<Rightarrow> analyzer_context" where
  "AddIntraProceduralFinding ac finding =
     ac\<lparr>intraProceduralFindings := intraProceduralFindings ac @ [finding]\<rparr>"

text \<open>
  \<open>taintHeap\<close> holds the \<^verbatim>\<open>ObjectTaint\<close> objects this walker has allocated; \<open>currentSummary\<close> is the key
  of the summary object in the shared context that the pointer field of the code refers to.
\<close>

record ast_walker =
  analyzeFindings :: "static_finding list"
  filename :: string
  source :: string
  mode :: WalkerMode
  context_of :: analyzer_context
  symbolTaint :: "string \<rightharpoonup> taint"
  taintHeap :: taint_heap
  currentSummary :: "string option"
  returnTaint :: "taint option"
  summaryParamFindings :: "static_finding list"

definition newASTWalker :: "string \<Rightarrow> string \<Rightarrow> WalkerMode \<Rightarrow> analyzer_context \<Rightarrow> ast_walker" where
  "newASTWalker file src m ctx =
     \<lparr>analyzeFindings = [], filename = file, source = src, mode = m, context_of = ctx,
      symbolTaint = Map.empty, taintHeap = [], currentSummary = None, returnTaint = None,
      summaryParamFindings = []\<rparr>"

section \<open>Sequencing\<close>

type_synonym 'a wm = "ast_walker \<Rightarrow> (walker_error, 'a \<times> ast_walker) result"

definition returnW :: "'a \<Rightarrow> 'a wm" where
  "returnW x = (\<lambda>w. Inr (x, w))"

definition failW :: "walker_error \<Rightarrow> 'a wm" where
  "failW e = (\<lambda>w. Inl e)"

definition bindW :: "'a wm \<Rightarrow> ('a \<Rightarrow> 'b wm) \<Rightarrow> 'b wm" where
  "bindW m k = (\<lambda>w. bindR (m w) (\<lambda>(x, w'). k x w'))"

definition getsW :: "(ast_walker \<Rightarrow> 'a) \<Rightarrow> 'a wm" where
  "getsW f = (\<lambda>w. Inr (f w, w))"

definition modifyW :: "(ast_walker \<Rightarrow> ast_walker) \<Rightarrow> unit wm" where
  "modifyW f = (\<lambda>w. Inr ((), f w))"

text \<open>A loop with an accumulator, and one without.\<close>

fun foldW :: "('a \<Rightarrow> 'b \<Rightarrow> 'b wm) \<Rightarrow> 'a list \<Rightarrow> 'b \<Rightarrow> 'b wm" where
  "foldW f [] acc = returnW acc"
| "foldW f (x # xs) acc = bindW (f x acc) (foldW f xs)"

definition forW :: "('a \<Rightarrow> unit wm) \<Rightarrow> 'a list \<Rightarrow> unit wm" where
  "forW f xs = foldW (\<lambda>x _. f x) xs ()"

lemma bindW_run [simp]:
  "m w = Inr (x, w') \<Longrightarrow> bindW m k w = k x w'"
  "m w = Inl e \<Longrightarrow> bindW m k w = Inl e"
  by (simp_all add: bindW_def)

lemma run_simps [simp]:
  "returnW x w = Inr (x, w)" "failW e w = Inl e" "getsW g w = Inr (g w, w)" "modifyW f w = Inr ((), f w)"
  by (simp_all add: returnW_def failW_def getsW_def modifyW_def)

lemma bindW_Inr:
  "bindW m k w = Inr (y, w') \<longleftrightarrow> (\<exists>x w1. m w = Inr (x, w1) \<and> k x w1 = Inr (y, w'))"
  by (auto simp: bindW_def split: prod.splits)

lemma bindW_basic [simp]:
  "bindW (returnW x) k = k x" "bindW (failW e) k = failW e"
  by (simp_all add: bindW_def fun_eq_iff returnW_def failW_def)

lemma forW_Nil [simp]: "forW f [] = returnW ()"
  by (simp add: forW_def)

lemma forW_Cons [simp]: "forW f (x # xs) = bindW (f x) (\<lambda>_. forW f xs)"
  by (simp add: forW_def)

text \<open>The methods of taint states on the walker's heap.\<close>

definition heapW :: "'a option \<Rightarrow> 'a wm" where
  "heapW r = (case r of None \<Rightarrow> failW StackOverflow | Some x \<Rightarrow> returnW x)"

text \<open>\<^verbatim>\<open>state != nil && state.IsTainted()\<close>.\<close>

definition taintedW :: "taint option \<Rightarrow> bool wm" where
  "taintedW st =
     (case st of
        None \<Rightarrow> returnW False
      | Some t \<Rightarrow> bindW (getsW taintHeap) (\<lambda>h. heapW (IsTainted h t)))"

definition mergeW :: "taint \<Rightarrow> taint option \<Rightarrow> taint wm" where
  "mergeW t other =
     bindW (getsW taintHeap) (\<lambda>h. bindW (heapW (Merge h t other)) (\<lambda>(t', h').
       bindW (modifyW (\<lambda>w. w\<lparr>taintHeap := h'\<rparr>)) (\<lambda>_. returnW t')))"

definition sourcesW :: "taint \<Rightarrow> string set wm" where
  "sourcesW t = bindW (getsW taintHeap) (\<lambda>h. heapW (GetSources h t))"

definition propertyW :: "nat \<Rightarrow> string \<Rightarrow> taint option wm" where
  "propertyW a propName = bindW (getsW taintHeap) (\<lambda>h. heapW (GetPropertyTaint h a propName))"

text \<open>\<^verbatim>\<open>GetSource\<close> called on an interface value, which panics on nil.\<close>

definition sourceW :: "taint option \<Rightarrow> string wm" where
  "sourceW st =
     (case st of
        None \<Rightarrow> failW NilDereference
      | Some t \<Rightarrow> bindW (getsW taintHeap) (\<lambda>h. heapW (GetSource h t)))"

definition allocW :: "object_taint \<Rightarrow> nat wm" where
  "allocW ob =
     bindW (getsW (\<lambda>w. length (taintHeap w))) (\<lambda>a.
       bindW (modifyW (\<lambda>w. w\<lparr>taintHeap := taintHeap w @ [ob]\<rparr>)) (\<lambda>_. returnW a))"

definition setPropertyW :: "nat \<Rightarrow> string \<Rightarrow> taint option \<Rightarrow> unit wm" where
  "setPropertyW a propName st =
     bindW (getsW taintHeap) (\<lambda>h. bindW (heapW (SetPropertyTaint h a propName st)) (\<lambda>h'.
       modifyW (\<lambda>w. w\<lparr>taintHeap := h'\<rparr>)))"

definition taintStructureW :: "nat \<Rightarrow> unit wm" where
  "taintStructureW a =
     modifyW (\<lambda>w. w\<lparr>taintHeap := (taintHeap w)[a := (taintHeap w ! a)\<lparr>StructureTainted := True\<rparr>]\<rparr>)"

text \<open>
  The accumulation step that several loops share: a tainted part is merged into the result so far
  (\<^verbatim>\<open>if t != nil && t.IsTainted() { if acc == nil { acc = t } else { acc = acc.Merge(t) } }\<close>).
\<close>

definition accumulate :: "taint option \<Rightarrow> taint option \<Rightarrow> taint option wm" where
  "accumulate acc part =
     bindW (taintedW part) (\<lambda>b.
       if \<not> b then returnW acc
       else (case acc of
               None \<Rightarrow> returnW part
             | Some t \<Rightarrow> bindW (mergeW t part) (\<lambda>t'. returnW (Some t'))))"

definition row :: "node \<Rightarrow> int" where
  "row n = int (StartRow n)"

section \<open>Node helpers\<close>

text \<open>\<^verbatim>\<open>extractArguments\<close> drops the parentheses and commas of an argument list.\<close>

definition extractArguments :: "node option \<Rightarrow> node list" where
  "extractArguments argsNode =
     (case argsNode of
        None \<Rightarrow> []
      | Some a \<Rightarrow> filter (\<lambda>child. nodeType child \<noteq> ''('' \<and> nodeType child \<noteq> '')'' \<and> nodeType child \<noteq> '','') (children a))"

text \<open>
  A field, or the child at index 1 when the field is missing and there are more than \<open>m\<close> children
  (the fallback the code repeats for several node types).
\<close>

definition field_or_second :: "string \<Rightarrow> nat \<Rightarrow> node \<Rightarrow> node option" where
  "field_or_second f m n =
     (case ChildByFieldName n f of
        Some c \<Rightarrow> Some c
      | None \<Rightarrow> if ChildCount n > m then Child n 1 else None)"

definition determinePropertyName :: "string \<Rightarrow> node \<Rightarrow> string \<times> bool" where
  "determinePropertyName src n =
     (let isSubscript = (nodeType n = ''subscript_expression'');
          propertyOrIndex = ChildByFieldName n (if isSubscript then ''index'' else ''property'')
      in case propertyOrIndex of
           None \<Rightarrow> ([], False)
         | Some p \<Rightarrow>
             if nodeType p = ''identifier'' \<or> nodeType p = ''property_identifier''
             then (Content src p, \<not> isSubscript)
             else if nodeType p = ''string'' then (Trim (Content src p) quote_chars, True)
             else ([], False))"

definition extractStaticKeyName :: "string \<Rightarrow> node option \<Rightarrow> string \<times> bool" where
  "extractStaticKeyName src key =
     (case key of
        None \<Rightarrow> ([], False)
      | Some k \<Rightarrow>
          if nodeType k = ''property_identifier'' \<or> nodeType k = ''identifier'' then (Content src k, True)
          else if nodeType k = ''string'' then (Trim (Content src k) quote_chars, True)
          else ([], False))"

section \<open>Bindings and destructuring\<close>

definition taintBinding :: "string \<Rightarrow> taint option \<Rightarrow> unit wm" where
  "taintBinding ref st =
     bindW (taintedW st) (\<lambda>b.
       if b then modifyW (\<lambda>w. w\<lparr>symbolTaint := (symbolTaint w)(ref := st)\<rparr>)
       else modifyW (\<lambda>w. w\<lparr>symbolTaint := (symbolTaint w)(ref := None)\<rparr>))"

definition contentW :: "node \<Rightarrow> string wm" where
  "contentW n = getsW (\<lambda>w. Content (source w) n)"

text \<open>The state of one component of a destructured value when its key is not looked up.\<close>

definition approximate_part :: "node \<Rightarrow> taint option \<Rightarrow> taint option wm" where
  "approximate_part at st =
     bindW (taintedW st) (\<lambda>b. returnW (if b then Some (NewSimpleTaint SourceUnknown (row at)) else None))"

definition handleObjectDestructuring ::
    "(node option \<Rightarrow> taint option \<Rightarrow> unit wm) \<Rightarrow> node \<Rightarrow> taint option \<Rightarrow> unit wm" where
  "handleObjectDestructuring dst pattern st =
     forW (\<lambda>child.
       if nodeType child = ''pair_pattern'' then
         bindW (getsW (\<lambda>w. extractStaticKeyName (source w) (ChildByFieldName child ''key''))) (\<lambda>(propName, staticallyKnown).
         bindW (case st of
                  Some (ObjectRef a) \<Rightarrow> if staticallyKnown then propertyW a propName else approximate_part child st
                | _ \<Rightarrow> approximate_part child st) (\<lambda>propTaint.
         dst (ChildByFieldName child ''value'') propTaint))
       else if nodeType child = ''shorthand_property_identifier_pattern'' then
         bindW (contentW child) (\<lambda>propName.
         bindW (case st of
                  Some (ObjectRef a) \<Rightarrow> propertyW a propName
                | _ \<Rightarrow> approximate_part child st) (\<lambda>propTaint.
         dst (Some child) propTaint))
       else returnW ()) (children pattern)"

definition handleArrayDestructuring ::
    "(node option \<Rightarrow> taint option \<Rightarrow> unit wm) \<Rightarrow> node \<Rightarrow> taint option \<Rightarrow> unit wm" where
  "handleArrayDestructuring dst pattern st =
     bindW (approximate_part pattern st) (\<lambda>elemTaint.
       forW (\<lambda>child.
         if nodeType child \<noteq> ''['' \<and> nodeType child \<noteq> '']'' \<and> nodeType child \<noteq> '',''
         then dst (Some child) elemTaint
         else returnW ()) (children pattern))"

definition handleDestructuring_body ::
    "(node option \<Rightarrow> taint option \<Rightarrow> unit wm) \<Rightarrow> node option \<Rightarrow> taint option \<Rightarrow> unit wm" where
  "handleDestructuring_body dst pattern st =
     (case pattern of
        None \<Rightarrow> returnW ()
      | Some p \<Rightarrow>
          if nodeType p = ''identifier'' \<or> nodeType p = ''shorthand_property_identifier''
          then bindW (contentW p) (\<lambda>ref. taintBinding ref st)
          else if nodeType p = ''object_pattern'' then handleObjectDestructuring dst p st
          else if nodeType p = ''array_pattern'' then handleArrayDestructuring dst p st
          else returnW ())"

fun destructF :: "nat \<Rightarrow> node option \<Rightarrow> taint option \<Rightarrow> unit wm" where
  "destructF 0 pattern st = failW OutOfFuel"
| "destructF (Suc k) pattern st = handleDestructuring_body (destructF k) pattern st"

text \<open>The fuel for a recursion that starts at a node, nil included.\<close>

definition node_fuel :: "node option \<Rightarrow> nat" where
  "node_fuel n = Suc (case n of None \<Rightarrow> 0 | Some m \<Rightarrow> height m)"

definition handleDestructuring :: "node option \<Rightarrow> taint option \<Rightarrow> unit wm" where
  "handleDestructuring pattern st = destructF (node_fuel pattern) pattern st"

section \<open>Evaluation\<close>

type_synonym ev_fun = "node option \<Rightarrow> taint option wm"

type_synonym upd_fun = "node option \<Rightarrow> taint option \<Rightarrow> unit wm"

definition evaluatePropertyAccessTaint :: "ev_fun \<Rightarrow> node \<Rightarrow> taint option wm" where
  "evaluatePropertyAccessTaint ev n =
     bindW (getsW source) (\<lambda>src.
       case Option.bind (flattenPropertyAccess src (Some n)) CheckIfPropertySource of
         Some src_name \<Rightarrow> returnW (Some (NewSimpleTaint src_name (row n)))
       | None \<Rightarrow>
           (case determinePropertyName src n of (propName, staticallyKnown) \<Rightarrow>
           bindW (ev (ChildByFieldName n ''object'')) (\<lambda>targetState.
           case targetState of
             None \<Rightarrow> returnW None
           | Some (ObjectRef a) \<Rightarrow>
               if staticallyKnown then propertyW a propName
               else bindW (taintedW targetState) (\<lambda>b.
                      if b then bindW (mergeW (NewSimpleTaint SourceUnknown (row n)) targetState) (\<lambda>t. returnW (Some t))
                      else returnW None)
           | Some (SimpleTaint S l) \<Rightarrow>
               bindW (taintedW targetState) (\<lambda>b.
                 if b then bindW (mergeW (SimpleTaint S l) (Some (NewSimpleTaint SourceUnknown (row n)))) (\<lambda>t. returnW (Some t))
                 else returnW None))))"

text \<open>
  One child of an object literal. The loop returns early when a spread turns the object into a
  simple taint, so its accumulator is either the address of the object so far or the final result.
\<close>

definition literal_child :: "ev_fun \<Rightarrow> node \<Rightarrow> nat + taint \<Rightarrow> (nat + taint) wm" where
  "literal_child ev child acc =
     (case acc of
        Inr t \<Rightarrow> returnW (Inr t)
      | Inl objState \<Rightarrow>
          if nodeType child = ''pair'' then
            bindW (getsW (\<lambda>w. extractStaticKeyName (source w) (ChildByFieldName child ''key''))) (\<lambda>(propName, staticallyKnown).
            bindW (ev (ChildByFieldName child ''value'')) (\<lambda>valueTaint.
            bindW (taintedW valueTaint) (\<lambda>b.
              if b then bindW (if staticallyKnown then setPropertyW objState propName valueTaint
                               else taintStructureW objState) (\<lambda>_. returnW (Inl objState))
              else returnW (Inl objState))))
          else if nodeType child = ''shorthand_property_identifier'' then
            bindW (ev (Some child)) (\<lambda>valueTaint.
            bindW (taintedW valueTaint) (\<lambda>b.
              if b then bindW (contentW child) (\<lambda>propName.
                          bindW (setPropertyW objState propName valueTaint) (\<lambda>_. returnW (Inl objState)))
              else returnW (Inl objState)))
          else if nodeType child = ''spread_element'' then
            bindW (ev (field_or_second ''argument'' 1 child)) (\<lambda>spreadTaint.
            bindW (taintedW spreadTaint) (\<lambda>b.
              if b then bindW (mergeW (ObjectRef objState) spreadTaint) (\<lambda>newState.
                          case newState of
                            ObjectRef a \<Rightarrow> returnW (Inl a)
                          | SimpleTaint S l \<Rightarrow> returnW (Inr newState))
              else returnW (Inl objState)))
          else returnW (Inl objState))"

definition evaluateObjectLiteralTaint :: "ev_fun \<Rightarrow> node \<Rightarrow> taint option wm" where
  "evaluateObjectLiteralTaint ev n =
     bindW (allocW NewObjectTaint) (\<lambda>a.
     bindW (foldW (literal_child ev) (children n) (Inl a)) (\<lambda>res.
       case res of
         Inr t \<Rightarrow> returnW (Some t)
       | Inl objState \<Rightarrow>
           bindW (taintedW (Some (ObjectRef objState))) (\<lambda>b.
             returnW (if b then Some (ObjectRef objState) else None))))"

text \<open>The prefix a refined source gets, by the sources of the receiver.\<close>

definition refinement_prefix :: "string set \<Rightarrow> string" where
  "refinement_prefix S =
     (if SourceLocationSearch \<in> S \<or> SourceLocationHref \<in> S then ''param:query:''
      else if SourceLocationHash \<in> S then ''param:hash:''
      else if SourceLocalStorage \<in> S \<or> SourceSessionStorage \<in> S then ''param:storage:''
      else [])"

definition checkSpecificParameterExtraction ::
    "ev_fun \<Rightarrow> node \<Rightarrow> node \<Rightarrow> string list \<Rightarrow> node option \<Rightarrow> taint option wm" where
  "checkSpecificParameterExtraction ev callNode callee path argsNode =
     (if path \<noteq> [] \<and> last path \<in> {''get'', ''getItem'', ''getAll''} then
        (case (if nodeType callee = ''member_expression'' then ChildByFieldName callee ''object'' else None) of
           None \<Rightarrow> returnW None
         | Some receiver \<Rightarrow>
             bindW (ev (Some receiver)) (\<lambda>receiverTaint.
             case receiverTaint of
               None \<Rightarrow> returnW None
             | Some t \<Rightarrow>
                 bindW (taintedW receiverTaint) (\<lambda>b.
                 if \<not> b then returnW None
                 else bindW (sourcesW t) (\<lambda>S.
                      if refinement_prefix S = [] then returnW None
                      else (case extractArguments argsNode of
                              [] \<Rightarrow> returnW None
                            | arg # _ \<Rightarrow>
                                if nodeType arg = ''string''
                                then bindW (contentW arg) (\<lambda>raw.
                                       returnW (Some (NewSimpleTaint (refinement_prefix S @ Trim raw quote_chars) (row callNode))))
                                else returnW None)))))
      else returnW None)"

text \<open>An argument of a call; of a spread argument, the expression that is spread.\<close>

definition eval_argument :: "ev_fun \<Rightarrow> node \<Rightarrow> taint option wm" where
  "eval_argument ev arg =
     (if nodeType arg = ''spread_element'' then ev (field_or_second ''argument'' 1 arg) else ev (Some arg))"

text \<open>Does argument \<open>i\<close> flow, by the parameter set of a summary? A spread one may stand for any parameter.\<close>

definition flows :: "int set \<Rightarrow> nat \<Rightarrow> node \<Rightarrow> bool" where
  "flows params i arg = (if nodeType arg = ''spread_element'' then params \<noteq> {} else int i \<in> params)"

definition evaluateCallWithSummary :: "ev_fun \<Rightarrow> node \<Rightarrow> node option \<Rightarrow> FunctionSummary \<Rightarrow> taint option wm" where
  "evaluateCallWithSummary ev callNode argsNode summary =
     (if TaintsReturn summary
      then returnW (Some (NewSimpleTaint (''return:'' @ fsRefID summary) (row callNode)))
      else foldW (\<lambda>(i, arg) mergedTaint.
             if flows (ParamToReturn summary) i arg
             then bindW (eval_argument ev arg) (accumulate mergedTaint)
             else returnW mergedTaint)
           (enumerate 0 (extractArguments argsNode)) None)"

definition evaluateCallFallback :: "ev_fun \<Rightarrow> upd_fun \<Rightarrow> node \<Rightarrow> node option \<Rightarrow> node option \<Rightarrow> taint option wm" where
  "evaluateCallFallback ev upd n callee argsNode =
     bindW (foldW (\<lambda>arg mergedTaint. bindW (eval_argument ev arg) (accumulate mergedTaint))
              (extractArguments argsNode) None) (\<lambda>mergedTaint.
     bindW (taintedW mergedTaint) (\<lambda>b.
     bindW (case callee of
              Some c \<Rightarrow> if b \<and> nodeType c = ''member_expression''
                        then upd (ChildByFieldName c ''object'') (Some (NewSimpleTaint SourceUnknown (row n)))
                        else returnW ()
            | None \<Rightarrow> returnW ()) (\<lambda>_.
     case mergedTaint of
       None \<Rightarrow> returnW None
     | Some t \<Rightarrow> bindW (mergeW t (Some (NewSimpleTaint SourceUnknown (row n)))) (\<lambda>t'. returnW (Some t')))))"

text \<open>The summary that applies to a callee: only in analysis mode and for a plain identifier.\<close>

definition summary_for :: "ast_walker \<Rightarrow> node option \<Rightarrow> FunctionSummary option" where
  "summary_for w callee =
     (case callee of
        None \<Rightarrow> None
      | Some c \<Rightarrow>
          if mode w = ModeAnalyze \<and> nodeType c = ''identifier''
          then Summaries (context_of w) (Content (source w) c) else None)"

definition evaluateCallUnknown :: "ev_fun \<Rightarrow> upd_fun \<Rightarrow> node \<Rightarrow> node option \<Rightarrow> node option \<Rightarrow> taint option wm" where
  "evaluateCallUnknown ev upd n callee argsNode =
     bindW (getsW (\<lambda>w. summary_for w callee)) (\<lambda>s.
       case s of
         Some summary \<Rightarrow> evaluateCallWithSummary ev n argsNode summary
       | None \<Rightarrow> evaluateCallFallback ev upd n callee argsNode)"

definition evaluateCallTaint :: "ev_fun \<Rightarrow> upd_fun \<Rightarrow> node \<Rightarrow> taint option wm" where
  "evaluateCallTaint ev upd n =
     (let callee = ChildByFieldName n ''function''; argsNode = ChildByFieldName n ''arguments''
      in bindW (getsW (\<lambda>w. flattenPropertyAccess (source w) callee)) (\<lambda>path.
         case (path, callee) of
           (Some p, Some c) \<Rightarrow>
             bindW (checkSpecificParameterExtraction ev n c p argsNode) (\<lambda>refinedTaint.
             case refinedTaint of
               Some t \<Rightarrow> returnW (Some t)
             | None \<Rightarrow>
                 (case CheckIfFunctionSource p of
                    Some src_name \<Rightarrow> returnW (Some (NewSimpleTaint src_name (row n)))
                  | None \<Rightarrow>
                      if CheckIfSanitizer p then returnW None
                      else evaluateCallUnknown ev upd n callee argsNode))
         | _ \<Rightarrow> evaluateCallUnknown ev upd n callee argsNode))"

definition template_expr :: "node \<Rightarrow> node option" where
  "template_expr child =
     (case ChildByFieldName child ''expression'' of
        Some e \<Rightarrow> Some e
      | None \<Rightarrow>
          if ChildCount child > 1 \<and> nodeType (children child ! 1) \<noteq> ''}'' then Child child 1 else None)"

definition template_part :: "ev_fun \<Rightarrow> node \<Rightarrow> taint option \<Rightarrow> taint option wm" where
  "template_part ev child resultTaint =
     (if nodeType child = ''template_substitution''
      then bindW (ev (template_expr child)) (accumulate resultTaint)
      else returnW resultTaint)"

definition evaluateTaint_body :: "ev_fun \<Rightarrow> upd_fun \<Rightarrow> node option \<Rightarrow> taint option wm" where
  "evaluateTaint_body ev upd node =
     (case node of
        None \<Rightarrow> returnW None
      | Some n \<Rightarrow>
          let ty = nodeType n in
          if ty = ''identifier'' \<or> ty = ''shorthand_property_identifier''
          then bindW (contentW n) (\<lambda>ref. getsW (\<lambda>w. symbolTaint w ref))
          else if ty = ''member_expression'' \<or> ty = ''subscript_expression''
          then evaluatePropertyAccessTaint ev n
          else if ty = ''call_expression'' \<or> ty = ''new_expression''
          then evaluateCallTaint ev upd n
          else if ty = ''binary_expression''
          then bindW (ev (ChildByFieldName n ''left'')) (\<lambda>leftTaint.
               bindW (ev (ChildByFieldName n ''right'')) (\<lambda>rightTaint.
               case leftTaint of
                 Some l \<Rightarrow> bindW (mergeW l rightTaint) (\<lambda>t. returnW (Some t))
               | None \<Rightarrow> returnW rightTaint))
          else if ty = ''template_string'' then foldW (template_part ev) (children n) None
          else if ty = ''object'' then evaluateObjectLiteralTaint ev n
          else if ty = ''parenthesized_expression'' then ev (field_or_second ''expression'' 2 n)
          else returnW None)"

section \<open>State updates\<close>

definition updatePropertyTaint :: "ev_fun \<Rightarrow> upd_fun \<Rightarrow> node \<Rightarrow> taint option \<Rightarrow> unit wm" where
  "updatePropertyTaint ev upd target st =
     (case ChildByFieldName target ''object'' of
        None \<Rightarrow> returnW ()
      | Some objectNode \<Rightarrow>
          bindW (getsW (\<lambda>w. determinePropertyName (source w) target)) (\<lambda>(propName, staticallyKnown).
          bindW (ev (Some objectNode)) (\<lambda>existingTaint.
          if \<not> staticallyKnown then
            bindW (case existingTaint of
                     Some t \<Rightarrow> bindW (mergeW t st) (\<lambda>t'. returnW (Some t'))
                   | None \<Rightarrow> returnW st) (\<lambda>newTaint.
            bindW (case newTaint of
                     Some (ObjectRef a) \<Rightarrow> taintStructureW a
                   | _ \<Rightarrow> returnW ()) (\<lambda>_.
            upd (Some objectNode) newTaint))
          else
            bindW (case existingTaint of
                     Some (ObjectRef a) \<Rightarrow> returnW a
                   | _ \<Rightarrow> bindW (allocW NewObjectTaint) (\<lambda>a.
                          bindW (taintedW existingTaint) (\<lambda>b.
                          bindW (if b then taintStructureW a else returnW ()) (\<lambda>_. returnW a)))) (\<lambda>objTaint.
            bindW (setPropertyW objTaint propName st) (\<lambda>_.
            upd (Some objectNode) (Some (ObjectRef objTaint)))))))"

definition updateTaintTarget_body :: "ev_fun \<Rightarrow> upd_fun \<Rightarrow> upd_fun" where
  "updateTaintTarget_body ev upd target st =
     (case target of
        None \<Rightarrow> returnW ()
      | Some n \<Rightarrow>
          let ty = nodeType n in
          if ty = ''identifier'' then bindW (contentW n) (\<lambda>ref. taintBinding ref st)
          else if ty = ''member_expression'' \<or> ty = ''subscript_expression''
          then updatePropertyTaint ev upd n st
          else if ty = ''object_pattern'' \<or> ty = ''array_pattern'' then handleDestructuring target st
          else returnW ())"

fun evalF :: "nat \<Rightarrow> ev_fun" and updF :: "nat \<Rightarrow> upd_fun" where
  "evalF 0 n = failW OutOfFuel"
| "evalF (Suc k) n = evaluateTaint_body (evalF k) (updF k) n"
| "updF 0 n st = failW OutOfFuel"
| "updF (Suc k) n st = updateTaintTarget_body (evalF k) (updF k) n st"

definition evaluateTaint :: ev_fun where
  "evaluateTaint n = evalF (node_fuel n) n"

definition updateTaintTarget :: upd_fun where
  "updateTaintTarget n st = updF (node_fuel n) n st"

section \<open>Sink detection\<close>

definition is_param :: "string \<Rightarrow> bool" where
  "is_param src_name = HasPrefix src_name ''param:''"

text \<open>The record of a detected flow; \<^verbatim>\<open>logger.Warn\<close> has no effect on the analysis.\<close>

definition make_finding :: "ast_walker \<Rightarrow> string \<Rightarrow> StaticSinkDefinition \<Rightarrow> node \<Rightarrow> static_finding" where
  "make_finding w src_name sinkDef n =
     \<lparr>fSource = src_name, fSink = ssName sinkDef, fSinkType = ssType sinkDef,
      fLocation = FormatLocation (filename w) (Some n) (source w),
      fConfidence = (if Contains src_name SourceUnknown \<or> HasPrefix (ssName sinkDef) ''call:''
                     then ''Medium'' else ''High''),
      fCanonicalType = ssCanonicalType sinkDef\<rparr>"

text \<open>Where a finding goes: to the findings of the walk, or to the summary and the shared context.\<close>

definition record_finding :: "static_finding \<Rightarrow> ast_walker \<Rightarrow> ast_walker" where
  "record_finding finding w =
     (case mode w of
        ModeAnalyze \<Rightarrow> w\<lparr>analyzeFindings := analyzeFindings w @ [finding]\<rparr>
      | ModeSummarize \<Rightarrow>
          (let sources = Split (fSource finding) (CHR ''|'');
               isParamSourced = list_ex is_param sources;
               isGlobalSourced = list_ex (\<lambda>s. \<not> is_param s) sources;
               w1 = (if isParamSourced
                     then w\<lparr>summaryParamFindings := summaryParamFindings w @ [finding]\<rparr> else w)
           in if isGlobalSourced
              then w1\<lparr>context_of := AddIntraProceduralFinding (context_of w1) finding\<rparr> else w1))"

definition reportFinding :: "string \<Rightarrow> StaticSinkDefinition \<Rightarrow> node \<Rightarrow> unit wm" where
  "reportFinding src_name sinkDef n =
     modifyW (\<lambda>w. record_finding (make_finding w (if src_name = [] then SourceUnknown else src_name) sinkDef n) w)"

definition checkAssignmentSink :: "node option \<Rightarrow> taint option \<Rightarrow> node \<Rightarrow> unit wm" where
  "checkAssignmentSink target rhsState fullNode =
     (case target of
        None \<Rightarrow> returnW ()
      | Some t \<Rightarrow>
          if nodeType t \<notin> {''identifier'', ''member_expression'', ''subscript_expression''} then returnW ()
          else bindW (getsW (\<lambda>w. flattenPropertyAccess (source w) target)) (\<lambda>path.
               case Option.bind path CheckIfSinkProperty of
                 None \<Rightarrow> returnW ()
               | Some sinkDef \<Rightarrow> bindW (sourceW rhsState) (\<lambda>s. reportFinding s sinkDef fullNode)))"

fun checkArgs_loop :: "int list \<Rightarrow> StaticSinkDefinition \<Rightarrow> node list \<Rightarrow> node \<Rightarrow> unit wm" where
  "checkArgs_loop [] sinkDef args fullNode = returnW ()"
| "checkArgs_loop (argIndex # rest) sinkDef args fullNode =
     (if 0 \<le> argIndex \<and> argIndex < int (length args)
      then bindW (eval_argument evaluateTaint (args ! nat argIndex)) (\<lambda>argTaint.
           bindW (taintedW argTaint) (\<lambda>b.
             if b then bindW (sourceW argTaint) (\<lambda>s. reportFinding s sinkDef fullNode)
             else checkArgs_loop rest sinkDef args fullNode))
      else checkArgs_loop rest sinkDef args fullNode)"

definition checkArgsAgainstSink :: "StaticSinkDefinition \<Rightarrow> node option \<Rightarrow> node \<Rightarrow> unit wm" where
  "checkArgsAgainstSink sinkDef argsNode fullNode =
     checkArgs_loop (ssTaintedArgs sinkDef) sinkDef (extractArguments argsNode) fullNode"

definition call_sink :: "string \<Rightarrow> nat \<Rightarrow> StaticSinkDefinition" where
  "call_sink funcName i =
     \<lparr>ssName = ''call:'' @ funcName @ ''(arg:'' @ itoa i @ '')'', ssType = SinkTypeExecution,
      ssCanonicalType = [], ssTaintedArgs = []\<rparr>"

fun checkSummary_loop :: "(nat \<times> node) list \<Rightarrow> node \<Rightarrow> FunctionSummary \<Rightarrow> unit wm" where
  "checkSummary_loop [] fullNode summary = returnW ()"
| "checkSummary_loop ((i, arg) # rest) fullNode summary =
     (if flows (TaintedParams summary) i arg
      then bindW (eval_argument evaluateTaint arg) (\<lambda>argTaint.
           bindW (taintedW argTaint) (\<lambda>b.
             if b then bindW (sourceW argTaint) (\<lambda>s. reportFinding s (call_sink (fsRefID summary) i) fullNode)
             else checkSummary_loop rest fullNode summary))
      else checkSummary_loop rest fullNode summary)"

definition checkCallWithSummary :: "node option \<Rightarrow> node \<Rightarrow> FunctionSummary \<Rightarrow> unit wm" where
  "checkCallWithSummary argsNode fullNode summary =
     checkSummary_loop (enumerate 0 (extractArguments argsNode)) fullNode summary"

definition checkCallForSinks :: "node option \<Rightarrow> node option \<Rightarrow> node \<Rightarrow> unit wm" where
  "checkCallForSinks callee argsNode fullNode =
     (case callee of
        None \<Rightarrow> returnW ()
      | Some c \<Rightarrow>
          bindW (getsW (\<lambda>w. flattenPropertyAccess (source w) callee)) (\<lambda>path.
          case Option.bind path CheckIfSinkFunction of
            Some sinkDef \<Rightarrow> checkArgsAgainstSink sinkDef argsNode fullNode
          | None \<Rightarrow>
              bindW (getsW (\<lambda>w. summary_for w callee)) (\<lambda>s.
              case s of
                Some summary \<Rightarrow> checkCallWithSummary argsNode fullNode summary
              | None \<Rightarrow> returnW ())))"

definition handleCall :: "node \<Rightarrow> unit wm" where
  "handleCall n = checkCallForSinks (ChildByFieldName n ''function'') (ChildByFieldName n ''arguments'') n"

section \<open>Handlers\<close>

definition handleVarDecl :: "node \<Rightarrow> unit wm" where
  "handleVarDecl n =
     forW (\<lambda>declarator.
       if nodeType declarator = ''variable_declarator'' then
         (case (ChildByFieldName declarator ''name'', ChildByFieldName declarator ''value'') of
            (Some nameNode, Some valueNode) \<Rightarrow>
              bindW (evaluateTaint (Some valueNode)) (\<lambda>rhsTaint. handleDestructuring (Some nameNode) rhsTaint)
          | _ \<Rightarrow> returnW ())
       else returnW ()) (children n)"

definition handleAssignment :: "node \<Rightarrow> unit wm" where
  "handleAssignment n =
     (case (ChildByFieldName n ''left'', ChildByFieldName n ''right'') of
        (Some left, Some right) \<Rightarrow>
          bindW (evaluateTaint (Some right)) (\<lambda>rhsTaint.
          bindW (updateTaintTarget (Some left) rhsTaint) (\<lambda>_.
          checkAssignmentSink (Some left) rhsTaint n))
      | _ \<Rightarrow> returnW ())"

definition return_value :: "node \<Rightarrow> node option" where
  "return_value n =
     (case ChildByFieldName n ''argument'' of
        Some v \<Rightarrow> Some v
      | None \<Rightarrow>
          if ChildCount n > 1 \<and> nodeType (children n ! 0) = ''return'' \<and> nodeType (children n ! 1) \<noteq> '';''
          then Child n 1 else None)"

definition handleReturn :: "node \<Rightarrow> unit wm" where
  "handleReturn n =
     bindW (getsW (\<lambda>w. mode w \<noteq> ModeSummarize \<or> currentSummary w = None)) (\<lambda>skip.
       if skip then returnW ()
       else (case return_value n of
               None \<Rightarrow> returnW ()
             | Some valueNode \<Rightarrow>
                 bindW (evaluateTaint (Some valueNode)) (\<lambda>retTaint.
                 bindW (getsW returnTaint) (\<lambda>old.
                 bindW (accumulate old retTaint) (\<lambda>new.
                 modifyW (\<lambda>w. w\<lparr>returnTaint := new\<rparr>))))))"

definition handleFunctionBoundary :: "ast_walker \<Rightarrow> bool" where
  "handleFunctionBoundary w =
     (if mode w = ModeAnalyze then False
      else if mode w = ModeSummarize \<and> currentSummary w \<noteq> None then False
      else True)"

text \<open>The handler that a node type selects; the result says whether the children are visited.\<close>

definition visit :: "node \<Rightarrow> bool wm" where
  "visit n =
     (let ty = nodeType n in
      if ty \<in> {''function_declaration'', ''function'', ''arrow_function'', ''generator_function'', ''method_definition''}
      then getsW handleFunctionBoundary
      else bindW (if ty \<in> {''variable_declaration'', ''lexical_declaration''} then handleVarDecl n
                  else if ty = ''assignment_expression'' then handleAssignment n
                  else if ty \<in> {''call_expression'', ''new_expression''} then handleCall n
                  else if ty = ''return_statement'' then handleReturn n
                  else returnW ()) (\<lambda>_. returnW True))"

fun walkF :: "nat \<Rightarrow> node \<Rightarrow> unit wm" where
  "walkF 0 n = failW OutOfFuel"
| "walkF (Suc k) n =
     bindW (visit n) (\<lambda>shouldRecurse.
       if shouldRecurse then forW (walkF k) (children n) else returnW ())"

definition Walk :: "node \<Rightarrow> unit wm" where
  "Walk n = walkF (height n) n"

section \<open>Function summaries\<close>

text \<open>The source of a component of a parameter: \<^verbatim>\<open>fmt.Sprintf("%s.%s", currentSource, propName)\<close>.\<close>

definition sub_source :: "string \<Rightarrow> string \<Rightarrow> string" where
  "sub_source currentSource propName = currentSource @ ''.'' @ propName"

type_synonym ini_fun = "node option \<Rightarrow> string \<Rightarrow> int \<Rightarrow> unit wm"

definition init_object_child :: "ini_fun \<Rightarrow> string \<Rightarrow> int \<Rightarrow> node \<Rightarrow> unit wm" where
  "init_object_child ini currentSource loc child =
     (if nodeType child = ''shorthand_property_identifier_pattern'' then
        bindW (contentW child) (\<lambda>propName. ini (Some child) (sub_source currentSource propName) loc)
      else if nodeType child = ''pair_pattern'' then
        bindW (getsW (\<lambda>w. extractStaticKeyName (source w) (ChildByFieldName child ''key''))) (\<lambda>(propName, staticallyKnown).
          ini (ChildByFieldName child ''value'')
              (if staticallyKnown then sub_source currentSource propName else currentSource) loc)
      else if nodeType child = ''rest_parameter'' \<or> nodeType child = ''assignment_pattern'' then
        ini (Some child) currentSource loc
      else returnW ())"

definition initializeDestructuredParameter_body :: "ini_fun \<Rightarrow> ini_fun" where
  "initializeDestructuredParameter_body ini pattern currentSource loc =
     (case pattern of
        None \<Rightarrow> returnW ()
      | Some p \<Rightarrow>
          let ty = nodeType p in
          if ty = ''identifier'' \<or> ty = ''shorthand_property_identifier_pattern'' then
            bindW (contentW p) (\<lambda>ref. taintBinding ref (Some (NewSimpleTaint currentSource loc)))
          else if ty = ''object_pattern'' then forW (init_object_child ini currentSource loc) (children p)
          else if ty = ''array_pattern'' then
            forW (\<lambda>child. if nodeType child = '','' \<or> nodeType child = ''['' \<or> nodeType child = '']''
                          then returnW () else ini (Some child) currentSource loc) (children p)
          else if ty = ''assignment_pattern'' then ini (ChildByFieldName p ''left'') currentSource loc
          else if ty = ''rest_parameter'' then
            (case field_or_second ''argument'' 1 p of
               None \<Rightarrow> returnW ()
             | Some arg \<Rightarrow> ini (Some arg) currentSource loc)
          else returnW ())"

fun initF :: "nat \<Rightarrow> ini_fun" where
  "initF 0 pattern currentSource loc = failW OutOfFuel"
| "initF (Suc k) pattern currentSource loc = initializeDestructuredParameter_body (initF k) pattern currentSource loc"

definition initializeDestructuredParameter :: ini_fun where
  "initializeDestructuredParameter pattern currentSource loc = initF (node_fuel pattern) pattern currentSource loc"

definition initializeParameterTaint :: "node \<Rightarrow> nat \<Rightarrow> unit wm" where
  "initializeParameterTaint paramNode index =
     initializeDestructuredParameter (Some paramNode) (''param:'' @ itoa index) (row paramNode)"

definition is_parameter :: "node \<Rightarrow> bool" where
  "is_parameter param =
     (nodeType param \<in> {''identifier'', ''rest_parameter'', ''object_pattern'', ''array_pattern'', ''assignment_pattern''})"

definition initializeParameters :: "node \<Rightarrow> unit wm" where
  "initializeParameters fnNode =
     (case (case ChildByFieldName fnNode ''formal_parameters'' of
              Some p \<Rightarrow> Some p
            | None \<Rightarrow> ChildByFieldName fnNode ''parameters'') of
        Some paramsNode \<Rightarrow>
          bindW (foldW (\<lambda>param logicalIndex.
              if is_parameter param
              then bindW (initializeParameterTaint param logicalIndex) (\<lambda>_. returnW (Suc logicalIndex))
              else returnW logicalIndex) (children paramsNode) 0) (\<lambda>_. returnW ())
      | None \<Rightarrow>
          if nodeType fnNode = ''arrow_function''
          then (case ChildByFieldName fnNode ''parameter'' of
                  Some param \<Rightarrow> initializeParameterTaint param 0
                | None \<Rightarrow> returnW ())
          else returnW ())"

definition extractParamIndex :: "string \<Rightarrow> int option" where
  "extractParamIndex src_name =
     (if \<not> HasPrefix src_name ''param:'' then None
      else Atoi (takeWhile (\<lambda>c. c \<noteq> CHR ''.'') (TrimPrefix src_name ''param:'')))"

text \<open>The parameter indices named by a set of sources.\<close>

definition param_indices :: "string set \<Rightarrow> int set" where
  "param_indices S = (\<Union>s\<in>S. if is_param s then set_option (extractParamIndex s) else {})"

definition finding_params :: "static_finding list \<Rightarrow> int set" where
  "finding_params fs = (\<Union>f\<in>set fs. param_indices (set (Split (fSource f) (CHR ''|''))))"

definition finalizeSummary :: "unit wm" where
  "finalizeSummary =
     bindW (getsW (\<lambda>w. w)) (\<lambda>w.
       case currentSummary w of
         None \<Rightarrow> returnW ()
       | Some ref \<Rightarrow>
           (case Summaries (context_of w) ref of
              None \<Rightarrow> failW NilDereference
            | Some summary \<Rightarrow>
                bindW (taintedW (returnTaint w)) (\<lambda>b.
                bindW (case returnTaint w of
                         Some t \<Rightarrow> if b then sourcesW t else returnW {}
                       | None \<Rightarrow> returnW {}) (\<lambda>S.
                let summary' = summary\<lparr>
                      TaintedParams := TaintedParams summary \<union> finding_params (summaryParamFindings w),
                      ParamToReturn := ParamToReturn summary \<union> param_indices S,
                      TaintsReturn := TaintsReturn summary \<or> (\<exists>s\<in>S. \<not> is_param s)\<rparr>
                in modifyW (\<lambda>w. w\<lparr>
                     context_of := (context_of w)\<lparr>Summaries := (Summaries (context_of w))(ref \<mapsto> summary')\<rparr>,
                     currentSummary := None, returnTaint := None, summaryParamFindings := []\<rparr>)))))"

definition StartSummarizationWalk :: "string \<Rightarrow> node \<Rightarrow> unit wm" where
  "StartSummarizationWalk ref fnNode =
     bindW (getsW mode) (\<lambda>m.
       if m \<noteq> ModeSummarize then returnW ()
       else bindW (modifyW (\<lambda>w. w\<lparr>currentSummary := Some ref,
                      context_of := (context_of w)\<lparr>Summaries := (Summaries (context_of w))(ref \<mapsto> NewFunctionSummary ref)\<rparr>\<rparr>)) (\<lambda>_.
            bindW (initializeParameters fnNode) (\<lambda>_.
            bindW (case ChildByFieldName fnNode ''body'' of
                     None \<Rightarrow> returnW ()
                   | Some body \<Rightarrow> Walk body) (\<lambda>_.
            finalizeSummary))))"

end
