(* ===== verification/JsWalkerLaws.thy ===== *)
theory JsWalkerLaws
  imports JsWalker
begin

text \<open>
  Laws of the walker that hold for every syntax tree: the recursions end within the fuel they are
  given, and what evaluation, updates, reports and whole walks may change. The second kind is
  proved once, in the locale \<open>walker_effects\<close>, for any preorder on walkers that the primitive
  operations respect and any set of errors that contains the two the code can raise; the frame
  properties are interpretations of it.
\<close>

section \<open>Effects\<close>

definition runs :: "(walker_error \<Rightarrow> bool) \<Rightarrow> (ast_walker \<Rightarrow> ast_walker \<Rightarrow> bool) \<Rightarrow> 'a wm \<Rightarrow> bool" where
  "runs E R m \<longleftrightarrow> (\<forall>w. case m w of Inl e \<Rightarrow> E e | Inr (x, w') \<Rightarrow> R w w')"

lemma runsI:
  "(\<And>w e. m w = Inl e \<Longrightarrow> E e) \<Longrightarrow> (\<And>w x w'. m w = Inr (x, w') \<Longrightarrow> R w w') \<Longrightarrow> runs E R m"
  by (auto simp: runs_def split: sum.splits)

lemma runsD:
  assumes "runs E R m"
  shows "m w = Inl e \<Longrightarrow> E e" and "m w = Inr (x, w') \<Longrightarrow> R w w'"
  using assms by (auto simp: runs_def dest!: spec [of _ w])

section \<open>Smaller nodes\<close>

lemma node_fuel_child [simp]:
  "c \<in> set (children n) \<Longrightarrow> node_fuel (Some c) < node_fuel (Some n)"
  by (simp add: node_fuel_def height_child)

lemma node_fuel_None [simp]: "node_fuel None < node_fuel (Some n)"
  by (simp add: node_fuel_def)

lemma node_fuel_field [simp]: "node_fuel (ChildByFieldName n f) < node_fuel (Some n)"
  by (cases "ChildByFieldName n f") (auto dest: ChildByFieldName_child)

lemma node_fuel_Child [simp]: "node_fuel (Child n i) < node_fuel (Some n)"
  by (cases "Child n i") (auto dest: Child_child)

lemma node_fuel_second [simp]: "node_fuel (field_or_second f m n) < node_fuel (Some n)"
  by (cases "ChildByFieldName n f") (auto simp: field_or_second_def dest: ChildByFieldName_child)

lemma node_fuel_grandchild [simp]:
  "c \<in> set (children n) \<Longrightarrow> node_fuel (ChildByFieldName c f) < node_fuel (Some n)"
  "c \<in> set (children n) \<Longrightarrow> node_fuel (field_or_second f m c) < node_fuel (Some n)"
  using less_trans [OF node_fuel_field node_fuel_child] less_trans [OF node_fuel_second node_fuel_child]
  by blast+

lemma node_fuel_SomeD:
  "ChildByFieldName n f = Some c \<Longrightarrow> node_fuel (Some c) < node_fuel (Some n)"
  "field_or_second f m n = Some c \<Longrightarrow> node_fuel (Some c) < node_fuel (Some n)"
  using node_fuel_field [of n f] node_fuel_second [of f m n] by simp_all

lemma extractArguments_set:
  "arg \<in> set (extractArguments a) \<Longrightarrow> \<exists>n. a = Some n \<and> arg \<in> set (children n)"
  by (auto simp: extractArguments_def split: option.splits)

lemma node_fuel_argument:
  assumes "arg \<in> set (extractArguments (ChildByFieldName n f))"
  shows "node_fuel (Some arg) < node_fuel (Some n)" and "node_fuel (field_or_second g m arg) < node_fuel (Some n)"
proof -
  obtain a where a: "ChildByFieldName n f = Some a" "arg \<in> set (children a)"
    using extractArguments_set [OF assms] by blast
  then have less: "node_fuel (Some arg) < node_fuel (Some n)"
    using node_fuel_child [OF a(2)] node_fuel_SomeD(1) [OF a(1)] by linarith
  then show "node_fuel (Some arg) < node_fuel (Some n)" "node_fuel (field_or_second g m arg) < node_fuel (Some n)"
    using node_fuel_second [of g m arg] by linarith+
qed

lemma node_fuel_template [simp]:
  "c \<in> set (children n) \<Longrightarrow> node_fuel (template_expr c) < node_fuel (Some n)"
  using less_trans [OF node_fuel_Child node_fuel_child] less_trans [OF node_fuel_SomeD(1) node_fuel_child]
  by (auto simp: template_expr_def split: option.splits)

lemma node_fuel_callee:
  "ChildByFieldName n f = Some c \<Longrightarrow> node_fuel (ChildByFieldName c g) < node_fuel (Some n)"
  using node_fuel_field [of c g] node_fuel_SomeD(1) [of n f c] by linarith

lemmas smaller = node_fuel_SomeD node_fuel_argument node_fuel_callee

section \<open>Preorders on walkers\<close>

locale walker_effects =
  fixes E :: "walker_error \<Rightarrow> bool" and R :: "ast_walker \<Rightarrow> ast_walker \<Rightarrow> bool"
  assumes E_overflow: "E StackOverflow"
    and R_refl: "R w w"
    and R_trans: "R w w1 \<Longrightarrow> R w1 w2 \<Longrightarrow> R w w2"
    and R_symbol: "R w (w\<lparr>symbolTaint := f\<rparr>)"
    and R_heap: "R w (w\<lparr>taintHeap := h\<rparr>)"
begin

lemma runs_return [intro!, simp]: "runs E R (returnW x)"
  by (simp add: runs_def R_refl)

lemma runs_unchanged [simp]: "runs E R (\<lambda>w. Inr (x, w))"
  by (simp add: runs_def R_refl)

lemma runs_gets [intro!, simp]: "runs E R (getsW f)"
  by (simp add: runs_def R_refl)

lemma runs_fail: "E e \<Longrightarrow> runs E R (failW e)"
  by (simp add: runs_def)

lemma runs_bind [intro]:
  assumes "runs E R m" and "\<And>x. runs E R (k x)"
  shows "runs E R (bindW m k)"
proof (rule runsI)
  fix w e assume "bindW m k w = Inl e"
  then show "E e"
    using runsD [OF assms(1)] runsD [OF assms(2)] by (cases "m w") (auto simp: bindW_def)
next
  fix w x w' assume "bindW m k w = Inr (x, w')"
  then show "R w w'"
    using runsD(2) [OF assms(1)] runsD(2) [OF assms(2)] R_trans by (auto simp: bindW_Inr) blast
qed

lemma runs_bind_gets [intro]:
  assumes "\<And>w. runs E R (k (f w))"
  shows "runs E R (bindW (getsW f) k)"
  using assms by (auto simp: runs_def bindW_def)

lemma runs_modify_symbol [simp]: "runs E R (modifyW (\<lambda>w. w\<lparr>symbolTaint := f w\<rparr>))"
  by (simp add: runs_def R_symbol)

lemma runs_modify_heap [simp]: "runs E R (modifyW (\<lambda>w. w\<lparr>taintHeap := f w\<rparr>))"
  by (simp add: runs_def R_heap)

lemma runs_foldW:
  assumes "\<And>x acc. x \<in> set xs \<Longrightarrow> runs E R (f x acc)"
  shows "runs E R (foldW f xs acc)"
  using assms by (induction xs arbitrary: acc) (auto intro!: runs_bind)

lemma runs_forW:
  assumes "\<And>x. x \<in> set xs \<Longrightarrow> runs E R (f x)"
  shows "runs E R (forW f xs)"
  unfolding forW_def using assms by (rule runs_foldW)

lemma runs_heapW [simp]: "runs E R (heapW r)"
  by (cases r) (simp_all add: heapW_def runs_fail E_overflow)

lemma runs_taint_ops [simp]:
  "runs E R (taintedW st)" "runs E R (mergeW t st)" "runs E R (sourcesW t)" "runs E R (propertyW a p)"
  "runs E R (allocW ob)" "runs E R (setPropertyW a p st)" "runs E R (taintStructureW a)"
  by (auto simp: taintedW_def mergeW_def sourcesW_def propertyW_def allocW_def setPropertyW_def
      taintStructureW_def intro!: runs_bind split: option.splits)

lemma runs_accumulate [simp]: "runs E R (accumulate acc part)"
  by (auto simp: accumulate_def intro!: runs_bind split: option.splits)

lemma runs_small [simp]:
  "runs E R (taintBinding ref st)" "runs E R (contentW n)" "runs E R (approximate_part n st)"
  by (auto simp: taintBinding_def contentW_def approximate_part_def intro!: runs_bind)

text \<open>Each body, under the assumption that the recursive calls it makes on smaller nodes behave.\<close>

lemma runs_handleDestructuring_body:
  assumes d: "\<And>m t. node_fuel m < node_fuel pattern \<Longrightarrow> runs E R (dst m t)"
  shows "runs E R (handleDestructuring_body dst pattern st)"
proof (cases pattern)
  case (Some p)
  have "runs E R (handleObjectDestructuring dst p st)"
    unfolding handleObjectDestructuring_def using d Some
    by (auto intro!: runs_forW runs_bind split: option.splits taint.splits)
  moreover have "runs E R (handleArrayDestructuring dst p st)"
    unfolding handleArrayDestructuring_def using d Some by (auto intro!: runs_forW runs_bind)
  ultimately show ?thesis
    using Some by (auto simp: handleDestructuring_body_def intro!: runs_bind)
qed (simp add: handleDestructuring_body_def)

lemma runs_destructF: "node_fuel pattern \<le> k \<Longrightarrow> runs E R (destructF k pattern st)"
proof (induction k arbitrary: pattern st)
  case 0
  then show ?case by (simp add: node_fuel_def)
next
  case (Suc k)
  then show ?case by (simp add: runs_handleDestructuring_body)
qed

lemma runs_initF: "node_fuel pattern \<le> k \<Longrightarrow> runs E R (initF k pattern src_name loc)"
proof (induction k arbitrary: pattern src_name)
  case 0
  then show ?case by (simp add: node_fuel_def)
next
  case (Suc k)
  show ?case
  proof (cases pattern)
    case None
    then show ?thesis by (simp add: initializeDestructuredParameter_body_def)
  next
    case (Some p)
    have ih: "runs E R (initF k m s loc)" if "node_fuel m < node_fuel (Some p)" for m s
      using Suc that Some by simp
    have "runs E R (init_object_child (initF k) src_name loc c)" if "c \<in> set (children p)" for c
      unfolding init_object_child_def using ih that by (auto intro!: runs_bind)
    then show ?thesis
      using Some ih
      by (auto simp: initializeDestructuredParameter_body_def Let_def intro!: runs_bind runs_forW
          split: option.splits dest: node_fuel_SomeD)
  qed
qed

lemma runs_initializeParameters [simp]: "runs E R (initializeParameters fn)"
proof -
  have "runs E R (initializeParameterTaint p i)" for p i
    by (simp add: initializeParameterTaint_def initializeDestructuredParameter_def runs_initF)
  then show ?thesis
    by (auto simp: initializeParameters_def intro!: runs_bind runs_foldW split: option.splits)
qed

lemma runs_eval_argument:
  assumes e: "\<And>m. node_fuel m < node_fuel (Some n) \<Longrightarrow> runs E R (ev m)"
    and a: "arg \<in> set (extractArguments (ChildByFieldName n f))"
  shows "runs E R (eval_argument ev arg)"
  using e smaller(3,4) [OF a] by (auto simp: eval_argument_def)

lemma runs_evaluateCallTaint:
  assumes e: "\<And>m. node_fuel m < node_fuel (Some n) \<Longrightarrow> runs E R (ev m)"
    and u: "\<And>m t. node_fuel m < node_fuel (Some n) \<Longrightarrow> runs E R (upd m t)"
  shows "runs E R (evaluateCallTaint ev upd n)"
proof -
  let ?c = "ChildByFieldName n ''function''" and ?a = "ChildByFieldName n ''arguments''"
  note arg = runs_eval_argument [of n ev _ "''arguments''", OF e]
  have ex: "runs E R (checkSpecificParameterExtraction ev n c p ?a)" if "?c = Some c" for c p
    unfolding checkSpecificParameterExtraction_def
    using e smaller(1,5) [OF that] that
    by (auto intro!: runs_bind split: option.splits list.splits dest: smaller(1) less_trans)
  have "runs E R (evaluateCallWithSummary ev n ?a s)" for s
    unfolding evaluateCallWithSummary_def
    by (auto simp: in_set_enumerate_eq intro!: runs_foldW runs_bind arg)
  moreover have "runs E R (evaluateCallFallback ev upd n ?c ?a)"
    unfolding evaluateCallFallback_def
    by (auto intro!: runs_foldW runs_bind arg u smaller(5) split: option.splits)
  ultimately have "runs E R (evaluateCallUnknown ev upd n ?c ?a)"
    unfolding evaluateCallUnknown_def by (auto intro!: runs_bind split: option.splits)
  then show ?thesis
    unfolding evaluateCallTaint_def Let_def
    by (auto intro!: runs_bind ex split: option.splits)
qed

lemma runs_evaluatePropertyAccessTaint:
  assumes e: "\<And>m. node_fuel m < node_fuel (Some n) \<Longrightarrow> runs E R (ev m)"
  shows "runs E R (evaluatePropertyAccessTaint ev n)"
  unfolding evaluatePropertyAccessTaint_def using e
  by (auto intro!: runs_bind split: option.splits prod.splits taint.splits)

lemma runs_evaluateObjectLiteralTaint:
  assumes e: "\<And>m. node_fuel m < node_fuel (Some n) \<Longrightarrow> runs E R (ev m)"
  shows "runs E R (evaluateObjectLiteralTaint ev n)"
proof -
  have "runs E R (literal_child ev child acc)" if "child \<in> set (children n)" for child acc
    unfolding literal_child_def using e that
    by (auto intro!: runs_bind split: sum.splits taint.splits)
  then show ?thesis
    unfolding evaluateObjectLiteralTaint_def by (auto intro!: runs_bind runs_foldW split: sum.splits)
qed

lemma runs_evaluateTaint_body:
  assumes e: "\<And>m. node_fuel m < node_fuel node \<Longrightarrow> runs E R (ev m)"
    and u: "\<And>m t. node_fuel m < node_fuel node \<Longrightarrow> runs E R (upd m t)"
  shows "runs E R (evaluateTaint_body ev upd node)"
proof (cases node)
  case (Some n)
  have "runs E R (template_part ev child acc)" if "child \<in> set (children n)" for child acc
    unfolding template_part_def using e that Some
    by (auto intro!: runs_bind)
  then show ?thesis
    using Some e u unfolding evaluateTaint_body_def Let_def
    by (auto intro!: runs_bind runs_foldW runs_evaluateCallTaint runs_evaluatePropertyAccessTaint
        runs_evaluateObjectLiteralTaint split: option.splits)
qed (simp add: evaluateTaint_body_def)

lemma runs_updateTaintTarget_body:
  assumes e: "\<And>m. node_fuel m < node_fuel target \<Longrightarrow> runs E R (ev m)"
    and u: "\<And>m t. node_fuel m < node_fuel target \<Longrightarrow> runs E R (upd m t)"
  shows "runs E R (updateTaintTarget_body ev upd target st)"
proof (cases target)
  case (Some n)
  have "runs E R (updatePropertyTaint ev upd n st)"
  proof (cases "ChildByFieldName n ''object''")
    case None
    then show ?thesis by (simp add: updatePropertyTaint_def)
  next
    case (Some ob)
    note less = node_fuel_SomeD(1) [OF Some]
    have "runs E R (ev (Some ob))" "\<And>t. runs E R (upd (Some ob) t)"
      using e u less \<open>target = Some n\<close> by auto
    then show ?thesis
      by (auto simp: updatePropertyTaint_def Some intro!: runs_bind split: option.splits taint.splits)
  qed
  then show ?thesis
    using Some by (auto simp: updateTaintTarget_body_def Let_def handleDestructuring_def
        intro!: runs_bind runs_destructF)
qed (simp add: updateTaintTarget_body_def)

lemma runs_evalF_updF:
  "(node_fuel n \<le> k \<longrightarrow> runs E R (evalF k n)) \<and> (node_fuel n \<le> k \<longrightarrow> runs E R (updF k n st))"
proof (induction k arbitrary: n st)
  case 0
  then show ?case by (simp add: node_fuel_def)
next
  case (Suc k)
  then show ?case by (auto intro!: runs_evaluateTaint_body runs_updateTaintTarget_body)
qed

lemma runs_evaluate [simp]:
  "runs E R (evaluateTaint n)" "runs E R (updateTaintTarget n st)" "runs E R (handleDestructuring n st)"
  using runs_evalF_updF runs_destructF
  by (auto simp: evaluateTaint_def updateTaintTarget_def handleDestructuring_def)

end

section \<open>Reports and walks\<close>

locale walker_reports = walker_effects +
  assumes E_nil: "E NilDereference"
    and R_report: "R w (record_finding finding w)"
    and R_return: "R w (w\<lparr>returnTaint := t\<rparr>)"
begin

lemma runs_sourceW [simp]: "runs E R (sourceW st)"
  by (auto simp: sourceW_def intro!: runs_bind runs_fail E_nil split: option.splits)

lemma runs_reportFinding [simp]: "runs E R (reportFinding s d n)"
  by (simp add: reportFinding_def runs_def R_report)

lemma runs_checkAssignmentSink [simp]: "runs E R (checkAssignmentSink target st n)"
  by (auto simp: checkAssignmentSink_def intro!: runs_bind split: option.splits)

lemma runs_eval_arg [simp]: "runs E R (eval_argument evaluateTaint arg)"
  by (simp add: eval_argument_def)

lemma runs_checkArgs_loop [simp]: "runs E R (checkArgs_loop is d args n)"
  by (induction "is" d args n rule: checkArgs_loop.induct) (auto intro!: runs_bind)

lemma runs_checkSummary_loop [simp]: "runs E R (checkSummary_loop args n s)"
  by (induction args n s rule: checkSummary_loop.induct) (auto intro!: runs_bind)

lemma runs_handlers [simp]:
  "runs E R (handleCall n)" "runs E R (handleVarDecl n)" "runs E R (handleAssignment n)"
  by (auto simp: handleCall_def checkCallForSinks_def checkArgsAgainstSink_def checkCallWithSummary_def
      handleVarDecl_def handleAssignment_def intro!: runs_bind runs_forW split: option.splits)

lemma runs_handleReturn [simp]: "runs E R (handleReturn n)"
proof -
  have "runs E R (modifyW (\<lambda>w. w\<lparr>returnTaint := t\<rparr>))" for t
    by (simp add: runs_def R_return)
  then show ?thesis
    by (auto simp: handleReturn_def intro!: runs_bind split: option.splits)
qed

lemma runs_visit [simp]: "runs E R (visit n)"
  by (auto simp: visit_def Let_def intro!: runs_bind)

lemma runs_walkF: "height n \<le> k \<Longrightarrow> runs E R (walkF k n)"
proof (induction k arbitrary: n)
  case 0
  then show ?case using height_pos [of n] by simp
next
  case (Suc k)
  have "runs E R (walkF k c)" if "c \<in> set (children n)" for c
    using Suc height_child [OF that] by simp
  then show ?case by (auto intro!: runs_bind runs_forW)
qed

lemma runs_Walk [simp]: "runs E R (Walk n)"
  by (simp add: Walk_def runs_walkF)

end

section \<open>Enough fuel\<close>

text \<open>
  A run with more fuel agrees with a run that did not run out. Together with the effects above,
  the fuel of \<open>evaluateTaint\<close> and \<open>updateTaintTarget\<close> is enough, and both satisfy the equations of
  the recursive functions they stand for.
\<close>

definition refined_by :: "'a wm \<Rightarrow> 'a wm \<Rightarrow> bool" where
  "refined_by m m' \<longleftrightarrow> (\<forall>w. m w = Inl OutOfFuel \<or> m w = m' w)"

lemma refined_refl [intro!, simp]: "refined_by m m"
  by (simp add: refined_by_def)

lemma refined_fail [simp]: "refined_by (failW OutOfFuel) m"
  by (simp add: refined_by_def)

lemma refined_bind:
  assumes "refined_by m m'" and "\<And>x. refined_by (k x) (k' x)"
  shows "refined_by (bindW m k) (bindW m' k')"
  unfolding refined_by_def
proof
  fix w
  consider "m w = Inl OutOfFuel" | "m w = m' w" using assms(1) by (auto simp: refined_by_def)
  then show "bindW m k w = Inl OutOfFuel \<or> bindW m k w = bindW m' k' w"
  proof cases
    case 2
    then show ?thesis
      using assms(2) by (cases "m' w") (auto simp: bindW_def refined_by_def)
  qed simp
qed

lemma refined_foldW:
  assumes "\<And>x acc. refined_by (f x acc) (f' x acc)"
  shows "refined_by (foldW f xs acc) (foldW f' xs acc)"
  by (induction xs arbitrary: acc) (auto intro!: refined_bind assms)

lemma refined_forW: "(\<And>x. refined_by (f x) (f' x)) \<Longrightarrow> refined_by (forW f xs) (forW f' xs)"
  unfolding forW_def by (rule refined_foldW)

lemma refined_destructuring_body:
  assumes "\<And>m t. refined_by (dst m t) (dst' m t)"
  shows "refined_by (handleDestructuring_body dst p st) (handleDestructuring_body dst' p st)"
  unfolding handleDestructuring_body_def handleObjectDestructuring_def handleArrayDestructuring_def
  by (auto intro!: refined_bind refined_forW assms split: option.splits)

lemma refined_eval_argument:
  "(\<And>m. refined_by (ev m) (ev' m)) \<Longrightarrow> refined_by (eval_argument ev a) (eval_argument ev' a)"
  by (simp add: eval_argument_def)

lemma refined_extraction:
  assumes "\<And>m. refined_by (ev m) (ev' m)"
  shows "refined_by (checkSpecificParameterExtraction ev n c p a) (checkSpecificParameterExtraction ev' n c p a)"
  unfolding checkSpecificParameterExtraction_def
  by (auto intro!: refined_bind assms split: option.splits)

lemma refined_call:
  assumes "\<And>m. refined_by (ev m) (ev' m)" and "\<And>m t. refined_by (upd m t) (upd' m t)"
  shows "refined_by (evaluateCallTaint ev upd n) (evaluateCallTaint ev' upd' n)"
  unfolding evaluateCallTaint_def evaluateCallUnknown_def evaluateCallWithSummary_def evaluateCallFallback_def Let_def
  by (auto intro!: refined_bind refined_foldW refined_eval_argument refined_extraction assms split: option.splits)

lemma refined_literal:
  assumes "\<And>m. refined_by (ev m) (ev' m)"
  shows "refined_by (evaluateObjectLiteralTaint ev n) (evaluateObjectLiteralTaint ev' n)"
  unfolding evaluateObjectLiteralTaint_def literal_child_def
  by (auto intro!: refined_bind refined_foldW assms split: sum.splits)

lemma refined_property:
  assumes "\<And>m. refined_by (ev m) (ev' m)"
  shows "refined_by (evaluatePropertyAccessTaint ev n) (evaluatePropertyAccessTaint ev' n)"
  unfolding evaluatePropertyAccessTaint_def
  by (auto intro!: refined_bind assms split: option.splits prod.splits)

lemma refined_evaluate_body:
  assumes "\<And>m. refined_by (ev m) (ev' m)" and "\<And>m t. refined_by (upd m t) (upd' m t)"
  shows "refined_by (evaluateTaint_body ev upd n) (evaluateTaint_body ev' upd' n)"
  unfolding evaluateTaint_body_def template_part_def Let_def
  by (auto intro!: refined_bind refined_foldW refined_call refined_literal refined_property assms split: option.splits)

lemma refined_update_body:
  assumes "\<And>m. refined_by (ev m) (ev' m)" and "\<And>m t. refined_by (upd m t) (upd' m t)"
  shows "refined_by (updateTaintTarget_body ev upd n st) (updateTaintTarget_body ev' upd' n st)"
  unfolding updateTaintTarget_body_def updatePropertyTaint_def Let_def
  by (auto intro!: refined_bind assms split: option.splits)

lemma refined_more_fuel:
  "refined_by (destructF k n st) (destructF (k + j) n st)"
  "refined_by (evalF k n) (evalF (k + j) n)" "refined_by (updF k n st) (updF (k + j) n st)"
proof -
  show "refined_by (destructF k n st) (destructF (k + j) n st)"
    by (induction k arbitrary: n st) (auto intro!: refined_destructuring_body)
  have "refined_by (evalF k n) (evalF (k + j) n) \<and> refined_by (updF k n st) (updF (k + j) n st)"
    by (induction k arbitrary: n st) (auto intro!: refined_evaluate_body refined_update_body)
  then show "refined_by (evalF k n) (evalF (k + j) n)" "refined_by (updF k n st) (updF (k + j) n st)"
    by blast+
qed

section \<open>What evaluation and walks may change\<close>

text \<open>Evaluation changes symbols and taint objects only, and can fail only by a cyclic taint object.\<close>

definition eval_frame :: "ast_walker \<Rightarrow> ast_walker \<Rightarrow> bool" where
  "eval_frame w w' \<longleftrightarrow> w' = w\<lparr>symbolTaint := symbolTaint w', taintHeap := taintHeap w'\<rparr>"

lemma eval_frameD:
  assumes "eval_frame w w'"
  shows "analyzeFindings w' = analyzeFindings w" "filename w' = filename w" "source w' = source w"
    "mode w' = mode w" "context_of w' = context_of w" "currentSummary w' = currentSummary w"
    "returnTaint w' = returnTaint w" "summaryParamFindings w' = summaryParamFindings w"
  using arg_cong [OF assms [unfolded eval_frame_def], of analyzeFindings]
    arg_cong [OF assms [unfolded eval_frame_def], of filename]
    arg_cong [OF assms [unfolded eval_frame_def], of source]
    arg_cong [OF assms [unfolded eval_frame_def], of mode]
    arg_cong [OF assms [unfolded eval_frame_def], of context_of]
    arg_cong [OF assms [unfolded eval_frame_def], of currentSummary]
    arg_cong [OF assms [unfolded eval_frame_def], of returnTaint]
    arg_cong [OF assms [unfolded eval_frame_def], of summaryParamFindings] by simp_all

lemma eval_frame_trans:
  assumes "eval_frame w w1" and "eval_frame w1 w2"
  shows "eval_frame w w2"
  using assms eval_frameD [OF assms(1)] eval_frameD [OF assms(2)]
  by (simp add: eval_frame_def)

interpretation frame: walker_effects "\<lambda>e. e = StackOverflow" eval_frame
  by unfold_locales (auto simp: eval_frame_def intro: eval_frame_trans [unfolded eval_frame_def])

text \<open>
  A walk never touches the summaries or the identity of the walker, only appends findings, and in
  each mode only to the lists of that mode.
\<close>

definition walk_frame :: "ast_walker \<Rightarrow> ast_walker \<Rightarrow> bool" where
  "walk_frame w w' \<longleftrightarrow>
     filename w' = filename w \<and> source w' = source w \<and> mode w' = mode w \<and>
     currentSummary w' = currentSummary w \<and>
     Summaries (context_of w') = Summaries (context_of w) \<and>
     (\<exists>fs. analyzeFindings w' = analyzeFindings w @ fs \<and> (mode w = ModeSummarize \<longrightarrow> fs = [])) \<and>
     (\<exists>gs. intraProceduralFindings (context_of w') = intraProceduralFindings (context_of w) @ gs \<and>
        (mode w = ModeAnalyze \<longrightarrow> gs = [])) \<and>
     (\<exists>ps. summaryParamFindings w' = summaryParamFindings w @ ps \<and> (mode w = ModeAnalyze \<longrightarrow> ps = []))"

interpretation walks: walker_reports "\<lambda>e. e \<noteq> OutOfFuel" walk_frame
proof (unfold_locales, goal_cases)
  case (3 w w1 w2)
  then show ?case by (auto simp: walk_frame_def)
next
  case (7 w finding)
  then show ?case
    by (cases "mode w") (auto simp: walk_frame_def record_finding_def Let_def AddIntraProceduralFinding_def)
qed (auto simp: walk_frame_def)

section \<open>The recursive equations\<close>

lemma refined_same:
  assumes "refined_by m m'" and "runs E R m" and "\<not> E OutOfFuel"
  shows "m = m'"
proof
  fix w
  have "m w \<noteq> Inl OutOfFuel" using runsD(1) [OF assms(2)] assms(3) by blast
  then show "m w = m' w" using assms(1) unfolding refined_by_def by blast
qed

lemma enough_fuel:
  "node_fuel n \<le> k \<Longrightarrow> evalF k n = evaluateTaint n"
  "node_fuel n \<le> k \<Longrightarrow> updF k n st = updateTaintTarget n st"
  "node_fuel n \<le> k \<Longrightarrow> destructF k n st = handleDestructuring n st"
proof -
  assume "node_fuel n \<le> k"
  then obtain j where k: "k = node_fuel n + j" by (auto simp: le_iff_add)
  show "evalF k n = evaluateTaint n" "updF k n st = updateTaintTarget n st"
      "destructF k n st = handleDestructuring n st"
    unfolding k evaluateTaint_def updateTaintTarget_def handleDestructuring_def
    by (rule sym, rule refined_same [where E = "\<lambda>e. e \<noteq> OutOfFuel" and R = walk_frame],
        rule refined_more_fuel, use walks.runs_evalF_updF walks.runs_destructF in simp_all)+
qed

lemma refined_tied:
  "refined_by (evalF k n) (evaluateTaint n)" "refined_by (updF k n st) (updateTaintTarget n st)"
  "refined_by (destructF k n st) (handleDestructuring n st)"
proof -
  have f: "k \<le> node_fuel n \<Longrightarrow> \<exists>j. node_fuel n = k + j" by (rule le_Suc_ex)
  show "refined_by (evalF k n) (evaluateTaint n)" "refined_by (updF k n st) (updateTaintTarget n st)"
      "refined_by (destructF k n st) (handleDestructuring n st)"
    by (cases "node_fuel n \<le> k", simp_all add: enough_fuel,
        use f refined_more_fuel in \<open>auto simp: evaluateTaint_def updateTaintTarget_def handleDestructuring_def\<close>)+
qed

lemma evaluateTaint_eq: "evaluateTaint n = evaluateTaint_body evaluateTaint updateTaintTarget n"
proof -
  obtain k where k: "node_fuel n = Suc k" by (cases "node_fuel n") (simp_all add: node_fuel_def)
  have "refined_by (evaluateTaint n) (evaluateTaint_body evaluateTaint updateTaintTarget n)"
    unfolding evaluateTaint_def [of n] k evalF.simps by (rule refined_evaluate_body) (rule refined_tied)+
  then show ?thesis by (rule refined_same [OF _ walks.runs_evaluate(1)]) simp
qed

lemma updateTaintTarget_eq:
  "updateTaintTarget n st = updateTaintTarget_body evaluateTaint updateTaintTarget n st"
proof -
  obtain k where k: "node_fuel n = Suc k" by (cases "node_fuel n") (simp_all add: node_fuel_def)
  have "refined_by (updateTaintTarget n st) (updateTaintTarget_body evaluateTaint updateTaintTarget n st)"
    unfolding updateTaintTarget_def [of n] k updF.simps by (rule refined_update_body) (rule refined_tied)+
  then show ?thesis by (rule refined_same [OF _ walks.runs_evaluate(2)]) simp
qed

lemma handleDestructuring_eq:
  "handleDestructuring n st = handleDestructuring_body handleDestructuring n st"
proof -
  obtain k where k: "node_fuel n = Suc k" by (cases "node_fuel n") (simp_all add: node_fuel_def)
  have "refined_by (handleDestructuring n st) (handleDestructuring_body handleDestructuring n st)"
    unfolding handleDestructuring_def [of n] k destructF.simps
    by (rule refined_destructuring_body) (rule refined_tied)
  then show ?thesis by (rule refined_same [OF _ walks.runs_evaluate(3)]) simp
qed

lemma walkF_enough: "height n \<le> k \<Longrightarrow> walkF k n = Walk n"
proof -
  assume "height n \<le> k"
  then obtain j where k: "k = height n + j" by (auto simp: le_iff_add)
  have "refined_by (walkF i n) (walkF (i + j) n)" for i
    by (induction i arbitrary: n) (auto intro!: refined_bind refined_forW)
  then show ?thesis
    unfolding k Walk_def by (intro sym [OF refined_same [OF _ walks.runs_walkF]]) simp_all
qed

lemma forW_cong: "(\<And>x. x \<in> set xs \<Longrightarrow> f x = g x) \<Longrightarrow> forW f xs = forW g xs"
  by (induction xs) simp_all

lemma Walk_eq:
  "Walk n = bindW (visit n) (\<lambda>shouldRecurse. if shouldRecurse then forW Walk (children n) else returnW ())"
proof -
  obtain k where k: "height n = Suc k" using height_pos [of n] by (cases "height n") simp_all
  have "forW (walkF k) (children n) = forW Walk (children n)"
    using height_child [of _ n] k by (intro forW_cong walkF_enough) (simp add: less_Suc_eq_le)
  then show ?thesis unfolding Walk_def [of n] k walkF.simps by (simp cong: if_cong)
qed

section \<open>Properties\<close>

text \<open>
  The mutually recursive evaluation and update of the walker, its destructuring and its traversal
  satisfy the equations of the recursive functions of the code, with no fuel left in them, and none
  of them runs out of fuel on any syntax tree. (Their recursion over taint objects is another
  matter: a cyclic object gives the stack overflow result.)
\<close>

lemma walker_recursion:
  "evaluateTaint n = evaluateTaint_body evaluateTaint updateTaintTarget n \<and>
   updateTaintTarget n st = updateTaintTarget_body evaluateTaint updateTaintTarget n st \<and>
   handleDestructuring n st = handleDestructuring_body handleDestructuring n st \<and>
   Walk m = bindW (visit m) (\<lambda>shouldRecurse. if shouldRecurse then forW Walk (children m) else returnW ()) \<and>
   evaluateTaint n w \<noteq> Inl OutOfFuel \<and> updateTaintTarget n st w \<noteq> Inl OutOfFuel \<and>
   handleDestructuring n st w \<noteq> Inl OutOfFuel \<and> Walk m w \<noteq> Inl OutOfFuel"
proof -
  have "evaluateTaint n w \<noteq> Inl OutOfFuel" "updateTaintTarget n st w \<noteq> Inl OutOfFuel"
      "handleDestructuring n st w \<noteq> Inl OutOfFuel" "Walk m w \<noteq> Inl OutOfFuel"
    using runsD(1) [OF walks.runs_evaluate(1)] runsD(1) [OF walks.runs_evaluate(2)]
      runsD(1) [OF walks.runs_evaluate(3)] runsD(1) [OF walks.runs_Walk]
    by blast+
  then show ?thesis
    using evaluateTaint_eq updateTaintTarget_eq handleDestructuring_eq Walk_eq by blast
qed

text \<open>
  C12. Evaluating an expression changes nothing but the symbol table and the taint objects, and fails
  only on a cyclic taint object; in particular it reports nothing and never dereferences nil. A walk
  leaves the file, the mode, the summaries and the current summary alone and only ever appends
  findings: in analysis mode to the walker's own list, in summarisation mode to the other two.
\<close>

theorem walker_effects_bounded:
  "(case evaluateTaint n w of
      Inl e \<Rightarrow> e = StackOverflow
    | Inr (t, w') \<Rightarrow> w' = w\<lparr>symbolTaint := symbolTaint w', taintHeap := taintHeap w'\<rparr>) \<and>
   (case Walk m w of
      Inl e \<Rightarrow> e = StackOverflow \<or> e = NilDereference
    | Inr (_, w') \<Rightarrow>
        filename w' = filename w \<and> source w' = source w \<and> mode w' = mode w \<and>
        currentSummary w' = currentSummary w \<and> Summaries (context_of w') = Summaries (context_of w) \<and>
        (\<exists>fs. analyzeFindings w' = analyzeFindings w @ fs \<and> (mode w = ModeAnalyze \<or> fs = [])) \<and>
        (\<exists>gs. intraProceduralFindings (context_of w') = intraProceduralFindings (context_of w) @ gs \<and>
           (mode w = ModeSummarize \<or> gs = [])) \<and>
        (\<exists>ps. summaryParamFindings w' = summaryParamFindings w @ ps \<and> (mode w = ModeSummarize \<or> ps = [])))"
proof -
  have 1: "case evaluateTaint n w of
      Inl e \<Rightarrow> e = StackOverflow
    | Inr (t, w') \<Rightarrow> eval_frame w w'"
    using frame.runs_evaluate(1) [of n] by (simp add: runs_def)
  have "(\<lambda>e. e \<noteq> OutOfFuel) = (\<lambda>e. e = StackOverflow \<or> e = NilDereference)"
    using walker_error.exhaust by blast
  then have 2: "case Walk m w of
      Inl e \<Rightarrow> e = StackOverflow \<or> e = NilDereference
    | Inr (_, w') \<Rightarrow> walk_frame w w'"
    using walks.runs_Walk [of m] by (simp add: runs_def)
  have m: "(mode w = ModeAnalyze) = (mode w \<noteq> ModeSummarize)" by (cases "mode w") simp_all
  show ?thesis
    using 1 2 by (auto simp: eval_frame_def walk_frame_def m split: sum.splits)
qed

end
