(* ===== verification/JsFlows.thy ===== *)
theory JsFlows
  imports JsWalkerLaws
begin

text \<open>
  What the walker finds. Flows it reports (a source passed straight to a sink, through a variable,
  through a summarised function), flows it stops (sanitizers), the absence of reports on code
  without sources, and the inputs on which it goes wrong.
\<close>

section \<open>Evaluating the leaves\<close>

definition is_property_source :: "string \<Rightarrow> node \<Rightarrow> string \<Rightarrow> bool" where
  "is_property_source src n s \<longleftrightarrow>
     nodeType n \<in> {''member_expression'', ''subscript_expression''} \<and>
     Option.bind (flattenPropertyAccess src (Some n)) CheckIfPropertySource = Some s"

lemma property_sources_nonempty: "CheckIfPropertySource p = Some s \<Longrightarrow> s \<noteq> []"
  by (auto simp: CheckIfPropertySource_def knownPropertySources_def source_names split: if_splits)

lemma eval_nil [simp]: "evaluateTaint None w = Inr (None, w)"
  by (subst evaluateTaint_eq) (simp add: evaluateTaint_body_def)

lemma eval_identifier:
  assumes "nodeType n = ''identifier'' \<or> nodeType n = ''shorthand_property_identifier''"
  shows "evaluateTaint (Some n) w = Inr (symbolTaint w (Content (source w) n), w)"
  using assms by (subst evaluateTaint_eq) (simp add: evaluateTaint_body_def contentW_def bindW_def)

lemma eval_property_source:
  assumes "is_property_source (source w) n s"
  shows "evaluateTaint (Some n) w = Inr (Some (SimpleTaint {s} (row n)), w)"
proof -
  have ty: "nodeType n = ''member_expression'' \<or> nodeType n = ''subscript_expression''"
    and b: "Option.bind (flattenPropertyAccess (source w) (Some n)) CheckIfPropertySource = Some s"
    using assms by (auto simp: is_property_source_def)
  from b obtain p where "CheckIfPropertySource p = Some s" by (auto simp: bind_eq_Some_conv)
  then have s: "s \<noteq> []" by (rule property_sources_nonempty)
  have "evaluateTaint (Some n) w = evaluatePropertyAccessTaint evaluateTaint n w"
    using ty by (subst evaluateTaint_eq) (auto simp: evaluateTaint_body_def Let_def)
  also have "\<dots> = Inr (Some (SimpleTaint {s} (row n)), w)"
    using s by (simp add: evaluatePropertyAccessTaint_def bindW_def b NewSimpleTaint_def)
  finally show ?thesis .
qed

definition literal_types :: "string set" where
  "literal_types = {''string'', ''number'', ''true'', ''false'', ''null'', ''undefined'', ''array''}"

lemma eval_literal:
  assumes "nodeType n \<in> literal_types"
  shows "evaluateTaint (Some n) w = Inr (None, w)"
  using assms by (subst evaluateTaint_eq) (auto simp: literal_types_def evaluateTaint_body_def Let_def)

lemma tainted_None [simp]: "taintedW None w = Inr (False, w)"
  by (simp add: taintedW_def)

lemma tainted_simple [simp]: "taintedW (Some (SimpleTaint S l)) w = Inr (S \<noteq> {}, w)"
  by (simp add: taintedW_def bindW_def heapW_def IsTainted_def)

lemma source_simple [simp]: "sourceW (Some (SimpleTaint S l)) w = Inr (simple_source S, w)"
  by (simp add: sourceW_def bindW_def heapW_def GetSource_def)

lemma simple_source_single [simp]: "simple_source {s} = s"
  by (simp add: simple_source_def)

lemma make_finding_sel [simp]:
  "fSource (make_finding w x d n) = x" "fSink (make_finding w x d n) = ssName d"
  by (simp_all add: make_finding_def)

section \<open>A source passed to a sink\<close>

lemma checkArgs_loop_hit:
  assumes skip: "\<forall>j\<in>set pre. \<not> (0 \<le> j \<and> j < int (length args)) \<or> nodeType (args ! nat j) \<in> literal_types"
    and i: "0 \<le> i" "i < int (length args)"
    and arg: "nodeType (args ! nat i) \<noteq> ''spread_element''"
    and ev: "evaluateTaint (Some (args ! nat i)) w = Inr (Some (SimpleTaint {s} l), w)" and s: "s \<noteq> []"
  shows "checkArgs_loop (pre @ i # post) d args n w = Inr ((), record_finding (make_finding w s d n) w)"
  using skip
proof (induction pre)
  case Nil
  then show ?case
    using i arg ev s by (simp add: eval_argument_def bindW_def reportFinding_def)
next
  case (Cons j pre)
  show ?case
  proof (cases "0 \<le> j \<and> j < int (length args)")
    case True
    then have "nodeType (args ! nat j) \<in> literal_types" using Cons.prems by auto
    then have "eval_argument evaluateTaint (args ! nat j) w = Inr (None, w)"
      by (auto simp: eval_argument_def eval_literal literal_types_def)
    then show ?thesis using Cons True by (simp add: bindW_def)
  qed (use Cons in auto)
qed

definition sink_call :: "string \<Rightarrow> node \<Rightarrow> StaticSinkDefinition \<Rightarrow> bool" where
  "sink_call src n d \<longleftrightarrow>
     nodeType n \<in> {''call_expression'', ''new_expression''} \<and>
     (\<exists>c. ChildByFieldName n ''function'' = Some c \<and>
          Option.bind (flattenPropertyAccess src (Some c)) CheckIfSinkFunction = Some d)"

text \<open>
  Argument \<open>i\<close> is the first argument that the sink watches and that is not a literal.
\<close>

definition first_watched :: "node list \<Rightarrow> int list \<Rightarrow> nat \<Rightarrow> bool" where
  "first_watched args watched i \<longleftrightarrow>
     i < length args \<and>
     (\<exists>pre post. watched = pre @ int i # post \<and>
        (\<forall>j\<in>set pre. \<not> (0 \<le> j \<and> j < int (length args)) \<or> nodeType (args ! nat j) \<in> literal_types))"

lemma sink_call_reports:
  assumes call: "sink_call (source w) n d"
    and args: "extractArguments (ChildByFieldName n ''arguments'') = args"
    and i: "first_watched args (ssTaintedArgs d) i"
    and arg: "nodeType (args ! i) \<noteq> ''spread_element''"
    and ev: "evaluateTaint (Some (args ! i)) w = Inr (Some (SimpleTaint {s} l), w)" and s: "s \<noteq> []"
  shows "visit n w = Inr (True, record_finding (make_finding w s d n) w)"
proof -
  obtain c where c: "ChildByFieldName n ''function'' = Some c"
      "Option.bind (flattenPropertyAccess (source w) (Some c)) CheckIfSinkFunction = Some d"
      "nodeType n = ''call_expression'' \<or> nodeType n = ''new_expression''"
    using call by (auto simp: sink_call_def)
  obtain pre post where p: "ssTaintedArgs d = pre @ int i # post" "i < length args"
      "\<forall>j\<in>set pre. \<not> (0 \<le> j \<and> j < int (length args)) \<or> nodeType (args ! nat j) \<in> literal_types"
    using i by (auto simp: first_watched_def)
  have "handleCall n w = checkArgsAgainstSink d (ChildByFieldName n ''arguments'') n w"
    using c by (simp add: handleCall_def checkCallForSinks_def bindW_def)
  also have "\<dots> = checkArgs_loop (ssTaintedArgs d) d args n w"
    by (simp add: checkArgsAgainstSink_def args)
  also have "\<dots> = Inr ((), record_finding (make_finding w s d n) w)"
    unfolding p(1) using p arg ev s by (intro checkArgs_loop_hit) auto
  finally have "handleCall n w = Inr ((), record_finding (make_finding w s d n) w)" .
  then show ?thesis
    using c(3) by (auto simp: visit_def Let_def bindW_def)
qed

text \<open>The nodes that a walk in analysis mode visits: all of them, except below function nodes.\<close>

definition function_types :: "string set" where
  "function_types = {''function_declaration'', ''function'', ''arrow_function'', ''generator_function'', ''method_definition''}"

inductive visited :: "node \<Rightarrow> node \<Rightarrow> bool" for root where
  visited_root: "visited root root"
| visited_child: "visited root p \<Longrightarrow> nodeType p \<notin> function_types \<Longrightarrow> c \<in> set (children p) \<Longrightarrow> visited root c"

lemma visited_step:
  assumes "visited c n" and "c \<in> set (children p)" and "nodeType p \<notin> function_types"
  shows "visited p n"
  using assms
proof (induction rule: visited.induct)
  case visited_root
  then show ?case using visited.intros by blast
next
  case (visited_child q d)
  then show ?case using visited.visited_child by blast
qed

lemma visited_cases:
  assumes "visited p n"
  shows "n = p \<or> (nodeType p \<notin> function_types \<and> (\<exists>c\<in>set (children p). visited c n))"
  using assms by (induction rule: visited.induct) (blast intro: visited.intros)+

lemma visit_recurses:
  assumes "visit n w = Inr (b, w')" and "nodeType n \<notin> function_types"
  shows "b"
  using assms by (auto simp: visit_def Let_def bindW_Inr function_types_def)

text \<open>
  A relation that every visit of a walk keeps is kept by the walk; and what one visit establishes
  whatever the state, and the relation preserves, the walk establishes.
\<close>

lemma visit_function:
  assumes "visit n w = Inr (b, w')" and "nodeType n \<in> function_types" and "\<not> handleFunctionBoundary w"
  shows "\<not> b \<and> w' = w"
  using assms by (auto simp: visit_def Let_def function_types_def)

lemma forW_keeps:
  assumes R: "reflp R" "transp R"
    and f: "\<And>x w1 w2. x \<in> set xs \<Longrightarrow> R w w1 \<Longrightarrow> f x w1 = Inr ((), w2) \<Longrightarrow> R w1 w2"
    and run: "forW f xs w = Inr ((), w')"
  shows "R w w'"
  using f run
proof (induction xs arbitrary: w)
  case Nil
  then show ?case using reflpD [OF R(1)] by simp
next
  case (Cons x xs)
  obtain w1 where x: "f x w = Inr ((), w1)" and xs: "forW f xs w1 = Inr ((), w')"
    using Cons.prems(2) by (auto simp: bindW_Inr)
  have "R w w1" using Cons.prems(1) [OF _ reflpD [OF R(1)] x] by simp
  then show ?case
    using Cons.IH [OF _ xs] Cons.prems(1) transpD [OF R(2)] by (meson list.set_intros(2))
qed

lemma forW_reaches:
  assumes R: "reflp R" "transp R"
    and f: "\<And>x w1 w2. x \<in> set xs \<Longrightarrow> R w w1 \<Longrightarrow> f x w1 = Inr ((), w2) \<Longrightarrow> R w1 w2"
    and x: "x \<in> set xs" and run: "forW f xs w = Inr ((), w')"
    and keep: "\<And>w1 w2. R w1 w2 \<Longrightarrow> P w1 \<Longrightarrow> P w2"
    and hit: "\<And>w1 w2. R w w1 \<Longrightarrow> f x w1 = Inr ((), w2) \<Longrightarrow> P w2"
  shows "P w'"
  using f x run hit
proof (induction xs arbitrary: w)
  case (Cons z zs)
  obtain w1 where z: "f z w = Inr ((), w1)" and zs: "forW f zs w1 = Inr ((), w')"
    using Cons.prems(3) by (auto simp: bindW_Inr)
  have fr: "R w w1" using Cons.prems(1) [OF _ reflpD [OF R(1)] z] by simp
  have f': "\<And>x w2 w3. x \<in> set zs \<Longrightarrow> R w1 w2 \<Longrightarrow> f x w2 = Inr ((), w3) \<Longrightarrow> R w2 w3"
    using Cons.prems(1) transpD [OF R(2) fr] by (meson list.set_intros(2))
  show ?case
  proof (cases "x = z")
    case True
    then have "P w1" using Cons.prems(4) [OF reflpD [OF R(1)]] z by simp
    then show ?thesis using keep forW_keeps [OF R, of zs w1 f w'] f' zs by blast
  next
    case False
    have hit': "\<And>w2 w3. R w1 w2 \<Longrightarrow> f x w2 = Inr ((), w3) \<Longrightarrow> P w3"
      using Cons.prems(4) transpD [OF R(2) fr] by blast
    have "x \<in> set zs" using False Cons.prems(2) by simp
    show ?thesis
      by (rule Cons.IH [of w1]) (fact f', fact, fact zs, fact hit')
  qed
qed simp

lemma walk_keeps:
  assumes R: "reflp R" "transp R"
    and step: "\<And>m w1 b w2. visited root m \<Longrightarrow> R w w1 \<Longrightarrow> visit m w1 = Inr (b, w2) \<Longrightarrow> R w1 w2"
    and bnd: "\<And>w1. R w w1 \<Longrightarrow> \<not> handleFunctionBoundary w1"
    and run: "Walk root w = Inr ((), w')"
  shows "R w w'"
  using step bnd run
proof (induction "height root" arbitrary: root w w' rule: less_induct)
  case less
  obtain b w1 where v: "visit root w = Inr (b, w1)"
      and rest: "(if b then forW Walk (children root) else returnW ()) w1 = Inr ((), w')"
    using less.prems(3) by (auto simp: Walk_eq [of root] bindW_Inr)
  have fr: "R w w1" using less.prems(1) [OF visited_root reflpD [OF R(1)] v] .
  show ?case
  proof (cases "b \<and> nodeType root \<notin> function_types")
    case True
    have "R w1 w'"
    proof (rule forW_keeps [OF R])
      fix c w2 w3 assume c: "c \<in> set (children root)" and r: "R w1 w2" and run: "Walk c w2 = Inr ((), w3)"
      have vis: "\<And>m. visited c m \<Longrightarrow> visited root m" using visited_step c True by blast
      have fr2: "R w w2" using transpD [OF R(2) fr r] .
      show "R w2 w3"
        using less.hyps [OF height_child [OF c] _ _ run] less.prems(1) [OF vis] less.prems(2) transpD [OF R(2) fr2] by blast
    next
      show "forW Walk (children root) w1 = Inr ((), w')" using rest True by simp
    qed
    then show ?thesis using transpD [OF R(2) fr] by blast
  next
    case False
    then show ?thesis
      using rest fr visit_function [OF v] less.prems(2) [OF reflpD [OF R(1)]] by (auto split: if_splits)
  qed
qed

lemma walk_reaches:
  assumes R: "reflp R" "transp R"
    and step: "\<And>m w1 b w2. visited root m \<Longrightarrow> R w w1 \<Longrightarrow> visit m w1 = Inr (b, w2) \<Longrightarrow> R w1 w2"
    and bnd: "\<And>w1. R w w1 \<Longrightarrow> \<not> handleFunctionBoundary w1"
    and run: "Walk root w = Inr ((), w')" and vis: "visited root n"
    and keep: "\<And>w1 w2. R w1 w2 \<Longrightarrow> P w1 \<Longrightarrow> P w2"
    and hit: "\<And>w1 b w2. R w w1 \<Longrightarrow> visit n w1 = Inr (b, w2) \<Longrightarrow> P w2"
  shows "P w'"
  using step bnd run vis hit
proof (induction "height root" arbitrary: root w w' rule: less_induct)
  case less
  obtain b w1 where v: "visit root w = Inr (b, w1)"
      and rest: "(if b then forW Walk (children root) else returnW ()) w1 = Inr ((), w')"
    using less.prems(3) by (auto simp: Walk_eq [of root] bindW_Inr)
  have fr: "R w w1" using less.prems(1) [OF visited_root reflpD [OF R(1)] v] .
  have sub: "R w2 w3" if c: "c \<in> set (children root)" and nf: "nodeType root \<notin> function_types"
      and r: "R w1 w2" and run: "Walk c w2 = Inr ((), w3)" for c w2 w3
  proof (rule walk_keeps [OF R _ _ run])
    fix m w4 b w5 assume "visited c m" and "R w2 w4" and "visit m w4 = Inr (b, w5)"
    then show "R w4 w5" using less.prems(1) visited_step [OF _ c nf] transpD [OF R(2)] fr r by meson
  next
    fix w4 assume "R w2 w4"
    then show "\<not> handleFunctionBoundary w4" using less.prems(2) transpD [OF R(2)] fr r by meson
  qed
  show ?case
    using visited_cases [OF less.prems(4)]
  proof (elim disjE conjE bexE)
    assume n: "n = root"
    have "P w1" using less.prems(5) [OF reflpD [OF R(1)]] v n by blast
    moreover have "R w1 w'"
    proof (cases "b \<and> nodeType root \<notin> function_types")
      case True
      then show ?thesis using rest forW_keeps [OF R, of "children root" w1 Walk w'] sub by simp
    next
      case False
      then show ?thesis
        using rest visit_function [OF v] less.prems(2) [OF reflpD [OF R(1)]] reflpD [OF R(1)] by (auto split: if_splits)
    qed
    ultimately show ?thesis using keep by blast
  next
    fix c assume nf: "nodeType root \<notin> function_types" and c: "c \<in> set (children root)" and vc: "visited c n"
    have all: "forW Walk (children root) w1 = Inr ((), w')" using rest visit_recurses [OF v nf] by simp
    show ?thesis
    proof (rule forW_reaches [OF R _ c all keep])
      fix x w2 w3 assume "x \<in> set (children root)" and "R w1 w2" and "Walk x w2 = Inr ((), w3)"
      then show "R w2 w3" using sub nf by blast
    next
      fix w2 w3 assume r: "R w1 w2" and run: "Walk c w2 = Inr ((), w3)"
      have fr2: "R w w2" using transpD [OF R(2) fr r] .
      show "P w3"
        using less.hyps [OF height_child [OF c] _ _ run vc] less.prems(1) [OF visited_step [OF _ c nf]]
          less.prems(2,5) transpD [OF R(2) fr2] by blast
    qed
  qed
qed

lemma walk_frame_preorder: "reflp walk_frame" "transp walk_frame"
  using walks.R_refl walks.R_trans by (blast intro: reflpI transpI)+

lemma walk_frame_same:
  assumes "walk_frame w w'"
  shows "source w' = source w" "filename w' = filename w" "mode w' = mode w" "currentSummary w' = currentSummary w"
    "set (analyzeFindings w) \<subseteq> set (analyzeFindings w')"
    "set (summaryParamFindings w) \<subseteq> set (summaryParamFindings w')"
  using assms by (auto simp: walk_frame_def)

lemma direct_flow_found:
  assumes "visited root n" and "sink_call (source w) n d"
    and "extractArguments (ChildByFieldName n ''arguments'') = args"
    and "first_watched args (ssTaintedArgs d) i" and "is_property_source (source w) (args ! i) s"
    and "mode w = ModeAnalyze" and "Walk root w = Inr ((), w')"
  shows "make_finding w s d n \<in> set (analyzeFindings w')"
proof (rule walk_reaches [OF walk_frame_preorder _ _ assms(7) assms(1)])
  show "walk_frame w1 w2" if "visit m w1 = Inr (b, w2)" for m w1 b w2
    by (rule runsD(2) [OF walks.runs_visit that])
  show "\<not> handleFunctionBoundary w1" if "walk_frame w w1" for w1
    using walk_frame_same(3) [OF that] assms(6) by (simp add: handleFunctionBoundary_def)
  show "make_finding w s d n \<in> set (analyzeFindings w2)"
    if "walk_frame w1 w2" and "make_finding w s d n \<in> set (analyzeFindings w1)" for w1 w2
    using that walk_frame_same(5) by blast
  fix w1 b w2
  assume fr: "walk_frame w w1" and v: "visit n w1 = Inr (b, w2)"
  note same = walk_frame_same [OF fr]
  have s: "s \<noteq> []"
    using assms(5) property_sources_nonempty by (auto simp: is_property_source_def bind_eq_Some_conv)
  have "visit n w1 = Inr (True, record_finding (make_finding w1 s d n) w1)"
    using assms(2,4,5) s same(1) eval_property_source [of w1]
    by (intro sink_call_reports [OF _ assms(3)]) (auto simp: is_property_source_def)
  moreover have "make_finding w1 s d n = make_finding w s d n"
    by (simp add: make_finding_def same)
  ultimately show "make_finding w s d n \<in> set (analyzeFindings w2)"
    using v same(3) assms(6) by (auto simp: record_finding_def)
qed

text \<open>
  C1. Every direct flow outside functions is reported: wherever in the program a call of a known
  sink receives a known source property as the first argument the sink watches (earlier watched
  ones being absent or literals), a walk in analysis mode that returns has reported the flow with
  that source, that sink and the location of the call.
\<close>

theorem direct_flow_reported:
  assumes "visited root n" and "sink_call (source w) n d"
    and "extractArguments (ChildByFieldName n ''arguments'') = args"
    and "first_watched args (ssTaintedArgs d) i" and "is_property_source (source w) (args ! i) s"
    and "mode w = ModeAnalyze" and "Walk root w = Inr ((), w')"
  shows "make_finding w s d n \<in> set (analyzeFindings w')"
  by (rule direct_flow_found [OF assms])

text \<open>A small program, \<^verbatim>\<open>eval(location.hash)\<close>, as tree-sitter presents it.\<close>

definition leaf :: "string option \<Rightarrow> string \<Rightarrow> nat \<Rightarrow> nat \<Rightarrow> node" where
  "leaf f ty a b = Node f ty a b 0 a []"

definition hash_access :: "string option \<Rightarrow> nat \<Rightarrow> node" where
  "hash_access f a = Node f ''member_expression'' a (a + 13) 0 a
     [leaf (Some ''object'') ''identifier'' a (a + 8), leaf None ''.'' (a + 8) (a + 9),
      leaf (Some ''property'') ''property_identifier'' (a + 9) (a + 13)]"

definition eval_call :: "nat \<Rightarrow> node \<Rightarrow> nat \<Rightarrow> node" where
  "eval_call a arg b = Node None ''call_expression'' a (b + 1) 0 a
     [leaf (Some ''function'') ''identifier'' a (a + 4),
      Node (Some ''arguments'') ''arguments'' (a + 4) (b + 1) 0 (a + 4)
        [leaf None ''('' (a + 4) (a + 5), arg, leaf None '')'' b (b + 1)]]"

definition program :: "nat \<Rightarrow> node list \<Rightarrow> node" where
  "program len ns = Node None ''program'' 0 len 0 0 ns"

definition hash_program :: node where
  "hash_program = program 19 [eval_call 0 (hash_access None 5) 18]"

definition hash_text :: string where
  "hash_text = ''eval(location.hash)''"

lemmas tree_simps = leaf_def hash_access_def eval_call_def program_def ChildByFieldName_def
  extractArguments_def Content_def

lemma eval_sink:
  "CheckIfSinkFunction [''eval''] = Some \<lparr>ssName = ''eval'', ssType = SinkTypeExecution,
     ssCanonicalType = SinkEval, ssTaintedArgs = [0]\<rparr>"
  by code_simp

definition returns :: "(walker_error, 'a \<times> ast_walker) result \<Rightarrow> bool" where
  "returns r = (case r of Inl _ \<Rightarrow> False | Inr _ \<Rightarrow> True)"

lemma returns_unit:
  assumes "returns r"
  obtains w' where "r = Inr ((), w')"
  using assms by (auto simp: returns_def split: sum.splits)

definition fresh_walker :: "string \<Rightarrow> ast_walker" where
  "fresh_walker src = newASTWalker ''app.js'' src ModeAnalyze NewAnalyzerContext"

lemma fresh_walker_simps [simp]:
  "source (fresh_walker src) = src" "mode (fresh_walker src) = ModeAnalyze" "filename (fresh_walker src) = ''app.js''"
  "symbolTaint (fresh_walker src) = Map.empty" "taintHeap (fresh_walker src) = []" "analyzeFindings (fresh_walker src) = []"
  "context_of (fresh_walker src) = NewAnalyzerContext"
  by (simp_all add: fresh_walker_def newASTWalker_def)

lemmas flatten_Node = flatten_loop.simps(2) [of _ "Node f ty a b r c cs" for f ty a b r c cs]

lemma eval_call_sink:
  assumes "take 4 (drop a src) = ''eval''"
  shows "sink_call src (eval_call a arg b) \<lparr>ssName = ''eval'', ssType = SinkTypeExecution,
     ssCanonicalType = SinkEval, ssTaintedArgs = [0]\<rparr>"
  using assms eval_sink
  by (simp add: sink_call_def tree_simps flattenPropertyAccess_def flatten_Node)

lemma eval_call_args:
  "nodeType arg \<notin> {''('', '')'', '',''} \<Longrightarrow> fieldName arg = None \<Longrightarrow>
     extractArguments (ChildByFieldName (eval_call a arg b) ''arguments'') = [arg]"
  by (auto simp: tree_simps)

lemma hash_access_source:
  assumes "take 13 (drop a src) = ''location.hash''"
  shows "is_property_source src (hash_access f a) ''location.hash''"
proof -
  have 1: "take 8 (drop a src) = ''location''"
    using arg_cong [OF assms, of "take 8"] by (simp add: numeral_eq_Suc)
  have 2: "take 4 (drop (a + 9) src) = ''hash''"
    using arg_cong [OF assms, of "drop 9"] by (simp add: drop_take add.commute numeral_eq_Suc)
  have "flattenPropertyAccess src (Some (hash_access f a)) = Some [''location'', ''hash'']"
    using 1 2 by (simp add: flattenPropertyAccess_def flatten_Node tree_simps)
  then show ?thesis
    by (simp add: is_property_source_def hash_access_def CheckIfPropertySource_def knownPropertySources_def source_names)
qed

theorem direct_flow_reported_witness:
  "\<exists>w'. Walk hash_program (fresh_walker hash_text) = Inr ((), w') \<and>
     (\<exists>f\<in>set (analyzeFindings w'). fSource f = ''location.hash'' \<and> fSink f = ''eval'')"
proof -
  let ?n = "eval_call 0 (hash_access None 5) 18" and ?w = "fresh_walker hash_text"
  have "returns (Walk hash_program ?w)" by code_simp
  then obtain w' where w': "Walk hash_program ?w = Inr ((), w')" by (rule returns_unit)
  have vis: "visited hash_program ?n"
    by (rule visited_child [OF visited_root]) (simp_all add: hash_program_def program_def function_types_def)
  have "sink_call (source ?w) ?n \<lparr>ssName = ''eval'', ssType = SinkTypeExecution, ssCanonicalType = SinkEval, ssTaintedArgs = [0]\<rparr>"
    by (rule eval_call_sink) (simp add: hash_text_def)
  note direct_flow_reported [OF vis this eval_call_args _ _ _ w', of 0 "''location.hash''"]
  moreover have "is_property_source (source ?w) (hash_access None 5) ''location.hash''"
    by (rule hash_access_source) (simp add: hash_text_def)
  ultimately have "make_finding ?w ''location.hash'' \<lparr>ssName = ''eval'', ssType = SinkTypeExecution,
      ssCanonicalType = SinkEval, ssTaintedArgs = [0]\<rparr> ?n \<in> set (analyzeFindings w')"
    by (simp add: hash_access_def first_watched_def Cons_eq_append_conv)
  then show ?thesis using w' by (intro exI [of _ w'] conjI bexI) auto
qed

section \<open>Flows through variables and functions\<close>

lemma taint_binding_simple:
  "S \<noteq> {} \<Longrightarrow> taintBinding ref (Some (SimpleTaint S l)) w = Inr ((), w\<lparr>symbolTaint := (symbolTaint w)(ref \<mapsto> SimpleTaint S l)\<rparr>)"
  by (simp add: taintBinding_def bindW_def)

lemma taint_binding_None:
  "taintBinding ref None w = Inr ((), w\<lparr>symbolTaint := (symbolTaint w)(ref := None)\<rparr>)"
  by (simp add: taintBinding_def bindW_def)

lemma destructure_identifier:
  "nodeType p = ''identifier'' \<Longrightarrow> handleDestructuring (Some p) st w = taintBinding (Content (source w) p) st w"
  by (subst handleDestructuring_eq) (simp add: handleDestructuring_body_def contentW_def bindW_def)

lemma update_identifier:
  "nodeType p = ''identifier'' \<Longrightarrow> updateTaintTarget (Some p) st w = taintBinding (Content (source w) p) st w"
  by (subst updateTaintTarget_eq) (simp add: updateTaintTarget_body_def contentW_def bindW_def)

text \<open>The declaration \<^verbatim>\<open>let x = e\<close> with one declarator.\<close>

definition declares :: "node \<Rightarrow> node \<Rightarrow> node \<Rightarrow> bool" where
  "declares n x e \<longleftrightarrow>
     nodeType n \<in> {''variable_declaration'', ''lexical_declaration''} \<and> nodeType x = ''identifier'' \<and>
     (\<exists>d. filter (\<lambda>c. nodeType c = ''variable_declarator'') (children n) = [d] \<and>
          ChildByFieldName d ''name'' = Some x \<and> ChildByFieldName d ''value'' = Some e)"

lemma forW_filter:
  "forW (\<lambda>x. if P x then f x else returnW ()) xs = forW f (filter P xs)"
  by (induction xs) simp_all

lemma visit_declaration:
  assumes "declares n x e" and "evaluateTaint (Some e) w = Inr (st, w1)"
  shows "visit n w = bindW (taintBinding (Content (source w1) x) st) (\<lambda>_. returnW True) w1"
proof -
  obtain d where d: "filter (\<lambda>c. nodeType c = ''variable_declarator'') (children n) = [d]"
      "ChildByFieldName d ''name'' = Some x" "ChildByFieldName d ''value'' = Some e" "nodeType x = ''identifier''"
      and ty: "nodeType n = ''variable_declaration'' \<or> nodeType n = ''lexical_declaration''"
    using assms(1) by (auto simp: declares_def)
  have "handleVarDecl n w = taintBinding (Content (source w1) x) st w1"
    unfolding handleVarDecl_def forW_filter d(1) using d assms(2)
    by (simp add: destructure_identifier bindW_def bindR_def split: sum.splits)
  then show ?thesis
    using ty by (auto simp: visit_def Let_def bindW_def)
qed

lemma variable_flow:
  assumes "declares decl x e" and "sink_call (source w) call d"
    and "extractArguments (ChildByFieldName call ''arguments'') = [y]"
    and "nodeType y = ''identifier''" and "Content (source w) y = Content (source w) x"
    and "ssTaintedArgs d = [0]" and "mode w = ModeAnalyze"
  shows "is_property_source (source w) e s \<Longrightarrow>
           \<exists>w'. bindW (visit decl) (\<lambda>_. visit call) w = Inr (True, w') \<and>
                analyzeFindings w' = analyzeFindings w @ [make_finding w s d call]"
    and "nodeType e \<in> literal_types \<Longrightarrow>
           \<exists>w'. bindW (visit decl) (\<lambda>_. visit call) w = Inr (True, w') \<and>
                analyzeFindings w' = analyzeFindings w"
proof -
  let ?x = "Content (source w) x"
  assume src: "is_property_source (source w) e s"
  let ?w1 = "w\<lparr>symbolTaint := (symbolTaint w)(?x \<mapsto> SimpleTaint {s} (row e))\<rparr>"
  have s: "s \<noteq> []" using src property_sources_nonempty by (auto simp: is_property_source_def bind_eq_Some_conv)
  have "visit decl w = Inr (True, ?w1)"
    unfolding visit_declaration [OF assms(1) eval_property_source [OF src]] bindW_def
    by (simp add: taint_binding_simple)
  moreover have "visit call ?w1 = Inr (True, record_finding (make_finding ?w1 s d call) ?w1)"
    using assms eval_identifier [of y ?w1] s
    by (intro sink_call_reports [OF _ assms(3)]) (auto simp: first_watched_def intro: exI [of _ "[]"])
  moreover have "make_finding ?w1 s d call = make_finding w s d call" by (simp add: make_finding_def)
  ultimately show "\<exists>w'. bindW (visit decl) (\<lambda>_. visit call) w = Inr (True, w') \<and>
      analyzeFindings w' = analyzeFindings w @ [make_finding w s d call]"
    using assms(7) by (simp add: record_finding_def)
next
  let ?x = "Content (source w) x"
  assume lit: "nodeType e \<in> literal_types"
  let ?w1 = "w\<lparr>symbolTaint := (symbolTaint w)(?x := None)\<rparr>"
  have "visit decl w = Inr (True, ?w1)"
    unfolding visit_declaration [OF assms(1) eval_literal [OF lit]] bindW_def
    by (simp add: taint_binding_None)
  moreover have "visit call ?w1 = Inr (True, ?w1)"
    using assms eval_identifier [of y ?w1]
    by (auto simp: sink_call_def visit_def Let_def handleCall_def checkCallForSinks_def checkArgsAgainstSink_def
        eval_argument_def bindW_def)
  ultimately show "\<exists>w'. bindW (visit decl) (\<lambda>_. visit call) w = Inr (True, w') \<and>
      analyzeFindings w' = analyzeFindings w"
    by simp
qed


definition let_decl :: "nat \<Rightarrow> node \<Rightarrow> nat \<Rightarrow> node" where
  "let_decl a e b = Node None ''lexical_declaration'' a b 0 a
     [leaf None ''let'' a (a + 3),
      Node None ''variable_declarator'' (a + 4) b 0 (a + 4)
        [leaf (Some ''name'') ''identifier'' (a + 4) (a + 5), leaf None ''='' (a + 5) (a + 6), e]]"

lemma let_decl_declares:
  "fieldName e = Some ''value'' \<Longrightarrow> declares (let_decl a e b) (leaf (Some ''name'') ''identifier'' (a + 4) (a + 5)) e"
  by (simp add: declares_def let_decl_def tree_simps)


section \<open>Sanitizers\<close>

text \<open>A call of a sanitizer that is neither a known source nor named like a parameter lookup.\<close>

definition sanitizing_call :: "string \<Rightarrow> node \<Rightarrow> bool" where
  "sanitizing_call src n \<longleftrightarrow>
     nodeType n \<in> {''call_expression'', ''new_expression''} \<and>
     (\<exists>c p. ChildByFieldName n ''function'' = Some c \<and> flattenPropertyAccess src (Some c) = Some p \<and>
        CheckIfSanitizer p \<and> CheckIfFunctionSource p = None \<and> last p \<notin> {''get'', ''getItem'', ''getAll''})"

lemma eval_sanitizer:
  assumes "sanitizing_call (source w) n"
  shows "evaluateTaint (Some n) w = Inr (None, w)"
proof -
  obtain c p where c: "ChildByFieldName n ''function'' = Some c" "flattenPropertyAccess (source w) (Some c) = Some p"
      "CheckIfSanitizer p" "CheckIfFunctionSource p = None" "last p \<notin> {''get'', ''getItem'', ''getAll''}"
      and ty: "nodeType n = ''call_expression'' \<or> nodeType n = ''new_expression''"
    using assms by (auto simp: sanitizing_call_def)
  have "evaluateTaint (Some n) w = evaluateCallTaint evaluateTaint updateTaintTarget n w"
    using ty by (subst evaluateTaint_eq) (auto simp: evaluateTaint_body_def Let_def)
  also have "\<dots> = Inr (None, w)"
    using c by (simp add: evaluateCallTaint_def Let_def bindW_def checkSpecificParameterExtraction_def)
  finally show ?thesis .
qed

text \<open>An argument that is a sanitizer call, or spreads one.\<close>

definition sanitized :: "string \<Rightarrow> node \<Rightarrow> bool" where
  "sanitized src a =
     (if nodeType a = ''spread_element''
      then (case field_or_second ''argument'' 1 a of None \<Rightarrow> False | Some e \<Rightarrow> sanitizing_call src e)
      else sanitizing_call src a)"

lemma eval_sanitized: "sanitized (source w) a \<Longrightarrow> eval_argument evaluateTaint a w = Inr (None, w)"
  by (auto simp: sanitized_def eval_argument_def eval_sanitizer split: if_splits option.splits)

lemma eval_argument_source: "eval_argument evaluateTaint a w = Inr (t, w') \<Longrightarrow> source w' = source w"
  using runsD(2) [OF frame.runs_evaluate(1)] eval_frameD(3) by (fastforce simp: eval_argument_def split: if_splits)

lemma tainted_source: "taintedW t w = Inr (b, w') \<Longrightarrow> source w' = source w"
  using runsD(2) [OF frame.runs_taint_ops(1)] eval_frameD(3) by blast

text \<open>Checking the arguments as if the watched positions that hold a sanitized argument were not watched.\<close>

definition unsanitized :: "string \<Rightarrow> node list \<Rightarrow> int list \<Rightarrow> int list" where
  "unsanitized src args watched =
     filter (\<lambda>j. \<not> (0 \<le> j \<and> j < int (length args) \<and> sanitized src (args ! nat j))) watched"

lemma unsanitized_Cons:
  "unsanitized src args (j # js) =
     (if 0 \<le> j \<and> j < int (length args) \<and> sanitized src (args ! nat j) then unsanitized src args js
      else j # unsanitized src args js)"
  by (simp add: unsanitized_def)

text \<open>What follows the check of one argument may be replaced by what does the same on this source.\<close>

lemma argument_check_cong:
  assumes "\<And>w1. source w1 = source w \<Longrightarrow> k w1 = k' w1"
  shows "bindW (eval_argument evaluateTaint a) (\<lambda>t. bindW (taintedW t) (\<lambda>b. if b then report t else k)) w =
         bindW (eval_argument evaluateTaint a) (\<lambda>t. bindW (taintedW t) (\<lambda>b. if b then report t else k')) w"
proof (cases "eval_argument evaluateTaint a w")
  case (Inr p)
  obtain t w1 where ev: "eval_argument evaluateTaint a w = Inr (t, w1)" using Inr by (cases p) simp
  show ?thesis
  proof (cases "taintedW t w1")
    case (Inr q)
    obtain b w2 where ta: "taintedW t w1 = Inr (b, w2)" using Inr by (cases q) simp
    have "k w2 = k' w2" using assms eval_argument_source [OF ev] tainted_source [OF ta] by simp
    then show ?thesis using ev ta by simp
  qed (simp add: ev)
qed simp

lemma checkArgs_loop_sanitized:
  "checkArgs_loop js d args n w = checkArgs_loop (unsanitized (source w) args js) d args n w"
proof (induction js arbitrary: w)
  case Nil
  show ?case by (simp add: unsanitized_def)
next
  case (Cons j js)
  consider (out) "\<not> (0 \<le> j \<and> j < int (length args))"
    | (san) "0 \<le> j \<and> j < int (length args)" "sanitized (source w) (args ! nat j)"
    | (other) "0 \<le> j \<and> j < int (length args)" "\<not> sanitized (source w) (args ! nat j)" by blast
  then show ?case
  proof cases
    case out
    then have "unsanitized (source w) args (j # js) = j # unsanitized (source w) args js"
      unfolding unsanitized_Cons by argo
    then show ?thesis using out Cons.IH [of w] by (simp only: checkArgs_loop.simps if_False)
  next
    case san
    then have "checkArgs_loop (j # js) d args n w = checkArgs_loop js d args n w"
      by (simp add: bindW_def eval_sanitized)
    then show ?thesis using san Cons.IH [of w] by (simp add: unsanitized_Cons)
  next
    case other
    then have drop: "unsanitized (source w) args (j # js) = j # unsanitized (source w) args js"
      unfolding unsanitized_Cons by argo
    have "checkArgs_loop js d args n w1 = checkArgs_loop (unsanitized (source w) args js) d args n w1"
      if "source w1 = source w" for w1
      using Cons.IH [of w1] that by simp
    from argument_check_cong [of w "checkArgs_loop js d args n" "checkArgs_loop (unsanitized (source w) args js) d args n", OF this]
    show ?thesis
      unfolding drop checkArgs_loop.simps using other(1) by (simp only: if_True simp_thms)
  qed
qed

lemma checkSummary_loop_sanitized:
  "checkSummary_loop args n s w = checkSummary_loop (filter (\<lambda>(i, a). \<not> sanitized (source w) a) args) n s w"
proof (induction args arbitrary: w)
  case (Cons x args)
  obtain i a where x: "x = (i, a)" by fastforce
  consider (out) "\<not> flows (TaintedParams s) i a"
    | (san) "flows (TaintedParams s) i a" "sanitized (source w) a"
    | (other) "flows (TaintedParams s) i a" "\<not> sanitized (source w) a" by blast
  then show ?case
  proof cases
    case out
    then show ?thesis using Cons.IH [of w] x by (cases "sanitized (source w) a") simp_all
  next
    case san
    then have "checkSummary_loop (x # args) n s w = checkSummary_loop args n s w"
      using x by (simp add: bindW_def eval_sanitized)
    then show ?thesis using san Cons.IH [of w] x by simp
  next
    case other
    have "checkSummary_loop args n s w1 = checkSummary_loop (filter (\<lambda>(i, a). \<not> sanitized (source w) a) args) n s w1"
      if "source w1 = source w" for w1
      using Cons.IH [of w1] that by simp
    from argument_check_cong [of w "checkSummary_loop args n s"
        "checkSummary_loop (filter (\<lambda>(i, a). \<not> sanitized (source w) a) args) n s", OF this]
    show ?thesis
      unfolding x using other by (simp only: checkSummary_loop.simps filter.simps prod.case if_True simp_thms)
  qed
qed simp

text \<open>A call that the walker checks against a summary: of a summarised name that is not a known sink.\<close>

definition summary_call :: "ast_walker \<Rightarrow> node \<Rightarrow> FunctionSummary \<Rightarrow> bool" where
  "summary_call w n s \<longleftrightarrow>
     mode w = ModeAnalyze \<and> nodeType n \<in> {''call_expression'', ''new_expression''} \<and>
     (\<exists>c. ChildByFieldName n ''function'' = Some c \<and> nodeType c = ''identifier'' \<and>
          CheckIfSinkFunction [Content (source w) c] = None \<and>
          Summaries (context_of w) (Content (source w) c) = Some s)"

lemma visit_summary_call:
  assumes "summary_call w n s" and "extractArguments (ChildByFieldName n ''arguments'') = args"
  shows "visit n w = bindW (checkSummary_loop (enumerate 0 args) n s) (\<lambda>_. returnW True) w"
proof -
  obtain c where c: "ChildByFieldName n ''function'' = Some c" "nodeType c = ''identifier''"
      "CheckIfSinkFunction [Content (source w) c] = None" "Summaries (context_of w) (Content (source w) c) = Some s"
    using assms(1) by (auto simp: summary_call_def)
  have "flattenPropertyAccess (source w) (Some c) = Some [Content (source w) c]"
    using c(2) by (simp add: flattenPropertyAccess_def flatten_loop.simps(2) [of _ c])
  then have "handleCall n w = checkSummary_loop (enumerate 0 args) n s w"
    using assms c
    by (simp add: summary_call_def handleCall_def checkCallForSinks_def bindW_def summary_for_def checkCallWithSummary_def)
  then show ?thesis
    using assms(1) by (auto simp: summary_call_def visit_def Let_def bindW_def)
qed

lemma visit_sink_call:
  assumes "sink_call (source w) n d" and "extractArguments (ChildByFieldName n ''arguments'') = args"
  shows "visit n w = bindW (checkArgs_loop (ssTaintedArgs d) d args n) (\<lambda>_. returnW True) w"
  using assms
  by (auto simp: sink_call_def visit_def Let_def handleCall_def checkCallForSinks_def checkArgsAgainstSink_def bindW_def)

text \<open>
  C16. A sanitizer call is untainted and evaluates none of its arguments. Declaring a variable with
  it removes any taint the variable had and touches nothing else. At a call of any known sink, and
  of any summarised function, an argument that is a sanitizer call (or spreads one) counts for
  nothing, whatever the other arguments are: the walker behaves as if that position were not
  watched, so that a call whose watched positions all hold sanitizer calls reports nothing and
  changes nothing.
\<close>

theorem sanitizer_stops_taint:
  "(\<forall>decl x e. declares decl x e \<and> sanitizing_call (source w) e \<longrightarrow>
      visit decl w = Inr (True, w\<lparr>symbolTaint := (symbolTaint w)(Content (source w) x := None)\<rparr>)) \<and>
   (\<forall>call d args. sink_call (source w) call d \<and> extractArguments (ChildByFieldName call ''arguments'') = args \<longrightarrow>
      visit call w =
        bindW (checkArgs_loop (unsanitized (source w) args (ssTaintedArgs d)) d args call) (\<lambda>_. returnW True) w \<and>
      ((\<forall>j\<in>set (ssTaintedArgs d). 0 \<le> j \<and> j < int (length args) \<longrightarrow> sanitized (source w) (args ! nat j)) \<longrightarrow>
         visit call w = Inr (True, w))) \<and>
   (\<forall>call s args. summary_call w call s \<and> extractArguments (ChildByFieldName call ''arguments'') = args \<longrightarrow>
      visit call w =
        bindW (checkSummary_loop (filter (\<lambda>(i, a). \<not> sanitized (source w) a) (enumerate 0 args)) call s)
          (\<lambda>_. returnW True) w \<and>
      ((\<forall>i<length args. flows (TaintedParams s) i (args ! i) \<longrightarrow> sanitized (source w) (args ! i)) \<longrightarrow>
         visit call w = Inr (True, w)))"
proof (intro conjI allI impI; (elim conjE)?)
  fix decl x e assume "declares decl x e" and e: "sanitizing_call (source w) e"
  from visit_declaration [OF this(1) eval_sanitizer [OF e]]
  show "visit decl w = Inr (True, w\<lparr>symbolTaint := (symbolTaint w)(Content (source w) x := None)\<rparr>)"
    by (simp add: bindW_def taint_binding_None)
next
  fix call d args
  assume call: "sink_call (source w) call d" "extractArguments (ChildByFieldName call ''arguments'') = args"
  note v = visit_sink_call [OF call]
  then show run: "visit call w =
      bindW (checkArgs_loop (unsanitized (source w) args (ssTaintedArgs d)) d args call) (\<lambda>_. returnW True) w"
    using checkArgs_loop_sanitized [of "ssTaintedArgs d" d args call w] by (simp add: bindW_def)
  assume "\<forall>j\<in>set (ssTaintedArgs d). 0 \<le> j \<and> j < int (length args) \<longrightarrow> sanitized (source w) (args ! nat j)"
  then have out: "\<forall>j\<in>set (unsanitized (source w) args (ssTaintedArgs d)). \<not> (0 \<le> j \<and> j < int (length args))"
    by (auto simp: unsanitized_def)
  have "checkArgs_loop js d args call w = Inr ((), w)" if "\<forall>j\<in>set js. \<not> (0 \<le> j \<and> j < int (length args))" for js
    using that by (induction js) auto
  from this [OF out] show "visit call w = Inr (True, w)" using run by (simp add: bindW_def)
next
  fix call s args
  assume call: "summary_call w call s" "extractArguments (ChildByFieldName call ''arguments'') = args"
  note v = visit_summary_call [OF call]
  then show run: "visit call w =
      bindW (checkSummary_loop (filter (\<lambda>(i, a). \<not> sanitized (source w) a) (enumerate 0 args)) call s) (\<lambda>_. returnW True) w"
    using checkSummary_loop_sanitized [of "enumerate 0 args" call s w] by (simp add: bindW_def)
  assume "\<forall>i<length args. flows (TaintedParams s) i (args ! i) \<longrightarrow> sanitized (source w) (args ! i)"
  then have out: "\<forall>(i, a)\<in>set (filter (\<lambda>(i, a). \<not> sanitized (source w) a) (enumerate 0 args)). \<not> flows (TaintedParams s) i a"
    by (auto simp: in_set_enumerate_eq)
  have "checkSummary_loop xs call s w = Inr ((), w)" if "\<forall>(i, a)\<in>set xs. \<not> flows (TaintedParams s) i a" for xs
    using that by (induction xs) auto
  from this [OF out] show "visit call w = Inr (True, w)" using run by (simp add: bindW_def)
qed

text \<open>\<^verbatim>\<open>eval(parseInt(location.hash))\<close>\<close>

definition parse_call :: node where
  "parse_call = Node None ''call_expression'' 5 28 0 5
     [leaf (Some ''function'') ''identifier'' 5 13,
      Node (Some ''arguments'') ''arguments'' 13 28 0 13
        [leaf None ''('' 13 14, hash_access None 14, leaf None '')'' 27 28]]"

theorem sanitizer_stops_taint_witness:
  "visit (eval_call 0 parse_call 28) (fresh_walker ''eval(parseInt(location.hash))'') =
     Inr (True, fresh_walker ''eval(parseInt(location.hash))'')"
proof -
  let ?w = "fresh_walker ''eval(parseInt(location.hash))''"
  have 1: "sanitizing_call (source ?w) parse_call"
    by (simp add: sanitizing_call_def parse_call_def tree_simps flattenPropertyAccess_def flatten_Node
        CheckIfSanitizer_def knownSanitizers_def CheckIfFunctionSource_def knownFunctionSources_def)
  have 2: "sink_call (source ?w) (eval_call 0 parse_call 28)
      \<lparr>ssName = ''eval'', ssType = SinkTypeExecution, ssCanonicalType = SinkEval, ssTaintedArgs = [0]\<rparr>"
    by (rule eval_call_sink) simp
  have 3: "extractArguments (ChildByFieldName (eval_call 0 parse_call 28) ''arguments'') = [parse_call]"
    by (rule eval_call_args) (simp_all add: parse_call_def)
  have "\<forall>j\<in>set [0]. 0 \<le> j \<and> j < int (length [parse_call]) \<longrightarrow> sanitized (source ?w) ([parse_call] ! nat j)"
    using 1 by (simp add: sanitized_def parse_call_def)
  then show ?thesis
    using sanitizer_stops_taint [of ?w, THEN conjunct2, THEN conjunct1, THEN spec, THEN spec, THEN spec, THEN mp, OF conjI, OF 2 3]
    by auto
qed

section \<open>Function summaries\<close>

lemma itoa_no_dot: "takeWhile (\<lambda>c. c \<noteq> CHR ''.'') (itoa i) = itoa i"
  using itoa_not_mem [of "CHR ''.''" i] unfolding takeWhile_eq_all_conv by auto

lemma param_source_index:
  assumes "int i < 2 ^ 63"
  shows "extractParamIndex (''param:'' @ itoa i) = Some (int i)"
proof -
  have "Atoi (itoa i) = Some (int i)" using assms by (intro Atoi_itoa) simp
  then show ?thesis unfolding extractParamIndex_def by (simp add: TrimPrefix_def itoa_no_dot)
qed

text \<open>
  The symbolic source given to parameter \<open>i\<close>, and every path below it that destructuring builds,
  names that parameter: reading the index back returns \<open>i\<close>.
\<close>

theorem param_index_roundtrip:
  assumes "int i < 2 ^ 63"
  shows "extractParamIndex (''param:'' @ itoa i) = Some (int i) \<and>
         extractParamIndex (fold (\<lambda>p s. sub_source s p) (p # ps) (''param:'' @ itoa i)) = Some (int i)"
proof -
  have atoi: "Atoi (itoa i) = Some (int i)" using assms by (intro Atoi_itoa) simp
  have fold: "\<exists>t. fold (\<lambda>p s. sub_source s p) ps s = s @ t" for ps and s :: string
  proof (induction ps arbitrary: s)
    case (Cons q qs)
    then show ?case by (simp add: sub_source_def) (metis append.assoc append_Cons)
  qed simp
  obtain t where t: "fold (\<lambda>p s. sub_source s p) (p # ps) (''param:'' @ itoa i) = ''param:'' @ itoa i @ CHR ''.'' # t"
    using fold [of ps "sub_source (''param:'' @ itoa i) p"] by (auto simp: sub_source_def)
  have "takeWhile (\<lambda>c. c \<noteq> CHR ''.'') (itoa i @ CHR ''.'' # t) = itoa i"
    using itoa_not_mem [of "CHR ''.''" i] by (subst takeWhile_append2) auto
  then show ?thesis
    unfolding t using param_source_index [OF assms] atoi by (simp add: extractParamIndex_def TrimPrefix_def)
qed

theorem param_index_roundtrip_witness:
  "extractParamIndex ''param:12'' = Some 12 \<and> extractParamIndex ''param:12.a.b'' = Some 12"
proof -
  have "itoa 12 = ''12''" by code_simp
  then show ?thesis using param_index_roundtrip [of 12 "''a''" "[''b'']"] by (simp add: sub_source_def)
qed

lemma forW_total:
  assumes R: "reflp R" "transp R"
    and f: "\<And>x w1. x \<in> set xs \<Longrightarrow> R w w1 \<Longrightarrow> \<exists>w2. f x w1 = Inr ((), w2) \<and> R w1 w2"
  shows "\<exists>w'. forW f xs w = Inr ((), w') \<and> R w w'"
  using f
proof (induction xs arbitrary: w)
  case Nil
  then show ?case using reflpD [OF R(1)] by simp
next
  case (Cons x xs)
  obtain w1 where x: "f x w = Inr ((), w1)" "R w w1"
    using Cons.prems [of x w] reflpD [OF R(1)] by auto
  have "\<exists>w'. forW f xs w1 = Inr ((), w') \<and> R w1 w'"
    using Cons.prems transpD [OF R(2) x(2)] by (intro Cons.IH) simp
  then show ?case using x transpD [OF R(2) x(2)] by (auto simp: bindW_def)
qed

lemma walk_total:
  assumes R: "reflp R" "transp R"
    and step: "\<And>m w1. visited root m \<Longrightarrow> R w w1 \<Longrightarrow> \<exists>b w2. visit m w1 = Inr (b, w2) \<and> R w1 w2"
    and bnd: "\<And>w1. R w w1 \<Longrightarrow> \<not> handleFunctionBoundary w1"
  shows "\<exists>w'. Walk root w = Inr ((), w') \<and> R w w'"
  using step bnd
proof (induction "height root" arbitrary: root w rule: less_induct)
  case less
  obtain b w1 where v: "visit root w = Inr (b, w1)" and fr: "R w w1"
    using less.prems(1) [OF visited_root reflpD [OF R(1)]] by blast
  have "\<exists>w'. (if b then forW Walk (children root) else returnW ()) w1 = Inr ((), w') \<and> R w1 w'"
  proof (cases "b \<and> nodeType root \<notin> function_types")
    case True
    have "\<exists>w'. forW Walk (children root) w1 = Inr ((), w') \<and> R w1 w'"
    proof (rule forW_total [OF R])
      fix c w2 assume c: "c \<in> set (children root)" and r: "R w1 w2"
      have vis: "\<And>m. visited c m \<Longrightarrow> visited root m" using visited_step c True by blast
      have fr2: "R w w2" using transpD [OF R(2) fr r] .
      show "\<exists>w3. Walk c w2 = Inr ((), w3) \<and> R w2 w3"
        using less.hyps [OF height_child [OF c], of w2] less.prems(1) [OF vis] less.prems(2)
          transpD [OF R(2) fr2] by blast
    qed
    then show ?thesis using True by simp
  next
    case False
    then have "\<not> b" using visit_function [OF v] less.prems(2) [OF reflpD [OF R(1)]] by blast
    then show ?thesis using reflpD [OF R(1)] by simp
  qed
  then show ?case using v transpD [OF R(2) fr] by (auto simp: Walk_eq [of root] bindW_def)
qed

text \<open>Parameters that are plain identifiers are bound to their symbolic sources in order.\<close>

definition parameter_list :: "node \<Rightarrow> node list" where
  "parameter_list fn =
     (case (case ChildByFieldName fn ''formal_parameters'' of
              Some p \<Rightarrow> Some p
            | None \<Rightarrow> ChildByFieldName fn ''parameters'') of
        Some p \<Rightarrow> filter is_parameter (children p)
      | None \<Rightarrow> [])"

definition bind_params :: "string \<Rightarrow> nat \<Rightarrow> node list \<Rightarrow> (string \<rightharpoonup> taint) \<Rightarrow> string \<rightharpoonup> taint" where
  "bind_params src i ps m =
     fold (\<lambda>(j, p) m. m(Content src p \<mapsto> SimpleTaint {''param:'' @ itoa j} (row p))) (enumerate i ps) m"

lemma init_identifier:
  assumes "nodeType p = ''identifier''"
  shows "initializeParameterTaint p i w =
    Inr ((), w\<lparr>symbolTaint := (symbolTaint w)(Content (source w) p \<mapsto> SimpleTaint {''param:'' @ itoa i} (row p))\<rparr>)"
proof -
  have "initializeDestructuredParameter (Some p) s l w =
      taintBinding (Content (source w) p) (Some (NewSimpleTaint s l)) w" for s l
    using assms by (simp add: initializeDestructuredParameter_def node_fuel_def
        initializeDestructuredParameter_body_def contentW_def bindW_def)
  then show ?thesis
    by (simp add: initializeParameterTaint_def NewSimpleTaint_def taint_binding_simple)
qed

lemma init_loop:
  assumes "\<forall>p\<in>set (filter is_parameter cs). nodeType p = ''identifier''"
  shows "foldW (\<lambda>param logicalIndex.
              if is_parameter param
              then bindW (initializeParameterTaint param logicalIndex) (\<lambda>_. returnW (Suc logicalIndex))
              else returnW logicalIndex) cs i w =
    Inr (i + length (filter is_parameter cs),
         w\<lparr>symbolTaint := bind_params (source w) i (filter is_parameter cs) (symbolTaint w)\<rparr>)"
  using assms
proof (induction cs arbitrary: i w)
  case Nil
  then show ?case by (simp add: bind_params_def)
next
  case (Cons c cs)
  then show ?case
    by (cases "is_parameter c") (simp_all add: bindW_def init_identifier bind_params_def)
qed

lemma init_parameters:
  assumes "parameter_list fn \<noteq> []" and "\<forall>p\<in>set (parameter_list fn). nodeType p = ''identifier''"
  shows "initializeParameters fn w =
    Inr ((), w\<lparr>symbolTaint := bind_params (source w) 0 (parameter_list fn) (symbolTaint w)\<rparr>)"
  using assms by (auto simp: initializeParameters_def parameter_list_def init_loop bindW_def split: option.splits)

lemma bind_params_other: "c \<notin> set (map (Content src) ps) \<Longrightarrow> bind_params src i ps m c = m c"
  by (induction ps arbitrary: i m) (simp_all add: bind_params_def)

lemma bind_params_nth:
  assumes "distinct (map (Content src) ps)" and "i < length ps"
  shows "bind_params src k ps m (Content src (ps ! i)) = Some (SimpleTaint {''param:'' @ itoa (k + i)} (row (ps ! i)))"
  using assms
proof (induction ps arbitrary: i k m)
  case (Cons p ps)
  show ?case
  proof (cases i)
    case 0
    then show ?thesis
      using Cons.prems bind_params_other [of "Content src p" src ps "Suc k"] by (simp add: bind_params_def)
  next
    case (Suc j)
    then show ?thesis using Cons.IH [of j "Suc k"] Cons.prems by (simp add: bind_params_def)
  qed
qed simp

text \<open>Node types that no handler of the walker looks at.\<close>

definition neutral :: "node \<Rightarrow> bool" where
  "neutral m \<longleftrightarrow> nodeType m \<notin> {''variable_declaration'', ''lexical_declaration'', ''assignment_expression'',
     ''call_expression'', ''new_expression'', ''return_statement''}"

lemma visit_neutral: "neutral m \<Longrightarrow> \<exists>b. visit m w = Inr (b, w)"
  by (auto simp: visit_def Let_def neutral_def)

lemma record_param_finding:
  assumes "mode w = ModeSummarize" and "Split (fSource f) (CHR ''|'') = [s]" and "is_param s"
  shows "record_finding f w = w\<lparr>summaryParamFindings := summaryParamFindings w @ [f]\<rparr>"
  using assms by (simp add: record_finding_def Let_def)

lemma param_source_split: "Split (''param:'' @ itoa i) (CHR ''|'') = [''param:'' @ itoa i]"
  by (rule Split_no_sep) (use itoa_not_mem [of "CHR ''|''" i] in simp)

lemma is_param_prefix: "is_param (''param:'' @ s)"
  by (simp add: is_param_def)

text \<open>
  Flat bodies: what the walker handles in them are calls of known sinks and returns, all on plain
  expressions, that is names and literals. Assignments, declarations and other calls do not occur.
\<close>

definition plain :: "node \<Rightarrow> bool" where
  "plain a \<longleftrightarrow> nodeType a = ''identifier'' \<or> nodeType a \<in> literal_types"

definition flat_node :: "string \<Rightarrow> node \<Rightarrow> bool" where
  "flat_node src m \<longleftrightarrow>
     neutral m \<or>
     (\<exists>d. sink_call src m d \<and> (\<forall>a\<in>set (extractArguments (ChildByFieldName m ''arguments'')). plain a)) \<or>
     (nodeType m = ''return_statement'' \<and> (\<forall>v. return_value m = Some v \<longrightarrow> plain v))"

text \<open>The parameter that a name refers to, and the first parameter among the watched arguments.\<close>

fun param_index :: "string \<Rightarrow> nat \<Rightarrow> node list \<Rightarrow> node \<Rightarrow> nat option" where
  "param_index src i [] y = None"
| "param_index src i (p # ps) y =
     (if nodeType y = ''identifier'' \<and> Content src y = Content src p then Some i else param_index src (Suc i) ps y)"

fun watched_param :: "string \<Rightarrow> node list \<Rightarrow> node list \<Rightarrow> int list \<Rightarrow> nat option" where
  "watched_param src ps args [] = None"
| "watched_param src ps args (j # js) =
     (if 0 \<le> j \<and> j < int (length args)
      then (case param_index src 0 ps (args ! nat j) of Some i \<Rightarrow> Some i | None \<Rightarrow> watched_param src ps args js)
      else watched_param src ps args js)"

definition sunk_params :: "string \<Rightarrow> node list \<Rightarrow> node \<Rightarrow> nat set" where
  "sunk_params src ps b =
     {i. \<exists>m d. visited b m \<and> sink_call src m d \<and>
        watched_param src ps (extractArguments (ChildByFieldName m ''arguments'')) (ssTaintedArgs d) = Some i}"

definition returned_params :: "string \<Rightarrow> node list \<Rightarrow> node \<Rightarrow> nat set" where
  "returned_params src ps b =
     {i. \<exists>m v. visited b m \<and> nodeType m = ''return_statement'' \<and> return_value m = Some v \<and>
        param_index src 0 ps v = Some i}"

definition param_source :: "nat \<Rightarrow> string" where
  "param_source i = ''param:'' @ itoa i"

lemma param_index_bound: "param_index src k ps y = Some i \<Longrightarrow> k \<le> i \<and> i < k + length ps"
  by (induction ps arbitrary: k) (fastforce split: if_splits)+

lemma watched_param_bound: "watched_param src ps args js = Some i \<Longrightarrow> i < length ps"
  using param_index_bound [of src 0 ps] by (induction js) (fastforce split: if_splits option.splits)+

lemma param_index_binding:
  assumes "nodeType y = ''identifier''" and "distinct (map (Content src) ps)"
  shows "case param_index src k ps y of
           None \<Rightarrow> bind_params src k ps m (Content src y) = m (Content src y)
         | Some i \<Rightarrow> \<exists>l. bind_params src k ps m (Content src y) = Some (SimpleTaint {param_source i} l)"
  using assms
proof (induction ps arbitrary: k m)
  case (Cons p ps)
  have step: "bind_params src k (p # ps) m =
      bind_params src (Suc k) ps (m(Content src p \<mapsto> SimpleTaint {''param:'' @ itoa k} (row p)))"
    by (simp add: bind_params_def)
  show ?case
  proof (cases "Content src y = Content src p")
    case True
    then show ?thesis
      unfolding step using Cons.prems bind_params_other [of "Content src p" src ps] by (auto simp: param_source_def)
  next
    case False
    then show ?thesis
      unfolding step using Cons.IH [of "Suc k" "m(Content src p \<mapsto> SimpleTaint {''param:'' @ itoa k} (row p))"] Cons.prems
      by (auto split: option.splits)
  qed
qed (simp add: bind_params_def)

text \<open>The state in which a summarisation walks the body of a function.\<close>

definition param_state :: "string \<Rightarrow> node list \<Rightarrow> ast_walker \<Rightarrow> bool" where
  "param_state src ps w \<longleftrightarrow>
     source w = src \<and> mode w = ModeSummarize \<and> currentSummary w \<noteq> None \<and>
     symbolTaint w = bind_params src 0 ps Map.empty"

lemma eval_plain:
  assumes w: "param_state src ps w" and ps: "distinct (map (Content src) ps)" and y: "plain y"
  shows "case param_index src 0 ps y of
           None \<Rightarrow> eval_argument evaluateTaint y w = Inr (None, w)
         | Some i \<Rightarrow> \<exists>l. eval_argument evaluateTaint y w = Inr (Some (SimpleTaint {param_source i} l), w)"
proof (cases "nodeType y = ''identifier''")
  case True
  then show ?thesis
    using param_index_binding [OF True ps, of 0 Map.empty] eval_identifier [of y w] w
    by (auto simp: eval_argument_def param_state_def split: option.splits)
next
  case False
  then have "param_index src k qs y = None" for k qs by (induction qs arbitrary: k) simp_all
  moreover have "eval_argument evaluateTaint y w = Inr (None, w)"
    using y False by (auto simp: plain_def eval_argument_def eval_literal literal_types_def)
  ultimately show ?thesis by simp
qed

lemma eval_argument_plain: "plain y \<Longrightarrow> eval_argument ev y = ev (Some y)"
  by (auto simp: plain_def eval_argument_def literal_types_def)

lemma checkArgs_loop_plain:
  assumes w: "param_state src ps w" and ps: "distinct (map (Content src) ps)" and args: "\<forall>a\<in>set args. plain a"
  shows "checkArgs_loop js d args n w =
    (case watched_param src ps args js of
       None \<Rightarrow> Inr ((), w)
     | Some i \<Rightarrow> Inr ((), record_finding (make_finding w (param_source i) d n) w))"
proof (induction js)
  case (Cons j js)
  show ?case
  proof (cases "0 \<le> j \<and> j < int (length args)")
    case True
    then have "args ! nat j \<in> set args" by (intro nth_mem) linarith
    then have "plain (args ! nat j)" using args by blast
    from eval_plain [OF w ps this] True Cons.IH show ?thesis
      by (auto simp: bindW_def reportFinding_def param_source_def split: option.splits)
  qed (use Cons in auto)
qed simp

text \<open>
  What the walk of a flat body does to the walker: it adds findings for parameters in \<open>A\<close>, and it
  adds parameters in \<open>B\<close> to the sources of the result.
\<close>

definition ret_sources :: "taint option \<Rightarrow> string set" where
  "ret_sources t = (case t of Some (SimpleTaint S l) \<Rightarrow> S | _ \<Rightarrow> {})"

definition simple_return :: "taint option \<Rightarrow> bool" where
  "simple_return t \<longleftrightarrow> (\<forall>x. t = Some x \<longrightarrow> (\<exists>S l. x = SimpleTaint S l \<and> S \<noteq> {}))"

definition flat_step :: "nat set \<Rightarrow> nat set \<Rightarrow> ast_walker \<Rightarrow> ast_walker \<Rightarrow> bool" where
  "flat_step A B w w' \<longleftrightarrow>
     (\<exists>fs t. w' = w\<lparr>summaryParamFindings := summaryParamFindings w @ fs, returnTaint := t\<rparr> \<and>
        (\<forall>f\<in>set fs. fSource f \<in> param_source ` A) \<and>
        (simple_return (returnTaint w) \<longrightarrow>
           simple_return t \<and> ret_sources (returnTaint w) \<subseteq> ret_sources t \<and>
           ret_sources t \<subseteq> ret_sources (returnTaint w) \<union> param_source ` B))"

lemma flat_step_findings:
  "flat_step A B w w' \<Longrightarrow> set (summaryParamFindings w) \<subseteq> set (summaryParamFindings w')"
  by (auto simp: flat_step_def)

lemma flat_step_return:
  assumes "flat_step A B w w'" and "simple_return (returnTaint w)"
  shows "simple_return (returnTaint w')" "ret_sources (returnTaint w) \<subseteq> ret_sources (returnTaint w')"
    "ret_sources (returnTaint w') \<subseteq> ret_sources (returnTaint w) \<union> param_source ` B"
  using assms by (auto simp: flat_step_def)

lemma flat_step_state: "flat_step A B w w' \<Longrightarrow> param_state src ps w \<Longrightarrow> param_state src ps w'"
  by (auto simp: flat_step_def param_state_def)

lemma flat_step_refl: "flat_step A B w w"
  unfolding flat_step_def by (rule exI [of _ "[]"], rule exI [of _ "returnTaint w"]) simp

lemma flat_step_preorder: "reflp (flat_step A B)" "transp (flat_step A B)"
proof -
  show "reflp (flat_step A B)" by (rule reflpI) (rule flat_step_refl)
  show "transp (flat_step A B)"
  proof (rule transpI)
    fix u v w assume uv: "flat_step A B u v" and vw: "flat_step A B v w"
    obtain fs t where 1: "v = u\<lparr>summaryParamFindings := summaryParamFindings u @ fs, returnTaint := t\<rparr>"
        "\<forall>f\<in>set fs. fSource f \<in> param_source ` A"
      using uv by (auto simp: flat_step_def)
    obtain gs r where 2: "w = v\<lparr>summaryParamFindings := summaryParamFindings v @ gs, returnTaint := r\<rparr>"
        "\<forall>f\<in>set gs. fSource f \<in> param_source ` A"
      using vw by (auto simp: flat_step_def)
    have ret: "simple_return (returnTaint w) \<and> ret_sources (returnTaint u) \<subseteq> ret_sources (returnTaint w) \<and>
        ret_sources (returnTaint w) \<subseteq> ret_sources (returnTaint u) \<union> param_source ` B"
      if "simple_return (returnTaint u)"
      using flat_step_return [OF uv that] flat_step_return [OF vw] by blast
    have "w = u\<lparr>summaryParamFindings := summaryParamFindings u @ (fs @ gs), returnTaint := r\<rparr>" "returnTaint w = r"
      using 1(1) 2(1) by simp_all
    then show "flat_step A B u w"
      unfolding flat_step_def using 1(2) 2(2) ret by (intro exI [of _ "fs @ gs"] exI [of _ r]) auto
  qed
qed

lemma accumulate_simple:
  assumes "simple_return old" and "S \<noteq> {}"
  shows "\<exists>t. accumulate old (Some (SimpleTaint S l)) w = Inr (t, w) \<and> simple_return t \<and>
           ret_sources t = ret_sources old \<union> S"
proof (cases old)
  case None
  then show ?thesis using assms(2) by (simp add: accumulate_def bindW_def simple_return_def ret_sources_def)
next
  case (Some x)
  then obtain S' l' where x: "x = SimpleTaint S' l'" "S' \<noteq> {}" using assms(1) by (auto simp: simple_return_def)
  have "\<exists>l''. Merge (taintHeap w) x (Some (SimpleTaint S l)) = Some (SimpleTaint (S' \<union> S) l'', taintHeap w)"
    using assms(2) x
    by (auto simp: Merge_def SimpleTaint_Merge_def IsTainted_def GetSources_def mergeSources_def Let_def Un_absorb2)
  then obtain l'' where "mergeW x (Some (SimpleTaint S l)) w = Inr (SimpleTaint (S' \<union> S) l'', w)"
    by (auto simp: mergeW_def bindW_def heapW_def)
  then show ?thesis
    using assms(2) x Some by (auto simp: accumulate_def bindW_def simple_return_def ret_sources_def)
qed

lemma param_source_facts:
  "Split (param_source i) (CHR ''|'') = [param_source i]" "is_param (param_source i)"
  "int i < 2 ^ 63 \<Longrightarrow> extractParamIndex (param_source i) = Some (int i)"
  by (simp_all only: param_source_def param_source_split is_param_prefix param_source_index)

lemma visit_flat_call:
  assumes w: "param_state src ps w" and ps: "distinct (map (Content src) ps)"
    and call: "sink_call src m d" and args: "\<forall>a\<in>set (extractArguments (ChildByFieldName m ''arguments'')). plain a"
  shows "visit m w =
    (case watched_param src ps (extractArguments (ChildByFieldName m ''arguments'')) (ssTaintedArgs d) of
       None \<Rightarrow> Inr (True, w)
     | Some i \<Rightarrow> Inr (True, w\<lparr>summaryParamFindings := summaryParamFindings w @ [make_finding w (param_source i) d m]\<rparr>))"
proof -
  have src: "source w = src" "mode w = ModeSummarize" using w by (simp_all add: param_state_def)
  have rec: "record_finding (make_finding w (param_source i) d m) w =
      w\<lparr>summaryParamFindings := summaryParamFindings w @ [make_finding w (param_source i) d m]\<rparr>" for i
    by (rule record_param_finding [OF src(2), of _ "param_source i"])
      (simp_all only: make_finding_sel param_source_facts)
  show ?thesis
    using visit_sink_call [of w m d, OF _ refl] call src checkArgs_loop_plain [OF w ps args]
    by (auto simp: bindW_def rec split: option.splits)
qed

lemma visit_flat_return:
  assumes w: "param_state src ps w" and ps: "distinct (map (Content src) ps)" and r: "simple_return (returnTaint w)"
    and m: "nodeType m = ''return_statement''" and v: "\<forall>v. return_value m = Some v \<longrightarrow> plain v"
  shows "\<exists>t. visit m w = Inr (True, w\<lparr>returnTaint := t\<rparr>) \<and> simple_return t \<and>
           ret_sources t = ret_sources (returnTaint w) \<union>
             (case Option.bind (return_value m) (param_index src 0 ps) of None \<Rightarrow> {} | Some i \<Rightarrow> {param_source i})"
proof -
  obtain ref where h: "mode w = ModeSummarize" "currentSummary w = Some ref" using w by (auto simp: param_state_def)
  show ?thesis
  proof (cases "return_value m")
    case None
    then have "visit m w = Inr (True, w\<lparr>returnTaint := returnTaint w\<rparr>)"
      using m h by (simp add: visit_def Let_def handleReturn_def bindW_def)
    then show ?thesis using r None by (intro exI [of _ "returnTaint w"]) simp
  next
    case (Some y)
    have pl: "plain y" using v Some by blast
    show ?thesis
    proof (cases "param_index src 0 ps y")
      case None
      then have "evaluateTaint (Some y) w = Inr (None, w)"
        using eval_plain [OF w ps pl] eval_argument_plain [OF pl] by simp
      then have "visit m w = Inr (True, w\<lparr>returnTaint := returnTaint w\<rparr>)"
        using m h Some by (simp add: visit_def Let_def handleReturn_def bindW_def accumulate_def)
      then show ?thesis using r None Some by (intro exI [of _ "returnTaint w"]) simp
    next
      case (Some i)
      then obtain l where ev: "evaluateTaint (Some y) w = Inr (Some (SimpleTaint {param_source i} l), w)"
        using eval_plain [OF w ps pl] eval_argument_plain [OF pl] by auto
      obtain t where t: "accumulate (returnTaint w) (Some (SimpleTaint {param_source i} l)) w = Inr (t, w)"
          "simple_return t" "ret_sources t = ret_sources (returnTaint w) \<union> {param_source i}"
        using accumulate_simple [OF r, of "{param_source i}"] by blast
      have "visit m w = Inr (True, w\<lparr>returnTaint := t\<rparr>)"
        using m h ev t(1) \<open>return_value m = Some y\<close> by (simp add: visit_def Let_def handleReturn_def bindW_def)
      then show ?thesis using t Some \<open>return_value m = Some y\<close> by auto
    qed
  qed
qed

lemma walk_flat:
  assumes w: "param_state src ps w" and ps: "distinct (map (Content src) ps)"
    and flat: "\<forall>m. visited b m \<longrightarrow> flat_node src m" and ret: "simple_return (returnTaint w)"
  shows "\<exists>w'. Walk b w = Inr ((), w') \<and> flat_step (sunk_params src ps b) (returned_params src ps b) w w' \<and>
           (\<forall>i\<in>sunk_params src ps b. \<exists>f\<in>set (summaryParamFindings w'). fSource f = param_source i) \<and>
           (\<forall>i\<in>returned_params src ps b. param_source i \<in> ret_sources (returnTaint w'))"
proof -
  let ?A = "sunk_params src ps b" and ?B = "returned_params src ps b"
  let ?R = "flat_step ?A ?B"
  have inv: "param_state src ps w1" "simple_return (returnTaint w1)" if "?R w w1" for w1
    using flat_step_state [OF that w] flat_step_return(1) [OF that ret] .
  have call: "\<forall>a\<in>set (extractArguments (ChildByFieldName m ''arguments'')). plain a"
    if "visited b m" and "sink_call src m d" for m d
    using flat that by (auto simp: flat_node_def neutral_def sink_call_def)
  have return_plain: "\<forall>v. return_value m = Some v \<longrightarrow> plain v"
    if "visited b m" and "nodeType m = ''return_statement''" for m
    using flat that by (auto simp: flat_node_def neutral_def sink_call_def)
  have step: "\<exists>c w2. visit m w1 = Inr (c, w2) \<and> ?R w1 w2" if m: "visited b m" and "?R w w1" for m w1
  proof -
    note w1 = inv [OF that(2)]
    consider (neutral) "neutral m" | (call) d where "sink_call src m d" | (return) "nodeType m = ''return_statement''"
      using flat m by (auto simp: flat_node_def)
    then show ?thesis
    proof cases
      case neutral
      then show ?thesis using visit_neutral flat_step_refl by blast
    next
      case (call d)
      note v = visit_flat_call [OF w1(1) ps call \<open>\<And>m d. visited b m \<Longrightarrow> sink_call src m d \<Longrightarrow> _\<close> [OF m call]]
      show ?thesis
      proof (cases "watched_param src ps (extractArguments (ChildByFieldName m ''arguments'')) (ssTaintedArgs d)")
        case None
        then show ?thesis using v flat_step_refl by auto
      next
        case (Some i)
        let ?f = "make_finding w1 (param_source i) d m"
        have "i \<in> ?A" using Some call m by (auto simp: sunk_params_def)
        then have "?R w1 (w1\<lparr>summaryParamFindings := summaryParamFindings w1 @ [?f]\<rparr>)"
          unfolding flat_step_def by (intro exI [of _ "[?f]"] exI [of _ "returnTaint w1"]) auto
        then show ?thesis using v Some by auto
      qed
    next
      case return
      obtain t where t: "visit m w1 = Inr (True, w1\<lparr>returnTaint := t\<rparr>)" "simple_return t"
          "ret_sources t = ret_sources (returnTaint w1) \<union>
             (case Option.bind (return_value m) (param_index src 0 ps) of None \<Rightarrow> {} | Some i \<Rightarrow> {param_source i})"
        using visit_flat_return [OF w1(1) ps w1(2) return return_plain [OF m return]] by blast
      have "(case Option.bind (return_value m) (param_index src 0 ps) of None \<Rightarrow> {} | Some i \<Rightarrow> {param_source i})
          \<subseteq> param_source ` ?B"
        using m return by (auto simp: returned_params_def bind_eq_Some_conv split: option.splits)
      then have "?R w1 (w1\<lparr>returnTaint := t\<rparr>)"
        unfolding flat_step_def using t(2,3) by (intro exI [of _ "[]"] exI [of _ t]) auto
      then show ?thesis using t(1) by blast
    qed
  qed
  have bnd: "\<not> handleFunctionBoundary w1" if "?R w w1" for w1
    using inv(1) [OF that] by (auto simp: handleFunctionBoundary_def param_state_def)
  obtain w' where w': "Walk b w = Inr ((), w')" "?R w w'"
    using walk_total [OF flat_step_preorder step bnd] by blast
  have keeps: "?R w1 w2" if "visited b m" and "?R w w1" and "visit m w1 = Inr (c, w2)" for m w1 c w2
    using step [OF that(1,2)] that(3) by auto
  have "\<exists>f\<in>set (summaryParamFindings w'). fSource f = param_source i" if i: "i \<in> ?A" for i
  proof -
    obtain m d where m: "visited b m" "sink_call src m d"
        "watched_param src ps (extractArguments (ChildByFieldName m ''arguments'')) (ssTaintedArgs d) = Some i"
      using i unfolding sunk_params_def by blast
    show ?thesis
    proof (rule walk_reaches [OF flat_step_preorder _ bnd w'(1) m(1)])
      fix m w1 c w2 assume "visited b m" "?R w w1" "visit m w1 = Inr (c, w2)"
      then show "?R w1 w2" by (rule keeps)
    next
      fix w1 w2 assume "?R w1 w2" and "\<exists>f\<in>set (summaryParamFindings w1). fSource f = param_source i"
      then show "\<exists>f\<in>set (summaryParamFindings w2). fSource f = param_source i"
        using flat_step_findings by blast
    next
      fix w1 c w2 assume "?R w w1" and "visit m w1 = Inr (c, w2)"
      then show "\<exists>f\<in>set (summaryParamFindings w2). fSource f = param_source i"
        using visit_flat_call [OF inv(1) ps m(2) call [OF m(1,2)]] m(3) by auto
    qed
  qed
  moreover have "param_source i \<in> ret_sources (returnTaint w')" if i: "i \<in> ?B" for i
  proof -
    obtain m v where m: "visited b m" "nodeType m = ''return_statement''" "return_value m = Some v"
        "param_index src 0 ps v = Some i"
      using i unfolding returned_params_def by blast
    have "simple_return (returnTaint w') \<and> param_source i \<in> ret_sources (returnTaint w')"
    proof (rule walk_reaches [OF flat_step_preorder _ bnd w'(1) m(1)])
      fix m w1 c w2 assume "visited b m" "?R w w1" "visit m w1 = Inr (c, w2)"
      then show "?R w1 w2" by (rule keeps)
    next
      fix w1 w2 assume "?R w1 w2" and "simple_return (returnTaint w1) \<and> param_source i \<in> ret_sources (returnTaint w1)"
      then show "simple_return (returnTaint w2) \<and> param_source i \<in> ret_sources (returnTaint w2)"
        using flat_step_return by blast
    next
      fix w1 c w2 assume "?R w w1" and "visit m w1 = Inr (c, w2)"
      then show "simple_return (returnTaint w2) \<and> param_source i \<in> ret_sources (returnTaint w2)"
        using visit_flat_return [OF inv(1) ps inv(2) m(2) return_plain [OF m(1,2)]] m(3,4) by fastforce
    qed
    then show ?thesis ..
  qed
  ultimately show ?thesis using w' by blast
qed

lemma param_indices_sources:
  assumes "\<forall>i\<in>A. int i < 2 ^ 63"
  shows "param_indices (param_source ` A) = int ` A"
  using assms by (auto simp: param_indices_def param_source_facts)

lemma finding_params_sources:
  assumes "\<forall>f\<in>set fs. fSource f \<in> param_source ` A" and "\<forall>i\<in>A. \<exists>f\<in>set fs. fSource f = param_source i"
    and "\<forall>i\<in>A. int i < 2 ^ 63"
  shows "finding_params fs = int ` A"
proof -
  have "fSource ` set fs = param_source ` A" using assms(1,2) by (force simp: image_iff)
  moreover have "finding_params fs = (\<Union>x\<in>fSource ` set fs. param_indices (set (Split x (CHR ''|''))))"
    by (simp add: finding_params_def)
  ultimately have "finding_params fs = (\<Union>i\<in>A. param_indices {param_source i})"
    by (simp add: param_source_facts)
  moreover have "param_indices (param_source ` A) = (\<Union>i\<in>A. param_indices {param_source i})"
    by (auto simp: param_indices_def)
  ultimately have "finding_params fs = param_indices (param_source ` A)" by simp
  then show ?thesis using param_indices_sources [OF assms(3)] by simp
qed

text \<open>
  C7. Exact summaries of flat functions. Let the parameters be distinct identifiers and let
  everything the walker handles in the body be calls of known sinks and returns, on names and
  literals (any number of them, at any depth of statements, sinks watching any positions). Then
  summarising the function returns and the summary names as flowing to a sink exactly the
  parameters that are, at some sink call of the body, the first parameter among the watched
  arguments (the walker reports one argument per call); as flowing to the result exactly the
  parameters that some return statement returns; and no source of its own in the result. No finding
  is reported yet.
\<close>

theorem function_sink_summarised:
  assumes params: "\<forall>p\<in>set (parameter_list fn). nodeType p = ''identifier''"
    and names: "distinct (map (Content src) (parameter_list fn))"
    and ne: "parameter_list fn \<noteq> []" and bound: "int (length (parameter_list fn)) < 2 ^ 63"
    and body: "ChildByFieldName fn ''body'' = Some b" and flat: "\<forall>m. visited b m \<longrightarrow> flat_node src m"
  shows "\<exists>w'. StartSummarizationWalk ref fn (newASTWalker file src ModeSummarize ctx) = Inr ((), w') \<and>
           Summaries (context_of w') ref =
             Some \<lparr>fsRefID = ref, TaintsReturn = False,
               TaintedParams = int ` sunk_params src (parameter_list fn) b,
               ParamToReturn = int ` returned_params src (parameter_list fn) b\<rparr> \<and>
           intraProceduralFindings (context_of w') = intraProceduralFindings ctx"
proof -
  let ?w0 = "newASTWalker file src ModeSummarize ctx" and ?ps = "parameter_list fn"
  let ?A = "sunk_params src ?ps b" and ?B = "returned_params src ?ps b"
  let ?w1 = "?w0\<lparr>currentSummary := Some ref, context_of := ctx\<lparr>Summaries := (Summaries ctx)(ref \<mapsto> NewFunctionSummary ref)\<rparr>\<rparr>"
  let ?w2 = "?w1\<lparr>symbolTaint := bind_params src 0 ?ps Map.empty\<rparr>"
  have init: "initializeParameters fn ?w1 = Inr ((), ?w2)"
    using init_parameters [OF ne params, of ?w1] by (simp add: newASTWalker_def)
  have w2: "param_state src ?ps ?w2" "simple_return (returnTaint ?w2)" "ret_sources (returnTaint ?w2) = {}"
      "summaryParamFindings ?w2 = []"
    by (simp_all add: param_state_def newASTWalker_def simple_return_def ret_sources_def)
  obtain w3 where w3: "Walk b ?w2 = Inr ((), w3)" "flat_step ?A ?B ?w2 w3"
      "\<forall>i\<in>?A. \<exists>f\<in>set (summaryParamFindings w3). fSource f = param_source i"
      "\<forall>i\<in>?B. param_source i \<in> ret_sources (returnTaint w3)"
    using walk_flat [OF w2(1) names flat w2(2)] by blast
  obtain fs t where fs: "w3 = ?w2\<lparr>summaryParamFindings := fs, returnTaint := t\<rparr>" "\<forall>f\<in>set fs. fSource f \<in> param_source ` ?A"
    using w3(2) unfolding flat_step_def w2(4) by auto
  have t: "simple_return t" "ret_sources t = param_source ` ?B"
    using flat_step_return [OF w3(2) w2(2)] w3(4) w2(3) fs(1) by auto
  have "\<forall>i\<in>?A. i < length ?ps" "\<forall>i\<in>?B. i < length ?ps"
    using watched_param_bound param_index_bound [of src 0 ?ps] by (fastforce simp: sunk_params_def returned_params_def)+
  then have lt: "\<forall>i\<in>?A. int i < 2 ^ 63" "\<forall>i\<in>?B. int i < 2 ^ 63" using bound by fastforce+
  have tp: "finding_params fs = int ` ?A"
    by (rule finding_params_sources [OF fs(2) _ lt(1)]) (use w3(3) fs(1) in simp)
  have pr: "param_indices (ret_sources t) = int ` ?B" and no_src: "\<not> (\<exists>s\<in>ret_sources t. \<not> is_param s)"
    using param_indices_sources [OF lt(2)] t(2) param_source_facts(2) by auto
  let ?s = "\<lparr>fsRefID = ref, TaintsReturn = False, TaintedParams = int ` ?A, ParamToReturn = int ` ?B\<rparr>"
  have ret: "bindW (taintedW t) (\<lambda>b. bindW (case t of Some t \<Rightarrow> if b then sourcesW t else returnW {} | None \<Rightarrow> returnW {}) k) w
      = k (ret_sources t) w" for k :: "string set \<Rightarrow> unit wm" and w
  proof (cases t)
    case None
    then show ?thesis by (simp add: ret_sources_def bindW_def)
  next
    case (Some x)
    then obtain S l where "x = SimpleTaint S l" "S \<noteq> {}" using t(1) by (auto simp: simple_return_def)
    then show ?thesis using Some by (simp add: ret_sources_def bindW_def sourcesW_def heapW_def GetSources_def)
  qed
  have "finalizeSummary w3 = Inr ((), w3\<lparr>
      context_of := (context_of w3)\<lparr>Summaries := (Summaries (context_of w3))(ref \<mapsto> ?s)\<rparr>,
      currentSummary := None, returnTaint := None, summaryParamFindings := []\<rparr>)"
    using ret tp pr no_src unfolding finalizeSummary_def fs(1)
    by (simp add: newASTWalker_def NewFunctionSummary_def Let_def)
  then show ?thesis
    using init w3(1) body fs(1)
    by (simp add: StartSummarizationWalk_def bindW_def newASTWalker_def)
qed

fun visited_list :: "node \<Rightarrow> node list" where
  "visited_list (Node f ty a b r c cs) =
     Node f ty a b r c cs # (if ty \<in> function_types then [] else concat (map visited_list cs))"

lemma visited_listI: "visited root m \<Longrightarrow> m \<in> set (visited_list root)"
proof (induction root)
  case (Node f ty a b r c cs)
  from visited_cases [OF Node.prems] show ?case
    using Node.IH by (auto simp: function_types_def)
qed

text \<open>\<^verbatim>\<open>function f(a,b){eval(b);eval(a);return b}\<close>\<close>

definition sink_function :: node where
  "sink_function = Node None ''function_declaration'' 0 41 0 0
     [leaf None ''function'' 0 8, leaf (Some ''name'') ''identifier'' 9 10,
      Node (Some ''parameters'') ''formal_parameters'' 10 15 0 10
        [leaf None ''('' 10 11, leaf None ''identifier'' 11 12, leaf None '','' 12 13,
         leaf None ''identifier'' 13 14, leaf None '')'' 14 15],
      Node (Some ''body'') ''statement_block'' 15 41 0 15
        [leaf None ''{'' 15 16,
         Node None ''expression_statement'' 16 24 0 16 [eval_call 16 (leaf None ''identifier'' 21 22) 22],
         Node None ''expression_statement'' 24 32 0 24 [eval_call 24 (leaf None ''identifier'' 29 30) 30],
         Node None ''return_statement'' 32 40 0 32 [leaf None ''return'' 32 38, leaf None ''identifier'' 39 40],
         leaf None ''}'' 40 41]]"

theorem function_sink_summarised_witness:
  "\<exists>w'. StartSummarizationWalk ''f'' sink_function
          (newASTWalker ''app.js'' ''function f(a,b){eval(b);eval(a);return b}'' ModeSummarize NewAnalyzerContext) = Inr ((), w') \<and>
        (\<exists>s. Summaries (context_of w') ''f'' = Some s \<and> \<not> TaintsReturn s \<and> {0, 1} \<subseteq> TaintedParams s \<and> 1 \<in> ParamToReturn s) \<and>
        intraProceduralFindings (context_of w') = []"
proof -
  let ?src = "''function f(a,b){eval(b);eval(a);return b}''"
  let ?b = "children sink_function ! 3"
  let ?n1 = "eval_call 16 (leaf None ''identifier'' 21 22) 22" and ?n2 = "eval_call 24 (leaf None ''identifier'' 29 30) 30"
  let ?d = "\<lparr>ssName = ''eval'', ssType = SinkTypeExecution, ssCanonicalType = SinkEval, ssTaintedArgs = [0]\<rparr>"
  let ?ps = "[leaf None ''identifier'' 11 12, leaf None ''identifier'' 13 14]"
  have ps: "parameter_list sink_function = ?ps"
    by (simp add: parameter_list_def sink_function_def tree_simps is_parameter_def)
  have b: "ChildByFieldName sink_function ''body'' = Some ?b" by (simp add: sink_function_def tree_simps)
  have sinks: "sink_call ?src ?n1 ?d" "sink_call ?src ?n2 ?d" by (rule eval_call_sink; simp)+
  have args: "extractArguments (ChildByFieldName ?n1 ''arguments'') = [leaf None ''identifier'' 21 22]"
      "extractArguments (ChildByFieldName ?n2 ''arguments'') = [leaf None ''identifier'' 29 30]"
    by (rule eval_call_args; simp add: leaf_def)+
  have vis: "visited ?b ?n1" "visited ?b ?n2" "visited ?b (children ?b ! 3)"
  proof -
    have 1: "visited ?b (children ?b ! 1)" "visited ?b (children ?b ! 2)"
      by (rule visited_child [OF visited_root]; simp add: sink_function_def function_types_def)+
    show "visited ?b (children ?b ! 3)"
      by (rule visited_child [OF visited_root]; simp add: sink_function_def function_types_def)
    show "visited ?b ?n1" by (rule visited_child [OF 1(1)]) (simp_all add: sink_function_def function_types_def)
    show "visited ?b ?n2" by (rule visited_child [OF 1(2)]) (simp_all add: sink_function_def function_types_def)
  qed
  have flat: "\<forall>m. visited ?b m \<longrightarrow> flat_node ?src m"
  proof -
    have "list_all (\<lambda>m. m = ?n1 \<or> m = ?n2 \<or> m = children ?b ! 3 \<or> neutral m) (visited_list ?b)" by code_simp
    then have "m = ?n1 \<or> m = ?n2 \<or> m = children ?b ! 3 \<or> neutral m" if "visited ?b m" for m
      using visited_listI [OF that] by (auto simp: list_all_iff)
    moreover have "flat_node ?src (children ?b ! 3)"
      by (simp add: flat_node_def sink_function_def return_value_def tree_simps plain_def Child_def)
    moreover have "flat_node ?src ?n1" "flat_node ?src ?n2"
      using sinks args by (auto simp: flat_node_def plain_def leaf_def)
    moreover have "flat_node ?src m" if "neutral m" for m using that by (simp add: flat_node_def)
    ultimately show ?thesis by blast
  qed
  have "1 \<in> sunk_params ?src ?ps ?b" "0 \<in> sunk_params ?src ?ps ?b"
    using vis(1,2) sinks args by (force simp: sunk_params_def leaf_def Content_def)+
  moreover have "1 \<in> returned_params ?src ?ps ?b"
    unfolding returned_params_def
    by (rule CollectI, rule exI [of _ "children ?b ! 3"], rule exI [of _ "leaf None ''identifier'' 39 40"])
      (use vis(3) in \<open>simp add: sink_function_def return_value_def tree_simps Child_def ChildCount_def\<close>)
  ultimately have res: "{0, 1} \<subseteq> int ` sunk_params ?src ?ps ?b" "1 \<in> int ` returned_params ?src ?ps ?b"
    by (force simp: image_iff)+
  have "\<forall>p\<in>set ?ps. nodeType p = ''identifier''" "distinct (map (Content ?src) ?ps)" "?ps \<noteq> []" "int (length ?ps) < 2 ^ 63"
    by (simp_all add: leaf_def Content_def)
  note function_sink_summarised [of sink_function ?src ?b "''f''" "''app.js''" NewAnalyzerContext, unfolded ps, OF this b flat]
  moreover have "intraProceduralFindings NewAnalyzerContext = []" by (simp add: NewAnalyzerContext_def)
  ultimately show ?thesis using res by (elim exE conjE) (intro exI conjI, assumption+, simp_all)
qed

text \<open>
  Arguments that are untainted in a state whatever the taint objects hold: literals, names without a
  taint and sanitizer calls, also when they are spread.
\<close>

definition harmless :: "ast_walker \<Rightarrow> node \<Rightarrow> bool" where
  "harmless w a \<longleftrightarrow>
     nodeType a \<in> literal_types \<or>
     (nodeType a = ''identifier'' \<and> symbolTaint w (Content (source w) a) = None) \<or>
     sanitizing_call (source w) a"

definition harmless_arg :: "ast_walker \<Rightarrow> node \<Rightarrow> bool" where
  "harmless_arg w a =
     (if nodeType a = ''spread_element''
      then (case field_or_second ''argument'' 1 a of None \<Rightarrow> True | Some e \<Rightarrow> harmless w e)
      else harmless w a)"

lemma eval_harmless: "harmless w a \<Longrightarrow> evaluateTaint (Some a) w = Inr (None, w)"
  using eval_literal eval_sanitizer eval_identifier [of a w] by (auto simp: harmless_def)

lemma eval_harmless_arg: "harmless_arg w a \<Longrightarrow> eval_argument evaluateTaint a w = Inr (None, w)"
  by (auto simp: harmless_arg_def eval_argument_def eval_harmless split: if_splits option.splits)

lemma checkSummary_loop_skip:
  assumes "\<And>i a. (i, a) \<in> set pre \<Longrightarrow> flows (TaintedParams s) i a \<Longrightarrow> harmless_arg w a"
  shows "checkSummary_loop (pre @ rest) n s w = checkSummary_loop rest n s w"
  using assms
proof (induction pre)
  case (Cons x pre)
  obtain i a where x: "x = (i, a)" by fastforce
  have rest: "checkSummary_loop (pre @ rest) n s w = checkSummary_loop rest n s w"
    by (rule Cons.IH) (use Cons.prems in auto)
  show ?case
    using Cons.prems [of i a] x rest by (simp add: bindW_def eval_harmless_arg)
qed simp

text \<open>
  C15. Using a summary: at a call in analysis mode of a summarised function that is not itself a known
  sink, let argument \<open>i\<close> be a known source property at a position that flows to a sink in the
  function. If every earlier argument at such a position is harmless (a literal, a name without a
  taint or a sanitizer call, spread or not), argument \<open>i\<close> is reported, once and as the only
  finding of the call, as the sink \<open>call:f(arg:i)\<close> of execution type and with medium confidence.
  Arguments at positions that do not flow may be anything: they are not even evaluated. If all
  arguments at flowing positions are harmless, nothing is reported.
\<close>

theorem summary_sink_applied:
  assumes "summary_call w n summary"
    and "extractArguments (ChildByFieldName n ''arguments'') = args"
  shows "(\<forall>i s. i < length args \<and> int i \<in> TaintedParams summary \<and> is_property_source (source w) (args ! i) s \<and>
            (\<forall>j<i. flows (TaintedParams summary) j (args ! j) \<longrightarrow> harmless_arg w (args ! j)) \<longrightarrow>
            (\<exists>f. visit n w = Inr (True, w\<lparr>analyzeFindings := analyzeFindings w @ [f]\<rparr>) \<and>
               fSource f = s \<and> fSink f = ''call:'' @ fsRefID summary @ ''(arg:'' @ itoa i @ '')'' \<and>
               fSinkType f = SinkTypeExecution \<and> fConfidence f = ''Medium'')) \<and>
         ((\<forall>j<length args. flows (TaintedParams summary) j (args ! j) \<longrightarrow> harmless_arg w (args ! j)) \<longrightarrow>
            visit n w = Inr (True, w))"
proof (intro conjI allI impI; (elim conjE)?)
  fix i s
  assume i: "i < length args" "int i \<in> TaintedParams summary"
    and src: "is_property_source (source w) (args ! i) s"
    and earlier: "\<forall>j<i. flows (TaintedParams summary) j (args ! j) \<longrightarrow> harmless_arg w (args ! j)"
  let ?f = "make_finding w s (call_sink (fsRefID summary) i) n"
  have s: "s \<noteq> []"
    using src property_sources_nonempty by (auto simp: is_property_source_def bind_eq_Some_conv)
  have m: "mode w = ModeAnalyze" using assms(1) by (simp add: summary_call_def)
  have hit: "eval_argument evaluateTaint (args ! i) w = Inr (Some (SimpleTaint {s} (row (args ! i))), w)"
      "flows (TaintedParams summary) i (args ! i)"
    using eval_property_source [OF src] src i(2) by (auto simp: eval_argument_def flows_def is_property_source_def)
  have "args = take i args @ args ! i # drop (Suc i) args" using i(1) by (rule id_take_nth_drop)
  then have split: "enumerate 0 args = enumerate 0 (take i args) @ (i, args ! i) # enumerate (Suc i) (drop (Suc i) args)"
    using i(1) enumerate_append_eq [of 0 "take i args" "args ! i # drop (Suc i) args"] by simp
  have "checkSummary_loop (enumerate 0 args) n summary w =
      checkSummary_loop ((i, args ! i) # enumerate (Suc i) (drop (Suc i) args)) n summary w"
    unfolding split by (rule checkSummary_loop_skip) (use earlier in \<open>auto simp: in_set_enumerate_eq\<close>)
  also have "\<dots> = Inr ((), record_finding ?f w)"
    using hit s by (simp add: bindW_def reportFinding_def)
  finally have "visit n w = Inr (True, record_finding ?f w)"
    using visit_summary_call [OF assms] by (simp add: bindW_def)
  then show "\<exists>f. visit n w = Inr (True, w\<lparr>analyzeFindings := analyzeFindings w @ [f]\<rparr>) \<and>
      fSource f = s \<and> fSink f = ''call:'' @ fsRefID summary @ ''(arg:'' @ itoa i @ '')'' \<and>
      fSinkType f = SinkTypeExecution \<and> fConfidence f = ''Medium''"
    using m by (intro exI [of _ ?f]) (simp add: record_finding_def make_finding_def call_sink_def)
next
  assume "\<forall>j<length args. flows (TaintedParams summary) j (args ! j) \<longrightarrow> harmless_arg w (args ! j)"
  then have "checkSummary_loop (enumerate 0 args @ []) n summary w = checkSummary_loop [] n summary w"
    by (intro checkSummary_loop_skip) (auto simp: in_set_enumerate_eq)
  then show "visit n w = Inr (True, w)"
    using visit_summary_call [OF assms] by (simp add: bindW_def)
qed

text \<open>\<^verbatim>\<open>f(1,location.hash)\<close> with a summary of \<^verbatim>\<open>f\<close> by which both its parameters flow to a sink\<close>

definition f_call :: node where
  "f_call = Node None ''call_expression'' 0 18 0 0
     [leaf (Some ''function'') ''identifier'' 0 1,
      Node (Some ''arguments'') ''arguments'' 1 18 0 1
        [leaf None ''('' 1 2, leaf None ''number'' 2 3, leaf None '','' 3 4, hash_access None 4, leaf None '')'' 17 18]]"

definition f_summary :: FunctionSummary where
  "f_summary = \<lparr>fsRefID = ''f'', TaintsReturn = False, TaintedParams = {0, 1}, ParamToReturn = {}\<rparr>"

definition f_context :: analyzer_context where
  "f_context = \<lparr>Summaries = [''f'' \<mapsto> f_summary], intraProceduralFindings = []\<rparr>"

theorem summary_sink_applied_witness:
  "\<exists>f w'. visit f_call (newASTWalker ''app.js'' ''f(1,location.hash)'' ModeAnalyze f_context) = Inr (True, w') \<and>
     analyzeFindings w' = [f] \<and> fSource f = ''location.hash'' \<and> fSink f = ''call:f(arg:1)'' \<and> fConfidence f = ''Medium''"
proof -
  let ?w = "newASTWalker ''app.js'' ''f(1,location.hash)'' ModeAnalyze f_context"
  let ?args = "[leaf None ''number'' 2 3, hash_access None 4]" and ?c = "leaf (Some ''function'') ''identifier'' 0 1"
  have "CheckIfSinkFunction [Content (source ?w) ?c] = None" by code_simp
  then have 1: "summary_call ?w f_call f_summary"
    by (simp add: summary_call_def f_call_def tree_simps newASTWalker_def f_context_def)
  have 2: "extractArguments (ChildByFieldName f_call ''arguments'') = ?args"
    by (simp add: f_call_def tree_simps)
  have 3: "is_property_source (source ?w) (?args ! 1) ''location.hash''"
    unfolding nth_Cons_Suc One_nat_def nth_Cons_0 by (rule hash_access_source) (simp add: newASTWalker_def)
  have 4: "itoa 1 = ''1''" by code_simp
  have "harmless_arg ?w (leaf None ''number'' 2 3)"
    by (simp add: harmless_arg_def harmless_def leaf_def literal_types_def)
  then have 5: "\<forall>j<1. flows (TaintedParams f_summary) j (?args ! j) \<longrightarrow> harmless_arg ?w (?args ! j)" by simp
  have "1 < length ?args \<and> int 1 \<in> TaintedParams f_summary \<and> is_property_source (source ?w) (?args ! 1) ''location.hash'' \<and>
      (\<forall>j<1. flows (TaintedParams f_summary) j (?args ! j) \<longrightarrow> harmless_arg ?w (?args ! j))"
    using 3 5 by (simp add: f_summary_def)
  from summary_sink_applied [OF 1 2, THEN conjunct1, THEN spec, THEN spec, THEN mp, OF this]
  show ?thesis
    using 4 by (auto simp: newASTWalker_def f_summary_def)
qed

section \<open>Where the walker goes wrong\<close>

text \<open>
  C17. Assigning a literal to a sink property ends the analysis in a nil dereference: the taint of the
  right-hand side is nil and its source is read without a check. This holds for every assignment
  \<open>o.p = literal\<close> whose target flattens to a known sink property, in every mode and every state in
  which updating the target returns.
\<close>

theorem literal_to_sink_property_panics:
  assumes "nodeType n = ''assignment_expression''"
    and "ChildByFieldName n ''left'' = Some l" and "ChildByFieldName n ''right'' = Some r"
    and "nodeType r \<in> literal_types" and "nodeType l \<in> {''member_expression'', ''subscript_expression''}"
    and "Option.bind (flattenPropertyAccess (source w) (Some l)) CheckIfSinkProperty = Some d"
  shows "case updateTaintTarget (Some l) None w of
           Inl e \<Rightarrow> Walk n w = Inl e
         | Inr _ \<Rightarrow> Walk n w = Inl NilDereference"
proof -
  have e: "evaluateTaint (Some r) w = Inr (None, w)" using assms(4) by (rule eval_literal)
  have h: "handleAssignment n w =
      bindW (updateTaintTarget (Some l) None) (\<lambda>_. checkAssignmentSink (Some l) None n) w"
    using assms(2,3) e by (simp add: handleAssignment_def bindW_def)
  have v: "visit n w = bindW (handleAssignment n) (\<lambda>_. returnW True) w"
    using assms(1) by (simp add: visit_def)
  show ?thesis
  proof (cases "updateTaintTarget (Some l) None w")
    case (Inl err)
    then show ?thesis using h v by (simp add: Walk_eq [of n] bindW_def)
  next
    case (Inr xw)
    obtain w1 where w1: "updateTaintTarget (Some l) None w = Inr ((), w1)" using Inr by (cases xw) auto
    have "source w1 = source w"
      using runsD(2) [OF frame.runs_evaluate(2) w1] eval_frameD(3) by blast
    then have "checkAssignmentSink (Some l) None n w1 = Inl NilDereference"
      using assms(5,6) by (auto simp: checkAssignmentSink_def bindW_def sourceW_def)
    then show ?thesis using w1 h v by (simp add: Walk_eq [of n] bindW_def)
  qed
qed

text \<open>\<^verbatim>\<open>el.innerHTML="x"\<close>\<close>

definition html_assignment :: node where
  "html_assignment = Node None ''assignment_expression'' 0 16 0 0
     [Node (Some ''left'') ''member_expression'' 0 12 0 0
        [leaf (Some ''object'') ''identifier'' 0 2, leaf None ''.'' 2 3,
         leaf (Some ''property'') ''property_identifier'' 3 12],
      leaf None ''='' 12 13, leaf (Some ''right'') ''string'' 13 16]"

definition html_text :: string where
  "html_text = ''el.innerHTML='' @ [CHR 0x22, CHR ''x'', CHR 0x22]"

theorem literal_to_sink_property_panics_witness:
  "Walk html_assignment (fresh_walker html_text) = Inl NilDereference"
proof -
  let ?w = "fresh_walker html_text" and ?l = "children html_assignment ! 0" and ?r = "children html_assignment ! 2"
  have 1: "ChildByFieldName html_assignment ''left'' = Some ?l" "ChildByFieldName html_assignment ''right'' = Some ?r"
      "nodeType html_assignment = ''assignment_expression''" "nodeType ?r \<in> literal_types"
      "nodeType ?l \<in> {''member_expression'', ''subscript_expression''}"
    by (simp_all add: html_assignment_def tree_simps literal_types_def)
  have "Option.bind (flattenPropertyAccess (source ?w) (Some ?l)) CheckIfSinkProperty \<noteq> None" by code_simp
  then obtain d where "Option.bind (flattenPropertyAccess (source ?w) (Some ?l)) CheckIfSinkProperty = Some d" by auto
  note literal_to_sink_property_panics [OF 1(3,1,2,4,5) this]
  moreover have "returns (updateTaintTarget (Some ?l) None ?w)" by code_simp
  ultimately show ?thesis by (auto simp: returns_def split: sum.splits)
qed

end
