(* ===== verification/JsQuiet.thy ===== *)
theory JsQuiet
  imports JsFlows
begin

text \<open>
  Programs without sources. On a program in which no expression is a known source and every property
  access is static, the walker keeps every symbol and every object untainted, so that a walk
  reports nothing. The statement is a Hoare triple over walkers, \<open>tidy\<close>, with one rule per
  operation of the walker.
\<close>

section \<open>Untainted walkers\<close>

definition clean :: "string \<Rightarrow> ast_walker \<Rightarrow> bool" where
  "clean src w \<longleftrightarrow>
     source w = src \<and> symbolTaint w = Map.empty \<and> set (taintHeap w) \<subseteq> {NewObjectTaint} \<and>
     (\<forall>f s. Summaries (context_of w) f = Some s \<longrightarrow> \<not> TaintsReturn s)"

definition clean_val :: "taint option \<Rightarrow> ast_walker \<Rightarrow> bool" where
  "clean_val st w \<longleftrightarrow> st = None \<or> (\<exists>a<length (taintHeap w). st = Some (ObjectRef a))"

definition grown :: "ast_walker \<Rightarrow> ast_walker \<Rightarrow> bool" where
  "grown w w' \<longleftrightarrow> eval_frame w w' \<and> length (taintHeap w) \<le> length (taintHeap w')"

lemma grown_refl [simp]: "grown w w"
  by (simp add: grown_def eval_frame_def)

lemma grown_trans: "grown w w1 \<Longrightarrow> grown w1 w2 \<Longrightarrow> grown w w2"
  using eval_frame_trans by (auto simp: grown_def)

lemma clean_val_grown: "clean_val st w \<Longrightarrow> grown w w' \<Longrightarrow> clean_val st w'"
  by (auto simp: clean_val_def grown_def)

lemma clean_val_None [simp]: "clean_val None w"
  by (simp add: clean_val_def)

lemma clean_heap_nth: "clean src w \<Longrightarrow> a < length (taintHeap w) \<Longrightarrow> taintHeap w ! a = NewObjectTaint"
  using nth_mem by (fastforce simp: clean_def)

section \<open>Triples\<close>

definition tidy :: "string \<Rightarrow> (ast_walker \<Rightarrow> bool) \<Rightarrow> 'a wm \<Rightarrow> ('a \<Rightarrow> ast_walker \<Rightarrow> bool) \<Rightarrow> bool" where
  "tidy src P m Q \<longleftrightarrow>
     (\<forall>w. clean src w \<and> P w \<longrightarrow> (\<exists>x w'. m w = Inr (x, w') \<and> clean src w' \<and> grown w w' \<and> Q x w'))"

lemma tidyI:
  assumes "\<And>w. clean src w \<Longrightarrow> P w \<Longrightarrow> \<exists>x w'. m w = Inr (x, w') \<and> clean src w' \<and> grown w w' \<and> Q x w'"
  shows "tidy src P m Q"
  using assms by (auto simp: tidy_def)

lemma tidyD:
  assumes "tidy src P m Q" and "clean src w" and "P w"
  obtains x w' where "m w = Inr (x, w')" and "clean src w'" and "grown w w'" and "Q x w'"
  using assms by (auto simp: tidy_def)

lemma tidy_return: "(\<And>w. P w \<Longrightarrow> Q x w) \<Longrightarrow> tidy src P (returnW x) Q"
  by (auto simp: tidy_def)

lemma tidy_gets: "(\<And>w. clean src w \<Longrightarrow> P w \<Longrightarrow> Q (f w) w) \<Longrightarrow> tidy src P (getsW f) Q"
  by (auto simp: tidy_def)

lemma tidy_bind:
  assumes "tidy src P m Q" and "\<And>x. tidy src (Q x) (k x) S"
  shows "tidy src P (bindW m k) S"
proof (rule tidyI)
  fix w assume w: "clean src w" "P w"
  obtain x w1 where 1: "m w = Inr (x, w1)" "clean src w1" "grown w w1" "Q x w1"
    using tidyD [OF assms(1) w] .
  obtain y w2 where 2: "k x w1 = Inr (y, w2)" "clean src w2" "grown w1 w2" "S y w2"
    using tidyD [OF assms(2) 1(2,4)] .
  show "\<exists>x w'. bindW m k w = Inr (x, w') \<and> clean src w' \<and> grown w w' \<and> S x w'"
    using 1 2 grown_trans by (auto simp: bindW_def)
qed

lemma tidy_pre: "tidy src P m Q \<Longrightarrow> (\<And>w. P' w \<Longrightarrow> P w) \<Longrightarrow> tidy src P' m Q"
  by (simp add: tidy_def)

lemma tidy_frame:
  assumes "tidy src P m Q" and "\<And>w w'. I w \<Longrightarrow> grown w w' \<Longrightarrow> I w'"
  shows "tidy src (\<lambda>w. P w \<and> I w) m (\<lambda>x w. Q x w \<and> I w)"
  using assms unfolding tidy_def by blast

lemma tidy_foldW:
  assumes "\<And>x. x \<in> set xs \<Longrightarrow> tidy src (I acc) (f x acc) (\<lambda>y w. y = acc \<and> I acc w)"
  shows "tidy src (I acc) (foldW f xs acc) (\<lambda>y w. y = acc \<and> I acc w)"
  using assms
proof (induction xs)
  case Nil
  show ?case unfolding foldW.simps by (rule tidy_return) simp
next
  case (Cons x xs)
  show ?case
    unfolding foldW.simps
  proof (rule tidy_bind)
    show "tidy src (I acc) (f x acc) (\<lambda>y w. y = acc \<and> I acc w)" using Cons.prems by simp
    fix y
    have "tidy src (I acc) (foldW f xs acc) (\<lambda>y w. y = acc \<and> I acc w)" using Cons by simp
    then show "tidy src (\<lambda>w. y = acc \<and> I acc w) (foldW f xs y) (\<lambda>y w. y = acc \<and> I acc w)"
      by (auto simp: tidy_def)
  qed
qed

lemma tidy_forW:
  assumes "\<And>x. x \<in> set xs \<Longrightarrow> tidy src I (f x) (\<lambda>_. I)"
  shows "tidy src I (forW f xs) (\<lambda>_. I)"
  using tidy_foldW [of xs src "\<lambda>_. I" "()" "\<lambda>x _. f x"] assms by (simp add: forW_def)

section \<open>Operations on untainted states\<close>

lemma isTainted_clean:
  assumes "clean src w" and "a < length (taintHeap w)"
  shows "IsTainted (taintHeap w) (ObjectRef a) = Some False"
  using clean_heap_nth [OF assms] assms(2) by (simp add: IsTainted_def heap_get_def NewObjectTaint_def)

lemma tainted_clean: "clean src w \<Longrightarrow> clean_val st w \<Longrightarrow> taintedW st w = Inr (False, w)"
  by (auto simp: clean_val_def taintedW_def bindW_def heapW_def isTainted_clean)

lemma tidy_tainted: "tidy src (clean_val st) (taintedW st) (\<lambda>b w. \<not> b \<and> clean_val st w)"
  by (rule tidyI) (auto simp: tainted_clean)

lemma tidy_binding: "tidy src (clean_val st) (taintBinding ref st) (\<lambda>_ _. True)"
proof (rule tidyI)
  fix w assume "clean src w" and "clean_val st w"
  then show "\<exists>x w'. taintBinding ref st w = Inr (x, w') \<and> clean src w' \<and> grown w w' \<and> True"
    by (simp add: taintBinding_def bindW_def tainted_clean)
      (auto simp: clean_def grown_def eval_frame_def)
qed

lemma tidy_alloc: "tidy src P (allocW NewObjectTaint) (\<lambda>a w. clean_val (Some (ObjectRef a)) w)"
  by (rule tidyI) (auto simp: allocW_def bindW_def clean_def grown_def eval_frame_def clean_val_def)

lemma tidy_set_property:
  "tidy src (\<lambda>w. clean_val st w \<and> clean_val (Some (ObjectRef a)) w) (setPropertyW a p st) (\<lambda>_. clean_val (Some (ObjectRef a)))"
proof (rule tidyI)
  fix w assume w: "clean src w" and st: "clean_val st w \<and> clean_val (Some (ObjectRef a)) w"
  then have a: "a < length (taintHeap w)" by (simp add: clean_val_def)
  have "put_props (taintHeap w) a [] = taintHeap w"
    using clean_heap_nth [OF w a] by (simp add: put_props_def NewObjectTaint_def list_update_same_conv a)
  then have "SetPropertyTaint (taintHeap w) a p st = Some (taintHeap w)"
    using clean_heap_nth [OF w a] st a w
    by (auto simp: SetPropertyTaint_def heap_get_def NewObjectTaint_def clean_val_def isTainted_clean split: option.splits)
  then show "\<exists>x w'. setPropertyW a p st w = Inr (x, w') \<and> clean src w' \<and> grown w w' \<and> clean_val (Some (ObjectRef a)) w'"
    using w st by (simp add: setPropertyW_def bindW_def heapW_def)
qed

lemma tidy_property: "tidy src (clean_val (Some (ObjectRef a))) (propertyW a p) (\<lambda>r _. r = None)"
proof (rule tidyI)
  fix w assume w: "clean src w" and "clean_val (Some (ObjectRef a)) w"
  then have "a < length (taintHeap w)" by (simp add: clean_val_def)
  then show "\<exists>x w'. propertyW a p w = Inr (x, w') \<and> clean src w' \<and> grown w w' \<and> x = None"
    using clean_heap_nth [OF w] w
    by (simp add: propertyW_def bindW_def heapW_def GetPropertyTaint_def heap_get_def NewObjectTaint_def)
qed

lemma tidy_accumulate: "tidy src P (accumulate None None) (\<lambda>r _. r = None)"
  by (rule tidyI) (simp add: accumulate_def bindW_def)

lemma tidy_approximate: "tidy src (clean_val st) (approximate_part n st) (\<lambda>r w. r = None)"
  by (rule tidyI) (simp add: approximate_part_def bindW_def tainted_clean)

section \<open>Programs without sources\<close>

text \<open>
  No source, no computed property access, no call of a source function and no assignment to a sink
  property (whose report dereferences nil for an untainted value) anywhere in the tree.
\<close>

definition node_quiet :: "string \<Rightarrow> node \<Rightarrow> bool" where
  "node_quiet src n \<longleftrightarrow>
     (if nodeType n \<in> {''member_expression'', ''subscript_expression''}
      then Option.bind (flattenPropertyAccess src (Some n)) CheckIfPropertySource = None \<and>
           snd (determinePropertyName src n)
      else if nodeType n \<in> {''call_expression'', ''new_expression''}
      then Option.bind (flattenPropertyAccess src (ChildByFieldName n ''function'')) CheckIfFunctionSource = None
      else if nodeType n = ''assignment_expression''
      then Option.bind (flattenPropertyAccess src (ChildByFieldName n ''left'')) CheckIfSinkProperty = None
      else True)"

fun quiet :: "string \<Rightarrow> node \<Rightarrow> bool" where
  "quiet src (Node f ty a b r c cs) =
     (node_quiet src (Node f ty a b r c cs) \<and> list_all (quiet src) cs)"

definition quiet_opt :: "string \<Rightarrow> node option \<Rightarrow> bool" where
  "quiet_opt src n = (case n of None \<Rightarrow> True | Some m \<Rightarrow> quiet src m)"

lemma quiet_node: "quiet src n \<Longrightarrow> node_quiet src n"
  by (cases n) simp

lemma quiet_child: "quiet src n \<Longrightarrow> c \<in> set (children n) \<Longrightarrow> quiet src c"
  by (cases n) (auto simp: list_all_iff)

lemma quiet_opt_simps [simp]: "quiet_opt src None" "quiet_opt src (Some n) = quiet src n"
  by (simp_all add: quiet_opt_def)

lemma quiet_field: "quiet src n \<Longrightarrow> quiet_opt src (ChildByFieldName n f)"
  by (cases "ChildByFieldName n f") (auto dest: ChildByFieldName_child quiet_child)

lemma quiet_second: "quiet src n \<Longrightarrow> quiet_opt src (field_or_second f m n)"
  by (cases "field_or_second f m n")
    (auto simp: field_or_second_def split: option.splits if_splits dest: ChildByFieldName_child Child_child quiet_child)

lemma quiet_template: "quiet src n \<Longrightarrow> quiet_opt src (template_expr n)"
  by (cases "template_expr n")
    (auto simp: template_expr_def split: option.splits if_splits dest: ChildByFieldName_child Child_child quiet_child)

lemma quiet_argument:
  "quiet src n \<Longrightarrow> arg \<in> set (extractArguments (ChildByFieldName n f)) \<Longrightarrow> quiet src arg"
  using quiet_field [of src n f] by (auto dest!: extractArguments_set intro: quiet_child)

text \<open>An evaluator that returns nil on every smaller quiet node.\<close>

abbreviation nil_result :: "taint option \<Rightarrow> ast_walker \<Rightarrow> bool" where
  "nil_result r w \<equiv> r = None"

definition nil_below :: "string \<Rightarrow> nat \<Rightarrow> ev_fun \<Rightarrow> bool" where
  "nil_below src k ev \<longleftrightarrow> (\<forall>m. node_fuel m < k \<and> quiet_opt src m \<longrightarrow> tidy src (\<lambda>_. True) (ev m) nil_result)"

lemma nil_belowD:
  "nil_below src k ev \<Longrightarrow> node_fuel m < k \<Longrightarrow> quiet_opt src m \<Longrightarrow> tidy src P (ev m) nil_result"
  unfolding nil_below_def using tidy_pre by blast

lemma nil_argument:
  assumes "nil_below src (node_fuel (Some n)) ev" and "quiet src n"
    and "arg \<in> set (extractArguments (ChildByFieldName n f))"
  shows "tidy src P (eval_argument ev arg) nil_result"
  using nil_belowD [OF assms(1)] smaller(3,4) [OF assms(3)] quiet_argument [OF assms(2,3)] quiet_second
  by (auto simp: eval_argument_def)

lemma nilD:
  assumes "tidy src (\<lambda>_. True) m nil_result" and "clean src w"
  shows "\<exists>w'. m w = Inr (None, w') \<and> clean src w' \<and> grown w w'"
  using assms by (auto simp: tidy_def)

lemma tidy_nil_bind:
  assumes "tidy src P m nil_result" and "tidy src (\<lambda>_. True) (k None) Q"
  shows "tidy src P (bindW m k) Q"
proof (rule tidy_bind [OF assms(1)])
  fix x show "tidy src (nil_result x) (k x) Q" using assms(2) by (auto simp: tidy_def)
qed

lemma nil_foldW:
  assumes "\<And>x. x \<in> set xs \<Longrightarrow> tidy src (\<lambda>_. True) (f x None) nil_result"
  shows "tidy src (\<lambda>_. True) (foldW f xs None) nil_result"
  using tidy_foldW [of xs src "\<lambda>_ _. True" None f] assms by simp

lemma nil_property_access:
  assumes ev: "nil_below src (node_fuel (Some n)) ev" and n: "quiet src n"
    and ty: "nodeType n \<in> {''member_expression'', ''subscript_expression''}"
  shows "tidy src (\<lambda>_. True) (evaluatePropertyAccessTaint ev n) nil_result"
proof -
  have q: "Option.bind (flattenPropertyAccess src (Some n)) CheckIfPropertySource = None"
    using quiet_node [OF n] ty by (auto simp: node_quiet_def)
  have e: "tidy src (\<lambda>_. True) (ev (ChildByFieldName n ''object'')) nil_result"
    by (rule nil_belowD [OF ev]) (simp_all add: quiet_field n)
  show ?thesis
  proof (rule tidyI)
    fix w assume w: "clean src w"
    then have "source w = src" by (simp add: clean_def)
    moreover obtain w' where "ev (ChildByFieldName n ''object'') w = Inr (None, w')" "clean src w'" "grown w w'"
      using tidyD [OF e w] by blast
    ultimately show "\<exists>x w'. evaluatePropertyAccessTaint ev n w = Inr (x, w') \<and> clean src w' \<and> grown w w' \<and> x = None"
      by (auto simp: evaluatePropertyAccessTaint_def bindW_def q split: prod.splits)
  qed
qed

lemma nil_object_literal:
  assumes ev: "nil_below src (node_fuel (Some n)) ev" and n: "quiet src n"
  shows "tidy src (\<lambda>_. True) (evaluateObjectLiteralTaint ev n) nil_result"
proof -
  have child: "tidy src (clean_val (Some (ObjectRef a))) (literal_child ev c (Inl a)) (\<lambda>r w. r = Inl a \<and> clean_val (Some (ObjectRef a)) w)"
    if c: "c \<in> set (children n)" for c a
  proof (rule tidyI)
    fix w assume w: "clean src w" and a: "clean_val (Some (ObjectRef a)) w"
    have e: "\<exists>w'. ev m w = Inr (None, w') \<and> clean src w' \<and> grown w w'"
      if "node_fuel m < node_fuel (Some n)" and "quiet_opt src m" for m
      using tidyD [OF nil_belowD [OF ev that, of "\<lambda>_. True"] w] by blast
    have q: "quiet src c" using quiet_child [OF n c] .
    show "\<exists>x w'. literal_child ev c (Inl a) w = Inr (x, w') \<and> clean src w' \<and> grown w w' \<and> x = Inl a \<and> clean_val (Some (ObjectRef a)) w'"
      using e [of "ChildByFieldName c ''value''"] e [of "Some c"] e [of "field_or_second ''argument'' 1 c"] c q
        quiet_field [OF q] quiet_second [OF q] w a clean_val_grown
      by (fastforce simp: literal_child_def bindW_def split: prod.splits)
  qed
  have loop: "tidy src (clean_val (Some (ObjectRef a))) (foldW (literal_child ev) (children n) (Inl a))
      (\<lambda>r w. r = Inl a \<and> clean_val (Some (ObjectRef a)) w)" for a
    using tidy_foldW [of "children n" src "\<lambda>_. clean_val (Some (ObjectRef a))" "Inl a" "literal_child ev"] child by blast
  show ?thesis
    unfolding evaluateObjectLiteralTaint_def
  proof (rule tidy_bind [OF tidy_alloc], rule tidy_bind [OF loop])
    fix a r
    show "tidy src (\<lambda>w. r = Inl a \<and> clean_val (Some (ObjectRef a)) w)
        (case r of Inl objState \<Rightarrow> bindW (taintedW (Some (ObjectRef objState)))
             (\<lambda>b. returnW (if b then Some (ObjectRef objState) else None))
         | Inr t \<Rightarrow> returnW (Some t)) nil_result"
      by (rule tidyI) (auto simp: bindW_def tainted_clean)
  qed
qed

lemma nil_summary:
  assumes ev: "nil_below src (node_fuel (Some n)) ev" and n: "quiet src n" and s: "\<not> TaintsReturn s"
  shows "tidy src (\<lambda>_. True) (evaluateCallWithSummary ev n (ChildByFieldName n ''arguments'') s) nil_result"
proof -
  have "tidy src (\<lambda>_. True) (foldW (\<lambda>(i, arg) mergedTaint.
      if flows (ParamToReturn s) i arg then bindW (eval_argument ev arg) (accumulate mergedTaint)
      else returnW mergedTaint) (enumerate 0 (extractArguments (ChildByFieldName n ''arguments''))) None) nil_result"
  proof (rule nil_foldW)
    fix x assume "x \<in> set (enumerate 0 (extractArguments (ChildByFieldName n ''arguments'')))"
    moreover obtain i arg where "x = (i, arg)" by fastforce
    ultimately have x: "x = (i, arg)" "arg \<in> set (extractArguments (ChildByFieldName n ''arguments''))"
      by (auto simp: in_set_enumerate_eq)
    have "tidy src (\<lambda>_. True) (bindW (eval_argument ev arg) (accumulate None)) nil_result"
      by (rule tidy_nil_bind [OF nil_argument [OF ev n x(2)]]) (rule tidy_accumulate)
    then show "tidy src (\<lambda>_. True) ((\<lambda>(i, arg) mergedTaint.
        if flows (ParamToReturn s) i arg then bindW (eval_argument ev arg) (accumulate mergedTaint)
        else returnW mergedTaint) x None) nil_result"
      unfolding x(1) by (auto simp: tidy_def)
  qed
  then show ?thesis using s by (simp add: evaluateCallWithSummary_def)
qed

lemma nil_fallback:
  assumes ev: "nil_below src (node_fuel (Some n)) ev" and n: "quiet src n"
  shows "tidy src (\<lambda>_. True) (evaluateCallFallback ev upd n c (ChildByFieldName n ''arguments'')) nil_result"
  unfolding evaluateCallFallback_def
proof (rule tidy_nil_bind [OF nil_foldW])
  fix arg assume "arg \<in> set (extractArguments (ChildByFieldName n ''arguments''))"
  from nil_argument [OF ev n this]
  show "tidy src (\<lambda>_. True) (bindW (eval_argument ev arg) (accumulate None)) nil_result"
    by (rule tidy_nil_bind) (rule tidy_accumulate)
qed (auto simp: tidy_def bindW_def split: option.splits)

lemma nil_unknown_call:
  assumes ev: "nil_below src (node_fuel (Some n)) ev" and n: "quiet src n"
  shows "tidy src (\<lambda>_. True) (evaluateCallUnknown ev upd n c (ChildByFieldName n ''arguments'')) nil_result"
proof (rule tidyI)
  fix w assume w: "clean src w"
  show "\<exists>x w'. evaluateCallUnknown ev upd n c (ChildByFieldName n ''arguments'') w = Inr (x, w') \<and>
      clean src w' \<and> grown w w' \<and> x = None"
  proof (cases "summary_for w c")
    case None
    then show ?thesis
      using nilD [OF nil_fallback [OF ev n, of upd c] w] by (auto simp: evaluateCallUnknown_def bindW_def)
  next
    case (Some s)
    then have "\<not> TaintsReturn s" using w by (auto simp: summary_for_def clean_def split: option.splits if_splits)
    then show ?thesis
      using Some nilD [OF nil_summary [OF ev n, of s] w] by (auto simp: evaluateCallUnknown_def bindW_def)
  qed
qed

lemma nil_extraction:
  assumes ev: "nil_below src (node_fuel (Some n)) ev" and n: "quiet src n"
    and c: "ChildByFieldName n ''function'' = Some c"
  shows "tidy src (\<lambda>_. True) (checkSpecificParameterExtraction ev n c p a) nil_result"
proof (cases "p \<noteq> [] \<and> last p \<in> {''get'', ''getItem'', ''getAll''} \<and> nodeType c = ''member_expression''")
  case True
  have "quiet_opt src (ChildByFieldName c ''object'')"
    using quiet_field [OF n, of "''function''"] c by (simp add: quiet_field)
  then have "tidy src (\<lambda>_. True) (ev (ChildByFieldName c ''object'')) nil_result"
    using nil_belowD [OF ev smaller(5) [OF c]] by blast
  then show ?thesis
    using True by (cases "ChildByFieldName c ''object''")
      (auto simp: checkSpecificParameterExtraction_def tidy_def bindW_def)
next
  case False
  then show ?thesis by (auto simp: checkSpecificParameterExtraction_def tidy_def)
qed

lemma nil_call:
  assumes ev: "nil_below src (node_fuel (Some n)) ev" and n: "quiet src n"
    and ty: "nodeType n \<in> {''call_expression'', ''new_expression''}"
  shows "tidy src (\<lambda>_. True) (evaluateCallTaint ev upd n) nil_result"
proof (rule tidyI)
  fix w assume w: "clean src w"
  let ?c = "ChildByFieldName n ''function''" and ?a = "ChildByFieldName n ''arguments''"
  have src: "source w = src" using w by (simp add: clean_def)
  have q: "Option.bind (flattenPropertyAccess src ?c) CheckIfFunctionSource = None"
    using quiet_node [OF n] ty by (auto simp: node_quiet_def)
  obtain w1 where u: "evaluateCallUnknown ev upd n ?c ?a w = Inr (None, w1)" "clean src w1" "grown w w1"
    using nilD [OF nil_unknown_call [OF ev n] w] by blast
  show "\<exists>x w'. evaluateCallTaint ev upd n w = Inr (x, w') \<and> clean src w' \<and> grown w w' \<and> x = None"
  proof (cases "flattenPropertyAccess src ?c")
    case None
    then show ?thesis using u src by (simp add: evaluateCallTaint_def Let_def bindW_def)
  next
    case (Some p)
    then obtain c where c: "?c = Some c" by (cases ?c) (simp_all add: flattenPropertyAccess_def)
    obtain w2 where x: "checkSpecificParameterExtraction ev n c p ?a w = Inr (None, w2)" "clean src w2" "grown w w2"
      using nilD [OF nil_extraction [OF ev n c] w] by blast
    obtain w3 where "evaluateCallUnknown ev upd n ?c ?a w2 = Inr (None, w3)" "clean src w3" "grown w2 w3"
      using nilD [OF nil_unknown_call [OF ev n] x(2)] by blast
    then show ?thesis
      using Some c x q src grown_trans [OF x(3)] by (auto simp: evaluateCallTaint_def Let_def bindW_def)
  qed
qed

lemma nil_evaluate: "quiet_opt src n \<Longrightarrow> tidy src P (evaluateTaint n) nil_result"
proof -
  have "nil_below src k evaluateTaint" for k
  proof (induction k)
    case 0
    then show ?case by (simp add: nil_below_def)
  next
    case (Suc k)
    show ?case
      unfolding nil_below_def
    proof (intro allI impI, elim conjE)
      fix m assume k: "node_fuel m < Suc k" and m: "quiet_opt src m"
      show "tidy src (\<lambda>_. True) (evaluateTaint m) nil_result"
      proof (cases m)
        case None
        then show ?thesis by (auto simp: tidy_def)
      next
        case (Some n)
        then have n: "quiet src n" using m by simp
        have ev: "nil_below src (node_fuel (Some n)) evaluateTaint"
          using Suc k Some unfolding nil_below_def by (meson less_le_trans less_Suc_eq_le)
        note e = nil_belowD [OF ev]
        have "tidy src (\<lambda>_. True) (foldW (template_part evaluateTaint) (children n) None) nil_result"
        proof (rule nil_foldW)
          fix c assume c: "c \<in> set (children n)"
          have "tidy src (\<lambda>_. True) (bindW (evaluateTaint (template_expr c)) (accumulate None)) nil_result"
            using c quiet_template [OF quiet_child [OF n c]]
            by (intro tidy_nil_bind [where k = "accumulate None"] e tidy_accumulate) simp_all
          then show "tidy src (\<lambda>_. True) (template_part evaluateTaint c None) nil_result"
            by (auto simp: template_part_def tidy_def)
        qed
        moreover have "tidy src (\<lambda>_. True)
            (bindW (evaluateTaint (ChildByFieldName n ''left'')) (\<lambda>leftTaint.
             bindW (evaluateTaint (ChildByFieldName n ''right'')) (\<lambda>rightTaint.
             case leftTaint of
               Some l \<Rightarrow> bindW (mergeW l rightTaint) (\<lambda>t. returnW (Some t))
             | None \<Rightarrow> returnW rightTaint))) nil_result"
          by (rule tidy_nil_bind [OF e], simp, simp add: quiet_field n,
              rule tidy_nil_bind [OF e], simp, simp add: quiet_field n, auto simp: tidy_def)
        moreover have "tidy src (\<lambda>_. True) (evaluateTaint (field_or_second ''expression'' 2 n)) nil_result"
          by (rule e) (simp_all add: quiet_second n)
        moreover have "tidy src (\<lambda>_. True) (bindW (contentW n) (\<lambda>ref. getsW (\<lambda>w. symbolTaint w ref))) nil_result"
          by (auto simp: tidy_def bindW_def contentW_def clean_def)
        moreover have "tidy src (\<lambda>_. True) (returnW None) nil_result" by (rule tidy_return) simp
        moreover note nil_property_access [OF ev n] nil_call [OF ev n, of updateTaintTarget] nil_object_literal [OF ev n]
        ultimately show ?thesis
          unfolding Some evaluateTaint_eq [of "Some n"] evaluateTaint_body_def Let_def option.case
          by (cases "nodeType n = ''binary_expression''"; cases "nodeType n = ''template_string''") simp_all
      qed
    qed
  qed
  then have "nil_below src (Suc (node_fuel n)) evaluateTaint" .
  then show "quiet_opt src n \<Longrightarrow> tidy src P (evaluateTaint n) nil_result"
    by (rule nil_belowD) simp
qed

section \<open>Updates and visits\<close>

definition calm :: "string \<Rightarrow> ast_walker \<Rightarrow> ast_walker \<Rightarrow> bool" where
  "calm src w w' \<longleftrightarrow> (clean src w \<longrightarrow> clean src w' \<and> grown w w')"

lemma calm_preorder: "reflp (calm src)" "transp (calm src)"
  using grown_trans by (auto simp: calm_def intro!: reflpI transpI)

lemma parts_clean:
  assumes "clean src w" and "clean_val st w"
  shows "approximate_part n st w = Inr (None, w)" and "st = Some (ObjectRef a) \<Longrightarrow> propertyW a p w = Inr (None, w)"
proof -
  show "approximate_part n st w = Inr (None, w)"
    using assms by (simp add: approximate_part_def bindW_def tainted_clean)
  assume "st = Some (ObjectRef a)"
  then have a: "a < length (taintHeap w)" using assms by (simp add: clean_val_def)
  show "propertyW a p w = Inr (None, w)"
    using clean_heap_nth [OF assms(1) a] a
    by (simp add: propertyW_def bindW_def heapW_def GetPropertyTaint_def heap_get_def NewObjectTaint_def)
qed

lemma forW_calm:
  assumes "clean src w" and "clean_val st w"
    and "\<And>x w1. x \<in> set xs \<Longrightarrow> clean src w1 \<Longrightarrow> clean_val st w1 \<Longrightarrow>
           \<exists>w2. f x w1 = Inr ((), w2) \<and> clean src w2 \<and> grown w1 w2"
  shows "\<exists>w'. forW f xs w = Inr ((), w') \<and> clean src w' \<and> grown w w'"
proof -
  have "\<exists>w'. forW f xs w = Inr ((), w') \<and> calm src w w'"
  proof (rule forW_total [OF calm_preorder])
    fix x w1 assume "x \<in> set xs" and "calm src w w1"
    then show "\<exists>w2. f x w1 = Inr ((), w2) \<and> calm src w1 w2"
      using assms clean_val_grown by (fastforce simp: calm_def)
  qed
  then show ?thesis using assms(1) by (auto simp: calm_def)
qed

lemma destruct_clean:
  "clean src w \<Longrightarrow> clean_val st w \<Longrightarrow> node_fuel n \<le> k \<Longrightarrow>
     \<exists>w'. destructF k n st w = Inr ((), w') \<and> clean src w' \<and> grown w w'"
proof (induction k arbitrary: n st w)
  case 0
  then show ?case by (simp add: node_fuel_def)
next
  case (Suc k)
  show ?case
  proof (cases n)
    case None
    then show ?thesis using Suc.prems by (simp add: handleDestructuring_body_def)
  next
    case (Some p)
    have ih: "\<exists>w'. destructF k m st' w1 = Inr ((), w') \<and> clean src w' \<and> grown w1 w'"
      if "node_fuel m < node_fuel (Some p)" "clean src w1" "clean_val st' w1" for m w1 st'
      using Suc.IH [OF that(2,3)] Suc.prems(3) Some that(1) by simp
    have "\<exists>w'. handleArrayDestructuring (destructF k) p st w = Inr ((), w') \<and> clean src w' \<and> grown w w'"
    proof -
      have "\<exists>w'. forW (\<lambda>child. if nodeType child \<noteq> ''['' \<and> nodeType child \<noteq> '']'' \<and> nodeType child \<noteq> '',''
          then destructF k (Some child) None else returnW ()) (children p) w = Inr ((), w') \<and> clean src w' \<and> grown w w'"
        by (rule forW_calm [OF Suc.prems(1,2)]) (use ih in auto)
      then show ?thesis
        using parts_clean(1) [OF Suc.prems(1,2)] by (simp add: handleArrayDestructuring_def bindW_def)
    qed
    moreover have "\<exists>w'. handleObjectDestructuring (destructF k) p st w = Inr ((), w') \<and> clean src w' \<and> grown w w'"
      unfolding handleObjectDestructuring_def
    proof (rule forW_calm [OF Suc.prems(1,2)], goal_cases)
      case (1 c w1)
      note parts = parts_clean [OF 1(2,3)]
      have "\<exists>w'. destructF k (ChildByFieldName c ''value'') None w1 = Inr ((), w') \<and> clean src w' \<and> grown w1 w'"
          "\<exists>w'. destructF k (Some c) None w1 = Inr ((), w') \<and> clean src w' \<and> grown w1 w'"
        using ih 1 by simp_all
      then show ?case
        using parts 1(2) by (cases st) (auto simp: bindW_def contentW_def split: prod.splits taint.splits)
    qed
    moreover have "\<exists>w'. bindW (contentW p) (\<lambda>ref. taintBinding ref st) w = Inr ((), w') \<and> clean src w' \<and> grown w w'"
      using tidy_binding [of src st] Suc.prems by (auto simp: tidy_def bindW_def contentW_def)
    ultimately show ?thesis
      using Suc.prems Some by (simp add: handleDestructuring_body_def)
  qed
qed

lemma update_clean:
  "clean src w \<Longrightarrow> clean_val st w \<Longrightarrow> quiet_opt src n \<Longrightarrow>
     \<exists>w'. updateTaintTarget n st w = Inr ((), w') \<and> clean src w' \<and> grown w w'"
proof (induction "node_fuel n" arbitrary: n st w rule: less_induct)
  case less
  show ?case
  proof (cases n)
    case None
    then show ?thesis
      using less.prems by (simp add: updateTaintTarget_eq [of None] updateTaintTarget_body_def)
  next
    case (Some m)
    have binding: "\<exists>w'. bindW (contentW m) (\<lambda>ref. taintBinding ref st) w = Inr ((), w') \<and> clean src w' \<and> grown w w'"
      using tidy_binding [of src st] less.prems by (auto simp: tidy_def bindW_def contentW_def)
    have destr: "\<exists>w'. handleDestructuring n st w = Inr ((), w') \<and> clean src w' \<and> grown w w'"
      unfolding handleDestructuring_def using destruct_clean [OF less.prems(1,2)] by blast
    have property: "\<exists>w'. updatePropertyTaint evaluateTaint updateTaintTarget m st w = Inr ((), w') \<and> clean src w' \<and> grown w w'"
      if ty: "nodeType m \<in> {''member_expression'', ''subscript_expression''}"
    proof (cases "ChildByFieldName m ''object''")
      case None
      then show ?thesis using less.prems(1) by (simp add: updatePropertyTaint_def)
    next
      case (Some ob)
      have q: "quiet src m" "quiet src ob" using less.prems(3) \<open>n = Some m\<close> quiet_field [of src m "''object''"] Some by auto
      have src: "source w = src" using less.prems(1) by (simp add: clean_def)
      obtain p where p: "determinePropertyName src m = (p, True)"
        using quiet_node [OF q(1)] ty by (cases "determinePropertyName src m") (auto simp: node_quiet_def)
      obtain w1 where w1: "evaluateTaint (Some ob) w = Inr (None, w1)" "clean src w1" "grown w w1"
        using nilD [OF nil_evaluate less.prems(1), of "Some ob"] q(2) by auto
      obtain a w2 where w2: "allocW NewObjectTaint w1 = Inr (a, w2)" "clean src w2" "grown w1 w2" "clean_val (Some (ObjectRef a)) w2"
        using tidyD [OF tidy_alloc [of src "\<lambda>_. True"] w1(2)] by auto
      have st: "clean_val st w2" using clean_val_grown less.prems(2) w1(3) w2(3) by blast
      obtain w3 where w3: "setPropertyW a p st w2 = Inr ((), w3)" "clean src w3" "grown w2 w3" "clean_val (Some (ObjectRef a)) w3"
        using tidyD [OF tidy_set_property [of src st a p] w2(2)] st w2(4) by auto
      obtain w4 where w4: "updateTaintTarget (Some ob) (Some (ObjectRef a)) w3 = Inr ((), w4)" "clean src w4" "grown w3 w4"
        using less.hyps [OF _ w3(2,4), of "Some ob"] node_fuel_SomeD(1) [OF Some] q(2) \<open>n = Some m\<close> by auto
      have "grown w w4" using w1(3) w2(3) w3(3) w4(3) grown_trans by blast
      then show ?thesis
        using w1 w2 w3 w4 Some p src by (auto simp: updatePropertyTaint_def bindW_def)
    qed
    show ?thesis
      using less.prems(1) binding destr property Some
      by (simp add: updateTaintTarget_eq [of "Some m"] updateTaintTarget_body_def Let_def)
  qed
qed

lemma checkArgs_clean:
  assumes "clean src w" and "\<And>a. a \<in> set args \<Longrightarrow> quiet src a"
  shows "\<exists>w'. checkArgs_loop is d args n w = Inr ((), w') \<and> clean src w' \<and> grown w w'"
  using assms(1)
proof (induction "is" arbitrary: w)
  case (Cons i "is")
  show ?case
  proof (cases "0 \<le> i \<and> i < int (length args)")
    case True
    then have "args ! nat i \<in> set args" by (intro nth_mem) linarith
    then have "quiet src (args ! nat i)" by (rule assms(2))
    then have "\<exists>w'. eval_argument evaluateTaint (args ! nat i) w = Inr (None, w') \<and> clean src w' \<and> grown w w'"
      using nilD [OF nil_evaluate Cons.prems] quiet_second by (auto simp: eval_argument_def)
    then obtain w1 where "eval_argument evaluateTaint (args ! nat i) w = Inr (None, w1)" "clean src w1" "grown w w1" by blast
    then show ?thesis using True Cons.IH [of w1] grown_trans by (auto simp: bindW_def)
  qed (use Cons in auto)
qed simp

lemma checkSummary_clean:
  assumes "clean src w" and "\<And>i a. (i, a) \<in> set args \<Longrightarrow> quiet src a"
  shows "\<exists>w'. checkSummary_loop args n s w = Inr ((), w') \<and> clean src w' \<and> grown w w'"
  using assms
proof (induction args arbitrary: w)
  case (Cons x args)
  obtain i a where x: "x = (i, a)" by fastforce
  have "quiet src a" using Cons.prems(2) [of i a] x by simp
  then have "\<exists>w'. eval_argument evaluateTaint a w = Inr (None, w') \<and> clean src w' \<and> grown w w'"
    using nilD [OF nil_evaluate Cons.prems(1)] quiet_second by (auto simp: eval_argument_def)
  then obtain w1 where w1: "eval_argument evaluateTaint a w = Inr (None, w1)" "clean src w1" "grown w w1" by blast
  have rest: "\<exists>w'. checkSummary_loop args n s v = Inr ((), w') \<and> clean src w' \<and> grown v w'" if "clean src v" for v
    by (rule Cons.IH [OF that]) (use Cons.prems(2) in auto)
  show ?case
    using rest [OF Cons.prems(1)] rest [OF w1(2)] w1 grown_trans [OF w1(3)] x by (auto simp: bindW_def)
qed simp

lemma handleCall_clean:
  assumes w: "clean src w" and n: "quiet src n"
  shows "\<exists>w'. handleCall n w = Inr ((), w') \<and> clean src w' \<and> grown w w'"
proof -
  let ?args = "extractArguments (ChildByFieldName n ''arguments'')"
  have "\<And>a. a \<in> set ?args \<Longrightarrow> quiet src a" "\<And>i a. (i, a) \<in> set (enumerate 0 ?args) \<Longrightarrow> quiet src a"
    using quiet_argument [OF n, of _ "''arguments''"] by (auto simp: in_set_enumerate_eq)
  from checkArgs_clean [OF w this(1)] checkSummary_clean [OF w this(2)] show ?thesis
    using w by (auto simp: handleCall_def checkCallForSinks_def checkArgsAgainstSink_def checkCallWithSummary_def
        bindW_def split: option.splits)
qed

lemma handleVarDecl_clean:
  assumes w: "clean src w" and n: "quiet src n"
  shows "\<exists>w'. handleVarDecl n w = Inr ((), w') \<and> clean src w' \<and> grown w w'"
  unfolding handleVarDecl_def
proof (rule forW_calm [OF w clean_val_None], goal_cases)
  case (1 c w1)
  show ?case
  proof (cases "ChildByFieldName c ''value''")
    case None
    then show ?thesis using 1 by (auto split: option.splits)
  next
    case (Some v)
    have "quiet src v" using quiet_field [OF quiet_child [OF n 1(1)], of "''value''"] Some by simp
    then obtain w2 where w2: "evaluateTaint (Some v) w1 = Inr (None, w2)" "clean src w2" "grown w1 w2"
      using nilD [OF nil_evaluate 1(2), of "Some v"] by auto
    obtain w3 where "handleDestructuring (ChildByFieldName c ''name'') None w2 = Inr ((), w3)" "clean src w3" "grown w2 w3"
      unfolding handleDestructuring_def using destruct_clean [OF w2(2) clean_val_None] by blast
    then show ?thesis
      using 1 Some w2 grown_trans [OF w2(3)] by (auto simp: bindW_def split: option.splits)
  qed
qed

lemma handleAssignment_clean:
  assumes w: "clean src w" and n: "quiet src n" and ty: "nodeType n = ''assignment_expression''"
  shows "\<exists>w'. handleAssignment n w = Inr ((), w') \<and> clean src w' \<and> grown w w'"
proof (cases "ChildByFieldName n ''left''"; cases "ChildByFieldName n ''right''")
  fix l r assume lr: "ChildByFieldName n ''left'' = Some l" "ChildByFieldName n ''right'' = Some r"
  have q: "quiet src l" "quiet src r" using quiet_field [OF n] lr quiet_opt_simps(2) by metis+
  have sink: "Option.bind (flattenPropertyAccess src (Some l)) CheckIfSinkProperty = None"
    using quiet_node [OF n] ty lr by (auto simp: node_quiet_def)
  obtain w1 where w1: "evaluateTaint (Some r) w = Inr (None, w1)" "clean src w1" "grown w w1"
    using nilD [OF nil_evaluate w, of "Some r"] q by auto
  obtain w2 where w2: "updateTaintTarget (Some l) None w1 = Inr ((), w2)" "clean src w2" "grown w1 w2"
    using update_clean [OF w1(2) clean_val_None, of "Some l"] q by auto
  have "checkAssignmentSink (Some l) None n w2 = Inr ((), w2)"
    using sink w2(2) by (simp add: checkAssignmentSink_def bindW_def clean_def)
  then show ?thesis
    using w1 w2 lr grown_trans [OF w1(3) w2(3)] by (simp add: handleAssignment_def bindW_def)
qed (use w in \<open>auto simp: handleAssignment_def\<close>)

lemma visit_clean:
  assumes w: "clean src w" and n: "quiet src n" and m: "mode w = ModeAnalyze"
  shows "\<exists>b w'. visit n w = Inr (b, w') \<and> clean src w' \<and> grown w w'"
proof -
  have "handleReturn n w = Inr ((), w)" using m by (simp add: handleReturn_def bindW_def)
  then show ?thesis
    using handleCall_clean [OF w n] handleVarDecl_clean [OF w n] handleAssignment_clean [OF w n] w
    by (auto simp: visit_def Let_def bindW_def)
qed

lemma quiet_visited: "visited root m \<Longrightarrow> quiet src root \<Longrightarrow> quiet src m"
  by (induction rule: visited.induct) (auto intro: quiet_child)

section \<open>No report without a source\<close>

text \<open>
  C2. No false alarm out of nothing: on a program with no source, no computed property access and no
  assignment to a sink property, the analysis walk returns and reports nothing, provided no
  summary claims a tainted result; the shared context stays as it was.
\<close>

theorem quiet_program_no_findings:
  assumes "quiet src root" and "\<forall>f s. Summaries ctx f = Some s \<longrightarrow> \<not> TaintsReturn s"
  shows "\<exists>w'. Walk root (newASTWalker file src ModeAnalyze ctx) = Inr ((), w') \<and>
           analyzeFindings w' = [] \<and> context_of w' = ctx \<and> symbolTaint w' = Map.empty"
proof -
  let ?w = "newASTWalker file src ModeAnalyze ctx"
  have w: "clean src ?w" "mode ?w = ModeAnalyze" using assms(2) by (auto simp: newASTWalker_def clean_def)
  have inv: "clean src w1 \<and> mode w1 = ModeAnalyze" if "calm src ?w w1" for w1
    using that w eval_frameD(4) by (auto simp: calm_def grown_def)
  obtain w' where "Walk root ?w = Inr ((), w')" "calm src ?w w'"
  proof -
    have "\<exists>w'. Walk root ?w = Inr ((), w') \<and> calm src ?w w'"
    proof (rule walk_total [OF calm_preorder])
      fix m w1 assume "visited root m" and "calm src ?w w1"
      then have "\<exists>b w2. visit m w1 = Inr (b, w2) \<and> clean src w2 \<and> grown w1 w2"
        using visit_clean inv quiet_visited [OF _ assms(1)] by blast
      then show "\<exists>b w2. visit m w1 = Inr (b, w2) \<and> calm src w1 w2"
        unfolding calm_def by blast
    next
      fix w1 assume "calm src ?w w1"
      then show "\<not> handleFunctionBoundary w1" using inv by (simp add: handleFunctionBoundary_def)
    qed
    then show ?thesis using that by blast
  qed
  moreover from this have "grown ?w w'" "clean src w'" using w by (auto simp: calm_def)
  ultimately show ?thesis
    using eval_frameD [of ?w w'] by (simp add: grown_def clean_def newASTWalker_def)
qed

text \<open>\<^verbatim>\<open>let x=1;eval(x)\<close>\<close>

theorem quiet_program_no_findings_witness:
  "\<exists>w'. Walk (program 15 [let_decl 0 (leaf (Some ''value'') ''number'' 6 7) 7, eval_call 8 (leaf None ''identifier'' 13 14) 14])
          (newASTWalker ''app.js'' ''let x=1;eval(x)'' ModeAnalyze NewAnalyzerContext) = Inr ((), w') \<and>
        analyzeFindings w' = []"
proof -
  have "quiet ''let x=1;eval(x)''
      (program 15 [let_decl 0 (leaf (Some ''value'') ''number'' 6 7) 7, eval_call 8 (leaf None ''identifier'' 13 14) 14])"
    by code_simp
  from quiet_program_no_findings [OF this, of NewAnalyzerContext "''app.js''"]
  show ?thesis by (auto simp: NewAnalyzerContext_def)
qed

end
