(* ===== verification/JsDefects.thy ===== *)
theory JsDefects
  imports JsQuiet
begin

text \<open>
  Inputs on which the static analyser does not do what it means to do, each as a theorem: a value
  without taint that becomes tainted, a taint object that contains itself, and findings that are
  dropped between the two passes. (The nil dereference on a literal assigned to a sink property is
  stated with the flows.)
\<close>

section \<open>Computed targets\<close>

text \<open>\<^verbatim>\<open>x[i].p=1;eval(x)\<close>\<close>

definition computed_program :: node where
  "computed_program = program 16
     [Node None ''assignment_expression'' 0 8 0 0
        [Node (Some ''left'') ''member_expression'' 0 6 0 0
           [Node (Some ''object'') ''subscript_expression'' 0 4 0 0
              [leaf (Some ''object'') ''identifier'' 0 1, leaf None ''['' 1 2,
               leaf (Some ''index'') ''identifier'' 2 3, leaf None '']'' 3 4],
            leaf None ''.'' 4 5, leaf (Some ''property'') ''property_identifier'' 5 6],
         leaf None ''='' 6 7, leaf (Some ''right'') ''number'' 7 8],
      eval_call 9 (leaf None ''identifier'' 14 15) 15]"

definition found_sources :: "(walker_error, unit \<times> ast_walker) result \<Rightarrow> string list option" where
  "found_sources r = (case r of Inl _ \<Rightarrow> None | Inr (_, w) \<Rightarrow> Some (map fSource (analyzeFindings w)))"

text \<open>
  The condition on computed accesses is needed: assigning the number 1 to \<open>x[i].p\<close> taints \<open>x\<close>
  although no source occurs, and the next call of a sink on \<open>x\<close> is reported with an unknown source.
\<close>

theorem computed_target_false_positive:
  "found_sources (Walk computed_program (fresh_walker ''x[i].p=1;eval(x)'')) = Some [''unknown_source'']"
  by code_simp

section \<open>Cyclic taint objects\<close>

lemma union_sources_stuck:
  assumes "t \<in> set ts" and "tnt t = Some True" and "src t = None"
  shows "union_sources tnt src ts acc = None"
  using assms by (induction ts arbitrary: acc) (auto split: option.splits)

text \<open>
  C38. Collecting the sources of a tainted object that is one of its own properties has no end: no
  depth of recursion is enough.
\<close>

theorem self_reference_never_returns:
  assumes "a < length h" and "(p, ObjectRef a) \<in> set (Properties (h ! a))"
    and "IsTainted h (ObjectRef a) = Some True"
  shows "getSourcesF k h (ObjectRef a) = None"
proof (induction k)
  case (Suc k)
  have "ObjectRef a \<in> set (map snd (Properties (h ! a)))" using assms(2) by force
  then show ?case
    using assms(1,3) Suc by (simp add: heap_get_def union_sources_stuck [of "ObjectRef a"])
qed simp

text \<open>\<^verbatim>\<open>o.x=location.hash;o.s=o;eval(location.hash+o)\<close>\<close>

definition member_target :: "nat \<Rightarrow> node" where
  "member_target a = Node (Some ''left'') ''member_expression'' a (a + 3) 0 a
     [leaf (Some ''object'') ''identifier'' a (a + 1), leaf None ''.'' (a + 1) (a + 2),
      leaf (Some ''property'') ''property_identifier'' (a + 2) (a + 3)]"

definition assign_member :: "nat \<Rightarrow> node \<Rightarrow> nat \<Rightarrow> node" where
  "assign_member a e b = Node None ''assignment_expression'' a b 0 a [member_target a, leaf None ''='' (a + 3) (a + 4), e]"

definition cyclic_text :: string where
  "cyclic_text = ''o.x=location.hash;o.s=o;eval(location.hash+o)''"

definition cyclic_program :: node where
  "cyclic_program = program 45
     [assign_member 0 (hash_access (Some ''right'') 4) 17,
      assign_member 18 (leaf (Some ''right'') ''identifier'' 22 23) 23,
      eval_call 24 (Node None ''binary_expression'' 29 44 0 29
        [hash_access (Some ''left'') 29, leaf None ''+'' 42 43, leaf (Some ''right'') ''identifier'' 43 44]) 44]"

definition overflows :: "(walker_error, 'a) result \<Rightarrow> bool" where
  "overflows r = (case r of Inl StackOverflow \<Rightarrow> True | _ \<Rightarrow> False)"

definition cyclic_heap :: taint_heap where
  "cyclic_heap = [\<lparr>Properties = [(''x'', SimpleTaint {''location.hash''} 0), (''s'', ObjectRef 0)], StructureTainted = False\<rparr>]"

theorem self_reference_never_returns_witness:
  "getSourcesF 1000 cyclic_heap (ObjectRef 0) = None \<and> overflows (Walk cyclic_program (fresh_walker cyclic_text))"
proof
  show "getSourcesF 1000 cyclic_heap (ObjectRef 0) = None"
    by (rule self_reference_never_returns [of _ _ "''s''"]) (simp_all add: cyclic_heap_def IsTainted_def heap_get_def)
  show "overflows (Walk cyclic_program (fresh_walker cyclic_text))" by code_simp
qed

section \<open>Findings lost between the passes\<close>

definition refined_prefixes :: "string set" where
  "refined_prefixes = {''param:query:'', ''param:hash:'', ''param:storage:''}"

text \<open>
  A finding inside a function whose source has been refined to a query, hash or storage parameter
  is lost: its source looks like a function parameter, so summarisation keeps it away from the
  reported findings, and reading the parameter index fails, so it does not reach the summary either.
\<close>

theorem refined_source_lost:
  assumes "mode w = ModeSummarize" and "pre \<in> refined_prefixes" and "fSource f = pre @ name" and "CHR ''|'' \<notin> set name"
  shows "context_of (record_finding f w) = context_of w \<and> analyzeFindings (record_finding f w) = analyzeFindings w \<and>
         finding_params [f] = {}"
proof -
  have split: "Split (fSource f) (CHR ''|'') = [pre @ name]"
    unfolding assms(3) by (rule Split_no_sep) (use assms(2,4) in \<open>auto simp: refined_prefixes_def\<close>)
  have par: "is_param (pre @ name)" using assms(2) by (auto simp: refined_prefixes_def is_param_def)
  have "extractParamIndex (pre @ name) = None"
    using assms(2) by (auto simp: refined_prefixes_def extractParamIndex_def TrimPrefix_def Atoi_def digit_val_def)
  then have "finding_params [f] = {}"
    using split par by (simp add: finding_params_def param_indices_def)
  then show ?thesis
    using assms(1) split par by (simp add: record_finding_def Let_def)
qed

theorem refined_source_lost_witness:
  "context_of (record_finding (make_finding (fresh_walker []) ''param:query:q'' (call_sink ''f'' 0) hash_program)
      (newASTWalker ''app.js'' [] ModeSummarize NewAnalyzerContext)) = NewAnalyzerContext"
proof -
  let ?w = "newASTWalker ''app.js'' [] ModeSummarize NewAnalyzerContext"
  have "mode ?w = ModeSummarize" "context_of ?w = NewAnalyzerContext" by (simp_all add: newASTWalker_def)
  moreover have "''param:query:'' \<in> refined_prefixes" by (simp add: refined_prefixes_def)
  ultimately show ?thesis
    using refined_source_lost [of ?w "''param:query:''" "make_finding (fresh_walker []) ''param:query:q'' (call_sink ''f'' 0) hash_program" "''q''"]
    by simp
qed

end
