(* ===== verification/JsFingerprinter.thy ===== *)
theory JsFingerprinter
  imports JsDefects
begin

text \<open>
  The two passes over a file (\<^verbatim>\<open>internal/analysis/static/javascript/fingerprinter.go\<close>): the function
  finder walks the whole tree and summarises every named function it meets, then the main walker
  analyses the top level with these summaries. The parser is a parameter of \<open>Analyze\<close>: it maps the
  text to a tree or fails. The walkers share the analyser context, which is threaded through.
\<close>

section \<open>The finder\<close>

type_synonym finder = "analyzer_context \<Rightarrow> (walker_error, analyzer_context) result"

fun foldR :: "('a \<Rightarrow> 'b \<Rightarrow> ('e, 'b) result) \<Rightarrow> 'a list \<Rightarrow> 'b \<Rightarrow> ('e, 'b) result" where
  "foldR f [] s = Inr s"
| "foldR f (x # xs) s = bindR (f x s) (foldR f xs)"

lemma foldR_cong [fundef_cong]:
  assumes "xs = ys" and "s = t" and "\<And>x s. x \<in> set ys \<Longrightarrow> f x s = g x s"
  shows "foldR f xs s = foldR g ys t"
  unfolding assms(1,2) using assms(3) by (induction ys arbitrary: t) (auto intro: bindR_cong)

lemma foldR_induct:
  assumes run: "foldR f xs s = Inr s'" and refl: "P s s"
    and step: "\<And>x s1 s2. x \<in> set xs \<Longrightarrow> P s s1 \<Longrightarrow> f x s1 = Inr s2 \<Longrightarrow> P s s2"
  shows "P s s'"
proof -
  have "P s s'" if "foldR f ys s1 = Inr s'" and "P s s1" and "set ys \<subseteq> set xs" for ys s1
    using that step by (induction ys arbitrary: s1) auto
  then show ?thesis using run refl by blast
qed

definition isFunctionNode :: "node option \<Rightarrow> bool" where
  "isFunctionNode n =
     (case n of
        None \<Rightarrow> False
      | Some m \<Rightarrow> nodeType m = ''function'' \<or> nodeType m = ''arrow_function'' \<or> nodeType m = ''function_declaration'')"

definition summarize :: "string \<Rightarrow> string \<Rightarrow> string \<Rightarrow> node \<Rightarrow> finder" where
  "summarize file src ref funcNode ctx =
     (if Summaries ctx ref \<noteq> None then Inr ctx
      else bindR (StartSummarizationWalk ref funcNode (newASTWalker file src ModeSummarize ctx))
             (\<lambda>(_, w). Inr (context_of w)))"

definition findFunctionsInVarDecl :: "string \<Rightarrow> string \<Rightarrow> node \<Rightarrow> finder" where
  "findFunctionsInVarDecl file src n =
     foldR (\<lambda>child ctx.
       if nodeType child = ''variable_declarator'' then
         (case (ChildByFieldName child ''name'', ChildByFieldName child ''value'') of
            (Some nameNode, Some valueNode) \<Rightarrow>
              if nodeType nameNode = ''identifier'' \<and> isFunctionNode (Some valueNode)
              then summarize file src (Content src nameNode) valueNode ctx
              else Inr ctx
          | _ \<Rightarrow> Inr ctx)
       else Inr ctx) (children n)"

definition findFunctionInAssignment :: "string \<Rightarrow> string \<Rightarrow> node \<Rightarrow> finder" where
  "findFunctionInAssignment file src n ctx =
     (case (ChildByFieldName n ''left'', ChildByFieldName n ''right'') of
        (Some left, Some right) \<Rightarrow>
          if nodeType left = ''identifier'' \<and> isFunctionNode (Some right)
          then summarize file src (Content src left) right ctx
          else Inr ctx
      | _ \<Rightarrow> Inr ctx)"

definition finder_visit :: "string \<Rightarrow> string \<Rightarrow> node \<Rightarrow> finder" where
  "finder_visit file src n ctx =
     (if nodeType n = ''function_declaration'' \<or> nodeType n = ''generator_function_declaration''
      then (case ChildByFieldName n ''name'' of
              Some nameNode \<Rightarrow> summarize file src (Content src nameNode) n ctx
            | None \<Rightarrow> Inr ctx)
      else if nodeType n = ''lexical_declaration'' \<or> nodeType n = ''variable_declaration''
      then findFunctionsInVarDecl file src n ctx
      else if nodeType n = ''assignment_expression'' then findFunctionInAssignment file src n ctx
      else Inr ctx)"

function finder_Walk :: "string \<Rightarrow> string \<Rightarrow> node \<Rightarrow> finder" where
  "finder_Walk file src n ctx =
     bindR (finder_visit file src n ctx) (foldR (\<lambda>c. finder_Walk file src c) (children n))"
  by pat_completeness auto
termination
  by (relation "measure (\<lambda>(_, _, n, _). size n)") simp_all

declare finder_Walk.simps [simp del]

definition summarizeFunctions :: "string \<Rightarrow> node \<Rightarrow> string \<Rightarrow> finder" where
  "summarizeFunctions file root src ctx = finder_Walk file src root ctx"

section \<open>The analysis of a file\<close>

datatype analyze_error = ParseFailed | Crashed walker_error

definition lift_crash :: "(walker_error, 'a) result \<Rightarrow> (analyze_error, 'a) result" where
  "lift_crash r = (case r of Inl e \<Rightarrow> Inl (Crashed e) | Inr x \<Rightarrow> Inr x)"

text \<open>
  A parse error is returned to the caller; a crash of a walker (nil dereference or stack overflow)
  is not, it ends the program. The model keeps the two apart.
\<close>

definition Analyze :: "(string \<Rightarrow> node option) \<Rightarrow> string \<Rightarrow> string \<Rightarrow> (analyze_error, static_finding list) result" where
  "Analyze parse file content =
     (if content = [] then Inr []
      else (case parse content of
              None \<Rightarrow> Inl ParseFailed
            | Some rootNode \<Rightarrow>
                bindR (lift_crash (summarizeFunctions file rootNode content NewAnalyzerContext)) (\<lambda>ctx.
                bindR (lift_crash (Walk rootNode (newASTWalker file content ModeAnalyze ctx))) (\<lambda>(_, w).
                Inr (intraProceduralFindings (context_of w) @ analyzeFindings w)))))"

section \<open>What summarisation does to the context\<close>

lemma start_summarization:
  assumes "StartSummarizationWalk ref fn (newASTWalker file src ModeSummarize ctx) = Inr (u, w')"
  shows "\<exists>s gs. fsRefID s = ref \<and> Summaries (context_of w') = (Summaries ctx)(ref \<mapsto> s) \<and>
           intraProceduralFindings (context_of w') = intraProceduralFindings ctx @ gs"
proof -
  let ?w0 = "newASTWalker file src ModeSummarize ctx"
  let ?w1 = "?w0\<lparr>currentSummary := Some ref,
      context_of := ctx\<lparr>Summaries := (Summaries ctx)(ref \<mapsto> NewFunctionSummary ref)\<rparr>\<rparr>"
  obtain w2 w3 where 2: "initializeParameters fn ?w1 = Inr ((), w2)"
      and 3: "(case ChildByFieldName fn ''body'' of None \<Rightarrow> returnW () | Some b \<Rightarrow> Walk b) w2 = Inr ((), w3)"
      and 4: "finalizeSummary w3 = Inr ((), w')"
    using assms by (auto simp: StartSummarizationWalk_def bindW_Inr newASTWalker_def)
  have "walk_frame ?w1 w2" by (rule runsD(2) [OF walks.runs_initializeParameters 2])
  moreover have "walk_frame w2 w3"
    using 3 runsD(2) [OF walks.runs_Walk] by (cases "ChildByFieldName fn ''body''") (auto simp: walks.R_refl)
  ultimately have "walk_frame ?w1 w3" by (rule walks.R_trans)
  then have c: "currentSummary w3 = Some ref" "Summaries (context_of w3) = (Summaries ctx)(ref \<mapsto> NewFunctionSummary ref)"
      "\<exists>gs. intraProceduralFindings (context_of w3) = intraProceduralFindings ctx @ gs"
    by (auto simp: walk_frame_def newASTWalker_def)
  obtain b S w4 w5 where w5: "taintedW (returnTaint w3) w3 = Inr (b, w4)"
      "(case returnTaint w3 of Some t \<Rightarrow> if b then sourcesW t else returnW {} | None \<Rightarrow> returnW {}) w4 = Inr (S, w5)"
      "w' = w5\<lparr>context_of := (context_of w5)\<lparr>Summaries := (Summaries (context_of w5))(ref \<mapsto>
          (NewFunctionSummary ref)\<lparr>
            TaintedParams := TaintedParams (NewFunctionSummary ref) \<union> finding_params (summaryParamFindings w3),
            ParamToReturn := ParamToReturn (NewFunctionSummary ref) \<union> param_indices S,
            TaintsReturn := TaintsReturn (NewFunctionSummary ref) \<or> (\<exists>s\<in>S. \<not> is_param s)\<rparr>)\<rparr>,
          currentSummary := None, returnTaint := None, summaryParamFindings := []\<rparr>"
    using 4 c(1,2) by (auto simp: finalizeSummary_def bindW_Inr Let_def)
  have "eval_frame w3 w4" using runsD(2) [OF frame.runs_taint_ops(1) w5(1)] .
  moreover have "eval_frame w4 w5"
  proof -
    have "runs (\<lambda>e. e = StackOverflow) eval_frame
        (case returnTaint w3 of Some t \<Rightarrow> if b then sourcesW t else returnW {} | None \<Rightarrow> returnW {})"
      by (auto split: option.splits)
    from runsD(2) [OF this w5(2)] show ?thesis .
  qed
  ultimately have "context_of w5 = context_of w3" using eval_frameD(5) eval_frame_trans by blast
  then have "Summaries (context_of w') = (Summaries ctx)(ref \<mapsto> the (Summaries (context_of w') ref))"
      "fsRefID (the (Summaries (context_of w') ref)) = ref"
      "intraProceduralFindings (context_of w') = intraProceduralFindings (context_of w3)"
    using w5(3) c(2) by (simp_all add: NewFunctionSummary_def)
  then show ?thesis using c(3) by metis
qed

definition summaries_grow :: "analyzer_context \<Rightarrow> analyzer_context \<Rightarrow> bool" where
  "summaries_grow ctx ctx' \<longleftrightarrow>
     Summaries ctx \<subseteq>\<^sub>m Summaries ctx' \<and>
     (\<forall>ref s. Summaries ctx' ref = Some s \<longrightarrow> Summaries ctx ref = Some s \<or> fsRefID s = ref) \<and>
     (\<exists>gs. intraProceduralFindings ctx' = intraProceduralFindings ctx @ gs)"

lemma summaries_grow_refl [simp]: "summaries_grow ctx ctx"
  by (simp add: summaries_grow_def)

lemma summaries_grow_trans: "summaries_grow a b \<Longrightarrow> summaries_grow b c \<Longrightarrow> summaries_grow a c"
  unfolding summaries_grow_def by (auto intro: map_le_trans)

lemma summarize_grows:
  assumes "summarize file src ref fn ctx = Inr ctx'"
  shows "summaries_grow ctx ctx' \<and> Summaries ctx' ref \<noteq> None"
proof (cases "Summaries ctx ref")
  case None
  then obtain u w where "StartSummarizationWalk ref fn (newASTWalker file src ModeSummarize ctx) = Inr (u, w)" "ctx' = context_of w"
    using assms by (auto simp: summarize_def)
  from start_summarization [OF this(1)] this(2) None show ?thesis
    by (auto simp: summaries_grow_def map_le_def dom_def split: if_splits)
next
  case (Some s)
  then show ?thesis using assms by (auto simp: summarize_def)
qed

lemma finder_visit_grows:
  assumes "finder_visit file src n ctx = Inr ctx'"
  shows "summaries_grow ctx ctx'"
proof -
  have "summaries_grow ctx ctx'" if "findFunctionsInVarDecl file src n ctx = Inr ctx'"
    using that unfolding findFunctionsInVarDecl_def
  proof (rule foldR_induct [where P = summaries_grow])
    fix x s1 s2 assume "summaries_grow ctx s1"
      and "(if nodeType x = ''variable_declarator'' then
         (case (ChildByFieldName x ''name'', ChildByFieldName x ''value'') of
            (Some nameNode, Some valueNode) \<Rightarrow>
              if nodeType nameNode = ''identifier'' \<and> isFunctionNode (Some valueNode)
              then summarize file src (Content src nameNode) valueNode s1
              else Inr s1
          | _ \<Rightarrow> Inr s1)
       else Inr s1) = Inr s2"
    then show "summaries_grow ctx s2"
      using summarize_grows summaries_grow_trans by (auto split: if_splits option.splits)
  qed simp
  then show ?thesis
    using assms summarize_grows
    by (auto simp: finder_visit_def findFunctionInAssignment_def split: if_splits option.splits)
qed

lemma finder_Walk_grows: "finder_Walk file src n ctx = Inr ctx' \<Longrightarrow> summaries_grow ctx ctx'"
proof (induction "size n" arbitrary: n ctx ctx' rule: less_induct)
  case less
  obtain c1 where c1: "finder_visit file src n ctx = Inr c1"
      and rest: "foldR (\<lambda>c. finder_Walk file src c) (children n) c1 = Inr ctx'"
    using less.prems by (auto simp: finder_Walk.simps [of "file" src n ctx])
  have "summaries_grow c1 ctx'"
    using rest
  proof (rule foldR_induct [where P = summaries_grow])
    fix x s1 s2 assume "x \<in> set (children n)" "summaries_grow c1 s1" "finder_Walk file src x s1 = Inr s2"
    then show "summaries_grow c1 s2" using less.hyps [OF size_child] summaries_grow_trans by blast
  qed simp
  then show ?case using finder_visit_grows [OF c1] summaries_grow_trans by blast
qed

section \<open>Properties\<close>

text \<open>The functions the finder looks for: the name and the node to summarise.\<close>

definition named_function :: "string \<Rightarrow> node \<Rightarrow> string \<Rightarrow> bool" where
  "named_function src n ref \<longleftrightarrow>
     nodeType n \<in> {''function_declaration'', ''generator_function_declaration''} \<and>
       (\<exists>nameNode. ChildByFieldName n ''name'' = Some nameNode \<and> Content src nameNode = ref) \<or>
     nodeType n = ''assignment_expression'' \<and>
       (\<exists>l r. ChildByFieldName n ''left'' = Some l \<and> ChildByFieldName n ''right'' = Some r \<and>
          nodeType l = ''identifier'' \<and> isFunctionNode (Some r) \<and> Content src l = ref) \<or>
     nodeType n \<in> {''lexical_declaration'', ''variable_declaration''} \<and>
       (\<exists>d\<in>set (children n). \<exists>x e. nodeType d = ''variable_declarator'' \<and> ChildByFieldName d ''name'' = Some x \<and>
          ChildByFieldName d ''value'' = Some e \<and> nodeType x = ''identifier'' \<and> isFunctionNode (Some e) \<and> Content src x = ref)"

inductive descendant :: "node \<Rightarrow> node \<Rightarrow> bool" for root where
  descendant_root: "descendant root root"
| descendant_child: "descendant root p \<Longrightarrow> c \<in> set (children p) \<Longrightarrow> descendant root c"

lemma descendant_step: "descendant c m \<Longrightarrow> c \<in> set (children n) \<Longrightarrow> descendant n m"
  by (induction rule: descendant.induct) (auto intro: descendant.intros)

lemma descendant_cases: "descendant n m \<Longrightarrow> m = n \<or> (\<exists>c\<in>set (children n). descendant c m)"
  by (induction rule: descendant.induct) (auto intro: descendant.intros)

lemma foldR_reaches:
  assumes run: "foldR f xs s = Inr s'" and x: "x \<in> set xs"
    and hit: "\<And>s1 s2. f x s1 = Inr s2 \<Longrightarrow> P s2"
    and keep: "\<And>y s1 s2. y \<in> set xs \<Longrightarrow> P s1 \<Longrightarrow> f y s1 = Inr s2 \<Longrightarrow> P s2"
  shows "P s'"
proof -
  have after: "P s'" if "foldR f ys s1 = Inr s'" and "P s1" and "set ys \<subseteq> set xs" for ys s1
    using that keep by (induction ys arbitrary: s1) auto
  have "P s'" if "foldR f ys s1 = Inr s'" and "x \<in> set ys" and "set ys \<subseteq> set xs" for ys s1
    using that
  proof (induction ys arbitrary: s1)
    case (Cons y ys)
    then show ?case using hit after by (cases "x = y") auto
  qed simp
  then show ?thesis using run x by blast
qed

lemma finder_visit_covers:
  assumes "finder_visit file src n ctx = Inr ctx'" and "named_function src n ref"
  shows "Summaries ctx' ref \<noteq> None"
proof -
  have "Summaries ctx' ref \<noteq> None"
    if run: "findFunctionsInVarDecl file src n ctx = Inr ctx'" and d: "d \<in> set (children n)" "nodeType d = ''variable_declarator''"
      "ChildByFieldName d ''name'' = Some x" "ChildByFieldName d ''value'' = Some e" "nodeType x = ''identifier''"
      "isFunctionNode (Some e)" "Content src x = ref" for d x e
    using run unfolding findFunctionsInVarDecl_def
  proof (rule foldR_reaches [OF _ d(1)])
    fix s1 s2
    assume "(if nodeType d = ''variable_declarator'' then
         (case (ChildByFieldName d ''name'', ChildByFieldName d ''value'') of
            (Some nameNode, Some valueNode) \<Rightarrow>
              if nodeType nameNode = ''identifier'' \<and> isFunctionNode (Some valueNode)
              then summarize file src (Content src nameNode) valueNode s1
              else Inr s1
          | _ \<Rightarrow> Inr s1)
       else Inr s1) = Inr s2"
    then show "Summaries s2 ref \<noteq> None" using d summarize_grows by auto
  next
    fix y s1 s2
    assume s1: "Summaries s1 ref \<noteq> None" and run: "(if nodeType y = ''variable_declarator'' then
         (case (ChildByFieldName y ''name'', ChildByFieldName y ''value'') of
            (Some nameNode, Some valueNode) \<Rightarrow>
              if nodeType nameNode = ''identifier'' \<and> isFunctionNode (Some valueNode)
              then summarize file src (Content src nameNode) valueNode s1
              else Inr s1
          | _ \<Rightarrow> Inr s1)
       else Inr s1) = Inr s2"
    have "summaries_grow s1 s2"
      using run summarize_grows by (auto split: if_splits option.splits)
    then show "Summaries s2 ref \<noteq> None"
      using s1 by (auto simp: summaries_grow_def map_le_def dom_def)
  qed
  then show ?thesis
    using assms summarize_grows unfolding named_function_def
    by (auto simp: finder_visit_def findFunctionInAssignment_def)
qed

lemma finder_covers:
  assumes "finder_Walk file src root ctx = Inr ctx'" and "descendant root m" and "named_function src m ref"
  shows "Summaries ctx' ref \<noteq> None"
  using assms(1,2)
proof (induction "size root" arbitrary: root ctx ctx' rule: less_induct)
  case less
  obtain c1 where c1: "finder_visit file src root ctx = Inr c1"
      and rest: "foldR (\<lambda>c. finder_Walk file src c) (children root) c1 = Inr ctx'"
    using less.prems by (auto simp: finder_Walk.simps [of "file" src root ctx])
  have grow: "summaries_grow c1 ctx'"
    using rest by (rule foldR_induct [where P = summaries_grow]) (auto dest: finder_Walk_grows summaries_grow_trans)
  consider "m = root" | c where "c \<in> set (children root)" "descendant c m"
    using descendant_cases [OF less.prems(2)] by blast
  then show ?case
  proof cases
    case 1
    then show ?thesis
      using finder_visit_covers [OF c1] assms(3) grow by (force simp: summaries_grow_def map_le_def)
  next
    case 2
    show ?thesis
      using rest 2(1)
    proof (rule foldR_reaches)
      fix s1 s2 assume "finder_Walk file src c s1 = Inr s2"
      then show "Summaries s2 ref \<noteq> None" using less.hyps [OF size_child [OF 2(1)]] 2(2) by blast
    next
      fix y s1 s2 assume "Summaries s1 ref \<noteq> None" and "finder_Walk file src y s1 = Inr s2"
      then show "Summaries s2 ref \<noteq> None"
        using finder_Walk_grows by (force simp: summaries_grow_def map_le_def)
    qed
  qed
qed

text \<open>
  C14. Summarisation covers the file: if it returns, every named function anywhere in the tree
  (declaration, variable initialised with a function, assignment of one) has a summary, a summary
  carries the name it is stored under, the first summary of a name is never replaced, and earlier
  findings are kept in order.
\<close>

theorem summarisation_covers_file:
  assumes "summarizeFunctions file root src ctx = Inr ctx'"
    and "\<forall>ref s. Summaries ctx ref = Some s \<longrightarrow> fsRefID s = ref"
  shows "(\<forall>m ref. descendant root m \<and> named_function src m ref \<longrightarrow> Summaries ctx' ref \<noteq> None) \<and>
         (\<forall>ref s. Summaries ctx' ref = Some s \<longrightarrow> fsRefID s = ref) \<and>
         (\<forall>ref s. Summaries ctx ref = Some s \<longrightarrow> Summaries ctx' ref = Some s) \<and>
         (\<exists>gs. intraProceduralFindings ctx' = intraProceduralFindings ctx @ gs)"
proof -
  have run: "finder_Walk file src root ctx = Inr ctx'" using assms(1) by (simp add: summarizeFunctions_def)
  have g: "summaries_grow ctx ctx'" by (rule finder_Walk_grows [OF run])
  have "\<forall>m ref. descendant root m \<and> named_function src m ref \<longrightarrow> Summaries ctx' ref \<noteq> None"
    using finder_covers [OF run] by blast
  moreover have "\<forall>ref s. Summaries ctx' ref = Some s \<longrightarrow> fsRefID s = ref"
    using g assms(2) unfolding summaries_grow_def by blast
  moreover have "\<forall>ref s. Summaries ctx ref = Some s \<longrightarrow> Summaries ctx' ref = Some s"
    using g by (fastforce simp: summaries_grow_def map_le_def dom_def)
  ultimately show ?thesis using g unfolding summaries_grow_def by blast
qed

theorem summarisation_covers_file_witness:
  "\<exists>ctx'. summarizeFunctions ''app.js'' (program 24 [sink_function]) ''function f(a,b){eval(b)}'' NewAnalyzerContext = Inr ctx' \<and>
     (\<exists>s. Summaries ctx' ''f'' = Some s \<and> fsRefID s = ''f'')"
proof -
  let ?p = "program 24 [sink_function]" and ?t = "''function f(a,b){eval(b)}''"
  have "\<not> isl (summarizeFunctions ''app.js'' ?p ?t NewAnalyzerContext)" by code_simp
  then obtain ctx' where run: "summarizeFunctions ''app.js'' ?p ?t NewAnalyzerContext = Inr ctx'"
    by (cases "summarizeFunctions ''app.js'' ?p ?t NewAnalyzerContext") auto
  have "descendant ?p sink_function"
    by (rule descendant_child [OF descendant_root]) (simp add: program_def)
  moreover have "named_function ?t sink_function ''f''"
    by (simp add: named_function_def sink_function_def tree_simps)
  moreover have "\<forall>ref s. Summaries NewAnalyzerContext ref = Some s \<longrightarrow> fsRefID s = ref"
    by (simp add: NewAnalyzerContext_def)
  note summarisation_covers_file [OF run this]
  ultimately have "Summaries ctx' ''f'' \<noteq> None" "\<forall>s. Summaries ctx' ''f'' = Some s \<longrightarrow> fsRefID s = ''f''"
    by blast+
  then show ?thesis using run by auto
qed

text \<open>
  C13. The analysis of a file: no text gives no findings, a text that does not parse gives the parse
  error, and otherwise, if no walker crashes, the findings of the functions come first and those of
  the top level after them, among them every direct flow of a source into a sink outside functions,
  with its place in the file.
\<close>

theorem analyze_reports_direct_flows:
  assumes "content \<noteq> []" and "parse content = Some root" and "Analyze parse file content = Inr fs"
    and "visited root n" and "sink_call content n d"
    and "extractArguments (ChildByFieldName n ''arguments'') = args"
    and "first_watched args (ssTaintedArgs d) i" and "is_property_source content (args ! i) s"
  shows "\<exists>f\<in>set fs. fSource f = s \<and> fSink f = ssName d \<and> fSinkType f = ssType d \<and>
           fLocation f = FormatLocation file (Some n) content"
proof -
  obtain ctx w where run: "Walk root (newASTWalker file content ModeAnalyze ctx) = Inr ((), w)"
      and fs: "fs = intraProceduralFindings (context_of w) @ analyzeFindings w"
    using assms(1-3) by (auto simp: Analyze_def lift_crash_def split: sum.splits)
  let ?w = "newASTWalker file content ModeAnalyze ctx"
  have w: "source ?w = content" "mode ?w = ModeAnalyze" "filename ?w = file" by (simp_all add: newASTWalker_def)
  have "make_finding ?w s d n \<in> set (analyzeFindings w)"
    by (rule direct_flow_found [OF assms(4) _ assms(6,7) _ w(2) run]) (simp_all add: w assms)
  moreover have "fSinkType (make_finding ?w s d n) = ssType d"
      "fLocation (make_finding ?w s d n) = FormatLocation file (Some n) content"
    by (simp_all add: make_finding_def w)
  ultimately show ?thesis using fs by (auto intro!: bexI [of _ "make_finding ?w s d n"])
qed

theorem analyze_reports_direct_flows_witness:
  "\<exists>fs. Analyze (\<lambda>_. Some hash_program) ''app.js'' hash_text = Inr fs \<and>
     (\<exists>f\<in>set fs. fSource f = ''location.hash'' \<and> fSink f = ''eval'')"
proof -
  let ?n = "eval_call 0 (hash_access None 5) 18"
  let ?d = "\<lparr>ssName = ''eval'', ssType = SinkTypeExecution, ssCanonicalType = SinkEval, ssTaintedArgs = [0]\<rparr>"
  have "\<not> isl (Analyze (\<lambda>_. Some hash_program) ''app.js'' hash_text)" by code_simp
  then obtain fs where run: "Analyze (\<lambda>_. Some hash_program) ''app.js'' hash_text = Inr fs"
    by (cases "Analyze (\<lambda>_. Some hash_program) ''app.js'' hash_text") auto
  have 1: "visited hash_program ?n"
    by (rule visited_child [OF visited_root]) (simp_all add: hash_program_def program_def function_types_def)
  have 2: "sink_call hash_text ?n ?d" by (rule eval_call_sink) (simp add: hash_text_def)
  have 3: "extractArguments (ChildByFieldName ?n ''arguments'') = [hash_access None 5]"
    by (rule eval_call_args) (simp_all add: hash_access_def)
  have 4: "is_property_source hash_text ([hash_access None 5] ! 0) ''location.hash''"
    unfolding nth_Cons_0 by (rule hash_access_source) (simp add: hash_text_def)
  have 5: "first_watched [hash_access None 5] (ssTaintedArgs ?d) 0"
    by (simp add: first_watched_def Cons_eq_append_conv)
  have "hash_text \<noteq> []" by (simp add: hash_text_def)
  from analyze_reports_direct_flows [OF this refl run 1 2 3 5 4] show ?thesis using run by auto
qed

end
