(* ===== verification/JsTermination.thy ===== *)
theory JsTermination
  imports JsFingerprinter
begin

text \<open>
  Termination of the static analyser on files that build no taint objects. Cyclic taint objects are
  the only thing that makes the analyser recurse without end (\<open>JsDefects\<close>); here, conversely: if a
  file has no object literal, assigns to no property and calls no method of a property, every taint
  the walkers ever hold is a simple one, and both passes over the file return. The statement is a
  Hoare triple over walkers, \<open>ends\<close>, with one rule per operation.
\<close>

section \<open>Simple walkers\<close>

definition simple_opt :: "taint option \<Rightarrow> bool" where
  "simple_opt st \<longleftrightarrow> (\<forall>t. st = Some t \<longrightarrow> (\<exists>S l. t = SimpleTaint S l))"

lemma simple_opt_simps [simp]:
  "simple_opt None" "simple_opt (Some (SimpleTaint S l))" "\<not> simple_opt (Some (ObjectRef a))"
  "simple_opt (Some (NewSimpleTaint s l))"
  by (auto simp: simple_opt_def NewSimpleTaint_def)

lemma simple_optE:
  assumes "simple_opt (Some t)"
  obtains S l where "t = SimpleTaint S l"
  using assms by (auto simp: simple_opt_def)

definition simple_walker :: "string \<Rightarrow> ast_walker \<Rightarrow> bool" where
  "simple_walker src w \<longleftrightarrow>
     source w = src \<and> (\<forall>x. simple_opt (symbolTaint w x)) \<and> simple_opt (returnTaint w)"

text \<open>
  From a simple walker the run returns, in a simple walker and with a result that satisfies \<open>Q\<close>; or
  it ends in a nil dereference, which needs \<open>N\<close>.
\<close>

definition ends :: "string \<Rightarrow> bool \<Rightarrow> 'a wm \<Rightarrow> ('a \<Rightarrow> bool) \<Rightarrow> bool" where
  "ends src N m Q \<longleftrightarrow>
     (\<forall>w. simple_walker src w \<longrightarrow>
        (case m w of Inl e \<Rightarrow> N \<and> e = NilDereference | Inr (x, w') \<Rightarrow> simple_walker src w' \<and> Q x))"

abbreviation anything :: "'a \<Rightarrow> bool" where
  "anything \<equiv> \<lambda>_. True"

abbreviation simple_result :: "taint \<Rightarrow> bool" where
  "simple_result \<equiv> \<lambda>t. simple_opt (Some t)"

lemma ends_return: "Q x \<Longrightarrow> ends src N (returnW x) Q"
  by (simp add: ends_def)

lemma ends_unchanged [simp]: "Q x \<Longrightarrow> ends src N (\<lambda>w. Inr (x, w)) Q"
  by (simp add: ends_def)

lemma ends_gets: "(\<And>w. simple_walker src w \<Longrightarrow> Q (f w)) \<Longrightarrow> ends src N (getsW f) Q"
  by (simp add: ends_def)

lemma ends_bind:
  assumes "ends src N m Q" and "\<And>x. Q x \<Longrightarrow> ends src N (k x) S"
  shows "ends src N (bindW m k) S"
  unfolding ends_def
proof (intro allI impI)
  fix w assume w: "simple_walker src w"
  show "case bindW m k w of Inl e \<Rightarrow> N \<and> e = NilDereference | Inr (x, w') \<Rightarrow> simple_walker src w' \<and> S x"
  proof (cases "m w")
    case (Inl e)
    then show ?thesis using assms(1) w by (fastforce simp: ends_def dest: spec [of _ w])
  next
    case (Inr p)
    obtain x w1 where p: "p = (x, w1)" by fastforce
    then have "simple_walker src w1" "Q x" using assms(1) w Inr by (fastforce simp: ends_def dest: spec [of _ w])+
    then show ?thesis using assms(2) [of x] Inr p by (simp add: ends_def)
  qed
qed

lemma ends_bind_gets:
  assumes "\<And>w. simple_walker src w \<Longrightarrow> ends src N (k (f w)) S"
  shows "ends src N (bindW (getsW f) k) S"
  using assms by (auto simp: ends_def bindW_def)

lemma ends_foldW:
  assumes "\<And>x acc. x \<in> set xs \<Longrightarrow> Q acc \<Longrightarrow> ends src N (f x acc) Q" and "Q acc"
  shows "ends src N (foldW f xs acc) Q"
  using assms
proof (induction xs arbitrary: acc)
  case (Cons x xs)
  show ?case
    unfolding foldW.simps
  proof (rule ends_bind)
    show "ends src N (f x acc) Q" using Cons.prems by simp
    fix y assume "Q y"
    then show "ends src N (foldW f xs y) Q" using Cons by simp
  qed
qed (simp add: ends_return)

lemma ends_forW:
  "(\<And>x. x \<in> set xs \<Longrightarrow> ends src N (f x) anything) \<Longrightarrow> ends src N (forW f xs) anything"
  unfolding forW_def by (rule ends_foldW) simp_all

section \<open>Operations on simple taints\<close>

lemma ends_tainted: "simple_opt st \<Longrightarrow> ends src N (taintedW st) anything"
  by (cases st) (auto simp: ends_def elim!: simple_optE)

lemma ends_merge:
  assumes "simple_opt (Some t)" and "simple_opt st"
  shows "ends src N (mergeW t st) simple_result"
proof -
  obtain S l where t: "t = SimpleTaint S l" using assms(1) by (rule simple_optE)
  have "\<exists>S' l'. Merge h t st = Some (SimpleTaint S' l', h)" for h
  proof (cases st)
    case None
    then show ?thesis by (simp add: t Merge_def SimpleTaint_Merge_def)
  next
    case (Some x)
    then obtain S2 l2 where "x = SimpleTaint S2 l2" using assms(2) by (auto elim: simple_optE)
    then show ?thesis
      using Some by (cases "S2 = {}"; cases "S = {}")
        (simp_all add: t Merge_def SimpleTaint_Merge_def IsTainted_def GetSources_def mergeSources_def Let_def)
  qed
  then have "\<exists>S' l'. mergeW t st w = Inr (SimpleTaint S' l', w)" for w
    by (force simp: mergeW_def bindW_def heapW_def dest: spec [of _ "taintHeap w"])
  then show ?thesis unfolding ends_def by (metis (no_types, lifting) simple_opt_simps(2) case_prod_conv sum.case(2))
qed

lemma ends_sources: "simple_opt (Some t) \<Longrightarrow> ends src N (sourcesW t) anything"
  by (elim simple_optE) (simp add: ends_def sourcesW_def bindW_def heapW_def GetSources_def)

lemma ends_accumulate:
  assumes "simple_opt acc" and "simple_opt part"
  shows "ends src N (accumulate acc part) simple_opt"
  unfolding accumulate_def
proof (rule ends_bind [OF ends_tainted [OF assms(2)]])
  fix b
  show "ends src N (if \<not> b then returnW acc else (case acc of None \<Rightarrow> returnW part
      | Some t \<Rightarrow> bindW (mergeW t part) (\<lambda>t'. returnW (Some t')))) simple_opt"
    using assms by (auto split: option.splits intro!: ends_return intro: ends_bind [OF ends_merge])
qed

lemma ends_content: "ends src N (contentW n) anything"
  by (simp add: contentW_def ends_gets)

lemma ends_binding:
  assumes "simple_opt st"
  shows "ends src N (taintBinding ref st) anything"
  unfolding taintBinding_def
  by (rule ends_bind [OF ends_tainted [OF assms]]) (use assms in \<open>simp add: ends_def simple_walker_def\<close>)

lemma ends_approximate: "simple_opt st \<Longrightarrow> ends src N (approximate_part n st) simple_opt"
  unfolding approximate_part_def by (rule ends_bind [OF ends_tainted]) (auto intro: ends_return)

lemma ends_part:
  assumes "simple_opt st"
  shows "ends src N (case st of Some (ObjectRef a) \<Rightarrow> k a | _ \<Rightarrow> approximate_part n st) simple_opt"
  using assms ends_approximate [OF assms] by (cases st) (auto elim!: simple_optE)

lemma ends_destructuring: "simple_opt st \<Longrightarrow> ends src N (handleDestructuring n st) anything"
proof (induction "node_fuel n" arbitrary: n st rule: less_induct)
  case less
  show ?case
  proof (cases n)
    case None
    then show ?thesis
      by (subst handleDestructuring_eq) (simp add: handleDestructuring_body_def ends_return)
  next
    case (Some p)
    have ih: "ends src N (handleDestructuring m t) anything" if "node_fuel m < node_fuel (Some p)" "simple_opt t" for m t
      using less.hyps [of m t] that Some by simp
    have "ends src N (bindW (contentW p) (\<lambda>ref. taintBinding ref st)) anything"
      by (rule ends_bind [OF ends_content]) (rule ends_binding [OF less.prems])
    moreover have "ends src N (handleObjectDestructuring handleDestructuring p st) anything"
      unfolding handleObjectDestructuring_def
    proof (rule ends_forW, goal_cases)
      case (1 c)
      have "ends src N (handleDestructuring (ChildByFieldName c ''value'') t) anything"
          "ends src N (handleDestructuring (Some c) t) anything" if "simple_opt t" for t
        using ih that 1 by simp_all
      then show ?case
        by (auto intro!: ends_bind_gets ends_bind [OF ends_content] ends_bind [OF ends_part [OF less.prems]]
            ends_return split: prod.splits)
    qed
    moreover have "ends src N (handleArrayDestructuring handleDestructuring p st) anything"
      unfolding handleArrayDestructuring_def
    proof (rule ends_bind [OF ends_approximate [OF less.prems]], rule ends_forW, goal_cases)
      case (1 t c)
      then show ?case using ih by (auto intro: ends_return)
    qed
    ultimately show ?thesis
      using Some by (subst handleDestructuring_eq) (simp add: handleDestructuring_body_def ends_return)
  qed
qed

section \<open>Files that build no objects\<close>

definition property_node :: "node option \<Rightarrow> bool" where
  "property_node m = (case m of None \<Rightarrow> False | Some m \<Rightarrow> nodeType m \<in> {''member_expression'', ''subscript_expression''})"

text \<open>Not an object literal, not an assignment to a property, not a call of a method of a property.\<close>

definition builds_no_object :: "node \<Rightarrow> bool" where
  "builds_no_object m \<longleftrightarrow>
     nodeType m \<noteq> ''object'' \<and>
     (nodeType m = ''assignment_expression'' \<longrightarrow> \<not> property_node (ChildByFieldName m ''left'')) \<and>
     (nodeType m \<in> {''call_expression'', ''new_expression''} \<longrightarrow>
        \<not> property_node (Option.bind (ChildByFieldName m ''function'') (\<lambda>c.
             if nodeType c = ''member_expression'' then ChildByFieldName c ''object'' else None)))"

text \<open>An assignment whose target is the name of a known sink; its report reads a taint that may be nil.\<close>

definition sink_assignment :: "string \<Rightarrow> node \<Rightarrow> bool" where
  "sink_assignment src m \<longleftrightarrow>
     nodeType m = ''assignment_expression'' \<and>
     Option.bind (flattenPropertyAccess src (ChildByFieldName m ''left'')) CheckIfSinkProperty \<noteq> None"

fun every :: "(node \<Rightarrow> bool) \<Rightarrow> node \<Rightarrow> bool" where
  "every P (Node f ty a b r c cs) = (P (Node f ty a b r c cs) \<and> list_all (every P) cs)"

definition every_opt :: "(node \<Rightarrow> bool) \<Rightarrow> node option \<Rightarrow> bool" where
  "every_opt P n = (case n of None \<Rightarrow> True | Some m \<Rightarrow> every P m)"

lemma every_node: "every P n \<Longrightarrow> P n"
  by (cases n) simp

lemma every_child: "every P n \<Longrightarrow> c \<in> set (children n) \<Longrightarrow> every P c"
  by (cases n) (auto simp: list_all_iff)

lemma every_opt_simps [simp]: "every_opt P None" "every_opt P (Some n) = every P n"
  by (simp_all add: every_opt_def)

lemma every_field: "every P n \<Longrightarrow> every_opt P (ChildByFieldName n f)"
  by (cases "ChildByFieldName n f") (auto dest: ChildByFieldName_child every_child)

lemma every_fieldD: "every P n \<Longrightarrow> ChildByFieldName n f = Some c \<Longrightarrow> every P c"
  using every_field [of P n f] by simp

lemma every_second: "every P n \<Longrightarrow> every_opt P (field_or_second f m n)"
  by (cases "field_or_second f m n")
    (auto simp: field_or_second_def split: option.splits if_splits dest: ChildByFieldName_child Child_child every_child)

lemma every_template: "every P n \<Longrightarrow> every_opt P (template_expr n)"
  by (cases "template_expr n")
    (auto simp: template_expr_def split: option.splits if_splits dest: ChildByFieldName_child Child_child every_child)

lemma every_argument:
  "every P n \<Longrightarrow> arg \<in> set (extractArguments (ChildByFieldName n f)) \<Longrightarrow> every P arg"
  using every_field [of P n f] by (auto dest!: extractArguments_set intro: every_child)

section \<open>Evaluation\<close>

definition ends_below :: "string \<Rightarrow> bool \<Rightarrow> nat \<Rightarrow> bool" where
  "ends_below src N k \<longleftrightarrow>
     (\<forall>m. node_fuel m < k \<and> every_opt builds_no_object m \<longrightarrow> ends src N (evaluateTaint m) simple_opt)"

lemma ends_belowD:
  "ends_below src N k \<Longrightarrow> node_fuel m < k \<Longrightarrow> every_opt builds_no_object m \<Longrightarrow> ends src N (evaluateTaint m) simple_opt"
  by (simp add: ends_below_def)

lemma ends_argument:
  assumes "ends_below src N (node_fuel (Some n))" and "every builds_no_object n"
    and "arg \<in> set (extractArguments (ChildByFieldName n f))"
  shows "ends src N (eval_argument evaluateTaint arg) simple_opt"
  using ends_belowD [OF assms(1)] smaller(3,4) [OF assms(3)] every_argument [OF assms(2,3)] every_second
  by (auto simp: eval_argument_def)

text \<open>Updates of targets that are not properties.\<close>

lemma ends_update:
  assumes "simple_opt st" and "\<not> property_node n"
  shows "ends src N (updateTaintTarget n st) anything"
proof (cases n)
  case None
  then show ?thesis by (subst updateTaintTarget_eq) (simp add: updateTaintTarget_body_def ends_return)
next
  case (Some m)
  have "ends src N (bindW (contentW m) (\<lambda>ref. taintBinding ref st)) anything"
    by (rule ends_bind [OF ends_content]) (rule ends_binding [OF assms(1)])
  then show ?thesis
    using assms ends_destructuring [OF assms(1)] Some
    by (subst updateTaintTarget_eq) (auto simp: updateTaintTarget_body_def Let_def property_node_def ends_return)
qed

lemma ends_property_access:
  assumes ev: "ends_below src N (node_fuel (Some n))" and n: "every builds_no_object n"
  shows "ends src N (evaluatePropertyAccessTaint evaluateTaint n) simple_opt"
proof -
  have e: "ends src N (evaluateTaint (ChildByFieldName n ''object'')) simple_opt"
    by (rule ends_belowD [OF ev]) (simp_all add: every_field n)
  have some: "ends src N (bindW (mergeW (SimpleTaint S l) (Some (NewSimpleTaint s k))) (\<lambda>t. returnW (Some t))) simple_opt" for S l s k
    by (rule ends_bind [OF ends_merge]) (simp_all add: ends_return)
  show ?thesis
    unfolding evaluatePropertyAccessTaint_def
  proof (rule ends_bind_gets, goal_cases)
    case (1 w)
    show ?case
    proof (cases "Option.bind (flattenPropertyAccess (source w) (Some n)) CheckIfPropertySource")
      case None
      obtain p b where p: "determinePropertyName (source w) n = (p, b)" by fastforce
      show ?thesis
        unfolding None option.case p prod.case
      proof (rule ends_bind [OF e], goal_cases)
        case (1 t)
        then show ?case
          by (cases t) (auto elim!: simple_optE intro!: ends_return ends_bind [OF ends_tainted] some)
      qed
    qed (simp add: ends_return)
  qed
qed

lemma ends_extraction:
  assumes ev: "ends_below src N (node_fuel (Some n))" and n: "every builds_no_object n"
    and c: "ChildByFieldName n ''function'' = Some c"
  shows "ends src N (checkSpecificParameterExtraction evaluateTaint n c p a) simple_opt"
proof -
  have e: "ends src N (evaluateTaint (Some r)) simple_opt" if "ChildByFieldName c ''object'' = Some r" for r
    using ends_belowD [OF ev, of "Some r"] smaller(5) [OF c, of "''object''"] every_fieldD [OF every_fieldD [OF n c] that] that by simp
  have inner: "ends src N (bindW (sourcesW t) k) simple_opt" if "simple_opt (Some t)" "\<And>S. ends src N (k S) simple_opt" for t k
    by (rule ends_bind [OF ends_sources [OF that(1)]]) (rule that(2))
  show ?thesis
    unfolding checkSpecificParameterExtraction_def
    by (auto split: option.splits list.splits intro!: ends_return ends_bind [OF e] ends_bind [OF ends_tainted] inner
        ends_bind [OF ends_content])
qed

lemma ends_call:
  assumes ev: "ends_below src N (node_fuel (Some n))" and n: "every builds_no_object n"
    and ty: "nodeType n \<in> {''call_expression'', ''new_expression''}"
  shows "ends src N (evaluateCallTaint evaluateTaint updateTaintTarget n) simple_opt"
proof -
  let ?c = "ChildByFieldName n ''function''" and ?a = "ChildByFieldName n ''arguments''"
  note arg = ends_argument [OF ev n, of _ "''arguments''"]
  have summary: "ends src N (evaluateCallWithSummary evaluateTaint n ?a s) simple_opt" for s
    unfolding evaluateCallWithSummary_def
    by (auto simp: in_set_enumerate_eq intro!: ends_return ends_foldW ends_bind [OF arg] ends_accumulate)
  have fold: "ends src N (foldW (\<lambda>arg mergedTaint. bindW (eval_argument evaluateTaint arg) (accumulate mergedTaint))
      (extractArguments ?a) None) simple_opt"
    by (auto intro!: ends_foldW ends_bind [OF arg] ends_accumulate)
  have upd: "ends src N (case ?c of
        Some c \<Rightarrow> if b \<and> nodeType c = ''member_expression''
                  then updateTaintTarget (ChildByFieldName c ''object'') (Some (NewSimpleTaint SourceUnknown (row n)))
                  else returnW ()
      | None \<Rightarrow> returnW ()) anything" for b
    using every_node [OF n] ty
    by (auto simp: builds_no_object_def intro!: ends_return ends_update split: option.splits)
  have last: "ends src N (case t of None \<Rightarrow> returnW None
      | Some t \<Rightarrow> bindW (mergeW t (Some (NewSimpleTaint SourceUnknown (row n)))) (\<lambda>t'. returnW (Some t'))) simple_opt"
    if "simple_opt t" for t
    using that by (auto split: option.splits intro!: ends_return ends_bind [OF ends_merge])
  have "ends src N (evaluateCallFallback evaluateTaint updateTaintTarget n ?c ?a) simple_opt"
    unfolding evaluateCallFallback_def
    by (rule ends_bind [OF fold], rule ends_bind [OF ends_tainted], assumption, rule ends_bind [OF upd], rule last)
  then have "ends src N (evaluateCallUnknown evaluateTaint updateTaintTarget n ?c ?a) simple_opt"
    unfolding evaluateCallUnknown_def using summary by (auto intro!: ends_bind_gets split: option.splits)
  then have unknown: "ends src N (evaluateCallUnknown evaluateTaint updateTaintTarget n c ?a) simple_opt" if "?c = c" for c
    using that by simp
  show ?thesis
    unfolding evaluateCallTaint_def Let_def
    by (auto intro!: ends_bind_gets unknown ends_bind [OF ends_extraction [OF ev n]] ends_return split: option.splits)
qed

lemma ends_evaluate: "every_opt builds_no_object n \<Longrightarrow> ends src N (evaluateTaint n) simple_opt"
proof (induction "node_fuel n" arbitrary: n rule: less_induct)
  case less
  show ?case
  proof (cases n)
    case None
    then show ?thesis by (simp add: ends_def)
  next
    case (Some m)
    have ev: "ends_below src N (node_fuel (Some m))" using less.hyps Some by (simp add: ends_below_def)
    have m: "every builds_no_object m" using less.prems Some by simp
    have field: "ends src N (evaluateTaint (ChildByFieldName m f)) simple_opt" for f
      using ends_belowD [OF ev] every_field [OF m] by simp
    have name: "ends src N (bindW (contentW m) (\<lambda>ref. getsW (\<lambda>w. symbolTaint w ref))) simple_opt"
      by (rule ends_bind [OF ends_content], rule ends_gets) (simp add: simple_walker_def)
    have binary: "ends src N (bindW (evaluateTaint (ChildByFieldName m ''left'')) (\<lambda>leftTaint.
               bindW (evaluateTaint (ChildByFieldName m ''right'')) (\<lambda>rightTaint.
               case leftTaint of
                 Some l \<Rightarrow> bindW (mergeW l rightTaint) (\<lambda>t. returnW (Some t))
               | None \<Rightarrow> returnW rightTaint))) simple_opt"
      by (rule ends_bind [OF field], rule ends_bind [OF field])
        (auto split: option.splits intro!: ends_return ends_bind [OF ends_merge])
    have "ends src N (template_part evaluateTaint c acc) simple_opt" if "c \<in> set (children m)" "simple_opt acc" for c acc
      unfolding template_part_def using that(2) ends_belowD [OF ev] every_template [OF every_child [OF m that(1)]] that(1)
      by (auto intro!: ends_return ends_bind [of _ _ "evaluateTaint (template_expr c)"] ends_accumulate)
    then have template: "ends src N (foldW (template_part evaluateTaint) (children m) None) simple_opt"
      by (intro ends_foldW) simp_all
    have paren: "ends src N (evaluateTaint (field_or_second ''expression'' 2 m)) simple_opt"
      by (rule ends_belowD [OF ev]) (simp_all add: every_second m)
    have "nodeType m \<noteq> ''object''" using every_node [OF m] by (simp add: builds_no_object_def)
    then show ?thesis
      unfolding Some evaluateTaint_eq [of "Some m"] evaluateTaint_body_def option.case Let_def
      using name binary template paren ends_property_access [OF ev m] ends_call [OF ev m] by (simp add: ends_return)
  qed
qed

section \<open>The two passes\<close>

lemma ends_report: "ends src N (reportFinding s d n) anything"
  by (auto simp: ends_def reportFinding_def record_finding_def simple_walker_def Let_def split: WalkerMode.split)

lemma ends_source:
  assumes "simple_opt st" and "st = None \<Longrightarrow> N"
  shows "ends src N (sourceW st) anything"
proof (cases st)
  case None
  then show ?thesis using assms(2) by (simp add: ends_def sourceW_def)
next
  case (Some t)
  then obtain S l where "t = SimpleTaint S l" using assms(1) by (auto elim: simple_optE)
  then show ?thesis using Some by (simp add: ends_def)
qed

lemma ends_checkArgs:
  assumes "\<And>a. a \<in> set args \<Longrightarrow> ends src N (eval_argument evaluateTaint a) simple_opt"
  shows "ends src N (checkArgs_loop js d args n) anything"
proof (induction js)
  case (Cons j js)
  have "args ! nat j \<in> set args" if "0 \<le> j" "j < int (length args)" using that by (intro nth_mem) linarith
  note arg = assms [OF this]
  have report: "ends src N (bindW (sourceW t) (\<lambda>s. reportFinding s d n)) anything" if "simple_opt t" "t \<noteq> None" for t
    by (rule ends_bind [OF ends_source [OF that(1)]]) (use that in \<open>simp_all add: ends_report\<close>)
  have tail: "ends src N (bindW (taintedW t) (\<lambda>b. if b then bindW (sourceW t) (\<lambda>s. reportFinding s d n)
      else checkArgs_loop js d args n)) anything" if "simple_opt t" for t
  proof (cases t)
    case None
    then have "bindW (taintedW t) k = k False" for k :: "bool \<Rightarrow> unit wm" by (simp add: fun_eq_iff bindW_def)
    then show ?thesis using Cons.IH by simp
  next
    case (Some x)
    then show ?thesis
      using report [OF that] Cons.IH that by (auto intro!: ends_bind [OF ends_tainted])
  qed
  show ?case using Cons.IH by (auto intro!: ends_bind [OF arg] tail)
qed (simp add: ends_return)

lemma ends_checkSummary:
  assumes "\<And>i a. (i, a) \<in> set args \<Longrightarrow> ends src N (eval_argument evaluateTaint a) simple_opt"
  shows "ends src N (checkSummary_loop args n s) anything"
  using assms
proof (induction args)
  case (Cons x args)
  obtain i a where x: "x = (i, a)" by fastforce
  have rest: "ends src N (checkSummary_loop args n s) anything" by (rule Cons.IH) (use Cons.prems in auto)
  have tail: "ends src N (bindW (taintedW t) (\<lambda>b. if b then bindW (sourceW t) (\<lambda>q. reportFinding q (call_sink (fsRefID s) i) n)
      else checkSummary_loop args n s)) anything" if "simple_opt t" for t
  proof (cases t)
    case None
    then have "bindW (taintedW t) k = k False" for k :: "bool \<Rightarrow> unit wm" by (simp add: fun_eq_iff bindW_def)
    then show ?thesis using rest by simp
  next
    case (Some y)
    then show ?thesis
      using rest that by (auto intro!: ends_bind [OF ends_tainted] ends_bind [OF ends_source] ends_report)
  qed
  show ?case
    unfolding x using Cons.prems [of i a] x rest by (auto intro!: ends_bind [where Q = simple_opt] tail)
qed (simp add: ends_return)

lemma ends_handleCall:
  assumes n: "every builds_no_object n"
  shows "ends src N (handleCall n) anything"
proof -
  let ?args = "extractArguments (ChildByFieldName n ''arguments'')"
  have arg: "ends src N (eval_argument evaluateTaint a) simple_opt" if "a \<in> set ?args" for a
    by (rule ends_argument [OF _ n that]) (simp add: ends_below_def ends_evaluate)
  have "ends src N (checkArgs_loop js d ?args n) anything" for js d
    by (rule ends_checkArgs) (rule arg)
  moreover have "ends src N (checkSummary_loop (enumerate 0 ?args) n s) anything" for s
    by (rule ends_checkSummary) (auto simp: in_set_enumerate_eq intro: arg)
  ultimately show ?thesis
    by (auto simp: handleCall_def checkCallForSinks_def checkArgsAgainstSink_def checkCallWithSummary_def
        intro!: ends_bind_gets ends_return split: option.splits)
qed

lemma ends_handleVarDecl:
  assumes n: "every builds_no_object n"
  shows "ends src N (handleVarDecl n) anything"
  unfolding handleVarDecl_def
proof (rule ends_forW, goal_cases)
  case (1 c)
  have "ends src N (evaluateTaint (Some v)) simple_opt" if "ChildByFieldName c ''value'' = Some v" for v
    using ends_evaluate [of "Some v"] every_fieldD [OF every_child [OF n 1] that] by simp
  then show ?case
    by (auto intro!: ends_return ends_bind [where Q = simple_opt] ends_destructuring split: option.splits)
qed

lemma ends_handleReturn:
  assumes n: "every builds_no_object n"
  shows "ends src N (handleReturn n) anything"
proof -
  have v: "ends src N (evaluateTaint (Some v)) simple_opt" if "return_value n = Some v" for v
  proof -
    have "every builds_no_object v"
      using that n by (auto simp: return_value_def split: option.splits if_splits dest: every_fieldD Child_child every_child)
    then show ?thesis by (simp add: ends_evaluate)
  qed
  have m: "ends src N (modifyW (\<lambda>w. w\<lparr>returnTaint := t\<rparr>)) anything" if "simple_opt t" for t
    using that by (simp add: ends_def simple_walker_def)
  have ret: "ends src N (bindW (getsW returnTaint) (\<lambda>old. bindW (accumulate old t) (\<lambda>new. modifyW (\<lambda>w. w\<lparr>returnTaint := new\<rparr>)))) anything"
    if "simple_opt t" for t
    by (rule ends_bind_gets, rule ends_bind [OF ends_accumulate]) (simp_all add: that m simple_walker_def)
  have "ends src N (case return_value n of
      None \<Rightarrow> returnW ()
    | Some v \<Rightarrow> bindW (evaluateTaint (Some v)) (\<lambda>t. bindW (getsW returnTaint) (\<lambda>old.
        bindW (accumulate old t) (\<lambda>new. modifyW (\<lambda>w. w\<lparr>returnTaint := new\<rparr>))))) anything"
    by (auto split: option.splits intro!: ends_return ends_bind [OF v] ret)
  then show ?thesis unfolding handleReturn_def by (intro ends_bind_gets) (simp add: ends_return)
qed

lemma ends_handleAssignment:
  assumes n: "every builds_no_object n" and ty: "nodeType n = ''assignment_expression''" and N: "sink_assignment src n \<Longrightarrow> N"
  shows "ends src N (handleAssignment n) anything"
proof (cases "ChildByFieldName n ''left''"; cases "ChildByFieldName n ''right''")
  fix l r assume lr: "ChildByFieldName n ''left'' = Some l" "ChildByFieldName n ''right'' = Some r"
  have e: "ends src N (evaluateTaint (Some r)) simple_opt"
    using ends_evaluate [of "Some r"] every_fieldD [OF n lr(2)] by simp
  have u: "ends src N (updateTaintTarget (Some l) t) anything" if "simple_opt t" for t
    by (rule ends_update [OF that]) (use every_node [OF n] ty lr(1) in \<open>simp add: builds_no_object_def\<close>)
  have c: "ends src N (checkAssignmentSink (Some l) t n) anything" if "simple_opt t" for t
    unfolding checkAssignmentSink_def option.case
  proof (cases "nodeType l \<in> {''identifier'', ''member_expression'', ''subscript_expression''}", simp_all add: ends_return)
    show "ends src N (bindW (getsW (\<lambda>w. flattenPropertyAccess (source w) (Some l))) (\<lambda>path.
        case Option.bind path CheckIfSinkProperty of None \<Rightarrow> returnW ()
        | Some sinkDef \<Rightarrow> bindW (sourceW t) (\<lambda>s. reportFinding s sinkDef n))) anything"
      using N ty lr that
      by (auto intro!: ends_bind_gets ends_return ends_bind [OF ends_source] ends_report
          simp: sink_assignment_def simple_walker_def split: option.splits)
  qed
  show ?thesis
    using lr u c by (auto simp: handleAssignment_def intro!: ends_bind [OF e] ends_bind [OF u])
qed (auto simp: handleAssignment_def ends_return)

lemma ends_visit:
  assumes n: "every builds_no_object n" and N: "sink_assignment src n \<Longrightarrow> N"
  shows "ends src N (visit n) anything"
  using ends_handleCall [OF n] ends_handleVarDecl [OF n] ends_handleReturn [OF n] ends_handleAssignment [OF n _ N]
  by (auto simp: visit_def Let_def intro!: ends_gets ends_return ends_bind [where Q = anything])

lemma ends_Walk:
  assumes "every builds_no_object n" and "\<not> every (\<lambda>m. \<not> sink_assignment src m) n \<Longrightarrow> N"
  shows "ends src N (Walk n) anything"
  using assms
proof (induction "height n" arbitrary: n rule: less_induct)
  case less
  have "ends src N (Walk c) anything" if "c \<in> set (children n)" for c
    by (rule less.hyps [OF height_child [OF that]]) (use less.prems every_child [OF _ that] in blast)+
  then have "ends src N (forW Walk (children n)) anything" by (rule ends_forW)
  moreover have "ends src N (visit n) anything"
    by (rule ends_visit [OF less.prems(1)]) (use less.prems(2) every_node [of "\<lambda>m. \<not> sink_assignment src m" n] in blast)
  ultimately show ?case
    by (subst Walk_eq) (auto intro!: ends_bind [where Q = anything] ends_return)
qed


lemma ends_initF: "node_fuel n \<le> k \<Longrightarrow> ends src N (initF k n s loc) anything"
proof (induction k arbitrary: n s)
  case 0
  then show ?case by (simp add: node_fuel_def)
next
  case (Suc k)
  show ?case
  proof (cases n)
    case None
    then show ?thesis by (simp add: initializeDestructuredParameter_body_def ends_return)
  next
    case (Some p)
    have ih: "ends src N (initF k m t loc) anything" if "node_fuel m < node_fuel (Some p)" for m t
      using Suc that Some by simp
    have "ends src N (init_object_child (initF k) s loc c) anything" if "c \<in> set (children p)" for c
      unfolding init_object_child_def using ih that
      by (auto intro!: ends_return ends_bind [OF ends_content] ends_bind_gets split: prod.splits)
    moreover have "ends src N (bindW (contentW p) (\<lambda>ref. taintBinding ref (Some (NewSimpleTaint s loc)))) anything"
      by (rule ends_bind [OF ends_content]) (simp add: ends_binding)
    ultimately show ?thesis
      using Some ih
      by (auto simp: initializeDestructuredParameter_body_def Let_def intro!: ends_return ends_forW
          split: option.splits dest: node_fuel_SomeD)
  qed
qed

lemma ends_initializeParameters: "ends src N (initializeParameters fn) anything"
proof -
  have "ends src N (initializeParameterTaint p i) anything" for p i
    by (simp add: initializeParameterTaint_def initializeDestructuredParameter_def ends_initF)
  then show ?thesis
    by (auto simp: initializeParameters_def intro!: ends_return ends_bind [where Q = anything] ends_foldW split: option.splits)
qed

definition returns_or :: "bool \<Rightarrow> (walker_error, 'a) result \<Rightarrow> bool" where
  "returns_or N r = (case r of Inl e \<Rightarrow> N \<and> e = NilDereference | Inr x \<Rightarrow> True)"

lemma returns_or_simps [simp]: "returns_or N (Inr x)" "returns_or N (Inl e) = (N \<and> e = NilDereference)"
  by (simp_all add: returns_or_def)

lemma returns_or_bind: "returns_or N r \<Longrightarrow> (\<And>x. r = Inr x \<Longrightarrow> returns_or N (k x)) \<Longrightarrow> returns_or N (bindR r k)"
  by (cases r) simp_all

lemma ends_run:
  assumes "ends src N m Q" and "simple_walker src w"
  shows "returns_or N (m w)" and "m w = Inr (x, w') \<Longrightarrow> simple_walker src w' \<and> Q x"
  using assms by (auto simp: ends_def returns_or_def split: sum.splits dest: spec [of _ w])

lemma summarization_returns:
  assumes fn: "every builds_no_object fn" and N: "\<not> every (\<lambda>m. \<not> sink_assignment src m) fn \<Longrightarrow> N"
  shows "returns_or N (StartSummarizationWalk ref fn (newASTWalker file src ModeSummarize ctx))"
proof -
  let ?w0 = "newASTWalker file src ModeSummarize ctx"
  let ?w1 = "?w0\<lparr>currentSummary := Some ref,
      context_of := ctx\<lparr>Summaries := (Summaries ctx)(ref \<mapsto> NewFunctionSummary ref)\<rparr>\<rparr>"
  let ?body = "case ChildByFieldName fn ''body'' of None \<Rightarrow> returnW () | Some b \<Rightarrow> Walk b"
  have w1: "simple_walker src ?w1" by (simp add: simple_walker_def newASTWalker_def)
  have "ends src N (Walk b) anything" if b: "ChildByFieldName fn ''body'' = Some b" for b
    using ends_Walk [of b src N] every_fieldD [OF fn b] every_fieldD [of "\<lambda>m. \<not> sink_assignment src m", OF _ b] N by blast
  then have body: "ends src N ?body anything" by (auto intro: ends_return split: option.splits)
  have start: "StartSummarizationWalk ref fn ?w0 =
      bindR (initializeParameters fn ?w1) (\<lambda>(_, w2). bindR (?body w2) (\<lambda>(_, w3). finalizeSummary w3))"
    by (simp add: StartSummarizationWalk_def bindW_def newASTWalker_def case_prod_beta')
  have "returns_or N (finalizeSummary w3)"
    if 2: "initializeParameters fn ?w1 = Inr (u, w2)" and 3: "?body w2 = Inr (v, w3)" for u v w2 w3
  proof -
    have "walk_frame ?w1 w2" by (rule runsD(2) [OF walks.runs_initializeParameters 2])
    moreover have "walk_frame w2 w3"
      using 3 runsD(2) [OF walks.runs_Walk] by (cases "ChildByFieldName fn ''body''") (auto simp: walks.R_refl)
    ultimately have "walk_frame ?w1 w3" by (rule walks.R_trans)
    then have c: "currentSummary w3 = Some ref" "Summaries (context_of w3) ref = Some (NewFunctionSummary ref)"
      by (auto simp: walk_frame_def newASTWalker_def)
    have "simple_walker src w2" using ends_run(2) [OF ends_initializeParameters w1 2] by simp
    then have "simple_walker src w3" using ends_run(2) [OF body _ 3] by simp
    then have "simple_opt (returnTaint w3)" by (simp add: simple_walker_def)
    then show ?thesis
      using c by (cases "returnTaint w3")
        (auto simp: finalizeSummary_def bindW_def Let_def sourcesW_def heapW_def GetSources_def elim!: simple_optE)
  qed
  then show ?thesis
    unfolding start using ends_run(1) [OF ends_initializeParameters w1] ends_run [OF body] ends_run(2) [OF ends_initializeParameters w1]
    by (auto intro!: returns_or_bind)
qed

lemma finder_visit_returns:
  assumes n: "every builds_no_object n" and N: "\<not> every (\<lambda>m. \<not> sink_assignment src m) n \<Longrightarrow> N"
  shows "returns_or N (finder_visit file src n ctx)"
proof -
  let ?P = "\<lambda>m. \<not> sink_assignment src m"
  have sum: "returns_or N (summarize file src ref m c)"
    if "every builds_no_object m" and "every ?P n \<Longrightarrow> every ?P m" for ref m c
    using summarization_returns [OF that(1), of src N] that(2) N
    by (auto simp: summarize_def intro!: returns_or_bind)
  have field: "returns_or N (summarize file src ref m c)" if "ChildByFieldName n f = Some m" for f ref m c
    by (rule sum [OF every_fieldD [OF n that]]) (rule every_fieldD [OF _ that])
  have grandchild: "returns_or N (summarize file src ref m c)"
    if "d \<in> set (children n)" "ChildByFieldName d f = Some m" for d f ref m c
    by (rule sum [OF every_fieldD [OF every_child [OF n that(1)] that(2)]])
      (rule every_fieldD [OF every_child [OF _ that(1)] that(2)])
  have fold: "returns_or N (foldR f xs c)" if "\<And>x c. x \<in> set xs \<Longrightarrow> returns_or N (f x c)" for f :: "node \<Rightarrow> finder" and xs c
    using that by (induction xs arbitrary: c) (auto intro: returns_or_bind)
  have "returns_or N (findFunctionsInVarDecl file src n ctx)"
    unfolding findFunctionsInVarDecl_def by (rule fold) (auto split: option.splits intro: grandchild)
  moreover have "returns_or N (findFunctionInAssignment file src n ctx)"
    unfolding findFunctionInAssignment_def by (auto split: option.splits intro: field)
  moreover have "returns_or N (summarize file src ref n c)" for ref c by (rule sum [OF n])
  ultimately show ?thesis by (auto simp: finder_visit_def split: option.splits)
qed

lemma finder_Walk_returns:
  assumes "every builds_no_object n" and "\<not> every (\<lambda>m. \<not> sink_assignment src m) n \<Longrightarrow> N"
  shows "returns_or N (finder_Walk file src n ctx)"
  using assms
proof (induction "size n" arbitrary: n ctx rule: less_induct)
  case less
  have "returns_or N (foldR (finder_Walk file src) cs c)" if "set cs \<subseteq> set (children n)" for cs c
    using that
  proof (induction cs arbitrary: c)
    case (Cons x xs)
    then have x: "x \<in> set (children n)" by simp
    have "returns_or N (finder_Walk file src x c)"
      by (rule less.hyps [OF size_child [OF x]]) (use less.prems every_child [OF _ x] in blast)+
    then show ?case using Cons by (auto intro: returns_or_bind)
  qed simp
  then show ?case
    by (subst finder_Walk.simps) (auto intro!: returns_or_bind finder_visit_returns less.prems)
qed

section \<open>Property\<close>



end
