(* ===== verification/Bus.thy ===== *)
theory Bus
  imports Prelude "HOL-Library.AList"
begin

text \<open>
  The two publish/subscribe buses, \<^verbatim>\<open>internal/evolution/bus/bus.go\<close> and
  \<^verbatim>\<open>internal/agent/cognitive_bus.go\<close>. They have the same structure and differ in four places, which
  are the fields of \<open>bus_variant\<close>: how a posted message becomes an envelope, which channels a post
  addresses, what a subscription without message types means, and whether shutdown drains the
  buffers.

  The state holds the shared fields of the bus, the channels, the goroutines inside \<^verbatim>\<open>Post\<close> with
  their position, the messages that consumers have received and not yet acknowledged, and the
  position of \<^verbatim>\<open>Shutdown\<close>. An action is one atomic step of one goroutine (a critical section, a
  channel operation, a wait-group operation); \<open>bus_step\<close> returns \<open>None\<close> when the goroutine cannot
  take it (blocked or not there). Panics of the runtime (send on a closed channel, close of a closed
  channel, negative wait group) set \<open>panicked\<close>. Consumers acknowledge what they received, once each,
  which is what both files ask of them.
\<close>

section \<open>State\<close>

record bus_message =
  msgID :: string
  msgTimestamp :: nat
  msgType :: string
  msgPayload :: string

datatype post_result = PostOK | PostRefused | PostCancelled | PostAborted

text \<open>
  Where a goroutine is inside \<^verbatim>\<open>Post\<close>: behind the shutdown check, in the loop at index \<open>i\<close> of its
  copy of the subscribers (before and inside the select), before the deferred \<^verbatim>\<open>Done\<close>, and out.
\<close>

datatype post_pc =
    Entered bus_message
  | Looping bus_message "nat list" nat
  | Selecting bus_message "nat list" nat
  | Leaving post_result
  | Left post_result

datatype shutdown_pc = Running | Flagged | Signalled | Draining | Waiting | Down

text \<open>The subscriber map, by message type, and its lookup (a missing type has no subscribers).\<close>

type_synonym sub_map = "(string \<times> nat list) list"

definition subs_of :: "sub_map \<Rightarrow> string \<Rightarrow> nat list" where
  "subs_of m ty = (case map_of m ty of None \<Rightarrow> [] | Some cs \<Rightarrow> cs)"

record bus =
  subscribers :: sub_map
  bufferSize :: nat
  chanCount :: nat
  chanBuf :: "nat \<Rightarrow> bus_message list"
  chanClosed :: "nat \<Rightarrow> bool"
  processingWg :: int
  activePostsWg :: int
  isShutdown :: bool
  shutdownChanClosed :: bool
  posts :: "post_pc list"
  unacked :: "(nat \<times> bus_message) list"
  shutdownPc :: shutdown_pc
  closing :: "nat list"
  panicked :: bool
  sentLog :: "nat \<Rightarrow> bus_message list"
  takenLog :: "nat \<Rightarrow> bus_message list"

record bus_variant =
  envelope :: "string \<Rightarrow> nat \<Rightarrow> bus_message \<Rightarrow> bus_message"
  targets :: "sub_map \<Rightarrow> string \<Rightarrow> nat list \<Rightarrow> bool"
  emptyTypes :: "string list option"
  refuseWhenDown :: bool
  drains :: bool

definition new_bus :: "nat \<Rightarrow> bus" where
  "new_bus n =
     \<lparr>subscribers = [], bufferSize = n, chanCount = 0, chanBuf = (\<lambda>_. []), chanClosed = (\<lambda>_. False),
      processingWg = 0, activePostsWg = 0, isShutdown = False, shutdownChanClosed = False, posts = [],
      unacked = [], shutdownPc = Running, closing = [], panicked = False,
      sentLog = (\<lambda>_. []), takenLog = (\<lambda>_. [])\<rparr>"

section \<open>The two buses\<close>

definition NewEvolutionBus :: "int \<Rightarrow> bus" where
  "NewEvolutionBus n = new_bus (nat (if n < 0 then 0 else n))"

definition NewCognitiveBus :: "int \<Rightarrow> bus" where
  "NewCognitiveBus n = new_bus (nat (if n \<le> 0 then 100 else n))"

text \<open>The evolution bus stamps every message; a post goes to the subscribers of its type in order.\<close>

definition evolution_bus :: bus_variant where
  "evolution_bus =
     \<lparr>envelope = (\<lambda>uuid now msg. msg\<lparr>msgID := uuid, msgTimestamp := now\<rparr>),
      targets = (\<lambda>subs ty cs. cs = subs_of subs ty),
      emptyTypes = None, refuseWhenDown = True, drains = True\<rparr>"

text \<open>
  The cognitive bus keeps an identifier and a time that are already set. A post goes to the
  subscribers of its type and to those of the empty type, once each, in the order in which the
  runtime ranges over a map.
\<close>

definition cognitive_bus :: bus_variant where
  "cognitive_bus =
     \<lparr>envelope = (\<lambda>uuid now msg.
        msg\<lparr>msgID := (if msgID msg = [] then uuid else msgID msg),
            msgTimestamp := (if msgTimestamp msg = 0 then now else msgTimestamp msg)\<rparr>),
      targets = (\<lambda>subs ty cs. distinct cs \<and> set cs = set (subs_of subs ty) \<union> set (subs_of subs [])),
      emptyTypes = Some [[]], refuseWhenDown = False, drains = False\<rparr>"

section \<open>Steps\<close>

text \<open>
  The lock \<^verbatim>\<open>mu\<close> is held by \<^verbatim>\<open>Shutdown\<close> while it closes and drains, so the steps that take it are
  not enabled then.
\<close>

definition mu_free :: "bus \<Rightarrow> bool" where
  "mu_free b = (shutdownPc b \<noteq> Draining)"

definition post_at :: "bus \<Rightarrow> nat \<Rightarrow> post_pc option" where
  "post_at b p = (if p < length (posts b) then Some (posts b ! p) else None)"

definition set_post :: "nat \<Rightarrow> post_pc \<Rightarrow> bus \<Rightarrow> bus" where
  "set_post p pc b = b\<lparr>posts := (posts b)[p := pc]\<rparr>"

definition processing_done :: "bus \<Rightarrow> bus" where
  "processing_done b = b\<lparr>processingWg := processingWg b - 1, panicked := panicked b \<or> processingWg b \<le> 0\<rparr>"

definition active_done :: "bus \<Rightarrow> bus" where
  "active_done b = b\<lparr>activePostsWg := activePostsWg b - 1, panicked := panicked b \<or> activePostsWg b \<le> 0\<rparr>"

definition post_enter :: "bus_variant \<Rightarrow> bus_message \<Rightarrow> string \<Rightarrow> nat \<Rightarrow> bus \<Rightarrow> bus" where
  "post_enter v msg uuid now b =
     (if isShutdown b then b\<lparr>posts := posts b @ [Left PostRefused]\<rparr>
      else b\<lparr>activePostsWg := activePostsWg b + 1, posts := posts b @ [Entered (envelope v uuid now msg)]\<rparr>)"

definition post_read :: "bus_variant \<Rightarrow> nat \<Rightarrow> nat list \<Rightarrow> bus \<Rightarrow> bus option" where
  "post_read v p cs b =
     (case post_at b p of
        Some (Entered msg) \<Rightarrow>
          if mu_free b \<and> targets v (subscribers b) (msgType msg) cs
          then Some (set_post p (if cs = [] then Leaving PostOK else Looping msg cs 0) b)
          else None
      | _ \<Rightarrow> None)"

definition post_next :: "nat \<Rightarrow> bus \<Rightarrow> bus option" where
  "post_next p b =
     (case post_at b p of
        Some (Looping msg cs i) \<Rightarrow>
          if i < length cs
          then Some (set_post p (Selecting msg cs i) (b\<lparr>processingWg := processingWg b + 1\<rparr>))
          else Some (set_post p (Leaving PostOK) b)
      | _ \<Rightarrow> None)"

text \<open>
  The send case of the select: into the buffer when there is room, panicking on a closed channel.
  On an unbuffered channel the message is handed to a consumer that is receiving (\<open>post_hand\<close>).
\<close>

definition post_send :: "nat \<Rightarrow> bus \<Rightarrow> bus option" where
  "post_send p b =
     (case post_at b p of
        Some (Selecting msg cs i) \<Rightarrow>
          (let c = cs ! i in
           if chanClosed b c then Some (b\<lparr>panicked := True\<rparr>)
           else if length (chanBuf b c) < bufferSize b
           then Some (set_post p (Looping msg cs (Suc i))
                  (b\<lparr>chanBuf := (chanBuf b)(c := chanBuf b c @ [msg]), sentLog := (sentLog b)(c := sentLog b c @ [msg])\<rparr>))
           else None)
      | _ \<Rightarrow> None)"

definition post_hand :: "nat \<Rightarrow> bus \<Rightarrow> bus option" where
  "post_hand p b =
     (case post_at b p of
        Some (Selecting msg cs i) \<Rightarrow>
          (let c = cs ! i in
           if \<not> chanClosed b c \<and> bufferSize b = 0
           then Some (set_post p (Looping msg cs (Suc i))
                  (b\<lparr>unacked := unacked b @ [(c, msg)], sentLog := (sentLog b)(c := sentLog b c @ [msg]),
                     takenLog := (takenLog b)(c := takenLog b c @ [msg])\<rparr>))
           else None)
      | _ \<Rightarrow> None)"

definition post_give_up :: "nat \<Rightarrow> post_result \<Rightarrow> bus \<Rightarrow> bus option" where
  "post_give_up p r b =
     (case post_at b p of
        Some (Selecting msg cs i) \<Rightarrow>
          if r = PostCancelled \<or> r = PostAborted \<and> shutdownChanClosed b
          then Some (set_post p (Leaving r) (processing_done b))
          else None
      | _ \<Rightarrow> None)"

definition post_return :: "nat \<Rightarrow> bus \<Rightarrow> bus option" where
  "post_return p b =
     (case post_at b p of
        Some (Leaving r) \<Rightarrow> Some (set_post p (Left r) (active_done b))
      | _ \<Rightarrow> None)"

definition Subscribe :: "bus_variant \<Rightarrow> string list \<Rightarrow> bus \<Rightarrow> bus option" where
  "Subscribe v types b =
     (if \<not> mu_free b then None
      else if refuseWhenDown v \<and> isShutdown b
      then Some (b\<lparr>chanCount := Suc (chanCount b), chanClosed := (chanClosed b)(chanCount b := True)\<rparr>)
      else (case (if types = [] then emptyTypes v else Some types) of
              None \<Rightarrow> Some (b\<lparr>panicked := True\<rparr>)
            | Some tys \<Rightarrow>
                Some (b\<lparr>chanCount := Suc (chanCount b),
                        subscribers := fold (\<lambda>ty subs. AList.update ty (subs_of subs ty @ [chanCount b]) subs) tys (subscribers b)\<rparr>)))"

text \<open>The returned function removes the channel once from the list of each of its types.\<close>

definition remove_sub :: "nat \<Rightarrow> string \<Rightarrow> sub_map \<Rightarrow> sub_map" where
  "remove_sub c ty subs =
     (if c \<in> set (subs_of subs ty)
      then (if remove1 c (subs_of subs ty) = [] then AList.delete ty subs
            else AList.update ty (remove1 c (subs_of subs ty)) subs)
      else subs)"

definition unsubscribe :: "nat \<Rightarrow> string list \<Rightarrow> bus \<Rightarrow> bus option" where
  "unsubscribe c tys b =
     (if \<not> mu_free b then None
      else Some (b\<lparr>subscribers := fold (remove_sub c) tys (subscribers b)\<rparr>))"

definition receive :: "nat \<Rightarrow> bus \<Rightarrow> bus option" where
  "receive c b =
     (case chanBuf b c of
        [] \<Rightarrow> None
      | msg # rest \<Rightarrow>
          Some (b\<lparr>chanBuf := (chanBuf b)(c := rest), unacked := unacked b @ [(c, msg)],
                  takenLog := (takenLog b)(c := takenLog b c @ [msg])\<rparr>))"

definition Acknowledge :: "nat \<Rightarrow> bus_message \<Rightarrow> bus \<Rightarrow> bus option" where
  "Acknowledge c msg b =
     (if (c, msg) \<in> set (unacked b)
      then Some (processing_done (b\<lparr>unacked := remove1 (c, msg) (unacked b)\<rparr>))
      else None)"

section \<open>Shutdown\<close>

definition all_channels :: "bus \<Rightarrow> nat list" where
  "all_channels b = concat (map snd (subscribers b))"

definition shutdown_flag :: "bus \<Rightarrow> bus option" where
  "shutdown_flag b = (if shutdownPc b = Running then Some (b\<lparr>isShutdown := True, shutdownPc := Flagged\<rparr>) else None)"

definition shutdown_signal :: "bus \<Rightarrow> bus option" where
  "shutdown_signal b =
     (if shutdownPc b = Flagged then Some (b\<lparr>shutdownChanClosed := True, shutdownPc := Signalled\<rparr>) else None)"

text \<open>
  Step 4 after the wait for the posts: the channels in the subscriber map (\<open>cs\<close> lists each once, in
  the order of the map) are closed, then drained one message at a time, and the map is cleared.
\<close>

definition shutdown_close :: "nat list \<Rightarrow> bus \<Rightarrow> bus option" where
  "shutdown_close cs b =
     (if shutdownPc b = Signalled \<and> activePostsWg b = 0 \<and> distinct cs \<and> set cs = set (all_channels b)
      then Some (b\<lparr>chanClosed := (\<lambda>c. chanClosed b c \<or> c \<in> set cs),
                   panicked := panicked b \<or> (\<exists>c\<in>set cs. chanClosed b c),
                   closing := cs, shutdownPc := Draining\<rparr>)
      else None)"

definition shutdown_drain :: "bus_variant \<Rightarrow> nat \<Rightarrow> bus \<Rightarrow> bus option" where
  "shutdown_drain v c b =
     (if shutdownPc b = Draining \<and> drains v \<and> c \<in> set (closing b)
      then (case chanBuf b c of
              [] \<Rightarrow> None
            | msg # rest \<Rightarrow>
                Some (processing_done (b\<lparr>chanBuf := (chanBuf b)(c := rest), takenLog := (takenLog b)(c := takenLog b c @ [msg])\<rparr>)))
      else None)"

definition shutdown_clear :: "bus_variant \<Rightarrow> bus \<Rightarrow> bus option" where
  "shutdown_clear v b =
     (if shutdownPc b = Draining \<and> (drains v \<longrightarrow> (\<forall>c\<in>set (closing b). chanBuf b c = []))
      then Some (b\<lparr>subscribers := [], shutdownPc := Waiting\<rparr>) else None)"

definition shutdown_finish :: "bus \<Rightarrow> bus option" where
  "shutdown_finish b =
     (if shutdownPc b = Waiting \<and> processingWg b = 0 then Some (b\<lparr>shutdownPc := Down\<rparr>) else None)"

datatype bus_action =
    APost bus_message string nat
  | ARead nat "nat list"
  | ANext nat
  | ASend nat
  | AHand nat
  | AGiveUp nat post_result
  | AReturn nat
  | ASubscribe "string list"
  | AUnsubscribe nat "string list"
  | AReceive nat
  | AAck nat bus_message
  | AFlag
  | ASignal
  | AClose "nat list"
  | ADrain nat
  | AClear
  | AFinish

fun bus_step :: "bus_variant \<Rightarrow> bus_action \<Rightarrow> bus \<Rightarrow> bus option" where
  "bus_step v (APost msg uuid now) b = Some (post_enter v msg uuid now b)"
| "bus_step v (ARead p cs) b = post_read v p cs b"
| "bus_step v (ANext p) b = post_next p b"
| "bus_step v (ASend p) b = post_send p b"
| "bus_step v (AHand p) b = post_hand p b"
| "bus_step v (AGiveUp p r) b = post_give_up p r b"
| "bus_step v (AReturn p) b = post_return p b"
| "bus_step v (ASubscribe types) b = Subscribe v types b"
| "bus_step v (AUnsubscribe c types) b = unsubscribe c types b"
| "bus_step v (AReceive c) b = receive c b"
| "bus_step v (AAck c msg) b = Acknowledge c msg b"
| "bus_step v AFlag b = shutdown_flag b"
| "bus_step v ASignal b = shutdown_signal b"
| "bus_step v (AClose cs) b = shutdown_close cs b"
| "bus_step v (ADrain c) b = shutdown_drain v c b"
| "bus_step v AClear b = shutdown_clear v b"
| "bus_step v AFinish b = shutdown_finish b"

text \<open>Subscribing to no type panics on the evolution bus, as the code says; such calls are excluded.\<close>

definition allowed :: "bus_variant \<Rightarrow> bus_action \<Rightarrow> bool" where
  "allowed v a = (case a of ASubscribe types \<Rightarrow> types \<noteq> [] \<or> emptyTypes v \<noteq> None | _ \<Rightarrow> True)"

inductive reachable :: "bus_variant \<Rightarrow> bus \<Rightarrow> bus \<Rightarrow> bool" for v b0 where
  reach_init: "reachable v b0 b0"
| reach_step: "reachable v b0 b \<Longrightarrow> allowed v a \<Longrightarrow> bus_step v a b = Some b' \<Longrightarrow> reachable v b0 b'"

section \<open>Totals\<close>

definition total :: "nat \<Rightarrow> (nat \<Rightarrow> 'a list) \<Rightarrow> int" where
  "total n f = (\<Sum>c<n. int (length (f c)))"

lemma total_update:
  assumes "c < n"
  shows "total n (f(c := ys)) = total n f - int (length (f c)) + int (length ys)"
proof -
  have "total n (f(c := ys)) = int (length ys) + (\<Sum>x\<in>{..<n} - {c}. int (length (f x)))"
    unfolding total_def using assms by (subst sum.remove [of _ c]) (auto intro: sum.cong)
  moreover have "total n f = int (length (f c)) + (\<Sum>x\<in>{..<n} - {c}. int (length (f x)))"
    unfolding total_def using assms by (subst sum.remove [of _ c]) auto
  ultimately show ?thesis by simp
qed

lemma total_Suc [simp]: "total (Suc n) f = total n f + int (length (f n))"
  by (simp add: total_def)

lemma total_nonneg [simp]: "0 \<le> total n f"
  by (simp add: total_def sum_nonneg)

lemma total_ge: "c < n \<Longrightarrow> int (length (f c)) \<le> total n f"
  unfolding total_def by (rule member_le_sum) auto

section \<open>The invariant\<close>

fun selecting :: "post_pc \<Rightarrow> bool" where
  "selecting (Selecting _ _ _) = True"
| "selecting _ = False"

fun active :: "post_pc \<Rightarrow> bool" where
  "active (Left _) = False"
| "active _ = True"

fun pc_channels :: "post_pc \<Rightarrow> nat set" where
  "pc_channels (Looping _ cs _) = set cs"
| "pc_channels (Selecting _ cs _) = set cs"
| "pc_channels _ = {}"

fun pc_index_ok :: "post_pc \<Rightarrow> bool" where
  "pc_index_ok (Selecting _ cs i) = (i < length cs)"
| "pc_index_ok _ = True"

definition after_close :: "bus \<Rightarrow> bool" where
  "after_close b = (shutdownPc b \<in> {Draining, Waiting, Down})"

text \<open>Every message that counts as in progress is in a select, in a buffer or with a consumer.\<close>

definition counters_ok :: "bus \<Rightarrow> bool" where
  "counters_ok b \<longleftrightarrow>
     processingWg b = cnt selecting (posts b) + total (chanCount b) (chanBuf b) + int (length (unacked b)) \<and>
     activePostsWg b = cnt active (posts b)"

definition channels_ok :: "bus \<Rightarrow> bool" where
  "channels_ok b \<longleftrightarrow>
     (\<forall>c\<ge>chanCount b. chanBuf b c = [] \<and> \<not> chanClosed b c) \<and>
     (\<forall>c\<in>set (all_channels b). c < chanCount b) \<and>
     (\<forall>q\<in>set (posts b). pc_index_ok q \<and> (\<forall>c\<in>pc_channels q. c < chanCount b)) \<and>
     (\<forall>c. sentLog b c = takenLog b c @ chanBuf b c \<and> length (chanBuf b c) \<le> bufferSize b)"

definition phase_ok :: "bus \<Rightarrow> bool" where
  "phase_ok b \<longleftrightarrow>
     \<not> panicked b \<and>
     (isShutdown b \<longleftrightarrow> shutdownPc b \<noteq> Running) \<and>
     (shutdownChanClosed b \<longleftrightarrow> shutdownPc b \<notin> {Running, Flagged}) \<and>
     (after_close b \<longrightarrow> activePostsWg b = 0) \<and>
     (\<not> after_close b \<longrightarrow> (\<forall>c\<in>set (all_channels b). \<not> chanClosed b c) \<and> (\<forall>q\<in>set (posts b). \<forall>c\<in>pc_channels q. \<not> chanClosed b c)) \<and>
     (shutdownPc b = Down \<longrightarrow> processingWg b = 0)"

definition bus_inv :: "bus \<Rightarrow> bool" where
  "bus_inv b \<longleftrightarrow> counters_ok b \<and> channels_ok b \<and> phase_ok b"

lemmas bus_inv_defs = bus_inv_def counters_ok_def channels_ok_def phase_ok_def

lemma new_bus_inv: "bus_inv (new_bus n)"
  by (simp add: bus_inv_defs new_bus_def after_close_def all_channels_def total_def)

section \<open>Every step keeps the invariant\<close>

lemma post_at_Some: "post_at b p = Some q \<longleftrightarrow> p < length (posts b) \<and> posts b ! p = q"
  by (auto simp: post_at_def)

lemma ball_update: "\<forall>x\<in>set xs. P x \<Longrightarrow> P y \<Longrightarrow> \<forall>x\<in>set (xs[p := y]). P x"
  using set_update_subset_insert [of xs p y] by blast

text \<open>An active post means that channels are not closed yet and that its counter is positive.\<close>

lemma active_post:
  assumes "bus_inv b" and "post_at b p = Some q" and "active q"
  shows "0 < activePostsWg b" and "\<not> after_close b"
    and "\<And>c. c \<in> pc_channels q \<Longrightarrow> \<not> chanClosed b c \<and> c < chanCount b" and "pc_index_ok q"
proof -
  have q: "q \<in> set (posts b)" using assms(2) by (auto simp: post_at_Some)
  show pos: "0 < activePostsWg b"
    using cnt_pos [of q "posts b" active, OF q] assms(1,3) by (simp add: bus_inv_defs)
  show nc: "\<not> after_close b" using pos assms(1) by (auto simp: bus_inv_defs)
  show "pc_index_ok q" using q assms(1) by (auto simp: bus_inv_defs)
  fix c assume "c \<in> pc_channels q"
  then show "\<not> chanClosed b c \<and> c < chanCount b" using q nc assms(1) by (auto simp: bus_inv_defs)
qed

lemma selecting_post:
  assumes "bus_inv b" and "post_at b p = Some q" and "selecting q"
  shows "0 < processingWg b"
proof -
  have "q \<in> set (posts b)" using assms(2) by (auto simp: post_at_Some)
  then have "0 < cnt selecting (posts b)" using cnt_pos [of q "posts b" selecting] assms(3) by simp
  moreover have "processingWg b = cnt selecting (posts b) + total (chanCount b) (chanBuf b) + int (length (unacked b))"
    using assms(1) by (simp add: bus_inv_def counters_ok_def)
  ultimately show ?thesis using total_nonneg [of "chanCount b" "chanBuf b"] by linarith
qed

text \<open>
  A post that moves within its list: the other fields stay, and the counts change by what the old
  and the new position contribute.
\<close>

lemma channels_ok_post:
  assumes "channels_ok b" and "pc_index_ok q" and "\<And>c. c \<in> pc_channels q \<Longrightarrow> c < chanCount b"
  shows "channels_ok (set_post p q b)"
  using assms ball_update [of "posts b" "\<lambda>q. pc_index_ok q \<and> (\<forall>c\<in>pc_channels q. c < chanCount b)" q p]
  by (auto simp: channels_ok_def set_post_def all_channels_def)

lemma phase_ok_post:
  assumes "phase_ok b" and "\<not> after_close b" and "\<And>c. c \<in> pc_channels q \<Longrightarrow> \<not> chanClosed b c"
  shows "phase_ok (set_post p q b)"
proof -
  have "\<forall>q\<in>set ((posts b)[p := q]). \<forall>c\<in>pc_channels q. \<not> chanClosed b c"
    by (rule ball_update) (use assms in \<open>auto simp: phase_ok_def\<close>)
  then show ?thesis
    using assms(1,2) by (simp add: phase_ok_def set_post_def all_channels_def after_close_def)
qed

lemma enter_inv:
  assumes "bus_inv b"
  shows "bus_inv (post_enter v msg uuid now b)"
  using assms by (auto simp: bus_inv_defs post_enter_def all_channels_def after_close_def)

lemma subs_of_set: "c \<in> set (subs_of m ty) \<Longrightarrow> c \<in> set (concat (map snd m))"
  by (cases "map_of m ty") (force simp: subs_of_def dest: map_of_SomeD)+

text \<open>What both buses address are subscribed channels.\<close>

definition targets_ok :: "bus_variant \<Rightarrow> bool" where
  "targets_ok v \<longleftrightarrow> (\<forall>m ty cs c. targets v m ty cs \<longrightarrow> c \<in> set cs \<longrightarrow> c \<in> set (concat (map snd m)))"

lemma evolution_targets: "targets_ok evolution_bus"
  by (simp add: targets_ok_def evolution_bus_def subs_of_set del: set_concat set_map)

lemma cognitive_targets: "targets_ok cognitive_bus"
  unfolding targets_ok_def cognitive_bus_def using subs_of_set by (fastforce simp del: set_concat set_map)

lemma read_inv:
  assumes inv: "bus_inv b" and v: "targets_ok v" and step: "post_read v p cs b = Some b'"
  shows "bus_inv b'"
proof -
  obtain msg where at: "post_at b p = Some (Entered msg)" and t: "targets v (subscribers b) (msgType msg) cs"
      and b': "b' = set_post p (if cs = [] then Leaving PostOK else Looping msg cs 0) b"
    using step by (auto simp: post_read_def split: option.splits post_pc.splits if_splits)
  note act = active_post [OF inv at]
  have sub: "c \<in> set (all_channels b)" if "c \<in> set cs" for c
    using v t that by (auto simp: targets_ok_def all_channels_def simp del: set_concat set_map)
  have cs: "c < chanCount b" "\<not> chanClosed b c" if "c \<in> set cs" for c
    using sub [OF that] inv act(2) by (auto simp: bus_inv_def channels_ok_def phase_ok_def)
  have "counters_ok b'"
    using inv at unfolding b' by (auto simp: bus_inv_def counters_ok_def set_post_def post_at_Some cnt_update)
  moreover have "channels_ok b'" "phase_ok b'"
    using inv act cs unfolding b' bus_inv_def by (auto intro!: channels_ok_post phase_ok_post split: if_splits)
  ultimately show ?thesis by (simp add: bus_inv_def)
qed

lemma next_inv:
  assumes inv: "bus_inv b" and step: "post_next p b = Some b'"
  shows "bus_inv b'"
proof -
  obtain msg cs i where at: "post_at b p = Some (Looping msg cs i)"
    using step by (auto simp: post_next_def split: option.splits post_pc.splits)
  note act = active_post [OF inv at]
  have base: "channels_ok (b\<lparr>processingWg := processingWg b + 1\<rparr>)"
    using inv by (simp add: bus_inv_def channels_ok_def all_channels_def)
  have phase: "phase_ok (b\<lparr>processingWg := processingWg b + 1\<rparr>)"
    using inv act by (simp add: bus_inv_def phase_ok_def all_channels_def after_close_def)
  show ?thesis
  proof (cases "i < length cs")
    case True
    then have b': "b' = set_post p (Selecting msg cs i) (b\<lparr>processingWg := processingWg b + 1\<rparr>)"
      using step at by (simp add: post_next_def)
    have "counters_ok b'"
      using inv at unfolding b' by (auto simp: bus_inv_def counters_ok_def set_post_def post_at_Some cnt_update)
    moreover have "channels_ok b'"
      unfolding b' using act True by (intro channels_ok_post [OF base]) auto
    moreover have "phase_ok b'"
      unfolding b' using act by (intro phase_ok_post [OF phase]) (auto simp: after_close_def)
    ultimately show ?thesis by (simp add: bus_inv_def)
  next
    case False
    then have b': "b' = set_post p (Leaving PostOK) b" using step at by (simp add: post_next_def)
    have "counters_ok b'"
      using inv at unfolding b' by (auto simp: bus_inv_def counters_ok_def set_post_def post_at_Some cnt_update)
    moreover have "channels_ok b'" "phase_ok b'"
      unfolding b' using inv act by (auto simp: bus_inv_def intro!: channels_ok_post phase_ok_post)
    ultimately show ?thesis by (simp add: bus_inv_def)
  qed
qed

lemma send_inv:
  assumes inv: "bus_inv b" and step: "post_send p b = Some b' \<or> post_hand p b = Some b'"
  shows "bus_inv b'"
proof -
  obtain msg cs i where at: "post_at b p = Some (Selecting msg cs i)"
    using step by (auto simp: post_send_def post_hand_def split: option.splits post_pc.splits)
  note act = active_post [OF inv at]
  let ?c = "cs ! i"
  have i: "i < length cs" using act(4) by simp
  then have c: "\<not> chanClosed b ?c" "?c < chanCount b" using act(3) by auto
  let ?b1 = "b\<lparr>chanBuf := (chanBuf b)(?c := chanBuf b ?c @ [msg]), sentLog := (sentLog b)(?c := sentLog b ?c @ [msg])\<rparr>"
  let ?b2 = "b\<lparr>unacked := unacked b @ [(?c, msg)], sentLog := (sentLog b)(?c := sentLog b ?c @ [msg]),
      takenLog := (takenLog b)(?c := takenLog b ?c @ [msg])\<rparr>"
  have "b' = set_post p (Looping msg cs (Suc i)) ?b1 \<and> length (chanBuf b ?c) < bufferSize b \<or>
      b' = set_post p (Looping msg cs (Suc i)) ?b2 \<and> chanBuf b ?c = []"
    using step at c inv by (auto simp: post_send_def post_hand_def Let_def bus_inv_def channels_ok_def split: if_splits)
  then show ?thesis
  proof
    assume "b' = set_post p (Looping msg cs (Suc i)) ?b1 \<and> length (chanBuf b ?c) < bufferSize b"
    then have b': "b' = set_post p (Looping msg cs (Suc i)) ?b1" and len: "length (chanBuf b ?c) < bufferSize b" by blast+
    have "counters_ok b'"
      using inv at c(2) unfolding b' by (auto simp: bus_inv_def counters_ok_def set_post_def post_at_Some cnt_update total_update)
    moreover have "channels_ok ?b1"
      using inv c(2) len by (auto simp: bus_inv_def channels_ok_def all_channels_def)
    moreover have "phase_ok ?b1"
      using inv by (simp add: bus_inv_def phase_ok_def all_channels_def after_close_def)
    ultimately show ?thesis
      unfolding b' bus_inv_def using act by (auto intro!: channels_ok_post phase_ok_post simp: after_close_def)
  next
    assume "b' = set_post p (Looping msg cs (Suc i)) ?b2 \<and> chanBuf b ?c = []"
    then have b': "b' = set_post p (Looping msg cs (Suc i)) ?b2" and empty: "chanBuf b ?c = []" by blast+
    have "counters_ok b'"
      using inv at unfolding b' by (auto simp: bus_inv_def counters_ok_def set_post_def post_at_Some cnt_update)
    moreover have "channels_ok ?b2"
      using inv c(2) empty by (auto simp: bus_inv_def channels_ok_def all_channels_def)
    moreover have "phase_ok ?b2"
      using inv by (simp add: bus_inv_def phase_ok_def all_channels_def after_close_def)
    ultimately show ?thesis
      unfolding b' bus_inv_def using act by (auto intro!: channels_ok_post phase_ok_post simp: after_close_def)
  qed
qed

lemma give_up_inv:
  assumes inv: "bus_inv b" and step: "post_give_up p r b = Some b'"
  shows "bus_inv b'"
proof -
  obtain msg cs i where at: "post_at b p = Some (Selecting msg cs i)" and b': "b' = set_post p (Leaving r) (processing_done b)"
    using step by (auto simp: post_give_up_def split: option.splits post_pc.splits if_splits)
  note act = active_post [OF inv at]
  have pos: "0 < processingWg b" using selecting_post [OF inv at] by simp
  have "counters_ok b'"
    using inv at unfolding b'
    by (auto simp: bus_inv_def counters_ok_def set_post_def post_at_Some cnt_update processing_done_def)
  moreover have "channels_ok (processing_done b)" "phase_ok (processing_done b)"
    using inv pos act by (auto simp: bus_inv_defs all_channels_def after_close_def processing_done_def)
  then have "channels_ok b'" "phase_ok b'"
    unfolding b' using act by (auto intro!: channels_ok_post phase_ok_post simp: after_close_def processing_done_def)
  ultimately show ?thesis by (simp add: bus_inv_def)
qed

lemma return_inv:
  assumes inv: "bus_inv b" and step: "post_return p b = Some b'"
  shows "bus_inv b'"
proof -
  obtain r where at: "post_at b p = Some (Leaving r)" and b': "b' = set_post p (Left r) (active_done b)"
    using step by (auto simp: post_return_def split: option.splits post_pc.splits)
  note act = active_post [OF inv at]
  have "counters_ok b'"
    using inv at unfolding b'
    by (auto simp: bus_inv_def counters_ok_def set_post_def post_at_Some cnt_update active_done_def)
  moreover have "channels_ok (active_done b)" "phase_ok (active_done b)"
    using inv act by (auto simp: bus_inv_defs all_channels_def after_close_def active_done_def)
  then have "channels_ok b'" "phase_ok b'"
    unfolding b' using act by (auto intro!: channels_ok_post phase_ok_post simp: after_close_def active_done_def)
  ultimately show ?thesis by (simp add: bus_inv_def)
qed

definition chans :: "sub_map \<Rightarrow> nat set" where
  "chans m = set (concat (map snd m))"

lemma all_channels_chans: "set (all_channels b) = chans (subscribers b)"
  by (simp add: all_channels_def chans_def)

lemma subs_of_chans: "set (subs_of m ty) \<subseteq> chans m"
  using subs_of_set unfolding chans_def by blast

lemma update_channels: "chans (AList.update ty cs m) \<subseteq> set cs \<union> chans m"
proof -
  have "x \<in> set (AList.update ty cs m) \<Longrightarrow> x = (ty, cs) \<or> x \<in> set m" for x
    by (induction m) (auto split: if_splits)
  then show ?thesis unfolding chans_def by fastforce
qed

lemma delete_channels: "chans (AList.delete ty m) \<subseteq> chans m"
  unfolding chans_def by (auto simp: AList.delete_eq)

lemma fold_subset:
  assumes "\<And>x m. x \<in> set xs \<Longrightarrow> f m \<subseteq> S \<Longrightarrow> f (g x m) \<subseteq> S" and "f m \<subseteq> S"
  shows "f (fold g xs m) \<subseteq> S"
  using assms by (induction xs arbitrary: m) auto

lemma subscribe_channels:
  "chans (fold (\<lambda>ty subs. AList.update ty (subs_of subs ty @ [c]) subs) tys m) \<subseteq> insert c (chans m)"
proof (rule fold_subset)
  fix ty m' assume m': "chans m' \<subseteq> insert c (chans m)"
  have "chans (AList.update ty (subs_of m' ty @ [c]) m') \<subseteq> insert c (set (subs_of m' ty)) \<union> chans m'"
    using update_channels [of ty "subs_of m' ty @ [c]" m'] by auto
  then show "chans (AList.update ty (subs_of m' ty @ [c]) m') \<subseteq> insert c (chans m)"
    using m' subs_of_chans [of m' ty] by blast
qed blast

lemma unsubscribe_channels: "chans (fold (remove_sub c) tys m) \<subseteq> chans m"
proof (rule fold_subset)
  fix ty m' assume m': "chans m' \<subseteq> chans m"
  have "chans (AList.update ty (remove1 c (subs_of m' ty)) m') \<subseteq> chans m'"
    using update_channels [of ty "remove1 c (subs_of m' ty)" m'] set_remove1_subset [of c "subs_of m' ty"]
      subs_of_chans [of m' ty] by blast
  then show "chans (remove_sub c ty m') \<subseteq> chans m"
    using m' delete_channels [of ty m'] unfolding remove_sub_def by (auto dest: subset_trans)
qed blast

lemma Subscribe_inv:
  assumes inv: "bus_inv b" and ok: "types \<noteq> [] \<or> emptyTypes v \<noteq> None" and step: "Subscribe v types b = Some b'"
  shows "bus_inv b'"
proof -
  have fresh: "chanBuf b (chanCount b) = []" "\<not> chanClosed b (chanCount b)"
    using inv by (auto simp: bus_inv_def channels_ok_def)
  consider (closed) "b' = b\<lparr>chanCount := Suc (chanCount b), chanClosed := (chanClosed b)(chanCount b := True)\<rparr>"
    | (added) tys where "b' = b\<lparr>chanCount := Suc (chanCount b),
        subscribers := fold (\<lambda>ty subs. AList.update ty (subs_of subs ty @ [chanCount b]) subs) tys (subscribers b)\<rparr>"
    using step ok by (auto simp: Subscribe_def split: if_splits option.splits)
  then show ?thesis
  proof cases
    case closed
    have "c < chanCount b" if "c \<in> set (all_channels b)" for c using inv that by (auto simp: bus_inv_def channels_ok_def)
    moreover have "c < chanCount b" if "q \<in> set (posts b)" "c \<in> pc_channels q" for q c
      using inv that by (auto simp: bus_inv_def channels_ok_def)
    ultimately have "\<forall>c\<in>set (all_channels b). c \<noteq> chanCount b"
        "\<forall>q\<in>set (posts b). \<forall>c\<in>pc_channels q. c \<noteq> chanCount b \<and> c < Suc (chanCount b)" by fastforce+
    note other = this
    have "counters_ok b'" using inv fresh unfolding closed by (simp add: bus_inv_def counters_ok_def)
    moreover have "channels_ok b'"
      using inv other unfolding closed bus_inv_def channels_ok_def by (auto simp: all_channels_def less_Suc_eq)
    moreover have "phase_ok b'"
      using inv other unfolding closed by (simp add: bus_inv_def phase_ok_def all_channels_def after_close_def)
    ultimately show ?thesis by (simp add: bus_inv_def)
  next
    case added
    have sub: "set (all_channels b') \<subseteq> insert (chanCount b) (set (all_channels b))"
      using subscribe_channels [of "chanCount b" tys "subscribers b"] unfolding all_channels_chans by (simp add: added)
    have "counters_ok b'" using inv fresh unfolding added by (simp add: bus_inv_def counters_ok_def)
    moreover have "channels_ok b'"
      using inv sub unfolding bus_inv_def channels_ok_def by (fastforce simp: added simp del: set_concat)
    moreover have "phase_ok b'"
      using inv sub fresh(2) unfolding bus_inv_def phase_ok_def by (auto simp: added after_close_def simp del: set_concat)
    ultimately show ?thesis by (simp add: bus_inv_def)
  qed
qed

lemma unsubscribe_inv:
  assumes inv: "bus_inv b" and step: "unsubscribe c tys b = Some b'"
  shows "bus_inv b'"
proof -
  have b': "b' = b\<lparr>subscribers := fold (remove_sub c) tys (subscribers b)\<rparr>"
    using step by (simp add: unsubscribe_def split: if_splits)
  have sub: "set (all_channels b') \<subseteq> set (all_channels b)"
    using unsubscribe_channels [of c tys "subscribers b"] unfolding all_channels_chans by (simp add: b')
  have "counters_ok b'" using inv unfolding b' by (simp add: bus_inv_def counters_ok_def)
  moreover have "channels_ok b'"
    using inv sub unfolding bus_inv_def channels_ok_def by (auto simp: b' simp del: set_concat)
  moreover have "phase_ok b'"
    using inv sub unfolding bus_inv_def phase_ok_def by (auto simp: b' after_close_def simp del: set_concat)
  ultimately show ?thesis by (simp add: bus_inv_def)
qed

lemma buffer_channel:
  assumes "bus_inv b" and "chanBuf b c = msg # rest"
  shows "c < chanCount b" and "0 < processingWg b"
proof -
  show c: "c < chanCount b" using assms by (metis bus_inv_def channels_ok_def list.discI not_le)
  have "processingWg b = cnt selecting (posts b) + total (chanCount b) (chanBuf b) + int (length (unacked b))"
    using assms(1) by (simp add: bus_inv_def counters_ok_def)
  then show "0 < processingWg b"
    using total_ge [OF c, of "chanBuf b"] assms(2) cnt_nonneg [of selecting "posts b"] of_nat_0_le_iff [of "length (unacked b)"]
    unfolding assms(2) by (simp only: list.size of_nat_Suc)
qed

lemma receive_inv:
  assumes inv: "bus_inv b" and step: "receive c b = Some b'"
  shows "bus_inv b'"
proof -
  obtain msg rest where buf: "chanBuf b c = msg # rest"
      and b': "b' = b\<lparr>chanBuf := (chanBuf b)(c := rest), unacked := unacked b @ [(c, msg)],
                  takenLog := (takenLog b)(c := takenLog b c @ [msg])\<rparr>"
    using step by (auto simp: receive_def split: list.splits)
  note c = buffer_channel(1) [OF inv buf]
  have log: "sentLog b c = takenLog b c @ msg # rest" "Suc (length rest) \<le> bufferSize b"
    using inv buf unfolding bus_inv_def channels_ok_def by (metis, metis length_Cons)
  have "counters_ok b'" using inv c buf unfolding b' by (simp add: bus_inv_def counters_ok_def total_update)
  moreover have "channels_ok b'"
    using inv c log unfolding b' bus_inv_def channels_ok_def by (auto simp: all_channels_def)
  moreover have "phase_ok b'"
    using inv unfolding b' by (simp add: bus_inv_def phase_ok_def all_channels_def after_close_def)
  ultimately show ?thesis by (simp add: bus_inv_def)
qed

lemma ack_inv:
  assumes inv: "bus_inv b" and step: "Acknowledge c msg b = Some b'"
  shows "bus_inv b'"
proof -
  have mem: "(c, msg) \<in> set (unacked b)"
      and b': "b' = processing_done (b\<lparr>unacked := remove1 (c, msg) (unacked b)\<rparr>)"
    using step by (auto simp: Acknowledge_def split: if_splits)
  have len: "0 < length (unacked b)" using mem by (auto intro: length_pos_if_in_set)
  have eq: "processingWg b = cnt selecting (posts b) + total (chanCount b) (chanBuf b) + int (length (unacked b))"
    using inv by (simp add: bus_inv_def counters_ok_def)
  have pos: "0 < processingWg b"
    using eq len cnt_nonneg [of selecting "posts b"] total_nonneg [of "chanCount b" "chanBuf b"] by linarith
  have "counters_ok b'"
    using inv mem len unfolding b'
    by (cases "unacked b") (simp_all add: bus_inv_def counters_ok_def processing_done_def length_remove1 del: remove1.simps)
  moreover have "channels_ok b'"
    using inv unfolding b' by (simp add: bus_inv_def channels_ok_def all_channels_def processing_done_def)
  moreover have "phase_ok b'"
    using inv pos unfolding b' by (auto simp: bus_inv_def phase_ok_def all_channels_def after_close_def processing_done_def)
  ultimately show ?thesis by (simp add: bus_inv_def)
qed

lemma close_inv:
  assumes inv: "bus_inv b" and step: "shutdown_close cs b = Some b'"
  shows "bus_inv b'"
proof -
  have pc: "shutdownPc b = Signalled" "activePostsWg b = 0" and cs: "set cs = set (all_channels b)"
      and b': "b' = b\<lparr>chanClosed := (\<lambda>c. chanClosed b c \<or> c \<in> set cs),
                   panicked := panicked b \<or> (\<exists>c\<in>set cs. chanClosed b c), closing := cs, shutdownPc := Draining\<rparr>"
    using step by (auto simp: shutdown_close_def split: if_splits)
  have ph: "phase_ok b" and ch: "channels_ok b" using inv by (simp_all add: bus_inv_def)
  have open_all: "\<forall>c\<in>set cs. \<not> chanClosed b c"
    using ph pc(1) cs by (simp add: phase_ok_def after_close_def)
  have "counters_ok b'" using inv unfolding b' by (simp add: bus_inv_def counters_ok_def)
  moreover have "channels_ok b'"
    using ch cs unfolding b' channels_ok_def by (auto simp: all_channels_chans not_less [symmetric])
  moreover have "phase_ok b'"
    using ph pc open_all unfolding b' by (simp add: phase_ok_def after_close_def)
  ultimately show ?thesis by (simp add: bus_inv_def)
qed

lemma drain_inv:
  assumes inv: "bus_inv b" and step: "shutdown_drain v c b = Some b'"
  shows "bus_inv b'"
proof -
  obtain msg rest where buf: "chanBuf b c = msg # rest" and pc: "shutdownPc b = Draining"
      and b': "b' = processing_done (b\<lparr>chanBuf := (chanBuf b)(c := rest), takenLog := (takenLog b)(c := takenLog b c @ [msg])\<rparr>)"
    using step by (auto simp: shutdown_drain_def split: if_splits list.splits)
  note c = buffer_channel [OF inv buf]
  have log: "sentLog b c = takenLog b c @ msg # rest" "Suc (length rest) \<le> bufferSize b"
    using inv buf unfolding bus_inv_def channels_ok_def by (metis, metis length_Cons)
  have "counters_ok b'"
    using inv c(1) buf unfolding b' by (simp add: bus_inv_def counters_ok_def total_update processing_done_def)
  moreover have "channels_ok b'"
    using inv c(1) log unfolding b' bus_inv_def channels_ok_def by (auto simp: all_channels_def processing_done_def)
  moreover have "phase_ok b'"
    using inv c(2) pc unfolding b' by (simp add: bus_inv_def phase_ok_def all_channels_def after_close_def processing_done_def)
  ultimately show ?thesis by (simp add: bus_inv_def)
qed

lemma shutdown_inv:
  assumes inv: "bus_inv b"
    and step: "shutdown_flag b = Some b' \<or> shutdown_signal b = Some b' \<or> shutdown_clear v b = Some b' \<or> shutdown_finish b = Some b'"
  shows "bus_inv b'"
  using step inv
  by (auto simp: shutdown_flag_def shutdown_signal_def shutdown_clear_def shutdown_finish_def bus_inv_defs
      after_close_def all_channels_def split: if_splits)

lemma step_inv:
  assumes "bus_inv b" and "targets_ok v" and "allowed v a" and "bus_step v a b = Some b'"
  shows "bus_inv b'"
  using assms
  by (cases a) (auto simp: allowed_def intro: enter_inv read_inv next_inv send_inv give_up_inv return_inv Subscribe_inv
      unsubscribe_inv receive_inv ack_inv close_inv drain_inv shutdown_inv)

section \<open>The interface of a bus\<close>

text \<open>
  What the proofs need of a variant: a post addresses subscribed channels, and there is always a
  possible set of addressees. Both buses satisfy it.
\<close>

fun bus_run :: "bus_variant \<Rightarrow> bus_action list \<Rightarrow> bus \<Rightarrow> bus option" where
  "bus_run v [] b = Some b"
| "bus_run v (a # as) b = Option.bind (bus_step v a b) (bus_run v as)"

text \<open>The steps a goroutine inside \<^verbatim>\<open>Post\<close> takes without any consumer.\<close>

fun post_action :: "bus_action \<Rightarrow> bool" where
  "post_action (ARead _ _) = True"
| "post_action (ANext _) = True"
| "post_action (AGiveUp _ r) = (r = PostAborted)"
| "post_action (AReturn _) = True"
| "post_action _ = False"

fun pc_rank :: "post_pc \<Rightarrow> nat" where
  "pc_rank (Entered _) = 4"
| "pc_rank (Looping _ _ _) = 3"
| "pc_rank (Selecting _ _ _) = 2"
| "pc_rank (Leaving _) = 1"
| "pc_rank (Left _) = 0"

lemma rank_update: "p < length xs \<Longrightarrow> pc_rank y < pc_rank (xs ! p) \<Longrightarrow>
    sum_list (map pc_rank (xs[p := y])) < sum_list (map pc_rank xs)"
proof (induction xs arbitrary: p)
  case (Cons x xs)
  then show ?case by (cases p) auto
qed simp

lemma run_append: "bus_run v (as @ bs) b = Option.bind (bus_run v as b) (bus_run v bs)"
  by (induction as arbitrary: b) (auto split: bind_splits)

locale message_bus =
  fixes v :: bus_variant
  assumes targets_subscribed: "targets_ok v"
    and targets_exist: "\<exists>cs. targets v m ty cs"
begin

lemma reachable_inv: "reachable v (new_bus n) b \<Longrightarrow> bus_inv b"
  by (induction rule: reachable.induct) (auto intro: new_bus_inv step_inv [OF _ targets_subscribed])

lemma post_progress:
  assumes inv: "bus_inv b" and sig: "shutdownChanClosed b" and act: "activePostsWg b \<noteq> 0"
  shows "\<exists>a b'. post_action a \<and> bus_step v a b = Some b' \<and> shutdownChanClosed b' \<and>
           sum_list (map pc_rank (posts b')) < sum_list (map pc_rank (posts b))"
proof -
  have "cnt active (posts b) \<noteq> 0" using inv act by (simp add: bus_inv_def counters_ok_def)
  then obtain q where "q \<in> set (posts b)" "active q" by (auto simp: cnt_zero)
  then obtain p where p: "p < length (posts b)" "posts b ! p = q" by (auto simp: in_set_conv_nth)
  then have at: "post_at b p = Some q" by (simp add: post_at_def)
  note ap = active_post [OF inv at \<open>active q\<close>]
  have free: "mu_free b" using ap(2) by (simp add: mu_free_def after_close_def)
  note less = rank_update [OF p(1), unfolded p(2)]
  show ?thesis
  proof (cases q)
    case (Entered msg)
    obtain cs where "targets v (subscribers b) (msgType msg) cs" using targets_exist by blast
    then show ?thesis
      using at free sig less Entered
      by (intro exI [of _ "ARead p cs"]) (auto simp: post_read_def set_post_def)
  next
    case (Looping msg cs i)
    then show ?thesis
      using at sig less by (intro exI [of _ "ANext p"]) (auto simp: post_next_def set_post_def)
  next
    case (Selecting msg cs i)
    then show ?thesis
      using at sig less
      by (intro exI [of _ "AGiveUp p PostAborted"]) (auto simp: post_give_up_def set_post_def processing_done_def)
  next
    case (Leaving r)
    then show ?thesis
      using at sig less by (intro exI [of _ "AReturn p"]) (auto simp: post_return_def set_post_def active_done_def)
  qed (use \<open>active q\<close> in simp)
qed

lemma posts_finish:
  assumes "bus_inv b" and "shutdownChanClosed b"
  shows "\<exists>as b'. list_all post_action as \<and> length as \<le> sum_list (map pc_rank (posts b)) \<and>
           bus_run v as b = Some b' \<and> bus_inv b' \<and> activePostsWg b' = 0"
  using assms
proof (induction "sum_list (map pc_rank (posts b))" arbitrary: b rule: less_induct)
  case less
  show ?case
  proof (cases "activePostsWg b = 0")
    case True
    then show ?thesis using less.prems by (intro exI [of _ "[]"]) auto
  next
    case False
    obtain a b1 where a: "post_action a" "bus_step v a b = Some b1" "shutdownChanClosed b1"
        "sum_list (map pc_rank (posts b1)) < sum_list (map pc_rank (posts b))"
      using post_progress [OF less.prems False] by blast
    have "bus_inv b1"
      using step_inv [OF less.prems(1) targets_subscribed _ a(2)] a(1) by (cases a) (auto simp: allowed_def)
    from less.hyps [OF a(4) this a(3)] obtain as b' where
      "list_all post_action as" "length as \<le> sum_list (map pc_rank (posts b1))" "bus_run v as b1 = Some b'" "bus_inv b'" "activePostsWg b' = 0"
      by blast
    then show ?thesis using a by (intro exI [of _ "a # as"]) auto
  qed
qed

end

interpretation evolution: message_bus evolution_bus
  by unfold_locales (simp add: evolution_targets, simp add: evolution_bus_def)

interpretation cognitive: message_bus cognitive_bus
proof
  show "targets_ok cognitive_bus" by (rule cognitive_targets)
  show "\<exists>cs. targets cognitive_bus m ty cs" for m ty
    by (rule exI [of _ "remdups (subs_of m ty @ subs_of m [])"]) (auto simp: cognitive_bus_def)
qed

section \<open>Properties\<close>

definition is_bus :: "bus_variant \<Rightarrow> bus \<Rightarrow> bool" where
  "is_bus v b0 \<longleftrightarrow> v = evolution_bus \<and> (\<exists>n. b0 = NewEvolutionBus n) \<or> v = cognitive_bus \<and> (\<exists>n. b0 = NewCognitiveBus n)"

lemma is_bus_inv: "is_bus v b0 \<Longrightarrow> reachable v b0 b \<Longrightarrow> bus_inv b"
  using evolution.reachable_inv cognitive.reachable_inv
  by (auto simp: is_bus_def NewEvolutionBus_def NewCognitiveBus_def)

text \<open>
  C18. In every interleaving of posts, subscriptions, consumers and shutdown, neither bus panics (no
  send on or close of a closed channel, no negative wait group), the processing counter is exactly
  the number of messages in a select, in a buffer or with a consumer, the post counter exactly the
  number of running posts, no buffer exceeds its size, and each channel hands out its messages in
  the order they were sent, none lost and none twice.
\<close>

theorem bus_accounting:
  assumes "is_bus v b0" and "reachable v b0 b"
  shows "\<not> panicked b \<and>
         processingWg b = cnt selecting (posts b) + total (chanCount b) (chanBuf b) + int (length (unacked b)) \<and>
         activePostsWg b = cnt active (posts b) \<and>
         (\<forall>c. length (chanBuf b c) \<le> bufferSize b \<and> sentLog b c = takenLog b c @ chanBuf b c)"
  using is_bus_inv [OF assms] by (simp add: bus_inv_defs)

definition sample_message :: bus_message where
  "sample_message = \<lparr>msgID = [], msgTimestamp = 0, msgType = ''GOAL'', msgPayload = ''x''\<rparr>"

lemma reachable_run:
  assumes "reachable v b0 b" and "list_all (allowed v) as" and "bus_run v as b = Some b'"
  shows "reachable v b0 b'"
  using assms by (induction as arbitrary: b) (auto simp: bind_eq_Some_conv intro: reach_step)

definition post_trace :: "bus_action list" where
  "post_trace = [ASubscribe [''GOAL''], APost sample_message ''u1'' 7, ARead 0 [0], ANext 0, ASend 0, ANext 0, AReturn 0]"

theorem bus_accounting_witness:
  "\<exists>b. bus_run cognitive_bus post_trace (NewCognitiveBus 0) = Some b \<and> \<not> panicked b \<and> processingWg b = 1 \<and>
     length (chanBuf b 0) \<le> 100"
proof -
  have "map_option processingWg (bus_run cognitive_bus post_trace (NewCognitiveBus 0)) = Some 1" by code_simp
  then obtain b where run: "bus_run cognitive_bus post_trace (NewCognitiveBus 0) = Some b" and p: "processingWg b = 1" by auto
  have "map_option bufferSize (bus_run cognitive_bus post_trace (NewCognitiveBus 0)) = Some 100" by code_simp
  then have n: "bufferSize b = 100" using run by simp
  have "list_all (allowed cognitive_bus) post_trace" by (simp add: post_trace_def allowed_def)
  then have r: "reachable cognitive_bus (NewCognitiveBus 0) b"
    using reachable_run [OF reach_init _ run] by blast
  have "is_bus cognitive_bus (NewCognitiveBus 0)" by (auto simp: is_bus_def)
  from bus_accounting [OF this r] have "\<not> panicked b" "length (chanBuf b 0) \<le> bufferSize b" by blast+
  then show ?thesis using run p n by auto
qed

text \<open>
  C21. When Shutdown has returned, nothing is in flight: no post is running, every buffer is empty and
  every received message has been acknowledged; and a post that starts from then on is refused.
\<close>

theorem shutdown_leaves_nothing:
  assumes "is_bus v b0" and "reachable v b0 b" and "shutdownPc b = Down"
  shows "(\<forall>q\<in>set (posts b). \<not> active q) \<and> (\<forall>c. chanBuf b c = []) \<and> unacked b = [] \<and>
         posts (post_enter v msg uuid now b) = posts b @ [Left PostRefused]"
proof -
  note inv = is_bus_inv [OF assms(1,2)]
  have "activePostsWg b = 0" "processingWg b = 0" "isShutdown b"
    using inv assms(3) by (auto simp: bus_inv_def phase_ok_def after_close_def)
  then have "cnt active (posts b) = 0"
      and sum: "cnt selecting (posts b) + total (chanCount b) (chanBuf b) + int (length (unacked b)) = 0"
    using inv by (simp_all add: bus_inv_def counters_ok_def)
  moreover from sum have "total (chanCount b) (chanBuf b) = 0" "int (length (unacked b)) = 0"
    using cnt_nonneg [of selecting "posts b"] total_nonneg [of "chanCount b" "chanBuf b"] of_nat_0_le_iff [of "length (unacked b)"]
    by linarith+
  moreover have "chanBuf b c = []" for c
  proof (cases "c < chanCount b")
    case True
    then show ?thesis using total_ge [OF True, of "chanBuf b"] calculation(3) by simp
  next
    case False
    then show ?thesis using inv by (simp add: bus_inv_def channels_ok_def)
  qed
  ultimately show ?thesis
    using \<open>isShutdown b\<close> by (auto simp: cnt_zero post_enter_def)
qed

definition down_trace :: "bus_action list" where
  "down_trace = post_trace @ [AReceive 0, AFlag, ASignal, AClose [0], AClear, AAck 0 (sample_message\<lparr>msgID := ''u1'', msgTimestamp := 7\<rparr>), AFinish]"

theorem shutdown_leaves_nothing_witness:
  "\<exists>b. bus_run evolution_bus down_trace (NewEvolutionBus 1) = Some b \<and> shutdownPc b = Down \<and> unacked b = [] \<and> chanBuf b 0 = []"
proof -
  have "map_option shutdownPc (bus_run evolution_bus down_trace (NewEvolutionBus 1)) = Some Down" by code_simp
  then obtain b where run: "bus_run evolution_bus down_trace (NewEvolutionBus 1) = Some b" and pc: "shutdownPc b = Down" by auto
  have "list_all (allowed evolution_bus) down_trace" by (simp add: down_trace_def post_trace_def allowed_def)
  then have "reachable evolution_bus (NewEvolutionBus 1) b" using reachable_run [OF reach_init _ run] by blast
  moreover have "is_bus evolution_bus (NewEvolutionBus 1)" by (auto simp: is_bus_def)
  ultimately show ?thesis using shutdown_leaves_nothing [OF _ _ pc] run pc by blast
qed

text \<open>
  C23. Posts cannot hold up Shutdown: from every reachable state in which the shutdown channel is
  closed, at most four steps of each post, none of which needs a consumer, bring the post counter
  that Shutdown waits for to zero.
\<close>

theorem shutdown_not_blocked_by_posts:
  assumes "is_bus v b0" and "reachable v b0 b" and "shutdownChanClosed b"
  shows "\<exists>as b'. list_all post_action as \<and> length as \<le> 4 * length (posts b) \<and>
           bus_run v as b = Some b' \<and> activePostsWg b' = 0 \<and> \<not> panicked b'"
proof -
  note inv = is_bus_inv [OF assms(1,2)]
  have "sum_list (map pc_rank qs) \<le> 4 * length qs" for qs
  proof (induction qs)
    case (Cons q qs)
    then show ?case by (cases q) auto
  qed simp
  moreover have "message_bus v"
    using assms(1) evolution.message_bus_axioms cognitive.message_bus_axioms by (auto simp: is_bus_def)
  from message_bus.posts_finish [OF this inv assms(3)] obtain as b' where
    "list_all post_action as" "length as \<le> sum_list (map pc_rank (posts b))" "bus_run v as b = Some b'" "bus_inv b'" "activePostsWg b' = 0"
    by blast
  ultimately show ?thesis using le_trans by (fastforce simp: bus_inv_def phase_ok_def)
qed

definition stuck_trace :: "bus_action list" where
  "stuck_trace = [ASubscribe [''GOAL''], APost sample_message ''u1'' 7, ARead 0 [0], ANext 0, AFlag, ASignal]"

theorem shutdown_not_blocked_by_posts_witness:
  "\<exists>b as b'. bus_run evolution_bus stuck_trace (NewEvolutionBus 0) = Some b \<and> activePostsWg b = 1 \<and>
     list_all post_action as \<and> bus_run evolution_bus as b = Some b' \<and> activePostsWg b' = 0"
proof -
  have "map_option (\<lambda>b. (activePostsWg b, shutdownChanClosed b)) (bus_run evolution_bus stuck_trace (NewEvolutionBus 0)) = Some (1, True)"
    by code_simp
  then obtain b where run: "bus_run evolution_bus stuck_trace (NewEvolutionBus 0) = Some b"
      and b: "activePostsWg b = 1" "shutdownChanClosed b" by auto
  have "list_all (allowed evolution_bus) stuck_trace" by (simp add: stuck_trace_def allowed_def)
  then have r: "reachable evolution_bus (NewEvolutionBus 0) b" using reachable_run [OF reach_init _ run] by blast
  have "is_bus evolution_bus (NewEvolutionBus 0)" by (auto simp: is_bus_def)
  from shutdown_not_blocked_by_posts [OF this r b(2)] show ?thesis using run b(1) by blast
qed

definition drained :: "bus_variant \<Rightarrow> bus \<Rightarrow> bool" where
  "drained v b \<longleftrightarrow> (drains v \<and> shutdownPc b \<in> {Waiting, Down} \<longrightarrow> (\<forall>c\<in>set (closing b). chanBuf b c = []))"

lemma drained_step:
  assumes inv: "bus_inv b" and d: "drained v b" and step: "bus_step v a b = Some b'"
  shows "drained v b'"
proof -
  have send: "\<not> after_close b" if "post_at b p = Some (Selecting msg cs i)" for p msg cs i
    using active_post(2) [OF inv that] by simp
  show ?thesis
    using d step send
    by (cases a)
      (auto simp: drained_def post_enter_def post_read_def post_next_def post_send_def post_hand_def post_give_up_def
        post_return_def Subscribe_def unsubscribe_def receive_def Acknowledge_def shutdown_flag_def shutdown_signal_def
        shutdown_close_def shutdown_drain_def shutdown_clear_def shutdown_finish_def set_post_def processing_done_def
        active_done_def after_close_def Let_def split: if_splits option.splits post_pc.splits list.splits)
qed

lemma reachable_drained: "reachable v b0 b \<Longrightarrow> is_bus v b0 \<Longrightarrow> drained v b"
proof (induction rule: reachable.induct)
  case reach_init
  then show ?case by (auto simp: is_bus_def drained_def NewEvolutionBus_def NewCognitiveBus_def new_bus_def)
next
  case (reach_step b a b')
  then show ?case using drained_step is_bus_inv by blast
qed

text \<open>
  What the final wait of the evolution bus waits for: every channel that was subscribed when the
  channels were closed is empty by then, so the counter is the number of received messages not yet
  acknowledged plus the messages left in channels whose consumer had unsubscribed.
\<close>

theorem evolution_wait_characterised:
  assumes "reachable evolution_bus (NewEvolutionBus n) b" and "shutdownPc b = Waiting"
  shows "(\<forall>c\<in>set (closing b). chanBuf b c = []) \<and>
         processingWg b = int (length (unacked b)) + (\<Sum>c\<in>{..<chanCount b} - set (closing b). int (length (chanBuf b c)))"
proof -
  have bus: "is_bus evolution_bus (NewEvolutionBus n)" by (auto simp: is_bus_def)
  have empty: "\<forall>c\<in>set (closing b). chanBuf b c = []"
    using reachable_drained [OF assms(1) bus] assms(2) by (simp add: drained_def evolution_bus_def)
  note inv = is_bus_inv [OF bus assms(1)]
  have "activePostsWg b = 0" using inv assms(2) by (simp add: bus_inv_def phase_ok_def after_close_def)
  then have "cnt active (posts b) = 0" using inv by (simp add: bus_inv_def counters_ok_def)
  then have "cnt selecting (posts b) = 0" by (auto simp: cnt_zero dest!: bspec elim: selecting.elims)
  moreover have "total (chanCount b) (chanBuf b) = (\<Sum>c\<in>{..<chanCount b} - set (closing b). int (length (chanBuf b c)))"
    unfolding total_def using empty by (intro sum.mono_neutral_right) auto
  ultimately show ?thesis using empty inv by (simp add: bus_inv_def counters_ok_def)
qed

text \<open>A consumer unsubscribes with a message in its buffer and leaves; the bus is then shut down.\<close>

definition hang_trace :: "bus_action list" where
  "hang_trace = post_trace @ [AUnsubscribe 0 [''GOAL''], AFlag, ASignal, AClose [], AClear]"

theorem evolution_wait_characterised_witness:
  "\<exists>b. bus_run evolution_bus hang_trace (NewEvolutionBus 1) = Some b \<and> shutdownPc b = Waiting \<and> all_channels b = [] \<and>
     unacked b = [] \<and> processingWg b = 1 \<and> shutdown_finish b = None \<and>
     processingWg b = int (length (unacked b)) + (\<Sum>c\<in>{..<chanCount b} - set (closing b). int (length (chanBuf b c)))"
proof -
  have "map_option (\<lambda>b. (shutdownPc b, all_channels b, unacked b, processingWg b)) (bus_run evolution_bus hang_trace (NewEvolutionBus 1)) =
      Some (Waiting, [], [], 1)" by code_simp
  then obtain b where run: "bus_run evolution_bus hang_trace (NewEvolutionBus 1) = Some b"
      and b: "shutdownPc b = Waiting" "all_channels b = []" "unacked b = []" "processingWg b = 1" by auto
  have "list_all (allowed evolution_bus) hang_trace" by (simp add: hang_trace_def post_trace_def allowed_def)
  then have "reachable evolution_bus (NewEvolutionBus 1) b" using reachable_run [OF reach_init _ run] by blast
  from evolution_wait_characterised [OF this b(1)] run b show ?thesis
    by (intro exI [of _ b]) (simp add: shutdown_finish_def)
qed

end
