(* ===== verification/Results.thy ===== *)
theory Results
  imports Prelude
begin

text \<open>
  The results pipeline (\<^verbatim>\<open>internal/results\<close>): severity normalisation, CWE enrichment from the
  in-memory table, prioritisation, the summary and the whole of \<^verbatim>\<open>ProcessScanResults\<close>; and the
  provider store (\<^verbatim>\<open>internal/results/providers\<close>) with its operations.

  The database behind \<^verbatim>\<open>schemas.Store\<close> is a parameter (its query result for a scan), and so is
  \<^verbatim>\<open>sort.Slice\<close>, for which any function that satisfies \<open>slice_sorter\<close> may stand. A Go map is
  ranged over in an order the language leaves open: \<open>keys\<close> enumerates it for one run.
\<close>

section \<open>Findings\<close>

text \<open>\<^verbatim>\<open>schemas.Finding\<close>; times are nanoseconds, the evidence is its raw JSON text.\<close>

type_synonym severity = string

definition SeverityCritical :: severity where "SeverityCritical = ''critical''"
definition SeverityHigh :: severity where "SeverityHigh = ''high''"
definition SeverityMedium :: severity where "SeverityMedium = ''medium''"
definition SeverityLow :: severity where "SeverityLow = ''low''"
definition SeverityInfo :: severity where "SeverityInfo = ''info''"

lemmas severity_defs = SeverityCritical_def SeverityHigh_def SeverityMedium_def
  SeverityLow_def SeverityInfo_def

record scan_finding =
  ID :: string
  ScanID :: string
  TaskID :: string
  ObservedAt :: int
  Target :: string
  Module :: string
  VulnerabilityName :: string
  Severity :: severity
  Description :: string
  Evidence :: string
  Recommendation :: string
  CWE :: "string list"

section \<open>Normalisation\<close>

text \<open>\<^verbatim>\<open>StandardSeverity\<close> of \<^verbatim>\<open>normalize.go\<close> and its string values.\<close>

datatype StandardSeverity =
  StdCritical | StdHigh | StdMedium | StdLow | StdInfo | StdUnknown

fun standard_string :: "StandardSeverity \<Rightarrow> string" where
  "standard_string StdCritical = ''CRITICAL''"
| "standard_string StdHigh = ''HIGH''"
| "standard_string StdMedium = ''MEDIUM''"
| "standard_string StdLow = ''LOW''"
| "standard_string StdInfo = ''INFO''"
| "standard_string StdUnknown = ''UNKNOWN''"

definition normalizeSeverity :: "string \<Rightarrow> StandardSeverity" where
  "normalizeSeverity rawSeverity =
     (let s = ToUpper (TrimSpace rawSeverity) in
      if s \<in> {''CRITICAL'', ''FATAL''} then StdCritical
      else if s \<in> {''HIGH'', ''IMPORTANT'', ''ERROR''} then StdHigh
      else if s \<in> {''MEDIUM'', ''MODERATE'', ''WARN'', ''WARNING''} then StdMedium
      else if s = ''LOW'' then StdLow
      else if s \<in> {''INFO'', ''INFORMATIONAL'', ''NEGLIGIBLE''} then StdInfo
      else StdUnknown)"

text \<open>\<^verbatim>\<open>NormalizedFinding\<close> embeds the finding; its score starts at zero.\<close>

record NormalizedFinding =
  nfFinding :: scan_finding
  nfScore :: int
  nfSeverity :: string

definition Normalize :: "scan_finding \<Rightarrow> NormalizedFinding" where
  "Normalize f =
     \<lparr>nfFinding = f, nfScore = 0, nfSeverity = standard_string (normalizeSeverity (Severity f))\<rparr>"

section \<open>Enrichment\<close>

record CWEEntry =
  cweID :: string
  cweName :: string
  cweDescription :: string

definition cwe_entry :: "string \<Rightarrow> string \<Rightarrow> string \<Rightarrow> CWEEntry" where
  "cwe_entry i n d = \<lparr>cweID = i, cweName = n, cweDescription = d\<rparr>"

text \<open>The preloaded table of \<^verbatim>\<open>NewInMemoryCWEProvider\<close>.\<close>

definition cwe_data :: "(string \<times> CWEEntry) list" where
  "cwe_data =
    [(''CWE-79'', cwe_entry ''CWE-79''
        ''Improper Neutralization of Input During Web Page Generation ('Cross-site Scripting')''
        ''The software does not neutralize or incorrectly neutralizes user-controllable input before it is placed in output that is used as a web page that is served to other users.''),
     (''CWE-89'', cwe_entry ''CWE-89''
        ''Improper Neutralization of Special Elements used in an SQL Command ('SQL Injection')''
        ''The software constructs all or part of an SQL command using externally-influenced input from an upstream component, but it does not neutralize or incorrectly neutralizes special elements that could modify the intended SQL command when it is sent to a downstream component.''),
     (''CWE-200'', cwe_entry ''CWE-200''
        ''Exposure of Sensitive Information to an Unauthorized Actor''
        ''The product exposes sensitive information to an actor that is not explicitly authorized to have access to that information.''),
     (''CWE-319'', cwe_entry ''CWE-319''
        ''Cleartext Transmission of Sensitive Information''
        ''The information is sent in cleartext and can be observed by unauthorized parties.''),
     (''CWE-521'', cwe_entry ''CWE-521''
        ''Weak Password Requirements''
        ''The product does not require that users select passwords that are sufficiently strong.''),
     (''CWE-639'', cwe_entry ''CWE-639''
        ''Authorization Bypass Through User-Controlled Key''
        ''The web application uses a key to access a resource, but the key is exposed to the user, allowing the user to access unauthorized resources.''),
     (''CWE-693'', cwe_entry ''CWE-693''
        ''Protection Mechanism Failure''
        ''The product does not use or incorrectly uses a protection mechanism that provides sufficient defense against directed attacks.''),
     (''CWE-1021'', cwe_entry ''CWE-1021''
        ''Improper Restriction of Rendered UI Layers or Frames''
        ''The product renders a UI in a frame or layer that can be made transparent or opaque, allowing an attacker to overlay a deceptive UI.''),
     (''CWE-116'', cwe_entry ''CWE-116''
        ''Improper Encoding or Escaping of Output''
        ''The software prepares a structured message for communication with another component, but it does not use or incorrectly uses an encoding or escaping scheme that is compliant with the syntax of the intended destination.'')]"

definition NewInMemoryCWEProvider :: "string \<rightharpoonup> CWEEntry" where
  "NewInMemoryCWEProvider = map_of cwe_data"

text \<open>The in-memory provider never returns an error; \<open>Inr\<close> is its normal return.\<close>

definition GetCWE :: "(string \<rightharpoonup> CWEEntry) \<Rightarrow> string \<Rightarrow> (string, CWEEntry) result" where
  "GetCWE tab i = (case tab i of
       None \<Rightarrow> Inr (cwe_entry i (i @ '' (Details Not Found)'')
                 ''Details for this CWE ID are not available in the local database.'')
     | Some e \<Rightarrow> Inr e)"

text \<open>\<open>None\<close> for the provider is Go's nil interface.\<close>

type_synonym cwe_provider = "(string \<Rightarrow> (string, CWEEntry) result) option"

definition generic_name :: "string \<Rightarrow> bool" where
  "generic_name n \<longleftrightarrow> n = '''' \<or> n = ''Unclassified Vulnerability''"

definition enrichCWE :: "cwe_provider \<Rightarrow> scan_finding \<Rightarrow> scan_finding" where
  "enrichCWE prov f =
     (case (CWE f, prov) of
        ([], _) \<Rightarrow> f
      | (_, None) \<Rightarrow> f
      | (cwe # _, Some getCWE) \<Rightarrow>
          (case getCWE cwe of
             Inl err \<Rightarrow> f
           | Inr e \<Rightarrow>
              (let f1 = (if generic_name (VulnerabilityName f) \<and> cweName e \<noteq> ''''
                         then f\<lparr>VulnerabilityName := cweName e\<rparr> else f)
               in if length (Description f1) < 20 \<and> cweDescription e \<noteq> ''''
                  then f1\<lparr>Description := cweDescription e\<rparr> else f1)))"

definition EnrichFinding :: "cwe_provider \<Rightarrow> scan_finding \<Rightarrow> scan_finding" where
  "EnrichFinding prov f = enrichCWE prov f"

section \<open>The pipeline\<close>

record scan_report =
  reportScanID :: string
  reportFindings :: "scan_finding list"
  reportSummary :: "string \<Rightarrow> nat"

text \<open>A missing severity ranks 99.\<close>

definition severityOrder :: "severity \<rightharpoonup> nat" where
  "severityOrder = map_of [(SeverityCritical, 1), (SeverityHigh, 2), (SeverityMedium, 3),
     (SeverityLow, 4), (SeverityInfo, 5)]"

definition order_of :: "severity \<Rightarrow> nat" where
  "order_of s = (case severityOrder s of Some n \<Rightarrow> n | None \<Rightarrow> 99)"

definition finding_less :: "scan_finding \<Rightarrow> scan_finding \<Rightarrow> bool" where
  "finding_less a b =
     (let orderI = order_of (Severity a); orderJ = order_of (Severity b) in
      if orderI \<noteq> orderJ then orderI < orderJ
      else VulnerabilityName a < VulnerabilityName b)"

type_synonym finding_sorter =
  "(scan_finding \<Rightarrow> scan_finding \<Rightarrow> bool) \<Rightarrow> scan_finding list \<Rightarrow> scan_finding list"

definition prioritize :: "finding_sorter \<Rightarrow> scan_finding list \<Rightarrow> scan_finding list" where
  "prioritize srt fs = srt finding_less fs"

text \<open>A missing key of the summary map reads as zero.\<close>

definition generateSummary :: "scan_finding list \<Rightarrow> string \<Rightarrow> nat" where
  "generateSummary fs =
     foldl (\<lambda>summary f. summary(Severity f := summary (Severity f) + 1))
       ((\<lambda>_. 0)(''total'' := length fs)) fs"

definition ProcessScanResults ::
  "finding_sorter \<Rightarrow> (string \<Rightarrow> (string, scan_finding list) result) \<Rightarrow> cwe_provider \<Rightarrow> string
     \<Rightarrow> (string, scan_report) result" where
  "ProcessScanResults srt getFindings prov scan =
     bindR (getFindings scan) (\<lambda>findings.
       let enriched = map (EnrichFinding prov) findings;
           ordered = prioritize srt enriched;
           summary = generateSummary ordered
       in Inr \<lparr>reportScanID = scan, reportFindings = ordered, reportSummary = summary\<rparr>)"

text \<open>The pipeline of \<^verbatim>\<open>NewPipeline\<close> uses the in-memory table.\<close>

definition NewPipeline :: cwe_provider where
  "NewPipeline = Some (GetCWE NewInMemoryCWEProvider)"

section \<open>The provider store\<close>

record Provider =
  pID :: string
  pName :: string
  pType :: string

datatype provider_error = ErrNotFound | ErrAlreadyExists | ErrInvalidInput

type_synonym provider_store = "string \<rightharpoonup> Provider"

definition NewStore :: provider_store where
  "NewStore = Map.empty"

definition validateProvider :: "Provider \<Rightarrow> provider_error option" where
  "validateProvider p =
     (if pID p = '''' \<or> pName p = '''' \<or> pType p = '''' then Some ErrInvalidInput else None)"

text \<open>A writer returns the error it reports, if any, and the store it leaves.\<close>

definition Add :: "Provider \<Rightarrow> provider_store \<Rightarrow> provider_error option \<times> provider_store" where
  "Add p s = (case validateProvider p of
       Some err \<Rightarrow> (Some err, s)
     | None \<Rightarrow> if s (pID p) \<noteq> None then (Some ErrAlreadyExists, s)
              else (None, s(pID p \<mapsto> p)))"

definition Get :: "string \<Rightarrow> provider_store \<Rightarrow> (provider_error, Provider) result" where
  "Get i s = (case s i of None \<Rightarrow> Inl ErrNotFound | Some p \<Rightarrow> Inr p)"

type_synonym provider_sorter =
  "(Provider \<Rightarrow> Provider \<Rightarrow> bool) \<Rightarrow> Provider list \<Rightarrow> Provider list"

definition provider_less :: "Provider \<Rightarrow> Provider \<Rightarrow> bool" where
  "provider_less a b \<longleftrightarrow> pID a < pID b"

definition List_providers :: "provider_sorter \<Rightarrow> string list \<Rightarrow> provider_store \<Rightarrow> Provider list" where
  "List_providers srt keys s = srt provider_less (List.map_filter s keys)"

definition Update :: "Provider \<Rightarrow> provider_store \<Rightarrow> provider_error option \<times> provider_store" where
  "Update p s = (case validateProvider p of
       Some err \<Rightarrow> (Some err, s)
     | None \<Rightarrow> if s (pID p) = None then (Some ErrNotFound, s)
              else (None, s(pID p \<mapsto> p)))"

definition Delete :: "string \<Rightarrow> provider_store \<Rightarrow> provider_error option \<times> provider_store" where
  "Delete i s = (if s i = None then (Some ErrNotFound, s) else (None, s(i := None)))"

section \<open>Facts about the pipeline\<close>

lemma swo_finding_less: "strict_weak_order finding_less"
  unfolding strict_weak_order_def finding_less_def Let_def by auto

lemma swo_provider_less: "strict_weak_order provider_less"
  unfolding provider_less_def by (rule strict_weak_order_key)

text \<open>The counting loop: each key grows by the number of its occurrences.\<close>

lemma summary_loop:
  "foldl (\<lambda>m f. m(Severity f := m (Severity f) + 1)) m fs k =
     m k + length (filter (\<lambda>f. Severity f = k) fs)"
  by (induction fs arbitrary: m) auto

lemma generateSummary_count:
  "generateSummary fs k =
     (if k = ''total'' then length fs else 0) + length (filter (\<lambda>f. Severity f = k) fs)"
  unfolding generateSummary_def by (subst summary_loop) simp

lemma enrichCWE_keeps [simp]:
  "ID (enrichCWE prov f) = ID f" "ScanID (enrichCWE prov f) = ScanID f"
  "TaskID (enrichCWE prov f) = TaskID f" "ObservedAt (enrichCWE prov f) = ObservedAt f"
  "Target (enrichCWE prov f) = Target f" "Module (enrichCWE prov f) = Module f"
  "Severity (enrichCWE prov f) = Severity f" "Evidence (enrichCWE prov f) = Evidence f"
  "Recommendation (enrichCWE prov f) = Recommendation f" "CWE (enrichCWE prov f) = CWE f"
  by (auto simp: enrichCWE_def Let_def split: list.splits option.splits sum.splits)

text \<open>Every answer of the in-memory provider has a usable name and description.\<close>

definition usable_entry :: "CWEEntry \<Rightarrow> bool" where
  "usable_entry e \<longleftrightarrow> cweName e \<noteq> '''' \<and> \<not> generic_name (cweName e) \<and> 20 \<le> length (cweDescription e)"

lemma table_usable: "list_all (\<lambda>x. usable_entry (snd x)) xs \<Longrightarrow> map_of xs k = Some e \<Longrightarrow> usable_entry e"
  by (induction xs) (auto split: if_splits)

lemma cwe_data_usable: "list_all (\<lambda>x. usable_entry (snd x)) cwe_data"
  by (simp add: cwe_data_def usable_entry_def cwe_entry_def generic_name_def)

lemma preloaded_usable: "NewInMemoryCWEProvider i = Some e \<Longrightarrow> usable_entry e"
  unfolding NewInMemoryCWEProvider_def by (rule table_usable [OF cwe_data_usable])

lemma missing_not_generic: "\<not> generic_name (i @ '' (Details Not Found)'')"
proof
  assume "generic_name (i @ '' (Details Not Found)'')"
  then have "last (i @ '' (Details Not Found)'') = last ''Unclassified Vulnerability''"
    by (auto simp: generic_name_def)
  then show False by simp
qed

lemma GetCWE_usable: "\<exists>e. GetCWE NewInMemoryCWEProvider i = Inr e \<and> usable_entry e"
  using preloaded_usable [of i] missing_not_generic [of i]
  by (cases "NewInMemoryCWEProvider i") (auto simp: GetCWE_def usable_entry_def cwe_entry_def)

definition enriched_with :: "CWEEntry \<Rightarrow> scan_finding \<Rightarrow> scan_finding" where
  "enriched_with e f =
     f\<lparr>VulnerabilityName := (if generic_name (VulnerabilityName f) then cweName e else VulnerabilityName f),
       Description := (if length (Description f) < 20 then cweDescription e else Description f)\<rparr>"

lemma enriched_with_idem: "usable_entry e \<Longrightarrow> enriched_with e (enriched_with e f) = enriched_with e f"
  by (simp add: enriched_with_def usable_entry_def)

lemma enrich_step:
  assumes "CWE f = cwe # rest" and "GetCWE NewInMemoryCWEProvider cwe = Inr e" and "usable_entry e"
  shows "EnrichFinding NewPipeline f = enriched_with e f"
proof -
  from assms(3) have "cweDescription e \<noteq> ''''" by (auto simp: usable_entry_def)
  with assms show ?thesis
    by (simp add: EnrichFinding_def NewPipeline_def enrichCWE_def Let_def usable_entry_def enriched_with_def)
qed

lemma enrich_none: "CWE f = [] \<Longrightarrow> EnrichFinding prov f = f"
  by (simp add: EnrichFinding_def enrichCWE_def)

lemma enrich_cases:
  obtains "CWE f = []" "EnrichFinding NewPipeline f = f"
  | cwe rest e where "CWE f = cwe # rest" "GetCWE NewInMemoryCWEProvider cwe = Inr e"
      "usable_entry e" "EnrichFinding NewPipeline f = enriched_with e f"
  using enrich_none GetCWE_usable enrich_step by (metis neq_Nil_conv)

lemma enrich_idem: "EnrichFinding NewPipeline (EnrichFinding NewPipeline f) = EnrichFinding NewPipeline f"
proof (cases rule: enrich_cases [of f])
  case (2 cwe rest e)
  have "CWE (enriched_with e f) = cwe # rest" using 2(1) by (simp add: enriched_with_def)
  with 2 show ?thesis by (simp add: enrich_step [of _ cwe rest e] enriched_with_idem)
qed simp

lemma enrich_keeps:
  "EnrichFinding NewPipeline f =
     f\<lparr>VulnerabilityName := VulnerabilityName (EnrichFinding NewPipeline f),
       Description := Description (EnrichFinding NewPipeline f)\<rparr>"
  "\<not> generic_name (VulnerabilityName f) \<Longrightarrow>
     VulnerabilityName (EnrichFinding NewPipeline f) = VulnerabilityName f"
  "20 \<le> length (Description f) \<Longrightarrow> Description (EnrichFinding NewPipeline f) = Description f"
  by (cases rule: enrich_cases [of f]; simp add: enriched_with_def)+

text \<open>
  C24. The results pipeline is correct for any sorting routine that meets the contract of
  \<^verbatim>\<open>sort.Slice\<close>: it fails exactly when the store fails, with the store's error, and
  otherwise its report holds the enriched findings of the scan, none lost or repeated, ordered so
  that no finding comes after one of lower urgency (severity rank, then name); the summary counts
  the findings of each severity and their total; enrichment keeps everything but a generic name
  and a short description, and enriching a second time changes nothing.
\<close>

theorem results_pipeline_correct:
  assumes "slice_sorter srt"
  shows "case getFindings scan of
       Inl err \<Rightarrow> ProcessScanResults srt getFindings NewPipeline scan = Inl err
     | Inr fs \<Rightarrow> \<exists>r. ProcessScanResults srt getFindings NewPipeline scan = Inr r
         \<and> reportScanID r = scan
         \<and> mset (reportFindings r) = image_mset (EnrichFinding NewPipeline) (mset fs)
         \<and> sorted_wrt (\<lambda>a b. order_of (Severity a) < order_of (Severity b)
              \<or> order_of (Severity a) = order_of (Severity b)
                \<and> VulnerabilityName a \<le> VulnerabilityName b) (reportFindings r)
         \<and> (\<forall>s. reportSummary r s = (if s = ''total'' then length fs else 0)
              + length (filter (\<lambda>f. Severity f = s) fs))
         \<and> (\<forall>f\<in>set fs. let g = EnrichFinding NewPipeline f in
              g = f\<lparr>VulnerabilityName := VulnerabilityName g, Description := Description g\<rparr>
              \<and> (\<not> generic_name (VulnerabilityName f) \<longrightarrow> VulnerabilityName g = VulnerabilityName f)
              \<and> (20 \<le> length (Description f) \<longrightarrow> Description g = Description f)
              \<and> EnrichFinding NewPipeline g = g)"
proof (cases "getFindings scan")
  case (Inl err)
  then show ?thesis by (simp add: ProcessScanResults_def)
next
  case (Inr fs)
  let ?e = "map (EnrichFinding NewPipeline) fs"
  let ?o = "srt finding_less ?e"
  have m: "mset ?o = mset ?e" by (rule slice_sorter.srt_mset [OF assms])
  have count: "length (filter (\<lambda>f. Severity f = s) ?o) = length (filter (\<lambda>f. Severity f = s) fs)" for s
    using slice_sorter.srt_filter_length [OF assms, of "\<lambda>f. Severity f = s"]
    by (simp add: filter_map o_def EnrichFinding_def)
  have "length ?o = length fs" using arg_cong [OF m, of size] by simp
  then have summary: "generateSummary ?o s =
      (if s = ''total'' then length fs else 0) + length (filter (\<lambda>f. Severity f = s) fs)" for s
    by (simp add: generateSummary_count count)
  have sorted: "sorted_wrt (\<lambda>a b. order_of (Severity a) < order_of (Severity b)
              \<or> order_of (Severity a) = order_of (Severity b)
                \<and> VulnerabilityName a \<le> VulnerabilityName b) ?o"
    by (rule sorted_wrt_mono_rel [OF _ slice_sorter.srt_ordered [OF assms swo_finding_less, of ?e]])
       (auto simp: finding_less_def Let_def not_less split: if_splits)
  show ?thesis
    unfolding Inr ProcessScanResults_def prioritize_def Let_def
    using m sorted summary enrich_keeps enrich_idem by simp
qed

definition critical_header :: scan_finding where
  "critical_header = \<lparr>ID = ''1'', ScanID = ''s'', TaskID = ''t'', ObservedAt = 0, Target = ''u'', Module = ''m'',
     VulnerabilityName = ''B'', Severity = ''critical'', Description = ''short'', Evidence = '''',
     Recommendation = '''', CWE = [''CWE-79'']\<rparr>"

definition info_leak :: scan_finding where
  "info_leak = critical_header\<lparr>ID := ''2'', Severity := ''info'', CWE := [''CWE-1'']\<rparr>"

theorem results_pipeline_correct_witness:
  "\<exists>r. ProcessScanResults insertion_sort (\<lambda>_. Inr [info_leak, critical_header]) NewPipeline ''s'' = Inr r
     \<and> mset (reportFindings r) = image_mset (EnrichFinding NewPipeline) (mset [info_leak, critical_header])
     \<and> reportSummary r ''critical'' = 1 \<and> reportSummary r ''total'' = 2"
proof -
  let ?get = "\<lambda>_. Inr [info_leak, critical_header]"
  from results_pipeline_correct
         [OF stable.slice_sorter_axioms, where getFindings = ?get and scan = "''s''"]
  obtain r where r: "ProcessScanResults insertion_sort ?get NewPipeline ''s'' = Inr r"
    "mset (reportFindings r) = image_mset (EnrichFinding NewPipeline) (mset [info_leak, critical_header])"
    and c: "\<And>s. reportSummary r s = (if s = ''total'' then length [info_leak, critical_header] else 0)
              + length (filter (\<lambda>f. Severity f = s) [info_leak, critical_header])"
    by auto
  have "reportSummary r ''critical'' = 1" "reportSummary r ''total'' = 2"
    by (simp_all add: c info_leak_def critical_header_def)
  with r show ?thesis by blast
qed

section \<open>Severity names\<close>

lemma upper_char_space [simp]: "is_space (upper_char c) = is_space c"
proof (cases "97 \<le> (of_char c :: nat) \<and> (of_char c :: nat) \<le> 122")
  case True
  then have "(of_char (upper_char c) :: nat) = of_char c - 32"
    by (auto simp: upper_char_def)
  with True show ?thesis by (auto simp: is_space_def Let_def)
next
  case False
  then show ?thesis by (auto simp: upper_char_def Let_def)
qed

lemma TrimSpace_surround:
  assumes "list_all is_space a" and "list_all is_space b"
  shows "TrimSpace (a @ s @ b) = TrimSpace s"
proof -
  have a: "dropWhile is_space (a @ x) = dropWhile is_space x" for x
    using assms(1) by (induction a) auto
  have b: "dropWhile is_space (rev b @ x) = dropWhile is_space x" for x
    by (rule dropWhile_append2) (use assms(2) in \<open>simp add: list_all_iff\<close>)
  show ?thesis
  proof (cases "list_all is_space s")
    case True
    then have "dropWhile is_space (s @ b) = []" "dropWhile is_space s = []"
      using assms(2) by (simp_all only: dropWhile_eq_Nil_conv) (auto simp: list_all_iff)
    with a show ?thesis by (simp only: TrimSpace_def)
  next
    case False
    then obtain x where "x \<in> set s" "\<not> is_space x" by (auto simp: list_all_iff)
    then have "dropWhile is_space (s @ b) = dropWhile is_space s @ b"
      by (rule dropWhile_append1)
    with a b show ?thesis by (simp add: TrimSpace_def)
  qed
qed

lemma ToUpper_TrimSpace: "ToUpper (TrimSpace s) = TrimSpace (ToUpper s)"
  by (simp add: ToUpper_def TrimSpace_def dropWhile_map o_def rev_map)

text \<open>
  Severity normalisation reads a severity whatever its letter case and surrounding white
  space, every standard name is read back as itself, and the five severities the analysers emit
  are read as the standard severity of the same rank. The ranking of the report is not that
  robust: a standard (upper-case) name is unknown to it and ranks below every known severity.
\<close>

theorem severity_normalisation:
  "(\<forall>a b s t. list_all is_space a \<and> list_all is_space b \<and> EqualFold s t \<longrightarrow>
       normalizeSeverity (a @ s @ b) = normalizeSeverity t)
   \<and> (\<forall>v. normalizeSeverity (standard_string v) = v)
   \<and> map normalizeSeverity [SeverityCritical, SeverityHigh, SeverityMedium, SeverityLow, SeverityInfo]
       = [StdCritical, StdHigh, StdMedium, StdLow, StdInfo]
   \<and> (\<forall>k n v. severityOrder k = Some n \<longrightarrow> n < order_of (standard_string v))"
proof (intro conjI allI)
  fix a b s t
  show "list_all is_space a \<and> list_all is_space b \<and> EqualFold s t \<longrightarrow>
     normalizeSeverity (a @ s @ b) = normalizeSeverity t"
    by (simp add: normalizeSeverity_def TrimSpace_surround EqualFold_def ToUpper_TrimSpace)
next
  fix v
  show "normalizeSeverity (standard_string v) = v"
    by (cases v) (simp_all only:, code_simp+)
next
  show "map normalizeSeverity [SeverityCritical, SeverityHigh, SeverityMedium, SeverityLow, SeverityInfo]
     = [StdCritical, StdHigh, StdMedium, StdLow, StdInfo]"
    by code_simp
next
  fix k n v
  have "order_of (standard_string v) = 99"
    by (cases v) (simp_all add: order_of_def severityOrder_def severity_defs)
  then show "severityOrder k = Some n \<longrightarrow> n < order_of (standard_string v)"
    by (auto simp: severityOrder_def split: if_splits)
qed

theorem severity_normalisation_witness:
  "normalizeSeverity ('' '' @ ''Fatal'' @ ''  '') = normalizeSeverity ''FATAL''
   \<and> 5 < order_of (standard_string StdCritical)"
proof -
  have "list_all is_space '' ''" "list_all is_space ''  ''" "EqualFold ''Fatal'' ''FATAL''"
    "severityOrder ''info'' = Some 5"
    by code_simp+
  with severity_normalisation show ?thesis by blast
qed

section \<open>The provider store over a history of calls\<close>

datatype provider_op = OpAdd Provider | OpUpdate Provider | OpDelete string

fun apply_provider :: "provider_store \<Rightarrow> provider_op \<Rightarrow> provider_store" where
  "apply_provider s (OpAdd p) = snd (Add p s)"
| "apply_provider s (OpUpdate p) = snd (Update p s)"
| "apply_provider s (OpDelete i) = snd (Delete i s)"

definition run_providers :: "provider_op list \<Rightarrow> provider_store" where
  "run_providers ops = foldl apply_provider NewStore ops"

definition store_ok :: "provider_store \<Rightarrow> bool" where
  "store_ok s \<longleftrightarrow> (\<forall>i p. s i = Some p \<longrightarrow> pID p = i \<and> validateProvider p = None) \<and> finite (dom s)"

lemma store_ok_apply: "store_ok s \<Longrightarrow> store_ok (apply_provider s op)"
  by (cases op) (auto simp: store_ok_def Add_def Update_def Delete_def split: option.splits if_splits)

lemma store_ok_run: "store_ok (run_providers ops)"
proof -
  have "store_ok s \<Longrightarrow> store_ok (foldl apply_provider s ops)" for s
    by (induction ops arbitrary: s) (auto intro: store_ok_apply)
  moreover have "store_ok NewStore" by (simp add: store_ok_def NewStore_def)
  ultimately show ?thesis unfolding run_providers_def by blast
qed

lemma listed_providers:
  assumes "store_ok s" and "set keys = dom s"
  shows "set (List.map_filter s keys) = ran s" and "map pID (List.map_filter s keys) = keys"
proof -
  have "\<forall>k\<in>set keys. s k = Some (the (s k))" using assms(2) by auto
  then have m: "List.map_filter s keys = map (\<lambda>k. the (s k)) keys" by (rule map_filter_all)
  show "set (List.map_filter s keys) = ran s"
    using assms(2) by (force simp: m ran_def dom_def)
  show "map pID (List.map_filter s keys) = keys"
    using assms by (auto simp: m store_ok_def intro!: map_idI)
qed

lemma List_providers_sorted:
  assumes ok: "store_ok s" and srt: "slice_sorter srt" and "distinct keys" and "set keys = dom s"
  shows "set (List_providers srt keys s) = ran s \<and> sorted_wrt (<) (map pID (List_providers srt keys s))"
proof -
  note l = listed_providers [OF ok assms(4)]
  have "sorted_wrt (\<lambda>a b. \<not> provider_less b a) (List_providers srt keys s)"
    unfolding List_providers_def by (rule slice_sorter.srt_ordered [OF srt swo_provider_less])
  then have "sorted (map pID (List_providers srt keys s))"
    by (simp add: sorted_map provider_less_def not_less)
  moreover have "mset (map pID (List_providers srt keys s)) = mset keys"
    unfolding List_providers_def slice_sorter.srt_map_mset [OF srt] l(2) ..
  then have "distinct (map pID (List_providers srt keys s))"
    using assms(3) mset_eq_imp_distinct_iff by blast
  ultimately show ?thesis
    using l(1) by (simp add: strict_sorted_iff List_providers_def slice_sorter.srt_set [OF srt])
qed

definition complete_provider :: "Provider \<Rightarrow> bool" where
  "complete_provider p \<longleftrightarrow> pID p \<noteq> [] \<and> pName p \<noteq> [] \<and> pType p \<noteq> []"

lemma validate_complete:
  "validateProvider p = (if complete_provider p then None else Some ErrInvalidInput)"
  by (simp add: validateProvider_def complete_provider_def)

text \<open>
  C34. After any history of additions, updates and deletions the provider store answers
  \<^verbatim>\<open>Get\<close> only with complete providers (identifier, name and type not empty) filed under their own
  identifier, and \<^verbatim>\<open>List\<close> returns exactly the stored providers in strictly increasing order of their
  identifiers, whatever the order in which the map is traversed and however the sort orders equal
  elements. Every write succeeds exactly when it should: an incomplete provider is refused as
  invalid by \<^verbatim>\<open>Add\<close> and \<^verbatim>\<open>Update\<close>; a complete provider with a new identifier is added and not updated,
  one with a known identifier is updated and not added; only a known identifier is deleted. A
  successful write is visible to \<^verbatim>\<open>Get\<close> under its identifier and nowhere else, and a refused one
  leaves the store as it was.
\<close>

theorem provider_store_correct:
  assumes "s = run_providers ops" and "slice_sorter srt" and "distinct keys" and "set keys = dom s"
  shows "(\<forall>i p. Get i s = Inr p \<longrightarrow> pID p = i \<and> complete_provider p)
    \<and> sorted_wrt (<) (map pID (List_providers srt keys s))
    \<and> set (List_providers srt keys s) = {p. \<exists>i. Get i s = Inr p}
    \<and> (\<forall>srt' keys'. slice_sorter srt' \<and> distinct keys' \<and> set keys' = dom s \<longrightarrow>
          List_providers srt' keys' s = List_providers srt keys s)
    \<and> (\<forall>p. \<not> complete_provider p \<longrightarrow>
          Add p s = (Some ErrInvalidInput, s) \<and> Update p s = (Some ErrInvalidInput, s))
    \<and> (\<forall>p. complete_provider p \<and> Get (pID p) s = Inl ErrNotFound \<longrightarrow>
          (\<exists>s'. Add p s = (None, s') \<and> (\<forall>i. Get i s' = (if i = pID p then Inr p else Get i s))) \<and>
          Update p s = (Some ErrNotFound, s))
    \<and> (\<forall>p q. complete_provider p \<and> Get (pID p) s = Inr q \<longrightarrow>
          Add p s = (Some ErrAlreadyExists, s) \<and>
          (\<exists>s'. Update p s = (None, s') \<and> (\<forall>i. Get i s' = (if i = pID p then Inr p else Get i s))))
    \<and> (\<forall>j. Get j s = Inl ErrNotFound \<longrightarrow> Delete j s = (Some ErrNotFound, s))
    \<and> (\<forall>j q. Get j s = Inr q \<longrightarrow>
          (\<exists>s'. Delete j s = (None, s') \<and> (\<forall>i. Get i s' = (if i = j then Inl ErrNotFound else Get i s))))"
proof -
  have ok: "store_ok s" using store_ok_run assms(1) by simp
  have r: "ran s = {p. \<exists>i. Get i s = Inr p}"
    by (auto simp: ran_def Get_def split: option.splits)
  show ?thesis
  proof (intro conjI allI)
    fix i p show "Get i s = Inr p \<longrightarrow> pID p = i \<and> complete_provider p"
      using ok by (auto simp: store_ok_def Get_def validate_complete split: option.splits if_splits)
  next
    show "sorted_wrt (<) (map pID (List_providers srt keys s))"
        "set (List_providers srt keys s) = {p. \<exists>i. Get i s = Inr p}"
      using List_providers_sorted [OF ok assms(2-4)] r by simp_all
  next
    fix srt' :: provider_sorter and keys'
    show "slice_sorter srt' \<and> distinct keys' \<and> set keys' = dom s \<longrightarrow>
        List_providers srt' keys' s = List_providers srt keys s"
      using List_providers_sorted [OF ok, of srt' keys'] List_providers_sorted [OF ok assms(2-4)]
      by (intro impI strictly_sorted_unique [where f = pID]) auto
  qed (auto simp: Add_def Update_def Delete_def Get_def validate_complete split: option.splits)
qed

definition example_provider :: "string \<Rightarrow> Provider" where
  "example_provider i = \<lparr>pID = i, pName = ''n'', pType = ''t''\<rparr>"

theorem provider_store_correct_witness:
  "List_providers insertion_sort [''b'', ''a'']
     (run_providers [OpAdd (example_provider ''b''), OpAdd (example_provider ''a''), OpAdd (example_provider ''a'')])
   = List_providers insertion_sort [''a'', ''b'']
     (run_providers [OpAdd (example_provider ''b''), OpAdd (example_provider ''a''), OpAdd (example_provider ''a'')])
   \<and> (\<exists>s'. Add (example_provider ''c'')
         (run_providers [OpAdd (example_provider ''b''), OpAdd (example_provider ''a''), OpAdd (example_provider ''a'')]) = (None, s') \<and>
       Get ''c'' s' = Inr (example_provider ''c'') \<and> Get ''a'' s' = Inr (example_provider ''a''))"
  (is "List_providers _ _ ?s = _ \<and> _")
proof -
  have s: "?s = [''b'' \<mapsto> example_provider ''b'', ''a'' \<mapsto> example_provider ''a'']"
    by (simp add: run_providers_def NewStore_def Add_def validateProvider_def example_provider_def)
  then have "set [''a'', ''b''] = dom ?s" "set [''b'', ''a''] = dom ?s" by auto
  moreover have d: "distinct [''a'', ''b'']" "distinct [''b'', ''a'']" by simp_all
  moreover note stable.slice_sorter_axioms
  ultimately have all: "set [''a'', ''b''] = dom ?s" "set [''b'', ''a''] = dom ?s"
      "slice_sorter (insertion_sort :: provider_sorter)" by blast+
  note spec = provider_store_correct [OF refl all(3) d(1) all(1)]
  have "List_providers insertion_sort [''b'', ''a''] ?s = List_providers insertion_sort [''a'', ''b''] ?s"
    using spec all(2,3) d(2) by blast
  moreover have "\<exists>s'. Add (example_provider ''c'') ?s = (None, s') \<and>
      (\<forall>i. Get i s' = (if i = pID (example_provider ''c'') then Inr (example_provider ''c'') else Get i ?s))"
  proof -
    have "complete_provider (example_provider ''c'') \<and> Get (pID (example_provider ''c'')) ?s = Inl ErrNotFound"
      unfolding s by (simp add: complete_provider_def example_provider_def Get_def)
    then show ?thesis using spec by blast
  qed
  moreover have "Get ''a'' ?s = Inr (example_provider ''a'')" unfolding s by (simp add: Get_def)
  ultimately show ?thesis by (auto simp: example_provider_def)
qed

end
