(* ===== verification/JsonCompare.thy ===== *)
theory JsonCompare
  imports Prelude Complex_Main
begin

text \<open>
  The JSON comparison service (\<^verbatim>\<open>internal/jsoncompare\<close>): the rules and options with their
  defaults, the heuristics for dynamic keys and values, the normalisation of documents and the
  comparison of two bodies.

  A decoded document is a \<open>json\<close> value: numbers keep their text (\<^verbatim>\<open>UseNumber\<close>), an object is the
  list of its entries in the order the one \<^verbatim>\<open>range\<close> loop over it visits them, which Go leaves
  open. What the service calls outside the repository is a parameter, bundled in the record
  \<open>libraries\<close>: JSON decoding, \<^verbatim>\<open>uuid.Parse\<close>, \<^verbatim>\<open>time.Parse\<close>, number parsing and \<^verbatim>\<open>cmp.Diff\<close>.
  The entropy is computed over the reals where the code uses floating point.
\<close>

section \<open>Documents\<close>

datatype json =
    JNull
  | JBool bool
  | JNum string
  | JStr string
  | JArr "json list"
  | JObj "(string \<times> json) list"

definition PlaceholderDynamicKey :: string where
  "PlaceholderDynamicKey = ''__DYNAMIC_KEY__''"

definition PlaceholderDynamicValue :: string where
  "PlaceholderDynamicValue = ''__DYNAMIC_VALUE__''"

section \<open>Options\<close>

text \<open>A compiled key pattern is the predicate of its \<^verbatim>\<open>MatchString\<close>.\<close>

record HeuristicRules =
  KeyPatterns :: "(string \<Rightarrow> bool) list"
  CheckValueForUUID :: bool
  CheckValueForTimestamp :: bool
  TimestampFormats :: "string list"
  CheckValueForHighEntropy :: bool
  EntropyThreshold :: real

record Options =
  Rules :: HeuristicRules
  IgnoreArrayOrder :: bool
  EquateEmpty :: bool
  SpecificValuesToIgnore :: "string set"
  NormalizeAllValuesForStructure :: bool

text \<open>
  The seven default patterns, on ASCII keys: \<^verbatim>\<open>(?i)\<close> is matching on the upper-cased key, an
  unanchored pattern is a substring test for one of its words, optional tails of an unanchored
  pattern are irrelevant to whether it matches.
\<close>

definition words_with :: "string list \<Rightarrow> string list \<Rightarrow> string list" where
  "words_with heads tails = [h @ u @ t. h \<leftarrow> heads, u \<leftarrow> ['''', ''_''], t \<leftarrow> tails]"

definition contains_any :: "string list \<Rightarrow> string \<Rightarrow> bool" where
  "contains_any ws key = list_ex (\<lambda>w. Contains (ToUpper key) w) ws"

definition word_char :: "char \<Rightarrow> bool" where
  "word_char c = (let n = (of_char c :: nat) in
     (48 \<le> n \<and> n \<le> 57) \<or> (65 \<le> n \<and> n \<le> 90) \<or> (97 \<le> n \<and> n \<le> 122) \<or> n = 95 \<or> n = 45)"

definition default_patterns :: "(string \<Rightarrow> bool) list" where
  "default_patterns =
    [contains_any [''SESS''],
     \<lambda>key. list_ex (\<lambda>w. HasSuffix (ToUpper key) w)
       (words_with [''API'', ''ACCESS'', ''REFRESH'', ''AUTH''] [''TOKEN'']),
     contains_any [''APIKEY'', ''API_KEY'', ''AUTHORIZATION''],
     \<lambda>key. HasPrefix (ToUpper key) ''CSRF'' \<or> HasPrefix (ToUpper key) ''XSRF'',
     contains_any [''NONCE''],
     contains_any (words_with [''CORRELATION'', ''REQUEST'', ''REQ'', ''TRACE'', ''TRACKING'', ''TX''] [''ID'']),
     \<lambda>key. HasPrefix (ToUpper key) ''SESSION_'' \<and> drop 8 key \<noteq> [] \<and> list_all word_char (drop 8 key)]"

definition DefaultRules :: HeuristicRules where
  "DefaultRules =
    \<lparr>KeyPatterns = default_patterns, CheckValueForUUID = True, CheckValueForTimestamp = True,
     TimestampFormats = [''2006-01-02T15:04:05Z07:00'', ''2006-01-02T15:04:05.999999999Z07:00'',
       ''02 Jan 06 15:04 MST'', ''Mon, 02 Jan 2006 15:04:05 MST'', ''Mon, 02 Jan 2006 15:04:05 -0700'',
       ''2006-01-02T15:04:05.000Z''],
     CheckValueForHighEntropy = True, EntropyThreshold = 4.5\<rparr>"

definition DefaultOptions :: Options where
  "DefaultOptions =
    \<lparr>Rules = DefaultRules, IgnoreArrayOrder = True, EquateEmpty = True,
     SpecificValuesToIgnore = {}, NormalizeAllValuesForStructure = False\<rparr>"

section \<open>Library functions\<close>

datatype cmp_option =
    FilteredComparer "json \<Rightarrow> json \<Rightarrow> bool" "json \<Rightarrow> json \<Rightarrow> bool"
  | SortSlices "json \<Rightarrow> json \<Rightarrow> bool"

record libraries =
  json_Valid :: "string \<Rightarrow> bool"
  json_Decode :: "string \<Rightarrow> json option"
  uuid_Parse :: "string \<Rightarrow> bool"
  time_Parse :: "string \<Rightarrow> string \<Rightarrow> bool"
  Float64 :: "string \<Rightarrow> rat option"
  cmp_Diff :: "json \<Rightarrow> json \<Rightarrow> cmp_option list \<Rightarrow> string"

text \<open>
  \<^verbatim>\<open>fmt.Sprintf("%v", x)\<close> of a decoded document: maps print with sorted keys, a nil as
  \<^verbatim>\<open><nil>\<close>.
\<close>

fun sprint :: "json \<Rightarrow> string" where
  "sprint JNull = ''<nil>''"
| "sprint (JBool b) = (if b then ''true'' else ''false'')"
| "sprint (JNum n) = n"
| "sprint (JStr s) = s"
| "sprint (JArr xs) = ''['' @ Join (map sprint xs) '' '' @ '']''"
| "sprint (JObj m) = ''map['' @
     Join (map (\<lambda>(k, t). k @ '':'' @ t) (sort_key fst (map (\<lambda>(k, v). (k, sprint v)) m))) '' '' @ '']''"

section \<open>Entropy\<close>

text \<open>
  \<^verbatim>\<open>range\<close> over a string decodes UTF-8: a valid encoding yields its code point, any other byte
  the replacement character with width one.
\<close>

definition cont :: "nat \<Rightarrow> bool" where
  "cont b \<longleftrightarrow> 128 \<le> b \<and> b \<le> 191"

definition in_range :: "nat \<Rightarrow> nat \<Rightarrow> nat \<Rightarrow> bool" where
  "in_range lo hi b \<longleftrightarrow> lo \<le> b \<and> b \<le> hi"

definition decode_rune :: "nat list \<Rightarrow> nat \<times> nat" where
  "decode_rune bs = (case bs of
      [] \<Rightarrow> (65533, 0)
    | b0 # r0 \<Rightarrow>
        if b0 < 128 then (b0, 1)
        else (case r0 of
            [] \<Rightarrow> (65533, 1)
          | b1 # r1 \<Rightarrow>
              if in_range 194 223 b0 \<and> cont b1 then ((b0 - 192) * 64 + (b1 - 128), 2)
              else (case r1 of
                  [] \<Rightarrow> (65533, 1)
                | b2 # r2 \<Rightarrow>
                    if in_range 224 239 b0
                       \<and> in_range (if b0 = 224 then 160 else 128) (if b0 = 237 then 159 else 191) b1
                       \<and> cont b2
                    then ((b0 - 224) * 4096 + (b1 - 128) * 64 + (b2 - 128), 3)
                    else (case r2 of
                        [] \<Rightarrow> (65533, 1)
                      | b3 # r3 \<Rightarrow>
                          if in_range 240 244 b0
                             \<and> in_range (if b0 = 240 then 144 else 128) (if b0 = 244 then 143 else 191) b1
                             \<and> cont b2 \<and> cont b3
                          then ((b0 - 240) * 262144 + (b1 - 128) * 4096 + (b2 - 128) * 64 + (b3 - 128), 4)
                          else (65533, 1)))))"

lemma decode_rune_width: "bs \<noteq> [] \<Longrightarrow> 1 \<le> snd (decode_rune bs)"
  by (auto simp: decode_rune_def split: list.splits)

function runes :: "nat list \<Rightarrow> nat list" where
  "runes bs = (if bs = [] then [] else
     (let (r, w) = decode_rune bs in r # runes (drop w bs)))"
  by pat_completeness auto
termination
proof (relation "measure length")
  fix bs :: "nat list" and x r w
  assume "bs \<noteq> []" "x = decode_rune bs" "(r, w) = x"
  moreover from this have "1 \<le> w" using decode_rune_width [of bs] by (metis snd_conv)
  ultimately show "(drop w bs, bs) \<in> measure length" by simp
qed simp

declare runes.simps [simp del]

definition string_runes :: "string \<Rightarrow> nat list" where
  "string_runes s = runes (map of_char s)"

text \<open>The counts of the distinct runes, in the order they are first met.\<close>

definition runeCounts :: "nat list \<Rightarrow> (nat \<times> nat) list" where
  "runeCounts rs = map (\<lambda>r. (r, count_list rs r)) (remdups rs)"

definition calculateShannonEntropy :: "string \<Rightarrow> real" where
  "calculateShannonEntropy str =
     (if str = [] then 0
      else let rs = string_runes str; strLen = real (length rs)
           in foldl (\<lambda>entropy (r, count).
                let probability = real count / strLen
                in entropy - probability * log 2 probability) 0 (runeCounts rs))"

section \<open>Heuristics\<close>

definition isPlausibleUnixTimestamp :: "rat \<Rightarrow> bool" where
  "isPlausibleUnixTimestamp ts \<longleftrightarrow>
     (ts \<ge> 1262304000 \<and> ts \<le> 2051222400) \<or>
     (ts \<ge> 1262304000 * 1000 \<and> ts \<le> 2051222400 * 1000) \<or>
     (ts \<ge> 1262304000 * 1000000 \<and> ts \<le> 2051222400 * 1000000)"

definition isStringValueDynamic :: "libraries \<Rightarrow> string \<Rightarrow> HeuristicRules \<Rightarrow> bool" where
  "isStringValueDynamic lib str rules \<longleftrightarrow>
     (if length str < 8 then False
      else if CheckValueForUUID rules \<and> uuid_Parse lib str then True
      else if CheckValueForTimestamp rules \<and> list_ex (\<lambda>fmt. time_Parse lib fmt str) (TimestampFormats rules)
        then True
      else if CheckValueForHighEntropy rules \<and> 12 \<le> length str
              \<and> calculateShannonEntropy str > EntropyThreshold rules then True
      else False)"

definition isKeyDynamic :: "string \<Rightarrow> HeuristicRules \<Rightarrow> bool" where
  "isKeyDynamic key rules = list_ex (\<lambda>pattern. pattern key) (KeyPatterns rules)"

fun is_structure :: "json \<Rightarrow> bool" where
  "is_structure (JArr xs) = True"
| "is_structure (JObj m) = True"
| "is_structure v = False"

definition isValueDynamic :: "libraries \<Rightarrow> Options \<Rightarrow> json \<Rightarrow> bool" where
  "isValueDynamic lib opts val =
     (if NormalizeAllValuesForStructure opts then \<not> is_structure val
      else if SpecificValuesToIgnore opts \<noteq> {} \<and> sprint val \<in> SpecificValuesToIgnore opts then True
      else (case val of
          JNull \<Rightarrow> False
        | JStr v \<Rightarrow> isStringValueDynamic lib v (Rules opts)
        | JNum v \<Rightarrow>
            if isStringValueDynamic lib v (Rules opts) then True
            else (case Float64 lib v of
                None \<Rightarrow> False
              | Some f \<Rightarrow> CheckValueForTimestamp (Rules opts) \<and> isPlausibleUnixTimestamp f)
        | _ \<Rightarrow> False))"

section \<open>Normalisation\<close>

definition baseKey :: string where
  "baseKey = TrimSuffix PlaceholderDynamicKey ''__'' @ ''_''"

definition collision_key :: "nat \<Rightarrow> string" where
  "collision_key i = (if i = 0 then PlaceholderDynamicKey else baseKey @ itoa i)"

text \<open>
  The search for a free numbered key. The fuel bounds the iterations of a loop without a bound
  of its own; one more than the number of entries is enough (\<open>free_key_found\<close>).
\<close>

fun free_key :: "nat \<Rightarrow> nat \<Rightarrow> string list \<Rightarrow> string option" where
  "free_key 0 i used = None"
| "free_key (Suc n) i used =
     (if collision_key i \<notin> set used then Some (collision_key i) else free_key n (Suc i) used)"

text \<open>A map assignment: the entry is replaced where the key exists, else added.\<close>

definition put :: "string \<Rightarrow> json \<Rightarrow> (string \<times> json) list \<Rightarrow> (string \<times> json) list" where
  "put k v m = (if k \<in> fst ` set m then map (\<lambda>(k', v'). (k', if k' = k then v else v')) m
                else m @ [(k, v)])"

text \<open>One round of the loop of \<^verbatim>\<open>normalizeMap\<close>, on the value normalised already.\<close>

definition normalize_entry ::
  "HeuristicRules \<Rightarrow> (string \<times> json) list \<Rightarrow> string \<times> json \<Rightarrow> (string \<times> json) list" where
  "normalize_entry rules normalizedMap e =
     (let (key, nval) = e;
          (newKey, newVal) =
            (if isKeyDynamic key rules then (PlaceholderDynamicKey, JStr PlaceholderDynamicValue)
             else (key, nval));
          newKey' =
            (if newKey = PlaceholderDynamicKey
             then (case free_key (Suc (length normalizedMap)) 0 (map fst normalizedMap) of
                     Some k \<Rightarrow> k | None \<Rightarrow> newKey)
             else newKey)
      in put newKey' newVal normalizedMap)"

fun normalizeRecursive :: "libraries \<Rightarrow> Options \<Rightarrow> json \<Rightarrow> json" where
  "normalizeRecursive lib opts data =
     (if isValueDynamic lib opts data then JStr PlaceholderDynamicValue
      else (case data of
          JObj m \<Rightarrow> JObj (foldl (normalize_entry (Rules opts)) []
                      (map (\<lambda>(k, v). (k, normalizeRecursive lib opts v)) m))
        | JArr xs \<Rightarrow> JArr (map (normalizeRecursive lib opts) xs)
        | _ \<Rightarrow> data))"

declare normalizeRecursive.simps [simp del]

definition normalizeMap :: "libraries \<Rightarrow> Options \<Rightarrow> (string \<times> json) list \<Rightarrow> (string \<times> json) list" where
  "normalizeMap lib opts m =
     foldl (normalize_entry (Rules opts)) [] (map (\<lambda>(k, v). (k, normalizeRecursive lib opts v)) m)"

definition normalizeSlice :: "libraries \<Rightarrow> Options \<Rightarrow> json list \<Rightarrow> json list" where
  "normalizeSlice lib opts sl = map (normalizeRecursive lib opts) sl"

definition normalize :: "libraries \<Rightarrow> Options \<Rightarrow> json \<Rightarrow> json" where
  "normalize lib opts data = normalizeRecursive lib opts data"

lemma normalizeRecursive_unfold:
  "normalizeRecursive lib opts data =
     (if isValueDynamic lib opts data then JStr PlaceholderDynamicValue
      else (case data of
          JObj m \<Rightarrow> JObj (normalizeMap lib opts m)
        | JArr xs \<Rightarrow> JArr (normalizeSlice lib opts xs)
        | _ \<Rightarrow> data))"
  by (subst normalizeRecursive.simps) (simp add: normalizeMap_def normalizeSlice_def split: json.split)

section \<open>Comparison\<close>

definition isEmpty :: "json \<Rightarrow> bool" where
  "isEmpty v = (case v of JNull \<Rightarrow> True | JObj m \<Rightarrow> m = [] | JArr xs \<Rightarrow> xs = [] | _ \<Rightarrow> False)"

text \<open>The kind of a decoded value, by its Go type name; a nil has no type.\<close>

fun type_name :: "json \<Rightarrow> string" where
  "type_name JNull = ''''"
| "type_name (JBool b) = ''bool''"
| "type_name (JNum n) = ''json.Number''"
| "type_name (JStr s) = ''string''"
| "type_name (JArr xs) = ''[]interface {}''"
| "type_name (JObj m) = ''map[string]interface {}''"

definition equateEmptyOption :: cmp_option where
  "equateEmptyOption = FilteredComparer
     (\<lambda>x y. isEmpty x \<and> isEmpty y)
     (\<lambda>x y. if x = JNull \<or> y = JNull then True else type_name x = type_name y)"

definition number_less :: "libraries \<Rightarrow> string \<Rightarrow> string \<Rightarrow> bool" where
  "number_less lib nx ny = (case (Float64 lib nx, Float64 lib ny) of
       (Some fx, Some fy) \<Rightarrow> fx < fy
     | _ \<Rightarrow> nx < ny)"

definition genericSliceLess :: "libraries \<Rightarrow> json \<Rightarrow> json \<Rightarrow> bool" where
  "genericSliceLess lib x y = (case (x, y) of
       (JNum nx, JNum ny) \<Rightarrow> number_less lib nx ny
     | _ \<Rightarrow>
       if x = JNull then y \<noteq> JNull
       else if y = JNull then False
       else if type_name x \<noteq> type_name y then type_name x < type_name y
       else (case (x, y) of
           (JStr s, JStr t) \<Rightarrow> s < t
         | (JBool a, JBool b) \<Rightarrow> \<not> a \<and> b
         | _ \<Rightarrow> sprint x < sprint y))"

definition buildCmpOptions :: "libraries \<Rightarrow> Options \<Rightarrow> cmp_option list" where
  "buildCmpOptions lib opts =
     (if EquateEmpty opts then [equateEmptyOption] else []) @
     (if IgnoreArrayOrder opts then [SortSlices (genericSliceLess lib)] else [])"

record ComparisonResult =
  AreEquivalent :: bool
  Diff :: string
  IsJSON :: bool
  NormalizedA :: "json option"
  NormalizedB :: "json option"

definition show_bool :: "bool \<Rightarrow> string" where
  "show_bool b = (if b then ''true'' else ''false'')"

definition handleNonJSON :: "string \<Rightarrow> string \<Rightarrow> bool \<Rightarrow> bool \<Rightarrow> ComparisonResult" where
  "handleNonJSON bodyA bodyB isJSON_A isJSON_B =
     \<lparr>AreEquivalent = False,
      Diff = ''Content differs (Non-JSON or mixed types). Length A: '' @ itoa (length bodyA)
        @ '' (JSON: '' @ show_bool isJSON_A @ ''), Length B: '' @ itoa (length bodyB)
        @ '' (JSON: '' @ show_bool isJSON_B @ '')'',
      IsJSON = (isJSON_A \<or> isJSON_B), NormalizedA = None, NormalizedB = None\<rparr>"

definition CompareWithOptions :: "libraries \<Rightarrow> string \<Rightarrow> string \<Rightarrow> Options \<Rightarrow> ComparisonResult" where
  "CompareWithOptions lib bodyA bodyB opts =
     (if bodyA = bodyB
      then \<lparr>AreEquivalent = True, Diff = '''', IsJSON = (json_Valid lib bodyA \<and> 0 < length bodyA),
            NormalizedA = None, NormalizedB = None\<rparr>
      else (case (json_Decode lib bodyA, json_Decode lib bodyB) of
          (Some dataA, Some dataB) \<Rightarrow>
            (let normalizedA = normalize lib opts dataA;
                 normalizedB = normalize lib opts dataB;
                 diff = cmp_Diff lib normalizedA normalizedB (buildCmpOptions lib opts)
             in \<lparr>AreEquivalent = (diff = ''''), Diff = diff, IsJSON = True,
                 NormalizedA = Some normalizedA, NormalizedB = Some normalizedB\<rparr>)
        | (a, b) \<Rightarrow> handleNonJSON bodyA bodyB (a \<noteq> None) (b \<noteq> None)))"

definition Compare :: "libraries \<Rightarrow> string \<Rightarrow> string \<Rightarrow> ComparisonResult" where
  "Compare lib bodyA bodyB = CompareWithOptions lib bodyA bodyB DefaultOptions"

section \<open>Numbered keys\<close>

lemma baseKey_eq: "baseKey = ''__DYNAMIC_KEY_''"
  by code_simp

lemma collision_key_inj: "collision_key i = collision_key j \<longleftrightarrow> i = j"
proof -
  have "CHR ''_'' \<notin> set (itoa n)" for n by (rule itoa_not_mem) simp
  then have "itoa n \<noteq> ''_''" for n by (metis list.set_intros(1))
  then have "baseKey @ itoa n \<noteq> PlaceholderDynamicKey" for n
    by (simp add: baseKey_eq PlaceholderDynamicKey_def)
  then show ?thesis
    by (auto simp: collision_key_def itoa_inj dest: sym)
qed

lemma collision_key_prefix: "HasPrefix (collision_key i) ''__DYNAMIC_KEY_''"
  by (simp add: collision_key_def baseKey_eq PlaceholderDynamicKey_def)

lemma free_key_first:
  assumes "\<And>k. i \<le> k \<Longrightarrow> k < j \<Longrightarrow> collision_key k \<in> set used" and "collision_key j \<notin> set used"
    and "i \<le> j" and "j < i + n"
  shows "free_key n i used = Some (collision_key j)"
  using assms
proof (induction n i used rule: free_key.induct)
  case (2 n i used)
  show ?case
  proof (cases "i = j")
    case False
    with 2 show ?thesis by simp
  qed (use 2 in simp)
qed simp

text \<open>The search always succeeds within its bound: some number up to the entry count is free.\<close>

lemma free_key_found: "\<exists>k. free_key (Suc (length used)) 0 used = Some k \<and> k \<notin> set used"
proof -
  have "\<exists>j\<le>length used. collision_key j \<notin> set used"
  proof (rule ccontr)
    assume "\<not> ?thesis"
    then have "collision_key ` {..length used} \<subseteq> set used" by auto
    then have "card (collision_key ` {..length used}) \<le> card (set used)" by (intro card_mono) auto
    moreover have "card (collision_key ` {..length used}) = Suc (length used)"
      by (subst card_image) (auto intro: inj_onI simp: collision_key_inj)
    ultimately show False using card_length [of used] by linarith
  qed
  then obtain j where "j = (LEAST j. collision_key j \<notin> set used)"
    and j: "collision_key j \<notin> set used" "j \<le> length used"
    by (metis (mono_tags, lifting) LeastI Least_le order_trans)
  then have "\<And>k. k < j \<Longrightarrow> collision_key k \<in> set used" using not_less_Least by blast
  with j show ?thesis using free_key_first [of 0 j used "Suc (length used)"] by auto
qed

section \<open>The normal form of an object\<close>

abbreviation dynamic_value :: json where
  "dynamic_value \<equiv> JStr PlaceholderDynamicValue"

definition dyn_count :: "HeuristicRules \<Rightarrow> (string \<times> 'a) list \<Rightarrow> nat" where
  "dyn_count rules m = length (filter (\<lambda>(k, v). isKeyDynamic k rules) m)"

definition static_part :: "HeuristicRules \<Rightarrow> (string \<times> 'a) list \<Rightarrow> (string \<times> 'a) list" where
  "static_part rules m = filter (\<lambda>(k, v). \<not> isKeyDynamic k rules) m"

definition numbered :: "nat \<Rightarrow> (string \<times> json) list" where
  "numbered n = map (\<lambda>j. (collision_key j, dynamic_value)) [0..<n]"

definition plain_keys :: "HeuristicRules \<Rightarrow> (string \<times> 'a) list \<Rightarrow> bool" where
  "plain_keys rules m \<longleftrightarrow>
     (\<forall>e\<in>set m. isKeyDynamic (fst e) rules \<or> \<not> HasPrefix (fst e) ''__DYNAMIC_KEY_'')"

lemma put_fresh: "k \<notin> fst ` set m \<Longrightarrow> put k v m = m @ [(k, v)]"
  by (simp add: put_def)

lemma numbered_keys: "fst ` set (numbered n) = collision_key ` {..<n}"
  by (auto simp: numbered_def image_image atLeast0LessThan)

text \<open>
  The loop over the entries of an object: the accumulated map holds the static entries and one
  numbered placeholder for each dynamic key met so far.
\<close>

lemma normalize_loop:
  assumes "distinct (map fst m)" and "plain_keys rules m"
  shows "distinct (map fst (foldl (normalize_entry rules) [] m)) \<and>
    set (foldl (normalize_entry rules) [] m) =
      set (static_part rules m) \<union> set (numbered (dyn_count rules m)) \<and>
    length (foldl (normalize_entry rules) [] m) = length m"
  using assms
proof (induction m rule: rev_induct)
  case Nil
  then show ?case by (simp add: static_part_def dyn_count_def numbered_def)
next
  case (snoc e m)
  obtain k v where e: "e = (k, v)" by force
  let ?acc = "foldl (normalize_entry rules) [] m"
  let ?n = "dyn_count rules m"
  from snoc.prems have "distinct (map fst m)" "plain_keys rules m" and kfresh: "k \<notin> fst ` set m"
    by (auto simp: plain_keys_def e)
  with snoc.IH have dist: "distinct (map fst ?acc)"
    and acc: "set ?acc = set (static_part rules m) \<union> set (numbered ?n)" and len: "length ?acc = length m"
    by auto
  have keys: "fst ` set ?acc = fst ` set (static_part rules m) \<union> collision_key ` {..<?n}"
    by (simp add: acc image_Un numbered_keys)
  have static_plain: "collision_key j \<notin> fst ` set (static_part rules m)" for j
    using \<open>plain_keys rules m\<close> collision_key_prefix
    by (fastforce simp: static_part_def plain_keys_def)
  show ?case
  proof (cases "isKeyDynamic k rules")
    case True
    have "?n \<le> length m" unfolding dyn_count_def by (rule length_filter_le)
    then have "free_key (Suc (length ?acc)) 0 (map fst ?acc) = Some (collision_key ?n)"
      using static_plain by (intro free_key_first) (auto simp: len keys collision_key_inj)
    moreover have new: "collision_key ?n \<notin> fst ` set ?acc"
      using static_plain by (auto simp: keys collision_key_inj)
    ultimately have "normalize_entry rules ?acc e = ?acc @ [(collision_key ?n, dynamic_value)]"
      using True by (simp add: normalize_entry_def e put_fresh)
    with True dist new acc len show ?thesis
      by (auto simp: e static_part_def dyn_count_def numbered_def)
  next
    case False
    then have plain: "\<not> HasPrefix k ''__DYNAMIC_KEY_''"
      using snoc.prems by (simp add: plain_keys_def e)
    then have "k \<noteq> collision_key j" for j using collision_key_prefix by metis
    then have new: "k \<notin> fst ` set ?acc" using kfresh by (auto simp: keys static_part_def)
    have "k \<noteq> PlaceholderDynamicKey" using plain by (auto simp: PlaceholderDynamicKey_def)
    with False new have "normalize_entry rules ?acc e = ?acc @ [(k, v)]"
      by (simp add: normalize_entry_def e put_fresh)
    with False dist new acc len show ?thesis
      by (auto simp: e static_part_def dyn_count_def)
  qed
qed

section \<open>Documents up to dynamic data\<close>

text \<open>
  Every object has distinct keys (a decoded JSON object is a Go map), and no literal in the
  document imitates a placeholder.
\<close>

fun wf_json :: "json \<Rightarrow> bool" where
  "wf_json (JArr xs) = (\<forall>x\<in>set xs. wf_json x)"
| "wf_json (JObj m) = (distinct (map fst m) \<and> (\<forall>e\<in>set m. wf_json (snd e)))"
| "wf_json v = True"

fun literal :: "HeuristicRules \<Rightarrow> json \<Rightarrow> bool" where
  "literal rules (JStr s) = (s \<noteq> PlaceholderDynamicValue)"
| "literal rules (JArr xs) = (\<forall>x\<in>set xs. literal rules x)"
| "literal rules (JObj m) = (plain_keys rules m \<and> (\<forall>e\<in>set m. literal rules (snd e)))"
| "literal rules v = True"

lemma size_zip_left [termination_simp]:
  "(a, b) \<in> set (zip xs ys) \<Longrightarrow> size a < Suc (size_list size xs)"
  by (meson le_imp_less_Suc set_zip_leftD size_list_estimation' order_refl)

text \<open>Equality of decoded values: the order of the entries of an object does not count.\<close>

fun same_json :: "json \<Rightarrow> json \<Rightarrow> bool" where
  "same_json (JArr xs) (JArr ys) =
     (length xs = length ys \<and> (\<forall>p\<in>set (zip xs ys). same_json (fst p) (snd p)))"
| "same_json (JObj m) (JObj n) =
     (fst ` set m = fst ` set n \<and>
      (\<forall>e\<in>set m. \<forall>f\<in>set n. fst e = fst f \<longrightarrow> same_json (snd e) (snd f)))"
| "same_json a b = (a = b)"

text \<open>
  The specification of the comparison: two documents agree up to dynamic data when dynamic values
  stand in the same places, and objects agree on their static keys and have equally many dynamic
  ones.
\<close>

fun agree :: "libraries \<Rightarrow> Options \<Rightarrow> json \<Rightarrow> json \<Rightarrow> bool" where
  "agree lib opts a b =
     (if isValueDynamic lib opts a \<or> isValueDynamic lib opts b
      then isValueDynamic lib opts a \<and> isValueDynamic lib opts b
      else (case (a, b) of
          (JArr xs, JArr ys) \<Rightarrow>
            length xs = length ys \<and> (\<forall>p\<in>set (zip xs ys). agree lib opts (fst p) (snd p))
        | (JObj m, JObj n) \<Rightarrow>
            fst ` set (static_part (Rules opts) m) = fst ` set (static_part (Rules opts) n)
            \<and> dyn_count (Rules opts) m = dyn_count (Rules opts) n
            \<and> (\<forall>e\<in>set m. \<forall>f\<in>set n.
                 fst e = fst f \<and> \<not> isKeyDynamic (fst e) (Rules opts) \<longrightarrow> agree lib opts (snd e) (snd f))
        | _ \<Rightarrow> a = b))"

declare agree.simps [simp del]

lemma normalize_dynamic: "isValueDynamic lib opts a \<Longrightarrow> normalizeRecursive lib opts a = dynamic_value"
  by (simp add: normalizeRecursive_unfold)

lemma normalize_static:
  "\<not> isValueDynamic lib opts a \<Longrightarrow> normalizeRecursive lib opts a =
     (case a of JObj m \<Rightarrow> JObj (normalizeMap lib opts m) | JArr xs \<Rightarrow> JArr (normalizeSlice lib opts xs) | _ \<Rightarrow> a)"
  by (simp add: normalizeRecursive_unfold)

lemma normalized_map:
  assumes "wf_json (JObj m)" and "literal (Rules opts) (JObj m)"
  shows "set (normalizeMap lib opts m) =
     (\<lambda>(k, v). (k, normalizeRecursive lib opts v)) ` set (static_part (Rules opts) m)
       \<union> set (numbered (dyn_count (Rules opts) m))"
    and "distinct (map fst (normalizeMap lib opts m))"
    and "length (normalizeMap lib opts m) = length m"
proof -
  let ?m = "map (\<lambda>(k, v). (k, normalizeRecursive lib opts v)) m"
  have k: "map fst ?m = map fst m" by (simp add: comp_def case_prod_beta)
  have d: "distinct (map fst ?m)" unfolding k using assms(1) by simp
  have "plain_keys (Rules opts) ?m" using assms(2) by (auto simp: plain_keys_def)
  from normalize_loop [OF d this] have l: "distinct (map fst (normalizeMap lib opts m)) \<and> set (normalizeMap lib opts m) =
       set (static_part (Rules opts) ?m) \<union> set (numbered (dyn_count (Rules opts) ?m))
       \<and> length (normalizeMap lib opts m) = length ?m"
    unfolding normalizeMap_def .
  have "dyn_count (Rules opts) ?m = dyn_count (Rules opts) m"
    by (simp add: dyn_count_def filter_map comp_def) (simp add: case_prod_beta')
  moreover have "static_part (Rules opts) ?m = map (\<lambda>(k, v). (k, normalizeRecursive lib opts v)) (static_part (Rules opts) m)"
    by (simp add: static_part_def filter_map comp_def) (simp add: case_prod_beta')
  ultimately show "set (normalizeMap lib opts m) =
     (\<lambda>(k, v). (k, normalizeRecursive lib opts v)) ` set (static_part (Rules opts) m)
       \<union> set (numbered (dyn_count (Rules opts) m))"
    and "distinct (map fst (normalizeMap lib opts m))"
    and "length (normalizeMap lib opts m) = length m"
    using l by auto
qed

lemma same_json_sym_const: "same_json a dynamic_value \<longleftrightarrow> a = dynamic_value" "same_json dynamic_value a \<longleftrightarrow> a = dynamic_value"
  by (cases a; auto)+

lemma literal_not_placeholder:
  "literal rules b \<Longrightarrow> \<not> isValueDynamic lib opts b \<Longrightarrow> normalizeRecursive lib opts b \<noteq> dynamic_value"
  by (cases b) (simp_all add: normalize_static)

lemma plain_static_keys:
  assumes "plain_keys rules m"
  shows "collision_key j \<notin> fst ` set (static_part rules m)"
  using assms collision_key_prefix by (fastforce simp: static_part_def plain_keys_def)

text \<open>Static keys with placeholders on both sides agree iff both parts agree.\<close>

lemma keys_with_numbers:
  assumes "\<And>j. collision_key j \<notin> S" and "\<And>j. collision_key j \<notin> T"
  shows "S \<union> collision_key ` {..<n} = T \<union> collision_key ` {..<k} \<longleftrightarrow> S = T \<and> n = k"
proof
  assume eq: "S \<union> collision_key ` {..<n} = T \<union> collision_key ` {..<k}"
  have "collision_key ` {..<n} = collision_key ` {..<k}" "S = T"
    using eq assms by blast+
  then have "{..<n} = {..<k}"
    by (metis collision_key_inj inj_def inj_image_eq_iff)
  with \<open>S = T\<close> show "S = T \<and> n = k" by simp
qed simp

lemma map_keys: "fst ` (\<lambda>(k, v). (k, f v)) ` A = fst ` A"
  by (force simp: image_image case_prod_beta)

lemma same_normalized_maps:
  assumes m: "wf_json (JObj m)" "literal (Rules opts) (JObj m)"
    and n: "wf_json (JObj n)" "literal (Rules opts) (JObj n)"
    and IH: "\<And>e f. e \<in> set m \<Longrightarrow> f \<in> set n \<Longrightarrow>
       same_json (normalizeRecursive lib opts (snd e)) (normalizeRecursive lib opts (snd f)) = agree lib opts (snd e) (snd f)"
  shows "same_json (JObj (normalizeMap lib opts m)) (JObj (normalizeMap lib opts n)) \<longleftrightarrow>
      fst ` set (static_part (Rules opts) m) = fst ` set (static_part (Rules opts) n)
            \<and> dyn_count (Rules opts) m = dyn_count (Rules opts) n
            \<and> (\<forall>e\<in>set m. \<forall>f\<in>set n.
                 fst e = fst f \<and> \<not> isKeyDynamic (fst e) (Rules opts) \<longrightarrow> agree lib opts (snd e) (snd f))"
    (is "?same \<longleftrightarrow> ?keys \<and> ?count \<and> ?vals")
proof -
  let ?R = "Rules opts"
  let ?f = "\<lambda>(k, v). (k, normalizeRecursive lib opts v)"
  note M = normalized_map(1) [OF m, of lib] and N = normalized_map(1) [OF n, of lib]
  have pm: "\<And>j. collision_key j \<notin> fst ` set (static_part ?R m)"
    and pn: "\<And>j. collision_key j \<notin> fst ` set (static_part ?R n)"
    using m(2) n(2) plain_static_keys by auto
  have "fst ` set (normalizeMap lib opts m) = fst ` set (static_part ?R m) \<union> collision_key ` {..<dyn_count ?R m}"
    "fst ` set (normalizeMap lib opts n) = fst ` set (static_part ?R n) \<union> collision_key ` {..<dyn_count ?R n}"
    unfolding M N by (simp_all only: image_Un map_keys numbered_keys)
  then have keys: "fst ` set (normalizeMap lib opts m) = fst ` set (normalizeMap lib opts n) \<longleftrightarrow> ?keys \<and> ?count"
    using keys_with_numbers [OF pm pn] by simp
  have nums: "same_json (snd e) (snd f)"
    if "e \<in> set (numbered i)" "f \<in> set (numbered j)" for e f i j
    using that by (auto simp: numbered_def)
  have fresh: "fst e \<noteq> fst f" if e: "e \<in> set (numbered i)" and "f \<in> ?f ` set (static_part ?R m) \<union> ?f ` set (static_part ?R n)" for e f i
  proof -
    obtain j where "fst e = collision_key j" using e by (auto simp: numbered_def)
    moreover have "fst f \<in> fst ` set (static_part ?R m) \<union> fst ` set (static_part ?R n)"
      using imageI [OF that(2), of fst] by (simp only: image_Un map_keys)
    ultimately show ?thesis using pm [of j] pn [of j] by (metis UnE)
  qed
  have "(\<forall>e\<in>set (normalizeMap lib opts m). \<forall>f\<in>set (normalizeMap lib opts n). fst e = fst f \<longrightarrow> same_json (snd e) (snd f))
     \<longleftrightarrow> (\<forall>e\<in>?f ` set (static_part ?R m). \<forall>f\<in>?f ` set (static_part ?R n). fst e = fst f \<longrightarrow> same_json (snd e) (snd f))"
    unfolding M N using nums fresh by (metis (no_types, lifting) UnCI UnE)
  also have "\<dots> \<longleftrightarrow> ?vals"
    using IH by (fastforce simp: static_part_def)
  finally show ?thesis using keys by simp
qed

lemma normal_form_dynamic:
  assumes "literal (Rules opts) a" "literal (Rules opts) b"
    and "isValueDynamic lib opts a \<or> isValueDynamic lib opts b"
  shows "same_json (normalizeRecursive lib opts a) (normalizeRecursive lib opts b) \<longleftrightarrow> agree lib opts a b"
  using assms literal_not_placeholder [of "Rules opts" a lib opts] literal_not_placeholder [of "Rules opts" b lib opts]
  by (cases "isValueDynamic lib opts a"; cases "isValueDynamic lib opts b")
     (simp_all add: agree.simps [of lib opts a b] normalize_dynamic same_json_sym_const)

lemma normal_forms_agree:
  assumes "wf_json a" "wf_json b" "literal (Rules opts) a" "literal (Rules opts) b"
  shows "same_json (normalizeRecursive lib opts a) (normalizeRecursive lib opts b) \<longleftrightarrow> agree lib opts a b"
  using assms
proof (induction a arbitrary: b)
  case (JArr xs)
  show ?case
  proof (cases "isValueDynamic lib opts (JArr xs) \<or> isValueDynamic lib opts b")
    case False
    show ?thesis
    proof (cases b)
      case b: (JArr ys)
      have "same_json (normalizeRecursive lib opts x) (normalizeRecursive lib opts y) = agree lib opts x y"
        if "(x, y) \<in> set (zip xs ys)" for x y
      proof (rule JArr.IH)
        show "x \<in> set xs" using that by (rule set_zip_leftD)
        have "y \<in> set ys" using that by (rule set_zip_rightD)
        then show "wf_json x" "wf_json y" "literal (Rules opts) x" "literal (Rules opts) y"
          using JArr.prems b \<open>x \<in> set xs\<close> by auto
      qed
      then have "(\<forall>p\<in>set (zip xs ys). same_json (normalizeRecursive lib opts (fst p)) (normalizeRecursive lib opts (snd p)))
          \<longleftrightarrow> (\<forall>p\<in>set (zip xs ys). agree lib opts (fst p) (snd p))" by auto
      with False b show ?thesis
        by (simp add: agree.simps [of lib opts "JArr xs"] normalize_static normalizeSlice_def zip_map_map case_prod_beta)
    qed (use False in \<open>simp_all add: agree.simps [of lib opts "JArr xs"] normalize_static\<close>)
  qed (use JArr.prems normal_form_dynamic in blast)
next
  case (JObj m)
  show ?case
  proof (cases "isValueDynamic lib opts (JObj m) \<or> isValueDynamic lib opts b")
    case False
    show ?thesis
    proof (cases b)
      case b: (JObj n)
      have "same_json (normalizeRecursive lib opts (snd e)) (normalizeRecursive lib opts (snd f)) = agree lib opts (snd e) (snd f)"
        if "e \<in> set m" "f \<in> set n" for e f
        using that JObj.prems b by (intro JObj.IH [of e]) (auto simp: snds.simps)
      from same_normalized_maps [OF JObj.prems(1,3) JObj.prems(2,4) [unfolded b] this] False b show ?thesis
        by (simp add: agree.simps [of lib opts "JObj m"] normalize_static)
    qed (use False in \<open>simp_all add: agree.simps [of lib opts "JObj m"] normalize_static\<close>)
  qed (use JObj.prems normal_form_dynamic in blast)
qed (use normal_form_dynamic in
  \<open>cases "isValueDynamic lib opts b"; auto simp: agree.simps normalize_static split: json.splits\<close>)+

section \<open>The order in which a map is traversed\<close>

lemma sort_key_strict:
  "distinct (map f xs) \<Longrightarrow> sorted_wrt (<) (map f (sort_key f xs))"
  by (simp add: strict_sorted_iff distinct_map)

lemma same_json_object:
  assumes "same_json (JObj m) (JObj n)" and "(k, v) \<in> set m"
  obtains w where "(k, w) \<in> set n" and "same_json v w"
proof -
  have "k \<in> fst ` set n" using assms by force
  then obtain w where "(k, w) \<in> set n" by force
  with assms that show thesis by force
qed

lemma same_json_object':
  assumes "same_json (JObj m) (JObj n)" and "(k, w) \<in> set n"
  obtains v where "(k, v) \<in> set m" and "same_json v w"
proof -
  have "k \<in> fst ` set m" using assms by force
  then obtain v where "(k, v) \<in> set m" by force
  with assms that show thesis by force
qed

lemma zip_elements: "p \<in> set (zip xs ys) \<Longrightarrow> fst p \<in> set xs \<and> snd p \<in> set ys"
  by (metis prod.collapse set_zip_leftD set_zip_rightD)

lemma map_zip_eq:
  "length xs = length ys \<Longrightarrow> \<forall>p\<in>set (zip xs ys). f (fst p) = f (snd p) \<Longrightarrow> map f xs = map f ys"
  by (induction xs ys rule: list_induct2) auto

lemma sprint_same: "same_json a b \<Longrightarrow> wf_json a \<Longrightarrow> wf_json b \<Longrightarrow> sprint a = sprint b"
proof (induction a b rule: same_json.induct)
  case (1 xs ys)
  then have "map sprint xs = map sprint ys"
    using zip_elements [of _ xs ys] by (intro map_zip_eq) auto
  then show ?case by (simp only: sprint.simps)
next
  case (2 m n)
  let ?g = "\<lambda>(k, v). (k, sprint v)"
  have eq: "sprint v = sprint w" if "(k, v) \<in> set m" "(k, w) \<in> set n" for k v w
    using 2(1) [OF that] 2(2-4) that by fastforce
  have "(k, sprint v) \<in> ?g ` set n" if kv: "(k, v) \<in> set m" for k v
  proof -
    obtain w where "(k, w) \<in> set n" using same_json_object [OF 2(2) kv] by blast
    then show ?thesis using eq [OF kv] by force
  qed
  moreover have "(k, sprint w) \<in> ?g ` set m" if kw: "(k, w) \<in> set n" for k w
  proof -
    obtain v where "(k, v) \<in> set m" using same_json_object' [OF 2(2) kw] by blast
    then show ?thesis using eq [OF _ kw] by force
  qed
  ultimately have sets: "?g ` set m = ?g ` set n" by (auto 0 3)
  have keys: "map fst (map ?g l) = map fst l" for l by (simp add: comp_def case_prod_beta)
  have "distinct (map fst (map ?g m))" "distinct (map fst (map ?g n))"
    unfolding keys using 2 by simp_all
  then have "sort_key fst (map ?g m) = sort_key fst (map ?g n)"
    by (intro strictly_sorted_unique [where f = fst] sort_key_strict) (simp_all add: sets)
  then show ?case by simp
qed auto

lemma is_dynamic_same:
  assumes "same_json a b" "wf_json a" "wf_json b"
  shows "isValueDynamic lib opts a = isValueDynamic lib opts b"
proof -
  have "sprint a = sprint b" using sprint_same assms by blast
  moreover have "is_structure a = is_structure b" using assms(1) by (cases a; cases b) auto
  moreover have "a = b \<or> is_structure a" using assms(1) by (cases a; cases b) auto
  ultimately show ?thesis
    by (cases a; cases b) (auto simp: isValueDynamic_def)
qed

lemma same_dyn_count:
  fixes m n :: "(string \<times> json) list"
  assumes "distinct (map fst m)" "distinct (map fst n)" "fst ` set m = fst ` set n"
  shows "dyn_count rules m = dyn_count rules n"
proof -
  have "dyn_count rules l = card {k \<in> fst ` set l. isKeyDynamic k rules}" if "distinct (map fst l)"
    for l :: "(string \<times> json) list"
  proof -
    have "dyn_count rules l = length (filter (\<lambda>k. isKeyDynamic k rules) (map fst l))"
      by (simp add: dyn_count_def filter_map comp_def) (simp add: case_prod_beta')
    also have "\<dots> = card (set (filter (\<lambda>k. isKeyDynamic k rules) (map fst l)))"
      using that by (metis distinct_card distinct_filter)
    finally show ?thesis by (simp add: Collect_conj_eq Int_commute)
  qed
  from this [OF assms(1)] this [OF assms(2)] show ?thesis unfolding assms(3) by simp
qed

lemma same_agree: "same_json a b \<Longrightarrow> wf_json a \<Longrightarrow> wf_json b \<Longrightarrow> agree lib opts a b"
proof (induction a b rule: same_json.induct)
  case (1 xs ys)
  have "agree lib opts (fst p) (snd p)" if "p \<in> set (zip xs ys)" for p
    using 1 that zip_elements [OF that] by auto
  with 1 show ?case
    using is_dynamic_same [OF 1(2-4), of lib opts] by (auto simp: agree.simps [of lib opts "JArr xs"])
next
  case (2 m n)
  have "agree lib opts (snd e) (snd f)" if "e \<in> set m" "f \<in> set n" "fst e = fst f" for e f
    using 2 that by auto
  moreover have "fst ` set (static_part (Rules opts) m) = {k \<in> fst ` set m. \<not> isKeyDynamic k (Rules opts)}" for m :: "(string \<times> json) list"
    by (force simp: static_part_def)
  moreover have "dyn_count (Rules opts) m = dyn_count (Rules opts) n"
    using 2 by (intro same_dyn_count) auto
  ultimately show ?case
    using 2 is_dynamic_same [OF 2(2-4), of lib opts] by (auto simp: agree.simps [of lib opts "JObj m"])
qed (auto simp: agree.simps)

section \<open>The comparison of two bodies\<close>

text \<open>
  C25. The normal form of a document is canonical: two documents without literal placeholders have
  the same normal form exactly when they agree up to dynamic data, that is when dynamic values
  stand in the same places and objects have the same static keys and equally many dynamic ones;
  documents that differ only in the order in which their maps are traversed always agree, and an
  object keeps the number of its entries.
\<close>

theorem normal_form_canonical:
  assumes "wf_json a" "wf_json b" "literal (Rules opts) a" "literal (Rules opts) b"
  shows "(same_json (normalize lib opts a) (normalize lib opts b) \<longleftrightarrow> agree lib opts a b)
    \<and> (same_json a b \<longrightarrow> same_json (normalize lib opts a) (normalize lib opts b))
    \<and> (\<forall>m. a = JObj m \<and> \<not> isValueDynamic lib opts a \<longrightarrow>
         (\<exists>n. normalize lib opts a = JObj n \<and> length n = length m \<and> distinct (map fst n)))"
proof -
  have "same_json (normalize lib opts a) (normalize lib opts b) \<longleftrightarrow> agree lib opts a b"
    using normal_forms_agree [OF assms] by (simp add: normalize_def)
  moreover have "same_json a b \<longrightarrow> agree lib opts a b"
    using same_agree assms by blast
  moreover have "\<exists>n. normalize lib opts a = JObj n \<and> length n = length m \<and> distinct (map fst n)"
    if "a = JObj m" "\<not> isValueDynamic lib opts a" for m
    using that assms normalized_map(2,3) [of m opts lib] by (simp add: normalize_def normalize_static)
  ultimately show ?thesis by blast
qed

text \<open>A library instance for evaluation: a decoder of three bodies and structural equality.\<close>

definition doc1 :: json where
  "doc1 = JObj [(''session_id'', JStr ''a''), (''user'', JObj [(''n'', JNum ''1'')])]"

definition doc2 :: json where
  "doc2 = JObj [(''user'', JObj [(''n'', JNum ''1'')]), (''csrf'', JStr ''b'')]"

definition example_libs :: libraries where
  "example_libs =
    \<lparr>json_Valid = (\<lambda>s. s = ''d1'' \<or> s = ''d2''),
     json_Decode = (\<lambda>s. if s = ''d1'' then Some doc1 else if s = ''d2'' then Some doc2 else None),
     uuid_Parse = (\<lambda>_. False), time_Parse = (\<lambda>_ _. False),
     Float64 = (\<lambda>s. if s = ''1'' then Some 1 else if s = ''2'' then Some 2 else if s = ''10'' then Some 10 else None),
     cmp_Diff = (\<lambda>a b opts. if same_json a b then '''' else ''diff'')\<rparr>"

lemma example_literal:
  "wf_json doc1" "wf_json doc2" "literal DefaultRules doc1" "literal DefaultRules doc2"
  by (simp_all add: doc1_def doc2_def plain_keys_def PlaceholderDynamicValue_def)

lemma example_keys:
  "isKeyDynamic ''session_id'' DefaultRules" "isKeyDynamic ''csrf'' DefaultRules"
  "\<not> isKeyDynamic ''user'' DefaultRules" "\<not> isKeyDynamic ''n'' DefaultRules"
  unfolding isKeyDynamic_def DefaultRules_def HeuristicRules.simps by code_simp+

lemma example_values:
  "\<not> isValueDynamic example_libs DefaultOptions (JNum ''1'')"
  "\<not> isValueDynamic example_libs DefaultOptions (JObj m)"
  by (simp_all add: isValueDynamic_def DefaultOptions_def DefaultRules_def isStringValueDynamic_def
        example_libs_def isPlausibleUnixTimestamp_def)

lemma example_agree: "agree example_libs DefaultOptions doc1 doc2"
proof -
  have [simp]: "Rules DefaultOptions = DefaultRules" by (simp add: DefaultOptions_def)
  have "agree example_libs DefaultOptions (JNum ''1'') (JNum ''1'')"
    by (simp add: agree.simps example_values)
  then have "agree example_libs DefaultOptions (JObj [(''n'', JNum ''1'')]) (JObj [(''n'', JNum ''1'')])"
    by (subst agree.simps) (simp add: example_values)
  then show ?thesis
    unfolding doc1_def doc2_def
    by (subst agree.simps) (simp add: example_values example_keys static_part_def dyn_count_def)
qed

theorem normal_form_canonical_witness:
  "same_json (normalize example_libs DefaultOptions doc1) (normalize example_libs DefaultOptions doc2)"
proof -
  have "Rules DefaultOptions = DefaultRules" by (simp add: DefaultOptions_def)
  with normal_form_canonical [of doc1 doc2 DefaultOptions example_libs] example_literal example_agree
  show ?thesis by simp
qed

section \<open>Sorting arrays\<close>

definition number_of :: "libraries \<Rightarrow> json \<Rightarrow> rat" where
  "number_of lib x = (case x of JNum n \<Rightarrow> the (Float64 lib n) | JBool b \<Rightarrow> (if b then 1 else 0) | _ \<Rightarrow> 0)"

definition text_of :: "json \<Rightarrow> string" where
  "text_of x = (case x of JStr s \<Rightarrow> s | JArr xs \<Rightarrow> sprint x | JObj m \<Rightarrow> sprint x | _ \<Rightarrow> '''')"

definition readable :: "libraries \<Rightarrow> json \<Rightarrow> bool" where
  "readable lib x = (case x of JNum n \<Rightarrow> Float64 lib n \<noteq> None | _ \<Rightarrow> True)"

text \<open>On values whose numbers are readable the comparison is lexicographic: type, number, text.\<close>

lemma slice_less_lexicographic:
  assumes "readable lib x" "readable lib y"
  shows "genericSliceLess lib x y \<longleftrightarrow>
    type_name x < type_name y \<or> type_name x = type_name y \<and>
      (number_of lib x < number_of lib y \<or> number_of lib x = number_of lib y \<and> text_of x < text_of y)"
  using assms
  by (cases x; cases y)
     (auto simp: genericSliceLess_def number_less_def number_of_def text_of_def readable_def)

section \<open>The contract of the difference library\<close>

text \<open>
  \<^verbatim>\<open>cmp.Diff\<close> returns the empty text exactly for values that \<^verbatim>\<open>cmp.Equal\<close> finds equal. Its
  documentation asks the following of the options. A filter and a comparer are symmetric.
  The less function of \<^verbatim>\<open>cmpopts.SortSlices\<close> is deterministic, irreflexive and transitive in the
  sense that \<open>\<not> less x y\<close> and \<open>\<not> less y z\<close> give \<open>\<not> less x z\<close>; the values it is asked about
  are those of the two documents. At most one option may apply to a pair of values: the sorter
  applies to slices of two elements or more, so a comparer must keep away from these.
  \<open>subvalues\<close> are the values a document consists of.
\<close>

fun subvalues :: "json \<Rightarrow> json set" where
  "subvalues (JArr xs) = insert (JArr xs) (\<Union>x\<in>set xs. subvalues x)"
| "subvalues (JObj m) = insert (JObj m) (\<Union>e\<in>set m. subvalues (snd e))"
| "subvalues v = {v}"

definition comparer_contract :: "(json \<Rightarrow> json \<Rightarrow> bool) \<Rightarrow> (json \<Rightarrow> json \<Rightarrow> bool) \<Rightarrow> bool" where
  "comparer_contract applies equal \<longleftrightarrow>
     (\<forall>x y. applies x y = applies y x \<and> equal x y = equal y x) \<and>
     (\<forall>x y. applies x y \<and> same_json x y \<longrightarrow> equal x y) \<and>
     (\<forall>xs y. 2 \<le> length xs \<longrightarrow> \<not> applies (JArr xs) y)"

definition sorter_contract :: "json set \<Rightarrow> (json \<Rightarrow> json \<Rightarrow> bool) \<Rightarrow> bool" where
  "sorter_contract V lt \<longleftrightarrow>
     (\<forall>x\<in>V. \<not> lt x x) \<and>
     (\<forall>x\<in>V. \<forall>y\<in>V. \<forall>z\<in>V. \<not> lt x y \<and> \<not> lt y z \<longrightarrow> \<not> lt x z) \<and>
     (\<forall>x\<in>V. \<forall>y\<in>V. \<forall>x'\<in>V. \<forall>y'\<in>V. same_json x x' \<and> same_json y y' \<longrightarrow> lt x y = lt x' y')"

fun option_contract :: "json set \<Rightarrow> cmp_option \<Rightarrow> bool" where
  "option_contract V (FilteredComparer applies equal) = comparer_contract applies equal"
| "option_contract V (SortSlices lt) = sorter_contract V lt"

fun is_sorter :: "cmp_option \<Rightarrow> bool" where
  "is_sorter (SortSlices lt) = True"
| "is_sorter (FilteredComparer applies equal) = False"

definition options_contract :: "json set \<Rightarrow> cmp_option list \<Rightarrow> bool" where
  "options_contract V cs \<longleftrightarrow> list_all (option_contract V) cs
     \<and> length (filter is_sorter cs) \<le> 1 \<and> length (filter (\<lambda>c. \<not> is_sorter c) cs) \<le> 1"

text \<open>
  What the service relies on: without options equality is structural, maps being compared by
  their keys; under options that keep the contract equal values stay equal.
\<close>

definition diff_law :: "libraries \<Rightarrow> bool" where
  "diff_law lib \<longleftrightarrow>
     (\<forall>x y. wf_json x \<and> wf_json y \<longrightarrow> (cmp_Diff lib x y [] = '''' \<longleftrightarrow> same_json x y)) \<and>
     (\<forall>x y cs. wf_json x \<and> wf_json y \<and> same_json x y \<and> options_contract (subvalues x \<union> subvalues y) cs
        \<longrightarrow> cmp_Diff lib x y cs = '''')"

lemma subvalues_wf: "v \<in> subvalues x \<Longrightarrow> wf_json x \<Longrightarrow> wf_json v"
  by (induction x rule: subvalues.induct) auto

lemma normalize_wf:
  "wf_json a \<Longrightarrow> literal (Rules opts) a \<Longrightarrow> wf_json (normalizeRecursive lib opts a)"
proof (induction a)
  case (JArr xs)
  then show ?case
    by (cases "isValueDynamic lib opts (JArr xs)") (auto simp: normalize_dynamic normalize_static normalizeSlice_def)
next
  case (JObj m)
  have n: "distinct (map fst (normalizeMap lib opts m))"
    using normalized_map(2) [of m opts lib] JObj.prems by simp
  have "wf_json (snd e)" if "e \<in> set (normalizeMap lib opts m)" for e
    using that JObj unfolding normalized_map(1) [OF JObj.prems]
    by (fastforce simp: static_part_def numbered_def snds.simps)
  with n show ?case
    by (cases "isValueDynamic lib opts (JObj m)") (auto simp: normalize_dynamic normalize_static)
qed (simp_all add: normalizeRecursive_unfold)

lemma normalize_readable:
  "wf_json a \<Longrightarrow> literal (Rules opts) a \<Longrightarrow> \<forall>v\<in>subvalues a. readable lib v
   \<Longrightarrow> v \<in> subvalues (normalizeRecursive lib opts a) \<Longrightarrow> readable lib v"
proof (induction a)
  case (JArr xs)
  then show ?case
    by (cases "isValueDynamic lib opts (JArr xs)")
       (auto simp: normalize_dynamic normalize_static normalizeSlice_def readable_def)
next
  case (JObj m)
  have "readable lib v" if "e \<in> set (normalizeMap lib opts m)" "v \<in> subvalues (snd e)" for e
    using that JObj unfolding normalized_map(1) [OF JObj.prems(1,2)]
    by (fastforce simp: static_part_def numbered_def snds.simps readable_def)
  with JObj.prems(4) show ?case
    by (cases "isValueDynamic lib opts (JObj m)") (auto simp: normalize_dynamic normalize_static readable_def)
qed (auto simp: normalizeRecursive_unfold readable_def split: if_splits)

lemma same_json_kind:
  "same_json x y \<Longrightarrow> type_name x = type_name y" "same_json x y \<Longrightarrow> isEmpty x = isEmpty y"
  by (cases x; cases y; force simp: isEmpty_def)+

lemma equateEmpty_contract: "option_contract V equateEmptyOption"
proof -
  have "\<not> isEmpty (JArr xs)" if "2 \<le> length xs" for xs using that by (auto simp: isEmpty_def)
  moreover have "x = JNull \<or> y = JNull \<or> type_name x = type_name y" if "same_json x y" for x y
    using same_json_kind(1) [OF that] by blast
  moreover have "(if x = JNull \<or> y = JNull then True else type_name x = type_name y)
      = (if y = JNull \<or> x = JNull then True else type_name y = type_name x)" for x y by auto
  ultimately show ?thesis
    unfolding equateEmptyOption_def option_contract.simps comparer_contract_def by (simp add: conj_commute) blast
qed

lemma slice_less_same:
  assumes "same_json x x'" "same_json y y'" and "wf_json x" "wf_json x'" "wf_json y" "wf_json y'"
  shows "genericSliceLess lib x y = genericSliceLess lib x' y'"
proof -
  have "sprint x = sprint x'" "sprint y = sprint y'" using assms sprint_same by blast+
  with assms(1,2) show ?thesis
    by (cases x; cases x'; simp; cases y; cases y'; simp add: genericSliceLess_def)
qed

lemma slice_less_contract:
  assumes "\<forall>v\<in>V. wf_json v \<and> readable lib v"
  shows "option_contract V (SortSlices (genericSliceLess lib))"
proof -
  have "\<not> genericSliceLess lib x z" if "x \<in> V" "y \<in> V" "z \<in> V"
    "\<not> genericSliceLess lib x y" "\<not> genericSliceLess lib y z" for x y z
  proof -
    have "readable lib x" "readable lib y" "readable lib z" using that assms by blast+
    with that(4,5) show ?thesis by (auto simp: slice_less_lexicographic)
  qed
  moreover have "\<not> genericSliceLess lib x x" if "x \<in> V" for x
    using that assms by (simp add: slice_less_lexicographic)
  moreover have "genericSliceLess lib x y = genericSliceLess lib x' y'"
    if "x \<in> V" "y \<in> V" "x' \<in> V" "y' \<in> V" "same_json x x' \<and> same_json y y'" for x y x' y'
    using that assms by (intro slice_less_same) blast+
  ultimately show ?thesis unfolding option_contract.simps sorter_contract_def by blast
qed

lemma built_options_contract:
  assumes "\<forall>v\<in>V. wf_json v" and "IgnoreArrayOrder opts \<longrightarrow> (\<forall>v\<in>V. readable lib v)"
  shows "options_contract V (buildCmpOptions lib opts)"
  using assms equateEmpty_contract [of V] slice_less_contract [of V lib]
  by (auto simp: options_contract_def buildCmpOptions_def equateEmptyOption_def)


lemma example_diff_law: "diff_law example_libs"
  by (simp add: diff_law_def example_libs_def)

lemma example_wf: "\<forall>body d. json_Decode example_libs body = Some d \<longrightarrow> wf_json d"
  using example_literal by (auto simp: example_libs_def split: if_splits)


section \<open>Entropy bounds\<close>

lemma length_runes: "length (runes bs) \<le> length bs"
proof (induction bs rule: runes.induct)
  case (1 bs)
  show ?case
  proof (cases "bs = []")
    case True
    then show ?thesis by (simp add: runes.simps)
  next
    case False
    obtain r w where rw: "decode_rune bs = (r, w)" by force
    with False have w: "1 \<le> w" using decode_rune_width [of bs] by simp
    have "length (runes (drop w bs)) \<le> length bs - w"
      using 1 [OF False, of "(r, w)" r w] rw by simp
    moreover have "0 < length bs" using False by simp
    ultimately have "Suc (length (runes (drop w bs))) \<le> length bs" using w by linarith
    with False rw show ?thesis by (simp add: runes.simps [of bs])
  qed
qed

lemma runes_not_Nil: "bs \<noteq> [] \<Longrightarrow> runes bs \<noteq> []"
  by (subst runes.simps) (simp add: case_prod_beta)

lemma foldl_minus: "foldl (\<lambda>e x. e - f x) a xs = a - sum_list (map f xs)" for a :: real
  by (induction xs arbitrary: a) auto

lemma entropy_sum:
  assumes "str \<noteq> []"
  shows "calculateShannonEntropy str =
    (let rs = string_runes str; n = real (length rs)
     in \<Sum>r\<in>set rs. real (count_list rs r) / n * - log 2 (real (count_list rs r) / n))"
proof -
  let ?rs = "string_runes str"
  let ?p = "\<lambda>r. real (count_list ?rs r) / real (length ?rs)"
  have "calculateShannonEntropy str =
      foldl (\<lambda>e x. e - (real (snd x) / real (length ?rs)) * log 2 (real (snd x) / real (length ?rs))) 0 (runeCounts ?rs)"
    using assms by (simp add: calculateShannonEntropy_def Let_def case_prod_beta')
  also have "\<dots> = - sum_list (map (\<lambda>r. ?p r * log 2 (?p r)) (remdups ?rs))"
    by (simp add: foldl_minus runeCounts_def comp_def)
  also have "\<dots> = (\<Sum>r\<in>set ?rs. ?p r * - log 2 (?p r))"
    by (simp add: sum_list_distinct_conv_sum_set sum_negf)
  finally show ?thesis by (simp add: Let_def)
qed

lemma entropy_term:
  fixes c n :: nat
  assumes "1 \<le> c" and "c \<le> n"
  shows "0 \<le> real c / n * - log 2 (real c / n)"
    and "real c / n * - log 2 (real c / n) \<le> real c / n * log 2 n"
proof -
  have n: "0 < real n" and c: "0 < real c" using assms by auto
  then have l: "log 2 (real c / n) = log 2 c - log 2 n" by (simp add: log_divide)
  have "0 \<le> log 2 (real c)" using assms by simp
  moreover have "log 2 (real c) \<le> log 2 n" using assms by simp
  ultimately show "0 \<le> real c / n * - log 2 (real c / n)"
    and "real c / n * - log 2 (real c / n) \<le> real c / n * log 2 n"
    unfolding l using n c by (auto intro!: mult_nonneg_nonneg mult_left_mono simp del: times_divide_eq_left)
qed

lemma short_log:
  fixes n :: nat
  assumes "0 < n" and "n < 23"
  shows "log 2 n \<le> 4.5"
proof -
  have "n\<^sup>2 \<le> 22\<^sup>2" using assms(2) by (intro power_mono) auto
  then have "n\<^sup>2 \<le> 512" by simp
  then have "real (n\<^sup>2) \<le> 512" by linarith
  have "2 * log 2 n = log 2 (real (n\<^sup>2))" using assms(1) by (simp add: log_nat_power)
  also have "\<dots> \<le> log 2 512" using \<open>real (n\<^sup>2) \<le> 512\<close> assms(1) by simp
  also have "log 2 512 = (9::real)" using log_pow_cancel [of 2 9] by simp
  finally show ?thesis by simp
qed

text \<open>
  The entropy of a string lies between zero and the binary logarithm of its length in bytes;
  so a string of fewer than 23 bytes never exceeds the default threshold, although the code
  computes entropies from 12 bytes on.
\<close>

theorem entropy_bounds:
  "0 \<le> calculateShannonEntropy str
   \<and> (str \<noteq> [] \<longrightarrow> calculateShannonEntropy str \<le> log 2 (real (length str)))
   \<and> (length str < 23 \<longrightarrow> \<not> calculateShannonEntropy str > EntropyThreshold DefaultRules)"
proof (cases "str = []")
  case True
  then show ?thesis by (simp add: calculateShannonEntropy_def DefaultRules_def)
next
  case False
  define rs where "rs = string_runes str"
  define n where "n = length rs"
  let ?t = "\<lambda>r. real (count_list rs r) / n * - log 2 (real (count_list rs r) / n)"
  have H: "calculateShannonEntropy str = (\<Sum>r\<in>set rs. ?t r)"
    using entropy_sum [OF False] by (simp add: rs_def n_def Let_def)
  have n: "1 \<le> n" "n \<le> length str"
    using runes_not_Nil [of "map of_char str"] length_runes [of "map of_char str"] False
    by (auto simp: n_def rs_def string_runes_def Suc_le_eq)
  have c: "1 \<le> count_list rs r" "count_list rs r \<le> n" if "r \<in> set rs" for r
    using that count_list_0_iff [of rs r] count_le_length [of rs r] by (auto simp: n_def Suc_le_eq)
  have low: "0 \<le> calculateShannonEntropy str"
    unfolding H using entropy_term(1) c by (intro sum_nonneg) blast
  have "calculateShannonEntropy str \<le> (\<Sum>r\<in>set rs. real (count_list rs r) / n * log 2 n)"
    unfolding H using entropy_term(2) c by (intro sum_mono) blast
  also have "\<dots> = (\<Sum>r\<in>set rs. real (count_list rs r)) / n * log 2 n"
    by (simp add: sum_distrib_right sum_divide_distrib)
  also have "(\<Sum>r\<in>set rs. real (count_list rs r)) = n"
    using sum_count_set [of rs "set rs"] by (simp add: n_def flip: of_nat_sum)
  also have "real n / n * log 2 n \<le> log 2 (length str)"
  proof -
    have "0 < real n" "real n \<le> real (length str)" using n by auto
    then show ?thesis using log_mono [of 2 "real n" "real (length str)"] by simp
  qed
  finally have high: "calculateShannonEntropy str \<le> log 2 (length str)" .
  have "calculateShannonEntropy str \<le> 4.5" if "length str < 23"
    using high short_log [OF _ that] False by simp
  with low high show ?thesis by (simp add: DefaultRules_def not_less)
qed

theorem entropy_bounds_witness:
  "calculateShannonEntropy ''aB3xK9pQ7zLm'' \<le> log 2 12
   \<and> \<not> calculateShannonEntropy ''aB3xK9pQ7zLm'' > EntropyThreshold DefaultRules"
  using entropy_bounds [of "''aB3xK9pQ7zLm''"] by simp

text \<open>
  C37. The comparison used to sort arrays is a strict weak order on values whose numbers are in
  the range of \<^verbatim>\<open>float64\<close>. It is not one in general: the numbers 2, 10 and an out-of-range
  1e999 form a cycle, for the fallback to text comparison is taken pair by pair.
\<close>

theorem slice_order:
  "(\<forall>lib x y z. readable lib x \<and> readable lib y \<and> readable lib z \<longrightarrow>
      \<not> genericSliceLess lib x x
      \<and> (genericSliceLess lib x y \<and> genericSliceLess lib y z \<longrightarrow> genericSliceLess lib x z)
      \<and> (\<not> genericSliceLess lib x y \<and> \<not> genericSliceLess lib y z \<longrightarrow> \<not> genericSliceLess lib x z))
   \<and> (\<forall>lib. Float64 lib ''2'' = Some 2 \<and> Float64 lib ''10'' = Some 10 \<and> Float64 lib ''1e999'' = None \<longrightarrow>
      genericSliceLess lib (JNum ''2'') (JNum ''10'')
      \<and> genericSliceLess lib (JNum ''10'') (JNum ''1e999'')
      \<and> genericSliceLess lib (JNum ''1e999'') (JNum ''2''))"
proof (intro conjI allI impI)
  fix lib x y z
  assume r: "readable lib x \<and> readable lib y \<and> readable lib z"
  then show "\<not> genericSliceLess lib x x" by (simp add: slice_less_lexicographic)
  show "genericSliceLess lib x z" if "genericSliceLess lib x y \<and> genericSliceLess lib y z"
    using r that by (auto simp: slice_less_lexicographic)
  show "\<not> genericSliceLess lib x z" if "\<not> genericSliceLess lib x y \<and> \<not> genericSliceLess lib y z"
    using r that by (auto simp: slice_less_lexicographic)
next
  fix lib :: libraries assume "Float64 lib ''2'' = Some 2 \<and> Float64 lib ''10'' = Some 10 \<and> Float64 lib ''1e999'' = None"
  then show "genericSliceLess lib (JNum ''2'') (JNum ''10'')"
    and "genericSliceLess lib (JNum ''10'') (JNum ''1e999'')"
    and "genericSliceLess lib (JNum ''1e999'') (JNum ''2'')"
    by (simp_all add: genericSliceLess_def number_less_def)
qed

theorem slice_order_witness:
  "genericSliceLess example_libs (JNum ''1e999'') (JNum ''2'')
   \<and> genericSliceLess example_libs (JNum ''2'') (JStr ''a'')"
proof -
  have n: "Float64 example_libs ''2'' = Some 2 \<and> Float64 example_libs ''10'' = Some 10 \<and> Float64 example_libs ''1e999'' = None"
    by (simp add: example_libs_def)
  have r: "readable example_libs (JNum ''2'')" "readable example_libs (JNum ''10'')" "readable example_libs (JStr ''a'')"
    using n by (simp_all add: readable_def)
  have "genericSliceLess example_libs (JNum ''2'') (JNum ''10'')" "genericSliceLess example_libs (JNum ''10'') (JStr ''a'')"
    using n by (simp_all add: genericSliceLess_def number_less_def less_char_def)
  then show ?thesis using slice_order n r by blast
qed

end
