(* ===== verification/AnalysisContext.thy ===== *)
theory AnalysisContext
  imports Results
begin

text \<open>
  What the passive analysers share: the recorded traffic (the parts of the HAR of
  \<^verbatim>\<open>api/schemas/har.go\<close> they read), the task, the analysis context of
  \<^verbatim>\<open>internal/analysis/core/context.go\<close> with \<^verbatim>\<open>AddFinding\<close>, and the contract of
  \<^verbatim>\<open>core.Analyzer\<close> as a locale, which each analyser interprets.

  \<^verbatim>\<open>json.Unmarshal\<close> of the HAR, \<^verbatim>\<open>json.Marshal\<close> of evidence, fresh identifiers and the clock are
  parameters, bundled in \<open>services\<close>: the n-th identifier and time of a run are \<open>newID n\<close> and
  \<open>now n\<close>, with n the number of findings reported before.
\<close>

section \<open>Recorded traffic\<close>

type_synonym nv_pair = "string \<times> string"

record har_request =
  reqURL :: string
  reqCookies :: "nv_pair list"
  reqHeaders :: "nv_pair list"
  reqPostText :: "string option"

record har_response =
  respCookies :: "nv_pair list"
  respHeaders :: "nv_pair list"
  respText :: string

type_synonym har_entry = "har_request \<times> har_response"

section \<open>The context of a task\<close>

record scan_task =
  tTaskID :: string
  tScanID :: string
  tType :: string
  tTargetURL :: string

record analysis_context =
  acTask :: scan_task
  acTargetURL :: string
  acHAR :: "string option"
  acFindings :: "scan_finding list"

record services =
  unmarshalHAR :: "string \<Rightarrow> (string, har_entry list) result"
  marshal :: "(string \<times> string) list \<Rightarrow> string option"
  newID :: "nat \<Rightarrow> string"
  now :: "nat \<Rightarrow> int"

definition nilUUID :: string where
  "nilUUID = ''00000000-0000-0000-0000-000000000000''"

definition fill_id :: "string \<Rightarrow> string \<Rightarrow> string" where
  "fill_id own fromTask = (if own = '''' then (if fromTask \<noteq> '''' then fromTask else nilUUID) else own)"

definition AddFinding :: "analysis_context \<Rightarrow> scan_finding \<Rightarrow> analysis_context" where
  "AddFinding ac f =
     ac\<lparr>acFindings := acFindings ac @
        [f\<lparr>ScanID := fill_id (ScanID f) (tScanID (acTask ac)),
           TaskID := fill_id (TaskID f) (tTaskID (acTask ac))\<rparr>]\<rparr>"

section \<open>The contract of an analyser\<close>

text \<open>
  A finding a task may store: it names its scan and its task (the database rejects empty
  identifiers) and the scan is that of the task wherever the task has one.
\<close>

definition storable :: "scan_task \<Rightarrow> scan_finding \<Rightarrow> bool" where
  "storable t f \<longleftrightarrow> ScanID f = fill_id '''' (tScanID t) \<and> TaskID f = fill_id '''' (tTaskID t)"

definition extends_context :: "analysis_context \<Rightarrow> analysis_context \<Rightarrow> bool" where
  "extends_context ac ac' \<longleftrightarrow>
     (\<exists>fs. ac' = ac\<lparr>acFindings := acFindings ac @ fs\<rparr> \<and> list_all (storable (acTask ac)) fs)"

lemma context_refl: "extends_context ac ac"
  unfolding extends_context_def by (rule exI [of _ "[]"]) simp

lemma context_trans:
  assumes "extends_context a b" and "extends_context b c"
  shows "extends_context a c"
proof -
  obtain fs where b: "b = a\<lparr>acFindings := acFindings a @ fs\<rparr>" "list_all (storable (acTask a)) fs"
    using assms(1) by (auto simp: extends_context_def)
  obtain gs where c: "c = b\<lparr>acFindings := acFindings b @ gs\<rparr>" "list_all (storable (acTask b)) gs"
    using assms(2) by (auto simp: extends_context_def)
  have "c = a\<lparr>acFindings := acFindings a @ (fs @ gs)\<rparr>" using b c by simp
  moreover have "list_all (storable (acTask a)) (fs @ gs)" using b c by simp
  ultimately show ?thesis unfolding extends_context_def by blast
qed

lemma extends_task: "extends_context a b \<Longrightarrow> acTask b = acTask a"
  by (auto simp: extends_context_def)

lemma AddFinding_extends:
  assumes "ScanID f = ''''" and "TaskID f = '''' \<or> TaskID f = tTaskID (acTask ac)"
  shows "extends_context ac (AddFinding ac f)"
  using assms unfolding extends_context_def AddFinding_def
  by (auto simp: storable_def fill_id_def)

lemma fold_extends:
  assumes "\<And>x ac. extends_context ac (step ac x)"
  shows "extends_context ac (foldl step ac xs)"
proof (induction xs arbitrary: ac)
  case Nil
  then show ?case by (simp add: context_refl)
next
  case (Cons x xs)
  then show ?case using assms context_trans by (simp, blast)
qed

locale analyzer =
  fixes Analyze :: "analysis_context \<Rightarrow> (string, analysis_context) result"
  assumes analyze_extends: "Analyze ac = Inr ac' \<Longrightarrow> extends_context ac ac'"
begin

text \<open>Earlier findings are kept in order and later ones are storable.\<close>

lemma findings_kept:
  "Analyze ac = Inr ac' \<Longrightarrow> \<exists>fs. acFindings ac' = acFindings ac @ fs \<and> list_all (storable (acTask ac)) fs"
  using analyze_extends by (fastforce simp: extends_context_def)

lemma task_kept: "Analyze ac = Inr ac' \<Longrightarrow> acTask ac' = acTask ac \<and> acTargetURL ac' = acTargetURL ac"
  using analyze_extends by (fastforce simp: extends_context_def)

lemma storable_kept:
  assumes "Analyze ac = Inr ac'" and "list_all (storable (acTask ac)) (acFindings ac)"
  shows "list_all (storable (acTask ac')) (acFindings ac')"
  using analyze_extends [OF assms(1)] assms(2) by (auto simp: extends_context_def)

end

end
