(* ===== verification/Headers.thy ===== *)
theory Headers
  imports AnalysisContext
begin

text \<open>
  The passive analyser of response headers
  (\<^verbatim>\<open>internal/analysis/passive/headers/header_analyzer.go\<close>), every check and the report helpers.
  The required headers are a Go map; \<open>order\<close> is the order of its traversal.
\<close>

section \<open>Helpers\<close>

definition MinHstsMaxAge :: nat where
  "MinHstsMaxAge = 15552000"

definition is_digit :: "char \<Rightarrow> bool" where
  "is_digit c = (digit_val c \<noteq> None)"

text \<open>
  \<^verbatim>\<open>regexMaxAge.FindStringSubmatch\<close>: the digits after the leftmost \<^verbatim>\<open>max-age=\<close> (in any letter
  case) that is followed by a digit.
\<close>

fun find_max_age :: "string \<Rightarrow> string option" where
  "find_max_age [] = None"
| "find_max_age (c # s) =
     (let t = c # s; ds = takeWhile is_digit (drop 8 t) in
      if ToUpper (take 8 t) = ''MAX-AGE='' \<and> ds \<noteq> [] then Some ds else find_max_age s)"

text \<open>\<^verbatim>\<open>strconv.ParseInt(s, 10, 64)\<close> of digits: \<open>None\<close> is the range error.\<close>

definition parse_digits :: "string \<Rightarrow> nat option" where
  "parse_digits ds = (case digits_val 0 ds of None \<Rightarrow> None | Some n \<Rightarrow> if n < 2 ^ 63 then Some n else None)"

text \<open>A name between single quotes, as the messages print it.\<close>

definition quoted :: "string \<Rightarrow> string" where
  "quoted s = CHR 0x27 # s @ [CHR 0x27]"

section \<open>Reports\<close>

definition analyzer_name :: string where
  "analyzer_name = ''HeadersAnalyzer''"

definition fallback_evidence :: string where
  \<open>fallback_evidence = ''{"error": "failed to marshal evidence"}''\<close>

text \<open>\<^verbatim>\<open>reportFinding\<close>; \<^verbatim>\<open>AddFinding\<close> supplies the scan.\<close>

definition headers_reportFinding ::
  "services \<Rightarrow> string \<Rightarrow> severity \<Rightarrow> string \<Rightarrow> string \<Rightarrow> string \<Rightarrow> string
     \<Rightarrow> analysis_context \<Rightarrow> analysis_context" where
  "headers_reportFinding sv vulnName severity cwe description evidence recommendation ac =
     (let n = length (acFindings ac);
          evidenceBytes = (case marshal sv [(''details'', evidence)] of Some b \<Rightarrow> b | None \<Rightarrow> fallback_evidence)
      in AddFinding ac
           \<lparr>ID = newID sv n, ScanID = '''', TaskID = tTaskID (acTask ac), ObservedAt = now sv n,
            Target = acTargetURL ac, Module = analyzer_name, VulnerabilityName = vulnName,
            Severity = severity, Description = description, Evidence = evidenceBytes,
            Recommendation = recommendation, CWE = [cwe]\<rparr>)"

definition reportMissingHeader ::
  "services \<Rightarrow> string \<Rightarrow> string \<Rightarrow> analysis_context \<Rightarrow> analysis_context" where
  "reportMissingHeader sv headerName cwe ac =
     (let n = length (acFindings ac);
          evidenceString = ''Header not present in response: '' @ headerName;
          evidenceBytes = (case marshal sv [(''details'', evidenceString)] of
                             Some b \<Rightarrow> b | None \<Rightarrow> fallback_evidence)
      in AddFinding ac
           \<lparr>ID = newID sv n, ScanID = '''', TaskID = tTaskID (acTask ac), ObservedAt = now sv n,
            Target = acTargetURL ac, Module = analyzer_name,
            VulnerabilityName = ''Missing Security Header: '' @ headerName,
            Severity = SeverityMedium,
            Description = ''The response is missing the '' @ quoted headerName
              @ '' security header. This header is important for protecting against various web vulnerabilities.'',
            Evidence = evidenceBytes,
            Recommendation = ''Configure the web server or application framework to include the ''
              @ quoted headerName @ '' header in all relevant HTTP responses.'',
            CWE = [cwe]\<rparr>)"

section \<open>Checks\<close>

type_synonym header_map = "string \<rightharpoonup> string"

definition requiredHeaders :: "string \<rightharpoonup> string" where
  "requiredHeaders =
     [''x-frame-options'' \<mapsto> ''CWE-1021'', ''x-content-type-options'' \<mapsto> ''CWE-116'',
      ''referrer-policy'' \<mapsto> ''CWE-200'']"

definition missing_step :: "services \<Rightarrow> header_map \<Rightarrow> analysis_context \<Rightarrow> string \<Rightarrow> analysis_context" where
  "missing_step sv headers ac headerName =
     (case requiredHeaders headerName of
        Some cwe \<Rightarrow> if headers headerName = None then reportMissingHeader sv headerName cwe ac else ac
      | None \<Rightarrow> ac)"

definition checkMissingSecurityHeaders ::
  "services \<Rightarrow> string list \<Rightarrow> header_map \<Rightarrow> analysis_context \<Rightarrow> analysis_context" where
  "checkMissingSecurityHeaders sv order headers ac = foldl (missing_step sv headers) ac order"

definition checkHSTS :: "services \<Rightarrow> header_map \<Rightarrow> analysis_context \<Rightarrow> analysis_context" where
  "checkHSTS sv headers ac =
     (case headers ''strict-transport-security'' of
        None \<Rightarrow> reportMissingHeader sv ''strict-transport-security'' ''CWE-319'' ac
      | Some hstsValue \<Rightarrow>
          (case find_max_age hstsValue of
             None \<Rightarrow> headers_reportFinding sv ''Weak HSTS Configuration: Missing max-age'' SeverityLow ''CWE-319''
               ''The Strict-Transport-Security (HSTS) header is present but is missing the required 'max-age' directive, making it ineffective.''
               (''HSTS Header Value: '' @ hstsValue)
               ''Ensure the HSTS header includes a 'max-age' directive with a non-zero value.'' ac
           | Some ds \<Rightarrow>
               (case parse_digits ds of
                  None \<Rightarrow> ac
                | Some maxAge \<Rightarrow>
                    if maxAge = 0
                    then headers_reportFinding sv ''Weak HSTS Configuration: max-age is Zero'' SeverityMedium ''CWE-319''
                      ''The HSTS 'max-age' is set to 0, which explicitly tells browsers to disable this security mechanism.''
                      (''HSTS Header Value: '' @ hstsValue)
                      ''Set the HSTS 'max-age' to a large value, such as 31536000 (1 year).'' ac
                    else if maxAge < MinHstsMaxAge
                    then headers_reportFinding sv ''Weak HSTS Configuration: Short max-age'' SeverityLow ''CWE-319''
                      (''The HSTS 'max-age' is set to '' @ itoa maxAge
                        @ '' seconds, which is considered too short. It should be at least ''
                        @ itoa MinHstsMaxAge @ '' seconds (6 months) to be effective.'')
                      (''HSTS Header Value: '' @ hstsValue)
                      (''Increase the HSTS 'max-age' to be at least '' @ itoa MinHstsMaxAge @ ''.'') ac
                    else ac)))"

definition weak_csp :: "string \<Rightarrow> bool" where
  "weak_csp csp =
     (let cspLower = ToLower csp in
      Contains cspLower (quoted ''unsafe-inline'')
      \<and> (\<not> Contains cspLower ''nonce-'' \<and> \<not> Contains cspLower (CHR 0x27 # ''sha'')))"

definition checkCSP :: "services \<Rightarrow> header_map \<Rightarrow> analysis_context \<Rightarrow> analysis_context" where
  "checkCSP sv headers ac =
     (case headers ''content-security-policy'' of
        None \<Rightarrow> reportMissingHeader sv ''content-security-policy'' ''CWE-693'' ac
      | Some csp \<Rightarrow>
          if weak_csp csp
          then headers_reportFinding sv ''Weak Content-Security-Policy (CSP)'' SeverityMedium ''CWE-693''
             ''The CSP header includes 'unsafe-inline' without a corresponding nonce or hash, which may allow execution of inline scripts and increases the risk of Cross-Site Scripting (XSS).''
             (''CSP Header Value: '' @ csp)
             ''Implement a strong CSP using nonces or hashes for inline scripts, or refactor inline scripts into external files.'' ac
          else ac)"

definition disclosureHeaders :: "string list" where
  "disclosureHeaders = [''server'', ''x-powered-by'', ''x-aspnet-version'']"

definition disclosure_step :: "services \<Rightarrow> header_map \<Rightarrow> analysis_context \<Rightarrow> string \<Rightarrow> analysis_context" where
  "disclosure_step sv headers ac headerName =
     (case headers headerName of
        None \<Rightarrow> ac
      | Some value \<Rightarrow>
          if value \<noteq> ''''
          then headers_reportFinding sv ''Information Disclosure in HTTP Headers'' SeverityLow ''CWE-200''
            (''The '' @ quoted headerName @ '' header discloses technology stack or version information: ''
              @ quoted value @ ''. This can help attackers identify known vulnerabilities.'')
            (headerName @ '': '' @ value)
            (''Configure the web server to suppress or obfuscate the '' @ quoted headerName @ '' header.'') ac
          else ac)"

definition checkInformationDisclosure ::
  "services \<Rightarrow> header_map \<Rightarrow> analysis_context \<Rightarrow> analysis_context" where
  "checkInformationDisclosure sv headers ac = foldl (disclosure_step sv headers) ac disclosureHeaders"

section \<open>The analysis\<close>

definition main_response :: "string \<Rightarrow> har_entry list \<Rightarrow> har_response option" where
  "main_response target entries = map_option snd (find (\<lambda>e. reqURL (fst e) = target) entries)"

text \<open>\<open>ToLower\<close> lowers ASCII letters, which is all a header name can have (RFC 9110 tokens are ASCII).\<close>

definition header_map_of :: "nv_pair list \<Rightarrow> header_map" where
  "header_map_of hs = foldl (\<lambda>m h. m(ToLower (fst h) \<mapsto> snd h)) Map.empty hs"

definition run_checks :: "services \<Rightarrow> string list \<Rightarrow> header_map \<Rightarrow> analysis_context \<Rightarrow> analysis_context" where
  "run_checks sv order headers ac =
     checkInformationDisclosure sv headers
       (checkCSP sv headers (checkHSTS sv headers (checkMissingSecurityHeaders sv order headers ac)))"

definition headers_Analyze ::
  "services \<Rightarrow> string list \<Rightarrow> analysis_context \<Rightarrow> (string, analysis_context) result" where
  "headers_Analyze sv order ac =
     (case acHAR ac of
        None \<Rightarrow> Inr ac
      | Some raw \<Rightarrow>
          (case unmarshalHAR sv raw of
             Inl err \<Rightarrow> Inl (''failed to unmarshal HAR data: '' @ err)
           | Inr entries \<Rightarrow>
               (case main_response (acTargetURL ac) entries of
                  None \<Rightarrow> Inr ac
                | Some r \<Rightarrow> Inr (run_checks sv order (header_map_of (respHeaders r)) ac))))"

section \<open>What each check reports\<close>

definition names :: "analysis_context \<Rightarrow> string list" where
  "names ac = map VulnerabilityName (acFindings ac)"

definition missing_name :: "string \<Rightarrow> string" where
  "missing_name h = ''Missing Security Header: '' @ h"

lemma names_reportFinding [simp]: "names (headers_reportFinding sv vn sev cwe d e r ac) = names ac @ [vn]"
  by (simp add: names_def headers_reportFinding_def AddFinding_def Let_def)

lemma names_reportMissing [simp]: "names (reportMissingHeader sv h cwe ac) = names ac @ [missing_name h]"
  by (simp add: names_def reportMissingHeader_def AddFinding_def Let_def missing_name_def)

lemma extends_reportFinding: "extends_context ac (headers_reportFinding sv vn sev cwe d e r ac)"
  unfolding headers_reportFinding_def Let_def by (rule AddFinding_extends) simp_all

lemma extends_reportMissing: "extends_context ac (reportMissingHeader sv h cwe ac)"
  unfolding reportMissingHeader_def Let_def by (rule AddFinding_extends) simp_all

lemmas report_extends = extends_reportFinding extends_reportMissing context_refl

definition hsts_names :: "header_map \<Rightarrow> string list" where
  "hsts_names headers =
     (case headers ''strict-transport-security'' of
        None \<Rightarrow> [missing_name ''strict-transport-security'']
      | Some v \<Rightarrow>
          (case find_max_age v of
             None \<Rightarrow> [''Weak HSTS Configuration: Missing max-age'']
           | Some ds \<Rightarrow>
               (case parse_digits ds of
                  None \<Rightarrow> []
                | Some n \<Rightarrow>
                    if n = 0 then [''Weak HSTS Configuration: max-age is Zero'']
                    else if n < MinHstsMaxAge then [''Weak HSTS Configuration: Short max-age''] else [])))"

definition csp_names :: "header_map \<Rightarrow> string list" where
  "csp_names headers =
     (case headers ''content-security-policy'' of
        None \<Rightarrow> [missing_name ''content-security-policy'']
      | Some csp \<Rightarrow> if weak_csp csp then [''Weak Content-Security-Policy (CSP)''] else [])"

definition missing_names :: "string list \<Rightarrow> header_map \<Rightarrow> string list" where
  "missing_names order headers =
     map missing_name (filter (\<lambda>h. requiredHeaders h \<noteq> None \<and> headers h = None) order)"

definition disclosure_names :: "header_map \<Rightarrow> string list" where
  "disclosure_names headers =
     map (\<lambda>_. ''Information Disclosure in HTTP Headers'')
       (filter (\<lambda>h. headers h \<noteq> None \<and> headers h \<noteq> Some '''') disclosureHeaders)"

lemma names_missing: "names (checkMissingSecurityHeaders sv order headers ac) = names ac @ missing_names order headers"
  unfolding checkMissingSecurityHeaders_def missing_names_def
  by (induction order arbitrary: ac) (auto simp: missing_step_def split: option.splits)

lemma names_disclosure: "names (checkInformationDisclosure sv headers ac) = names ac @ disclosure_names headers"
proof -
  have "names (foldl (disclosure_step sv headers) ac hs) = names ac @
      map (\<lambda>_. ''Information Disclosure in HTTP Headers'')
       (filter (\<lambda>h. headers h \<noteq> None \<and> headers h \<noteq> Some '''') hs)" for hs
    by (induction hs arbitrary: ac) (auto simp: disclosure_step_def split: option.splits)
  then show ?thesis by (simp add: checkInformationDisclosure_def disclosure_names_def)
qed

lemma names_hsts: "names (checkHSTS sv headers ac) = names ac @ hsts_names headers"
  by (simp add: checkHSTS_def hsts_names_def split: option.splits)

lemma names_csp: "names (checkCSP sv headers ac) = names ac @ csp_names headers"
  by (simp add: checkCSP_def csp_names_def split: option.splits)

lemma names_run_checks:
  "names (run_checks sv order headers ac) =
     names ac @ missing_names order headers @ hsts_names headers @ csp_names headers @ disclosure_names headers"
  by (simp add: run_checks_def names_missing names_hsts names_csp names_disclosure)

lemma extends_run_checks: "extends_context ac (run_checks sv order headers ac)"
proof -
  have m: "extends_context ac (checkMissingSecurityHeaders sv order headers ac)" for ac
    unfolding checkMissingSecurityHeaders_def
    by (rule fold_extends) (simp add: missing_step_def report_extends split: option.splits)
  have d: "extends_context ac (checkInformationDisclosure sv headers ac)" for ac
    unfolding checkInformationDisclosure_def
    by (rule fold_extends) (simp add: disclosure_step_def report_extends split: option.splits)
  have h: "extends_context ac (checkHSTS sv headers ac)" for ac
    by (simp add: checkHSTS_def report_extends split: option.splits)
  have c: "extends_context ac (checkCSP sv headers ac)" for ac
    by (simp add: checkCSP_def report_extends split: option.splits)
  show ?thesis
    unfolding run_checks_def by (rule context_trans [OF context_trans [OF context_trans [OF m h] c] d])
qed

interpretation headers: analyzer "headers_Analyze sv order"
proof
  fix ac ac'
  assume "headers_Analyze sv order ac = Inr ac'"
  then show "extends_context ac ac'"
    by (auto simp: headers_Analyze_def context_refl extends_run_checks split: option.splits sum.splits)
qed

section \<open>Exactness of the analysis\<close>

text \<open>The value a browser-side reader of the map sees: the last header of that name, in any letter case.\<close>

definition header_value :: "nv_pair list \<Rightarrow> string \<Rightarrow> string option" where
  "header_value hs h = map_option snd (find (\<lambda>p. ToLower (fst p) = h) (rev hs))"

lemma header_map_value: "header_map_of hs h = header_value hs h"
  by (induction hs rule: rev_induct) (auto simp: header_map_of_def header_value_def)

definition hardened :: "nv_pair list \<Rightarrow> bool" where
  "hardened hs \<longleftrightarrow>
     (\<forall>h\<in>{''x-frame-options'', ''x-content-type-options'', ''referrer-policy''}. header_value hs h \<noteq> None)
     \<and> (\<exists>v ds n. header_value hs ''strict-transport-security'' = Some v \<and> find_max_age v = Some ds
          \<and> digits_val 0 ds = Some n \<and> MinHstsMaxAge \<le> n)
     \<and> (\<exists>csp. header_value hs ''content-security-policy'' = Some csp \<and> \<not> weak_csp csp)
     \<and> (\<forall>h\<in>set disclosureHeaders. header_value hs h \<in> {None, Some ''''})"

lemma digits_val_some: "list_all is_digit ds \<Longrightarrow> \<exists>n. digits_val acc ds = Some n"
  by (induction ds arbitrary: acc) (auto simp: is_digit_def split: option.splits)

lemma find_max_age_digits: "find_max_age v = Some ds \<Longrightarrow> list_all is_digit ds"
  by (induction v) (auto simp: Let_def list_all_iff dest: set_takeWhileD split: if_splits)

lemma no_hsts_names:
  "hsts_names headers = [] \<longleftrightarrow>
     (\<exists>v ds n. headers ''strict-transport-security'' = Some v \<and> find_max_age v = Some ds
          \<and> digits_val 0 ds = Some n \<and> MinHstsMaxAge \<le> n)"
proof (cases "headers ''strict-transport-security''")
  case (Some v)
  show ?thesis
  proof (cases "find_max_age v")
    case (Some ds)
    then obtain n where "digits_val 0 ds = Some n" using find_max_age_digits digits_val_some by blast
    with Some \<open>headers _ = Some v\<close> show ?thesis
      by (auto simp: hsts_names_def parse_digits_def MinHstsMaxAge_def)
  qed (use Some in \<open>simp add: hsts_names_def\<close>)
qed (simp add: hsts_names_def)

lemma no_names_iff:
  assumes "set order = dom requiredHeaders"
  shows "missing_names order (header_map_of hs) @ hsts_names (header_map_of hs)
      @ csp_names (header_map_of hs) @ disclosure_names (header_map_of hs) = [] \<longleftrightarrow> hardened hs"
proof -
  have "missing_names order (header_map_of hs) = [] \<longleftrightarrow>
      (\<forall>h\<in>{''x-frame-options'', ''x-content-type-options'', ''referrer-policy''}. header_value hs h \<noteq> None)"
    using assms by (auto simp: missing_names_def filter_empty_conv header_map_value requiredHeaders_def)
  moreover have "csp_names (header_map_of hs) = [] \<longleftrightarrow>
      (\<exists>csp. header_value hs ''content-security-policy'' = Some csp \<and> \<not> weak_csp csp)"
    by (simp add: csp_names_def header_map_value split: option.splits)
  moreover have "disclosure_names (header_map_of hs) = [] \<longleftrightarrow>
      (\<forall>h\<in>set disclosureHeaders. header_value hs h \<in> {None, Some ''''})"
    by (auto simp: disclosure_names_def filter_empty_conv header_map_value)
  ultimately show ?thesis
    unfolding hardened_def append_is_Nil_conv no_hsts_names header_map_value by blast
qed

lemma missing_iff:
  assumes "set order = dom requiredHeaders"
  shows "missing_name h \<in> set (missing_names order (header_map_of hs) @ hsts_names (header_map_of hs)
      @ csp_names (header_map_of hs) @ disclosure_names (header_map_of hs)) \<longleftrightarrow>
    h \<in> {''x-frame-options'', ''x-content-type-options'', ''referrer-policy'',
          ''strict-transport-security'', ''content-security-policy''} \<and> header_value hs h = None"
proof -
  have inj: "missing_name h = missing_name k \<longleftrightarrow> h = k" for k by (simp add: missing_name_def)
  have other: "missing_name h \<noteq> CHR ''W'' # s" "missing_name h \<noteq> CHR ''I'' # s" for s
    by (simp_all add: missing_name_def)
  have "missing_name h \<in> set (missing_names order (header_map_of hs)) \<longleftrightarrow>
      h \<in> {''x-frame-options'', ''x-content-type-options'', ''referrer-policy''} \<and> header_value hs h = None"
  proof -
    have "missing_name h \<in> set (missing_names order (header_map_of hs)) \<longleftrightarrow>
        h \<in> dom requiredHeaders \<and> header_value hs h = None"
      unfolding missing_names_def assms [symmetric]
      using assms by (auto simp: image_iff inj header_map_value)
    then show ?thesis by (auto simp: requiredHeaders_def)
  qed
  moreover have "missing_name h \<in> set (hsts_names (header_map_of hs)) \<longleftrightarrow>
      h = ''strict-transport-security'' \<and> header_value hs h = None"
    using other by (auto simp: hsts_names_def header_map_value inj split: option.splits if_splits)
  moreover have "missing_name h \<in> set (csp_names (header_map_of hs)) \<longleftrightarrow>
      h = ''content-security-policy'' \<and> header_value hs h = None"
    using other by (auto simp: csp_names_def header_map_value inj split: option.splits if_splits)
  moreover have "missing_name h \<notin> set (disclosure_names (header_map_of hs))"
    using other by (auto simp: disclosure_names_def)
  ultimately show ?thesis unfolding set_append Un_iff insert_iff empty_iff by argo
qed

text \<open>
  C27. The header analysis is exact on the response recorded for the target: it reports nothing
  precisely when the response is hardened (the five protective headers are there in any letter
  case, the last \<^verbatim>\<open>Strict-Transport-Security\<close> has a max-age of at least six months, the last
  policy has no unmitigated \<^verbatim>\<open>unsafe-inline\<close>, no technology header has a value); it reports a header
  as missing exactly when it is one of the five and absent; earlier findings are kept and the new
  ones can be stored. A recording that does not hold the target adds nothing, one that cannot be
  read is an error.
\<close>

theorem header_analysis_exact:
  assumes "acHAR ac = Some raw" and "distinct order" and "set order = dom requiredHeaders"
  shows "case unmarshalHAR sv raw of
      Inl err \<Rightarrow> headers_Analyze sv order ac = Inl (''failed to unmarshal HAR data: '' @ err)
    | Inr entries \<Rightarrow>
       (case main_response (acTargetURL ac) entries of
          None \<Rightarrow> headers_Analyze sv order ac = Inr ac
        | Some r \<Rightarrow> \<exists>fs. headers_Analyze sv order ac = Inr (ac\<lparr>acFindings := acFindings ac @ fs\<rparr>)
            \<and> list_all (storable (acTask ac)) fs
            \<and> (fs = [] \<longleftrightarrow> hardened (respHeaders r))
            \<and> (\<forall>h. (\<exists>f\<in>set fs. VulnerabilityName f = ''Missing Security Header: '' @ h) \<longleftrightarrow>
                 h \<in> {''x-frame-options'', ''x-content-type-options'', ''referrer-policy'',
                      ''strict-transport-security'', ''content-security-policy''}
                 \<and> (\<forall>p\<in>set (respHeaders r). ToLower (fst p) \<noteq> h)))"
proof (cases "unmarshalHAR sv raw")
  case (Inl err)
  with assms(1) show ?thesis by (simp add: headers_Analyze_def)
next
  case (Inr entries)
  show ?thesis
  proof (cases "main_response (acTargetURL ac) entries")
    case None
    with Inr assms(1) show ?thesis by (simp add: headers_Analyze_def)
  next
    case (Some r)
    let ?m = "header_map_of (respHeaders r)"
    let ?ac' = "run_checks sv order ?m ac"
    obtain fs where fs: "?ac' = ac\<lparr>acFindings := acFindings ac @ fs\<rparr>" "list_all (storable (acTask ac)) fs"
      using extends_run_checks [of ac sv order ?m] by (auto simp: extends_context_def)
    have n: "map VulnerabilityName fs =
        missing_names order ?m @ hsts_names ?m @ csp_names ?m @ disclosure_names ?m"
      using names_run_checks [of sv order ?m ac] fs(1) by (simp add: names_def)
    have "fs = [] \<longleftrightarrow> hardened (respHeaders r)"
      using no_names_iff [OF assms(3), of "respHeaders r"] n by (metis map_is_Nil_conv)
    moreover have "(\<exists>f\<in>set fs. VulnerabilityName f = missing_name h) \<longleftrightarrow>
        h \<in> {''x-frame-options'', ''x-content-type-options'', ''referrer-policy'',
              ''strict-transport-security'', ''content-security-policy''}
        \<and> (\<forall>p\<in>set (respHeaders r). ToLower (fst p) \<noteq> h)" for h
    proof -
      have "(\<exists>f\<in>set fs. VulnerabilityName f = missing_name h) \<longleftrightarrow> missing_name h \<in> set (map VulnerabilityName fs)"
        by (metis (no_types, lifting) image_iff list.set_map)
      moreover have "header_value hs h = None \<longleftrightarrow> (\<forall>p\<in>set hs. ToLower (fst p) \<noteq> h)" for hs
        by (auto simp: header_value_def find_None_iff)
      ultimately show ?thesis
        unfolding n missing_iff [OF assms(3), of h "respHeaders r"] by simp
    qed
    moreover have "headers_Analyze sv order ac = Inr (ac\<lparr>acFindings := acFindings ac @ fs\<rparr>)"
      using Inr Some assms(1) fs(1) by (simp add: headers_Analyze_def)
    ultimately show ?thesis
      using fs(2) unfolding Inr Some sum.case option.case missing_name_def by blast
  qed
qed

definition example_services :: "har_entry list \<Rightarrow> services" where
  "example_services entries =
    \<lparr>unmarshalHAR = (\<lambda>_. Inr entries), marshal = (\<lambda>_. Some ''{}''), newID = itoa, now = int\<rparr>"

definition example_context :: analysis_context where
  "example_context =
    \<lparr>acTask = \<lparr>tTaskID = ''t'', tScanID = ''s'', tType = ''ANALYZE_HEADERS'', tTargetURL = ''u''\<rparr>,
     acTargetURL = ''u'', acHAR = Some ''raw'', acFindings = []\<rparr>"

definition example_entry :: har_entry where
  "example_entry =
    (\<lparr>reqURL = ''u'', reqCookies = [], reqHeaders = [], reqPostText = None\<rparr>,
     \<lparr>respCookies = [], respHeaders = [(''X-Frame-Options'', ''DENY''), (''Server'', '''')], respText = ''''\<rparr>)"

definition example_order :: "string list" where
  "example_order = [''referrer-policy'', ''x-frame-options'', ''x-content-type-options'']"

theorem header_analysis_exact_witness:
  "\<exists>fs. headers_Analyze (example_services [example_entry]) example_order example_context
      = Inr (example_context\<lparr>acFindings := fs\<rparr>)
     \<and> (\<exists>f\<in>set fs. VulnerabilityName f = ''Missing Security Header: referrer-policy'')
     \<and> \<not> (\<exists>f\<in>set fs. VulnerabilityName f = ''Missing Security Header: x-frame-options'')"
proof -
  let ?r = "snd example_entry"
  have har: "acHAR example_context = Some ''raw''" "distinct example_order" "set example_order = dom requiredHeaders"
    by (auto simp: example_context_def example_order_def requiredHeaders_def)
  have e: "unmarshalHAR (example_services [example_entry]) ''raw'' = Inr [example_entry]"
    "main_response (acTargetURL example_context) [example_entry] = Some ?r" "acFindings example_context = []"
    by (simp_all add: example_services_def main_response_def example_context_def example_entry_def)
  have absent: "\<forall>p\<in>set (respHeaders ?r). ToLower (fst p) \<noteq> ''referrer-policy''"
    and present: "\<not> (\<forall>p\<in>set (respHeaders ?r). ToLower (fst p) \<noteq> ''x-frame-options'')"
    by (simp_all add: example_entry_def) code_simp+
  have a: "''Missing Security Header: referrer-policy'' = ''Missing Security Header: '' @ ''referrer-policy''"
    "''Missing Security Header: x-frame-options'' = ''Missing Security Header: '' @ ''x-frame-options''"
    by simp_all
  obtain fs where "headers_Analyze (example_services [example_entry]) example_order example_context
      = Inr (example_context\<lparr>acFindings := fs\<rparr>)"
    and m: "\<And>h. (\<exists>f\<in>set fs. VulnerabilityName f = ''Missing Security Header: '' @ h) \<longleftrightarrow>
                 h \<in> {''x-frame-options'', ''x-content-type-options'', ''referrer-policy'',
                      ''strict-transport-security'', ''content-security-policy''}
                 \<and> (\<forall>p\<in>set (respHeaders ?r). ToLower (fst p) \<noteq> h)"
    using header_analysis_exact [OF har, of "example_services [example_entry]"]
    unfolding e sum.case option.case append_Nil by blast
  then show ?thesis
    unfolding a using m [of "''referrer-policy''"] m [of "''x-frame-options''"] absent present by blast
qed

end
