(* ===== verification/Jwt.thy ===== *)
theory Jwt
  imports AnalysisContext
begin

text \<open>
  The analyser of JSON Web Tokens (\<^verbatim>\<open>internal/analysis/static/jwt\<close>): the token pattern, the
  extraction of candidate tokens from a recorded exchange, the analysis of one token and the
  analysis of a recording. Token parsing and signature checks belong to the JWT library and the
  string tokens of a JSON body to the JSON decoder: both are parameters. The candidate tokens of
  an exchange are a Go map; \<open>iter n m\<close> is the order in which the loop over the n-th exchange
  visits the keys of m.
\<close>

section \<open>The token pattern\<close>

definition token_char :: "char \<Rightarrow> bool" where
  "token_char c = (let n = (of_char c :: nat) in
     (48 \<le> n \<and> n \<le> 57) \<or> (65 \<le> n \<and> n \<le> 90) \<or> (97 \<le> n \<and> n \<le> 122) \<or> n = 45 \<or> n = 95)"

text \<open>
  A match of \<^verbatim>\<open>jwtRegex\<close> at the start of a string. The character class excludes the dot, so the
  greedy repetitions never backtrack.
\<close>

definition match_at :: "string \<Rightarrow> string option" where
  "match_at s =
     (let a = takeWhile token_char s; r = dropWhile token_char s in
      if a = [] then None
      else (case r of
          CHR 0x2E # s' \<Rightarrow>
            (let b = takeWhile token_char s'; r' = dropWhile token_char s' in
             if b = [] then None
             else (case r' of
                 CHR 0x2E # s'' \<Rightarrow> Some (a @ ''.'' @ b @ ''.'' @ takeWhile token_char s'')
               | _ \<Rightarrow> None))
        | _ \<Rightarrow> None))"

fun FindString :: "string \<Rightarrow> string option" where
  "FindString [] = None"
| "FindString (c # s) = (case match_at (c # s) of Some m \<Rightarrow> Some m | None \<Rightarrow> FindString s)"

definition MatchString :: "string \<Rightarrow> bool" where
  "MatchString s = (FindString s \<noteq> None)"

lemma match_at_nonempty: "match_at s = Some m \<Longrightarrow> 0 < length m"
  by (auto simp: match_at_def Let_def split: if_splits list.splits char.splits bool.splits)

function FindAllString :: "string \<Rightarrow> string list" where
  "FindAllString [] = []"
| "FindAllString (c # s) =
     (case match_at (c # s) of
        Some m \<Rightarrow> m # FindAllString (drop (length m) (c # s))
      | None \<Rightarrow> FindAllString s)"
  by pat_completeness auto
termination
  by (relation "measure length") (auto dest: match_at_nonempty)

section \<open>The analysis of one token\<close>

datatype FindingType =
  UnknownFinding | AlgNoneVulnerability | WeakSecretVulnerability | SensitiveInfoExposure | MissingExpiration

record jwt_finding =
  jType :: FindingType
  jDescription :: string
  jSeverity :: severity
  jDetail :: "(string \<times> string) list"

text \<open>
  What the code reads of a parsed token: the \<^verbatim>\<open>alg\<close> header when it is a string, and the names of
  the claims. \<open>parse_valid\<close> is \<^verbatim>\<open>parser.Parse\<close> with the HMAC methods and a secret.
\<close>

record jwt_library =
  parse_unverified :: "string \<Rightarrow> (string, string option \<times> string list) result"
  parse_valid :: "string \<Rightarrow> string \<Rightarrow> bool"
  json_strings :: "string \<Rightarrow> string list"

definition weakSecrets :: "string list" where
  "weakSecrets =
    [''secret'', ''password'', ''123456'', ''12345678'', ''admin'', ''test'', ''root'', ''qwerty'', ''changeme'',
     ''secretkey'', ''jwtsecret'', ''mysecret'', ''default'', ''key'', ''privatekey'', ''development'',
     ''production'', ''supersecret'', ''password123'']"

definition bruteForceSecret :: "jwt_library \<Rightarrow> string \<Rightarrow> string" where
  "bruteForceSecret lib tokenString =
     (case find (parse_valid lib tokenString) weakSecrets of Some secret \<Rightarrow> secret | None \<Rightarrow> '''')"

definition sensitiveKeywords :: "string list" where
  "sensitiveKeywords =
    [''password'', ''pwd'', ''secret'', ''apikey'', ''api_key'', ''ssn'', ''creditcard'',
     ''privatekey'', ''credential'', ''auth_token'', ''access_key'']"

definition containsSensitiveData :: "string list \<Rightarrow> bool" where
  "containsSensitiveData claims =
     list_ex (\<lambda>key. list_ex (\<lambda>keyword. Contains (ToLower key) keyword) sensitiveKeywords) claims"

definition AnalyzeToken :: "jwt_library \<Rightarrow> bool \<Rightarrow> string \<Rightarrow> (string, jwt_finding list) result" where
  "AnalyzeToken lib bruteForceEnabled tokenString =
     (case parse_unverified lib tokenString of
        Inl err \<Rightarrow> Inl (''failed to parse token unverified: '' @ err)
      | Inr (alg, claims) \<Rightarrow>
          Inr ((case alg of
                  Some a \<Rightarrow> if EqualFold a ''none''
                    then [\<lparr>jType = AlgNoneVulnerability,
                           jDescription = ''JWT uses 'alg: none'. This allows an attacker to forge valid tokens by bypassing signature verification.'',
                           jSeverity = SeverityCritical, jDetail = []\<rparr>] else []
                | None \<Rightarrow> [])
            @ (if containsSensitiveData claims
               then [\<lparr>jType = SensitiveInfoExposure,
                      jDescription = ''JWT payload contains potentially sensitive information (based on claim keywords). JWTs are typically only encoded, not encrypted.'',
                      jSeverity = SeverityMedium, jDetail = []\<rparr>] else [])
            @ (if ''exp'' \<notin> set claims
               then [\<lparr>jType = MissingExpiration,
                      jDescription = ''JWT does not have an expiration time ('exp' claim). Tokens should have a limited lifetime.'',
                      jSeverity = SeverityLow, jDetail = []\<rparr>] else [])
            @ (case alg of
                 Some a \<Rightarrow>
                   (let secret = bruteForceSecret lib tokenString in
                    if bruteForceEnabled \<and> HasPrefix a ''HS'' \<and> secret \<noteq> ''''
                    then [\<lparr>jType = WeakSecretVulnerability,
                           jDescription = ''Weak secret found: '' @ CHR 0x27 # secret @ CHR 0x27 # ''. The token signature is valid using this common secret.'',
                           jSeverity = SeverityHigh, jDetail = [(''key'', secret)]\<rparr>] else [])
               | None \<Rightarrow> [])))"

section \<open>Candidate tokens\<close>

type_synonym tokens = "string \<rightharpoonup> string"

definition extract_pair :: "string \<Rightarrow> tokens \<Rightarrow> nv_pair \<Rightarrow> tokens" where
  "extract_pair locationPrefix tokens pair =
     (let (name, v) = pair;
          bearer = EqualFold name ''Authorization'' \<and> 7 < length v \<and> EqualFold (take 7 v) ''bearer '';
          token = TrimSpace (drop 7 v)
      in if bearer \<and> MatchString token
         then tokens(token \<mapsto> locationPrefix @ '': Authorization Bearer'')
         else foldl (\<lambda>ts m. ts(m \<mapsto> locationPrefix @ '': '' @ name)) tokens (FindAllString v))"

definition extractFromNVPairs :: "nv_pair list \<Rightarrow> string \<Rightarrow> tokens \<Rightarrow> tokens" where
  "extractFromNVPairs pairs locationPrefix tokens = foldl (extract_pair locationPrefix) tokens pairs"

definition extractFromJSONBody :: "jwt_library \<Rightarrow> string \<Rightarrow> string \<Rightarrow> tokens \<Rightarrow> tokens" where
  "extractFromJSONBody lib body location tokens =
     (if body = [] then tokens
      else foldl (\<lambda>ts str. if 22 < length str \<and> MatchString str then ts(str \<mapsto> location) else ts)
             tokens (json_strings lib body))"

text \<open>The collection of candidates of an exchange; cookies are pairs already.\<close>

definition collect_tokens :: "jwt_library \<Rightarrow> har_entry \<Rightarrow> tokens" where
  "collect_tokens lib e =
     (let (req, resp) = e;
          t1 = extractFromNVPairs (reqHeaders req) ''Request Header'' Map.empty;
          t2 = extractFromNVPairs (reqCookies req) ''Request Cookie'' t1;
          t3 = (case FindString (reqURL req) of Some m \<Rightarrow> t2(m \<mapsto> ''Request URL'') | None \<Rightarrow> t2);
          t4 = (case reqPostText req of
                  Some text \<Rightarrow> if text \<noteq> '''' then extractFromJSONBody lib text ''Request Body'' t3 else t3
                | None \<Rightarrow> t3);
          t5 = extractFromNVPairs (respHeaders resp) ''Response Header'' t4;
          t6 = extractFromNVPairs (respCookies resp) ''Response Cookie'' t5
      in extractFromJSONBody lib (respText resp) ''Response Body'' t6)"

section \<open>Reports\<close>

fun vuln_name :: "FindingType \<Rightarrow> string" where
  "vuln_name AlgNoneVulnerability = ''Unsecured JWT (None Algorithm)''"
| "vuln_name WeakSecretVulnerability = ''Weak JWT Signing Key (Brute-Forced)''"
| "vuln_name SensitiveInfoExposure = ''Sensitive Data in JWT Claims''"
| "vuln_name _ = ''JWT Misconfiguration''"

fun vuln_cwe :: "FindingType \<Rightarrow> string" where
  "vuln_cwe AlgNoneVulnerability = ''CWE-347''"
| "vuln_cwe WeakSecretVulnerability = ''CWE-326''"
| "vuln_cwe SensitiveInfoExposure = ''CWE-200''"
| "vuln_cwe _ = ''CWE-345''"

definition jwt_reportFinding ::
  "services \<Rightarrow> string \<Rightarrow> string \<Rightarrow> string \<Rightarrow> analysis_context \<Rightarrow> jwt_finding \<Rightarrow> analysis_context" where
  "jwt_reportFinding sv targetURL location tokenString ac f =
     (let n = length (acFindings ac);
          evidenceData = [(''location'', location),
            (''token_prefix'', take (min (length tokenString) 50) tokenString @ ''...''),
            (''detail'', jDescription f)] @ jDetail f;
          evidenceBytes = (case marshal sv evidenceData of Some b \<Rightarrow> b | None \<Rightarrow> '''')
      in AddFinding ac
           \<lparr>ID = newID sv n, ScanID = '''', TaskID = '''', ObservedAt = now sv n,
            Target = targetURL, Module = ''JWT Static Analyzer'',
            VulnerabilityName = vuln_name (jType f), Severity = jSeverity f,
            Description = jDescription f, Evidence = evidenceBytes,
            Recommendation = ''Review JWT implementation: enforce strong algorithms (e.g., RS256), use strong secrets, ensure tokens have an expiration ('exp'), and avoid placing sensitive data in claims.'',
            CWE = [vuln_cwe (jType f)]\<rparr>)"

section \<open>The analysis of a recording\<close>

type_synonym jwt_state = "string set \<times> analysis_context"

definition analyze_candidate ::
  "services \<Rightarrow> jwt_library \<Rightarrow> bool \<Rightarrow> string \<Rightarrow> tokens \<Rightarrow> jwt_state \<Rightarrow> string \<Rightarrow> jwt_state" where
  "analyze_candidate sv lib bf targetURL tokens st tokenString =
     (let (analyzedTokens, ac) = st in
      if tokenString \<in> analyzedTokens then st
      else (insert tokenString analyzedTokens,
            (case AnalyzeToken lib bf tokenString of
               Inl err \<Rightarrow> ac
             | Inr fs \<Rightarrow>
                 foldl (jwt_reportFinding sv targetURL (the (tokens tokenString)) tokenString) ac fs)))"

definition extractAndAnalyze ::
  "services \<Rightarrow> jwt_library \<Rightarrow> bool \<Rightarrow> (tokens \<Rightarrow> string list) \<Rightarrow> jwt_state \<Rightarrow> har_entry \<Rightarrow> jwt_state" where
  "extractAndAnalyze sv lib bf keys st e =
     (let tokens = collect_tokens lib e in
      foldl (analyze_candidate sv lib bf (reqURL (fst e)) tokens) st (keys tokens))"

fun analyze_entries ::
  "services \<Rightarrow> jwt_library \<Rightarrow> bool \<Rightarrow> (nat \<Rightarrow> tokens \<Rightarrow> string list) \<Rightarrow> nat \<Rightarrow> har_entry list \<Rightarrow> jwt_state
     \<Rightarrow> jwt_state" where
  "analyze_entries sv lib bf iter n [] st = st"
| "analyze_entries sv lib bf iter n (e # es) st =
     analyze_entries sv lib bf iter (Suc n) es (extractAndAnalyze sv lib bf (iter n) st e)"

definition jwt_Analyze ::
  "services \<Rightarrow> jwt_library \<Rightarrow> bool \<Rightarrow> (nat \<Rightarrow> tokens \<Rightarrow> string list) \<Rightarrow> analysis_context
     \<Rightarrow> (string, analysis_context) result" where
  "jwt_Analyze sv lib bf iter ac =
     (case acHAR ac of
        None \<Rightarrow> Inr ac
      | Some raw \<Rightarrow>
          (case unmarshalHAR sv raw of
             Inl err \<Rightarrow> Inl (''failed to unmarshal HAR data: '' @ err)
           | Inr entries \<Rightarrow> Inr (snd (analyze_entries sv lib bf iter 0 entries ({}, ac)))))"

section \<open>Every delimited token is a candidate\<close>

definition token_shape :: "string \<Rightarrow> bool" where
  "token_shape t \<longleftrightarrow> (\<exists>a b c. t = a @ ''.'' @ b @ ''.'' @ c \<and> a \<noteq> [] \<and> b \<noteq> []
     \<and> list_all token_char (a @ b @ c))"

text \<open>A token between other text: no dot before it, and no token character touches it.\<close>

definition delimited :: "string \<Rightarrow> string \<Rightarrow> bool" where
  "delimited v t \<longleftrightarrow> (\<exists>pre post. v = pre @ t @ post \<and> CHR 0x2E \<notin> set pre
     \<and> (pre = [] \<or> \<not> token_char (last pre)) \<and> (post = [] \<or> \<not> token_char (hd post)))"

lemma dot_not_token: "\<not> token_char CHR 0x2E"
  by code_simp

lemma span_tokens:
  assumes "list_all token_char a" and "r = [] \<or> \<not> token_char (hd r)"
  shows "takeWhile token_char (a @ r) = a" and "dropWhile token_char (a @ r) = r"
  using assms by (induction a) (cases r; auto)+

lemma match_at_token:
  assumes "token_shape t" and "post = [] \<or> \<not> token_char (hd post)"
  shows "match_at (t @ post) = Some t"
proof -
  obtain a b c where t: "t = a @ ''.'' @ b @ ''.'' @ c" "a \<noteq> []" "b \<noteq> []"
    and ch: "list_all token_char a" "list_all token_char b" "list_all token_char c"
    using assms(1) by (auto simp: token_shape_def)
  have "takeWhile token_char (a @ CHR 0x2E # s) = a" "dropWhile token_char (a @ CHR 0x2E # s) = CHR 0x2E # s"
    "takeWhile token_char (b @ CHR 0x2E # s) = b" "dropWhile token_char (b @ CHR 0x2E # s) = CHR 0x2E # s" for s
    using span_tokens [OF ch(1), of "CHR 0x2E # s"] span_tokens [OF ch(2), of "CHR 0x2E # s"] dot_not_token by simp_all
  with t span_tokens(1) [OF ch(3) assms(2)] show ?thesis
    by (simp add: match_at_def)
qed

lemma match_at_before:
  assumes "pre \<noteq> []" and "CHR 0x2E \<notin> set pre" and "\<not> token_char (last pre)"
  shows "match_at (pre @ s) = None"
proof -
  obtain x where "x \<in> set pre" "\<not> token_char x" using assms(1,3) by (metis last_in_set)
  then have d: "dropWhile token_char (pre @ s) = dropWhile token_char pre @ s"
    by (rule dropWhile_append1)
  have "dropWhile token_char pre \<noteq> []"
    using \<open>x \<in> set pre\<close> \<open>\<not> token_char x\<close> by (auto simp: dropWhile_eq_Nil_conv)
  then obtain y ys where y: "dropWhile token_char pre = y # ys" by (cases "dropWhile token_char pre") auto
  then have "y \<in> set pre" by (metis list.set_intros(1) set_dropWhileD)
  then have "y \<noteq> CHR 0x2E" using assms(2) by auto
  then show ?thesis
    unfolding match_at_def Let_def d y append_Cons
    by (auto split: char.splits bool.splits)
qed

lemma FindAllString_delimited:
  assumes "token_shape t" and "delimited v t"
  shows "t \<in> set (FindAllString v)"
proof -
  obtain pre post where v: "v = pre @ t @ post" and p: "CHR 0x2E \<notin> set pre" "pre = [] \<or> \<not> token_char (last pre)"
    and post: "post = [] \<or> \<not> token_char (hd post)"
    using assms(2) by (auto simp: delimited_def)
  have "t \<in> set (FindAllString (pre @ t @ post))" using p
  proof (induction pre)
    case Nil
    have "t \<noteq> []" using assms(1) by (auto simp: token_shape_def)
    then obtain c s where "t = c # s" by (cases t) auto
    then show ?case using match_at_token [OF assms(1) post] by simp
  next
    case (Cons x pre)
    have "match_at ((x # pre) @ t @ post) = None" using Cons.prems by (intro match_at_before) auto
    with Cons show ?case by (auto split: if_splits)
  qed
  with v show ?thesis by simp
qed

lemma dom_fold_upd: "dom (foldl (\<lambda>ts m. ts(m \<mapsto> loc)) ts ms) = dom ts \<union> set ms"
  by (induction ms arbitrary: ts) auto

lemma extract_pair_dom: "dom ts \<subseteq> dom (extract_pair loc ts p)"
  by (auto simp: extract_pair_def Let_def dom_fold_upd split: prod.splits)

lemma dom_fold_grows:
  assumes "\<And>ts x. dom ts \<subseteq> dom (step ts x)"
  shows "dom ts \<subseteq> dom (foldl step ts xs)"
proof (induction xs arbitrary: ts)
  case (Cons x xs)
  have "dom ts \<subseteq> dom (step ts x)" by (rule assms)
  also have "\<dots> \<subseteq> dom (foldl step (step ts x) xs)" by (rule Cons)
  finally show ?case by simp
qed simp

lemma extract_pairs_dom: "dom ts \<subseteq> dom (extractFromNVPairs ps loc ts)"
  unfolding extractFromNVPairs_def by (rule dom_fold_grows) (rule extract_pair_dom)

lemma extract_body_dom: "dom ts \<subseteq> dom (extractFromJSONBody lib body loc ts)"
proof -
  have "dom ts \<subseteq> dom (foldl (\<lambda>ts str. if 22 < length str \<and> MatchString str then ts(str \<mapsto> loc) else ts) ts strs)" for strs
    by (rule dom_fold_grows) auto
  then show ?thesis by (simp add: extractFromJSONBody_def)
qed

lemma finite_fold:
  "finite (dom ts) \<Longrightarrow> (\<And>ts x. finite (dom ts) \<Longrightarrow> finite (dom (step ts x))) \<Longrightarrow> finite (dom (foldl step ts xs))"
  by (induction xs arbitrary: ts) auto

lemma finite_pairs: "finite (dom ts) \<Longrightarrow> finite (dom (extractFromNVPairs ps loc ts))"
  unfolding extractFromNVPairs_def
  by (erule finite_fold) (auto simp: extract_pair_def Let_def dom_fold_upd split: prod.splits)

lemma finite_body: "finite (dom ts) \<Longrightarrow> finite (dom (extractFromJSONBody lib body loc ts))"
proof -
  assume "finite (dom ts)"
  then have "finite (dom (foldl (\<lambda>ts str. if 22 < length str \<and> MatchString str then ts(str \<mapsto> loc) else ts) ts strs))" for strs
    by (rule finite_fold) simp
  with \<open>finite (dom ts)\<close> show ?thesis by (simp add: extractFromJSONBody_def)
qed

lemma finite_collect: "finite (dom (collect_tokens lib e))"
  by (simp add: collect_tokens_def Let_def finite_pairs finite_body split: prod.split option.split)

text \<open>
  A bearer value of an \<^verbatim>\<open>Authorization\<close> header. A pair carries a token: as the whole of the text after
  \<^verbatim>\<open>Bearer\<close> in such a value, delimited in any other.
\<close>

definition bearer_pair :: "nv_pair \<Rightarrow> bool" where
  "bearer_pair p \<longleftrightarrow> EqualFold (fst p) ''Authorization'' \<and> 7 < length (snd p) \<and> EqualFold (take 7 (snd p)) ''bearer ''"

definition bearer_rest :: "nv_pair \<Rightarrow> string" where
  "bearer_rest p = TrimSpace (drop 7 (snd p))"

definition carries :: "nv_pair \<Rightarrow> string \<Rightarrow> bool" where
  "carries p t \<longleftrightarrow> token_shape t \<and> (if bearer_pair p then bearer_rest p = t else delimited (snd p) t)"

lemma token_matches: "token_shape t \<Longrightarrow> MatchString t"
proof -
  assume t: "token_shape t"
  then have "t \<noteq> []" by (auto simp: token_shape_def)
  then obtain c s where "t = c # s" by (cases t) auto
  then show "MatchString t" using match_at_token [OF t, of "[]"] by (simp add: MatchString_def)
qed

lemma extract_bearer:
  assumes "bearer_pair p" and "MatchString (bearer_rest p)"
  shows "dom (extract_pair loc ts p) = insert (bearer_rest p) (dom ts)"
  using assms by (auto simp: extract_pair_def bearer_pair_def bearer_rest_def Let_def split: prod.splits)

lemma extract_carried: "carries p t \<Longrightarrow> t \<in> dom (extract_pair loc ts p)"
proof (cases "bearer_pair p")
  case True
  assume "carries p t"
  then show ?thesis using True extract_bearer [OF True] token_matches by (simp add: carries_def)
next
  case False
  assume "carries p t"
  then show ?thesis
    using False FindAllString_delimited [of t "snd p"]
    by (auto simp: carries_def extract_pair_def bearer_pair_def Let_def dom_fold_upd split: prod.splits)
qed

lemma extract_pair_finds:
  assumes "p0 \<in> set ps" and found: "\<And>loc ts. t \<in> dom (extract_pair loc ts p0)"
  shows "t \<in> dom (extractFromNVPairs ps loc ts)"
  using assms(1) unfolding extractFromNVPairs_def
proof (induction ps arbitrary: ts)
  case (Cons p ps)
  show ?case
  proof (cases "p = p0")
    case True
    have "t \<in> dom (extract_pair loc ts p)" using True found by blast
    then show ?thesis using extract_pairs_dom [of "extract_pair loc ts p" ps loc]
      by (auto simp: extractFromNVPairs_def)
  next
    case False
    with Cons show ?thesis by auto
  qed
qed simp

text \<open>The headers and cookies of an exchange.\<close>

definition exchange_pairs :: "har_entry \<Rightarrow> nv_pair list" where
  "exchange_pairs e = reqHeaders (fst e) @ reqCookies (fst e) @ respHeaders (snd e) @ respCookies (snd e)"

lemma collect_pair:
  assumes p: "p \<in> set (exchange_pairs e)" and found: "\<And>loc ts. t \<in> dom (extract_pair loc ts p)"
  shows "t \<in> dom (collect_tokens lib e)"
proof -
  obtain req resp where e: "e = (req, resp)" by force
  let ?t1 = "extractFromNVPairs (reqHeaders req) ''Request Header'' Map.empty"
  let ?t2 = "extractFromNVPairs (reqCookies req) ''Request Cookie'' ?t1"
  let ?t3 = "case FindString (reqURL req) of Some m \<Rightarrow> ?t2(m \<mapsto> ''Request URL'') | None \<Rightarrow> ?t2"
  let ?t4 = "case reqPostText req of
       Some text \<Rightarrow> if text \<noteq> '''' then extractFromJSONBody lib text ''Request Body'' ?t3 else ?t3 | None \<Rightarrow> ?t3"
  let ?t5 = "extractFromNVPairs (respHeaders resp) ''Response Header'' ?t4"
  let ?t6 = "extractFromNVPairs (respCookies resp) ''Response Cookie'' ?t5"
  have grow: "dom ?t1 \<subseteq> dom ?t2" "dom ?t4 \<subseteq> dom ?t5" "dom ?t5 \<subseteq> dom ?t6" by (rule extract_pairs_dom)+
  have "dom ?t2 \<subseteq> dom ?t3" by (auto split: option.splits)
  moreover have "dom ?t3 \<subseteq> dom ?t4" by (simp add: extract_body_dom split: option.split)
  ultimately have all: "dom ?t1 \<subseteq> dom ?t6" "dom ?t2 \<subseteq> dom ?t6" "dom ?t5 \<subseteq> dom ?t6" using grow by blast+
  have "p \<in> set (reqHeaders req) \<or> p \<in> set (reqCookies req) \<or> p \<in> set (respHeaders resp) \<or> p \<in> set (respCookies resp)"
    using p e by (auto simp: exchange_pairs_def)
  then have "t \<in> dom ?t1 \<or> t \<in> dom ?t2 \<or> t \<in> dom ?t5 \<or> t \<in> dom ?t6"
    using extract_pair_finds [OF _ found] by blast
  then have "t \<in> dom ?t6" using all by blast
  then show ?thesis
    using extract_body_dom by (simp add: collect_tokens_def e Let_def, blast)
qed

section \<open>Every token is analysed once\<close>

definition token_reports :: "jwt_library \<Rightarrow> bool \<Rightarrow> string \<Rightarrow> (string \<times> severity) list" where
  "token_reports lib bf t =
     (case AnalyzeToken lib bf t of
        Inl err \<Rightarrow> []
      | Inr fs \<Rightarrow> map (\<lambda>f. (vuln_name (jType f), jSeverity f)) fs)"

definition reports :: "analysis_context \<Rightarrow> (string \<times> severity) list" where
  "reports ac = map (\<lambda>f. (VulnerabilityName f, Severity f)) (acFindings ac)"

lemma reports_reportFinding:
  "reports (jwt_reportFinding sv u loc t ac f) = reports ac @ [(vuln_name (jType f), jSeverity f)]"
  by (simp add: reports_def jwt_reportFinding_def AddFinding_def Let_def)

lemma extends_jwt_report: "extends_context ac (jwt_reportFinding sv u loc t ac f)"
  unfolding jwt_reportFinding_def Let_def by (rule AddFinding_extends) simp_all

lemma reports_fold:
  "reports (foldl (jwt_reportFinding sv u loc t) ac fs) = reports ac @ map (\<lambda>f. (vuln_name (jType f), jSeverity f)) fs"
  by (induction fs arbitrary: ac) (simp_all add: reports_reportFinding)

text \<open>
  What a run from one state to another has done: it has analysed the tokens of a list without
  repetition, none of them analysed before, and reported the findings of each, in this order.
\<close>

definition analysed :: "jwt_library \<Rightarrow> bool \<Rightarrow> jwt_state \<Rightarrow> jwt_state \<Rightarrow> string list \<Rightarrow> bool" where
  "analysed lib bf st st' L \<longleftrightarrow>
     distinct L \<and> set L \<inter> fst st = {} \<and> fst st' = fst st \<union> set L
     \<and> extends_context (snd st) (snd st')
     \<and> reports (snd st') = reports (snd st) @ concat (map (token_reports lib bf) L)"

lemma analysed_refl: "analysed lib bf st st []"
  by (simp add: analysed_def context_refl)

lemma analysed_trans:
  "analysed lib bf a b L \<Longrightarrow> analysed lib bf b c K \<Longrightarrow> analysed lib bf a c (L @ K)"
  by (auto simp: analysed_def intro: context_trans)

lemma analysed_candidate:
  "\<exists>L. analysed lib bf st (analyze_candidate sv lib bf u ts st t) L \<and> fst st \<union> {t} = fst st \<union> set L"
proof (cases "t \<in> fst st")
  case True
  then show ?thesis
    using analysed_refl [of lib bf st] by (intro exI [of _ "[]"]) (auto simp: analyze_candidate_def split: prod.splits)
next
  case False
  have "extends_context ac (foldl (jwt_reportFinding sv u loc t) ac fs)" for ac loc fs
    by (rule fold_extends) (rule extends_jwt_report)
  with False show ?thesis
    by (intro exI [of _ "[t]"])
       (auto simp: analysed_def analyze_candidate_def token_reports_def reports_fold context_refl
          split: prod.splits sum.splits)
qed

lemma analysed_candidates:
  "\<exists>L. analysed lib bf st (foldl (analyze_candidate sv lib bf u ts) st ks) L \<and> fst st \<union> set ks = fst st \<union> set L"
proof (induction ks arbitrary: st)
  case Nil
  then show ?case using analysed_refl by (intro exI [of _ "[]"]) simp
next
  case (Cons k ks)
  let ?st = "analyze_candidate sv lib bf u ts st k"
  obtain L where L: "analysed lib bf st ?st L" "fst st \<union> {k} = fst st \<union> set L"
    using analysed_candidate by blast
  obtain K where K: "analysed lib bf ?st (foldl (analyze_candidate sv lib bf u ts) ?st ks) K"
    "fst ?st \<union> set ks = fst ?st \<union> set K"
    using Cons by blast
  have "fst ?st = fst st \<union> set L" using L(1) by (simp add: analysed_def)
  with L(2) K(2) have "fst st \<union> set (k # ks) = fst st \<union> set (L @ K)" by auto
  then show ?case using analysed_trans [OF L(1) K(1)] by auto
qed

lemma analysed_entries:
  assumes "\<forall>n e. e \<in> set es \<longrightarrow> set (iter n (collect_tokens lib e)) = dom (collect_tokens lib e)"
  shows "\<exists>L. analysed lib bf st (analyze_entries sv lib bf iter n es st) L
    \<and> fst st \<union> (\<Union>e\<in>set es. dom (collect_tokens lib e)) = fst st \<union> set L"
  using assms
proof (induction es arbitrary: n st)
  case Nil
  then show ?case using analysed_refl by (intro exI [of _ "[]"]) simp
next
  case (Cons e es)
  let ?st = "extractAndAnalyze sv lib bf (iter n) st e"
  obtain L where L: "analysed lib bf st ?st L" "fst st \<union> dom (collect_tokens lib e) = fst st \<union> set L"
    using analysed_candidates [of lib bf st sv _ "collect_tokens lib e" "iter n (collect_tokens lib e)"] Cons.prems
    by (fastforce simp: extractAndAnalyze_def Let_def)
  obtain K where K: "analysed lib bf ?st (analyze_entries sv lib bf iter (Suc n) es ?st) K"
    "fst ?st \<union> (\<Union>e\<in>set es. dom (collect_tokens lib e)) = fst ?st \<union> set K"
    using Cons.IH [of ?st "Suc n"] Cons.prems by auto
  have "fst ?st = fst st \<union> set L" using L(1) by (simp add: analysed_def)
  with L(2) K(2) have "fst st \<union> (\<Union>e\<in>set (e # es). dom (collect_tokens lib e)) = fst st \<union> set (L @ K)"
    by (simp only: list.set UN_insert set_append) (metis Un_assoc)
  then show ?case using analysed_trans [OF L(1) K(1)] by auto
qed

lemma extends_entries: "extends_context (snd st) (snd (analyze_entries sv lib bf iter n es st))"
proof (induction es arbitrary: n st)
  case (Cons e es)
  have "extends_context (snd st) (snd (extractAndAnalyze sv lib bf (iter n) st e))"
    using analysed_candidates [of lib bf st sv _ "collect_tokens lib e" "iter n (collect_tokens lib e)"]
    by (fastforce simp: extractAndAnalyze_def Let_def analysed_def)
  from context_trans [OF this Cons] show ?case by simp
qed (simp add: context_refl)

interpretation jwt: analyzer "jwt_Analyze sv lib bf iter"
proof
  fix ac ac'
  assume "jwt_Analyze sv lib bf iter ac = Inr ac'"
  then show "extends_context ac ac'"
    using extends_entries [of "({}, ac)" sv lib bf iter 0]
    by (auto simp: jwt_Analyze_def context_refl split: option.splits sum.splits)
qed

lemma alg_none_report:
  assumes "parse_unverified lib t = Inr (Some alg, claims)" and "EqualFold alg ''none''"
  shows "(''Unsecured JWT (None Algorithm)'', SeverityCritical) \<in> set (token_reports lib bf t)"
  using assms by (simp add: token_reports_def AnalyzeToken_def)

text \<open>
  C28. The analysis of a recording examines each candidate token of its exchanges exactly once,
  whatever the order of the maps, and the findings it adds are those of the tokens, all storable
  and after the earlier ones. A token with algorithm \<^verbatim>\<open>none\<close>, in any letter case, is reported as
  critical when a header or cookie of an exchange carries it: as the whole of the text after
  \<^verbatim>\<open>Bearer\<close> in an \<^verbatim>\<open>Authorization\<close> header, and delimited by other characters in any other value. In a
  bearer value that matches the token pattern the code takes the whole of the text after \<^verbatim>\<open>Bearer\<close> as
  the only candidate, so that a token followed by other text there is not analysed by itself.
\<close>

theorem jwt_analysis_complete:
  assumes "acHAR ac = Some raw" and "unmarshalHAR sv raw = Inr entries"
    and "\<forall>n m. finite (dom m) \<longrightarrow> set (iter n m) = dom m"
  shows "\<exists>fs L. jwt_Analyze sv lib bf iter ac = Inr (ac\<lparr>acFindings := acFindings ac @ fs\<rparr>)
    \<and> list_all (storable (acTask ac)) fs
    \<and> distinct L \<and> set L = (\<Union>e\<in>set entries. dom (collect_tokens lib e))
    \<and> map (\<lambda>f. (VulnerabilityName f, Severity f)) fs = concat (map (token_reports lib bf) L)
    \<and> (\<forall>e\<in>set entries. \<forall>p t alg claims.
         p \<in> set (exchange_pairs e) \<and> carries p t
         \<and> parse_unverified lib t = Inr (Some alg, claims) \<and> EqualFold alg ''none'' \<longrightarrow>
           (\<exists>f\<in>set fs. VulnerabilityName f = ''Unsecured JWT (None Algorithm)'' \<and> Severity f = SeverityCritical))
    \<and> (\<forall>e\<in>set entries. \<forall>p. p \<in> set (exchange_pairs e) \<and> bearer_pair p \<and> MatchString (bearer_rest p) \<longrightarrow>
         bearer_rest p \<in> set L \<and> (\<forall>loc ts. dom (extract_pair loc ts p) = insert (bearer_rest p) (dom ts)))"
proof -
  let ?st = "analyze_entries sv lib bf iter 0 entries ({}, ac)"
  obtain L where L: "analysed lib bf ({}, ac) ?st L" "(\<Union>e\<in>set entries. dom (collect_tokens lib e)) = set L"
    using analysed_entries [of entries iter lib bf "({}, ac)" sv 0] assms(3) finite_collect by auto
  from L(1) have ext: "extends_context ac (snd ?st)" and d: "distinct L"
    and rep: "reports (snd ?st) = reports ac @ concat (map (token_reports lib bf) L)"
    by (simp_all add: analysed_def)
  from ext obtain fs where fs: "snd ?st = ac\<lparr>acFindings := acFindings ac @ fs\<rparr>" "list_all (storable (acTask ac)) fs"
    by (auto simp: extends_context_def)
  have m: "map (\<lambda>f. (VulnerabilityName f, Severity f)) fs = concat (map (token_reports lib bf) L)"
    using rep fs(1) by (simp add: reports_def)
  have bearer: "\<forall>e\<in>set entries. \<forall>p. p \<in> set (exchange_pairs e) \<and> bearer_pair p \<and> MatchString (bearer_rest p) \<longrightarrow>
         bearer_rest p \<in> set L \<and> (\<forall>loc ts. dom (extract_pair loc ts p) = insert (bearer_rest p) (dom ts))"
  proof (intro ballI allI impI, elim conjE)
    fix e p assume e: "e \<in> set entries" "p \<in> set (exchange_pairs e)" and b: "bearer_pair p" "MatchString (bearer_rest p)"
    have "bearer_rest p \<in> dom (collect_tokens lib e)"
      by (rule collect_pair [OF e(2)]) (simp add: extract_bearer [OF b])
    then show "bearer_rest p \<in> set L \<and> (\<forall>loc ts. dom (extract_pair loc ts p) = insert (bearer_rest p) (dom ts))"
      unfolding L(2) [symmetric] using e(1) extract_bearer [OF b] by blast
  qed
  have none: "\<forall>e\<in>set entries. \<forall>p t alg claims.
         p \<in> set (exchange_pairs e) \<and> carries p t
         \<and> parse_unverified lib t = Inr (Some alg, claims) \<and> EqualFold alg ''none'' \<longrightarrow>
           (\<exists>f\<in>set fs. VulnerabilityName f = ''Unsecured JWT (None Algorithm)'' \<and> Severity f = SeverityCritical)"
  proof (intro ballI allI impI, elim conjE)
    fix e p t alg claims
    assume e: "e \<in> set entries" "p \<in> set (exchange_pairs e)" "carries p t"
      and none: "parse_unverified lib t = Inr (Some alg, claims)" "EqualFold alg ''none''"
    have "t \<in> dom (collect_tokens lib e)" by (rule collect_pair [OF e(2)]) (rule extract_carried [OF e(3)])
    then have "t \<in> set L" unfolding L(2) [symmetric] using e(1) by blast
    then have "(''Unsecured JWT (None Algorithm)'', SeverityCritical) \<in> set (concat (map (token_reports lib bf) L))"
      using alg_none_report [OF none] by auto
    then show "\<exists>f\<in>set fs. VulnerabilityName f = ''Unsecured JWT (None Algorithm)'' \<and> Severity f = SeverityCritical"
      unfolding m [symmetric] by auto
  qed
  have "jwt_Analyze sv lib bf iter ac = Inr (ac\<lparr>acFindings := acFindings ac @ fs\<rparr>)"
    using assms(1,2) fs(1) by (simp add: jwt_Analyze_def)
  then show ?thesis
    by (intro exI conjI) (rule fs(2) d L(2) [symmetric] m none bearer | assumption)+
qed

definition none_token :: string where
  "none_token = ''eyJh.eyJz.''"

definition example_library :: jwt_library where
  "example_library =
    \<lparr>parse_unverified = (\<lambda>t. if t = none_token then Inr (Some ''None'', [''sub'']) else Inl ''bad token''),
     parse_valid = (\<lambda>_ _. False), json_strings = (\<lambda>_. [])\<rparr>"

definition example_har :: har_entry where
  "example_har =
    (\<lparr>reqURL = ''u'', reqCookies = [], reqHeaders = [(''authorization'', ''BEARER '' @ none_token @ '' '')], reqPostText = None\<rparr>,
     \<lparr>respCookies = [], respHeaders = [], respText = ''''\<rparr>)"

definition jwt_services :: services where
  "jwt_services = \<lparr>unmarshalHAR = (\<lambda>_. Inr [example_har]), marshal = (\<lambda>_. Some ''{}''), newID = itoa, now = int\<rparr>"

definition jwt_context :: analysis_context where
  "jwt_context =
    \<lparr>acTask = \<lparr>tTaskID = ''t'', tScanID = ''s'', tType = ''ANALYZE_JWT'', tTargetURL = ''u''\<rparr>,
     acTargetURL = ''u'', acHAR = Some ''raw'', acFindings = []\<rparr>"

theorem jwt_analysis_complete_witness:
  "\<exists>fs. jwt_Analyze jwt_services example_library False (\<lambda>_ m. sorted_list_of_set (dom m)) jwt_context
       = Inr (jwt_context\<lparr>acFindings := fs\<rparr>)
     \<and> (\<exists>f\<in>set fs. VulnerabilityName f = ''Unsecured JWT (None Algorithm)'' \<and> Severity f = SeverityCritical)"
proof -
  have har: "acHAR jwt_context = Some ''raw''" "unmarshalHAR jwt_services ''raw'' = Inr [example_har]"
    by (simp_all add: jwt_context_def jwt_services_def)
  have iter: "\<forall>n m. finite (dom m) \<longrightarrow> set ((\<lambda>_ m. sorted_list_of_set (dom m)) (n::nat) (m :: tokens)) = dom m"
    by simp
  have empty: "acFindings jwt_context = []" by (simp add: jwt_context_def)
  have shape: "token_shape none_token"
    unfolding token_shape_def
    by (intro exI [of _ "''eyJh''"] exI [of _ "''eyJz''"] exI [of _ "[]"]) (simp add: none_token_def, code_simp)
  let ?p = "(''authorization'', ''BEARER '' @ none_token @ '' '')"
  have "bearer_pair ?p" "bearer_rest ?p = none_token" by code_simp+
  then have carried: "carries ?p none_token" using shape by (simp add: carries_def)
  have hdr: "?p \<in> set (exchange_pairs example_har)"
    by (simp add: example_har_def exchange_pairs_def)
  have alg: "EqualFold ''None'' ''none''" by code_simp
  have "parse_unverified example_library none_token = Inr (Some ''None'', [''sub''])"
    by (simp add: example_library_def)
  note fact = this
  obtain fs where res: "jwt_Analyze jwt_services example_library False (\<lambda>_ m. sorted_list_of_set (dom m)) jwt_context
       = Inr (jwt_context\<lparr>acFindings := fs\<rparr>)"
    and all: "\<forall>e\<in>set [example_har]. \<forall>p t alg claims.
         p \<in> set (exchange_pairs e) \<and> carries p t
         \<and> parse_unverified example_library t = Inr (Some alg, claims) \<and> EqualFold alg ''none'' \<longrightarrow>
           (\<exists>f\<in>set fs. VulnerabilityName f = ''Unsecured JWT (None Algorithm)'' \<and> Severity f = SeverityCritical)"
    using jwt_analysis_complete [OF har iter, of example_library False] unfolding empty append_Nil
    by (elim exE conjE)
  have "example_har \<in> set [example_har]" by simp
  from all [THEN bspec, OF this, rule_format, OF conjI [OF hdr conjI [OF carried conjI [OF fact alg]]]] res
  show ?thesis by blast
qed

end
