(* ===== verification/Discovery.thy ===== *)
theory Discovery
  imports KnowledgeGraph
begin

text \<open>
  The scope of an engagement and the normalisation of discovered URLs
  (\<^verbatim>\<open>internal/discovery/scope.go\<close> and \<^verbatim>\<open>normalizeAndValidate\<close> of \<^verbatim>\<open>engine.go\<close>), and what the engine
  writes into the knowledge graph for an asset.

  A URL is the record of the fields of \<^verbatim>\<open>url.URL\<close> the code reads or writes; \<^verbatim>\<open>Hostname\<close> is modelled.
  Parsing, reference resolution, query re-encoding and printing of URLs, and the public suffix
  list, are parameters (\<open>url_library\<close>).
\<close>

section \<open>URLs\<close>

record url =
  uScheme :: string
  uUser :: string
  uHost :: string
  uPath :: string
  uRawQuery :: string
  uFragment :: string

record url_library =
  url_Parse :: "string \<Rightarrow> url option"
  url_Resolve :: "url \<Rightarrow> url \<Rightarrow> url"
  url_QueryEncode :: "string \<Rightarrow> string"
  url_String :: "url \<Rightarrow> string"
  effectiveTLDPlusOne :: "string \<Rightarrow> string option"

definition is_port_digit :: "char \<Rightarrow> bool" where
  "is_port_digit c = (digit_val c \<noteq> None)"

text \<open>\<^verbatim>\<open>URL.Hostname\<close>: the host without a valid port, and without square brackets.\<close>

definition strip_port :: "string \<Rightarrow> string" where
  "strip_port h =
     (let r = rev h; port = takeWhile (\<lambda>c. c \<noteq> CHR '':'') r; rest = dropWhile (\<lambda>c. c \<noteq> CHR '':'') r
      in if rest \<noteq> [] \<and> list_all is_port_digit port then rev (tl rest) else h)"

definition strip_brackets :: "string \<Rightarrow> string" where
  "strip_brackets h =
     (if HasPrefix h ''['' \<and> HasSuffix h '']'' then butlast (tl h) else h)"

definition Hostname :: "url \<Rightarrow> string" where
  "Hostname u = strip_brackets (strip_port (uHost u))"

text \<open>\<^verbatim>\<open>filepath.Ext\<close> of a slash-separated path.\<close>

definition path_ext :: "string \<Rightarrow> string" where
  "path_ext p =
     (let seg = takeWhile (\<lambda>c. c \<noteq> CHR ''/'') (rev p)
      in if CHR ''.'' \<in> set seg then CHR ''.'' # rev (takeWhile (\<lambda>c. c \<noteq> CHR ''.'') seg) else '''')"

section \<open>Scope\<close>

record scope =
  rootDomain :: string
  includeSubdomains :: bool

datatype scope_error = ScopeBadURL | ScopeNoHostname string | ScopeNoDomain string

definition NewBasicScopeManager :: "url_library \<Rightarrow> string \<Rightarrow> bool \<Rightarrow> (scope_error, scope) result" where
  "NewBasicScopeManager lib initialURL subs =
     (case url_Parse lib initialURL of
        None \<Rightarrow> Inl ScopeBadURL
      | Some u \<Rightarrow>
          (let hostname = Hostname u in
           if hostname = '''' then Inl (ScopeNoHostname initialURL)
           else (case effectiveTLDPlusOne lib hostname of
               None \<Rightarrow> Inl (ScopeNoDomain hostname)
             | Some domain \<Rightarrow> Inr \<lparr>rootDomain = domain, includeSubdomains = subs\<rparr>)))"

definition IsInScope :: "scope \<Rightarrow> url \<Rightarrow> bool" where
  "IsInScope s u =
     (let host = Hostname u in
      if host = rootDomain s then True
      else if includeSubdomains s \<and> HasSuffix host (CHR ''.'' # rootDomain s) then True
      else False)"

section \<open>Normalisation\<close>

datatype url_error =
    InvalidURL | RelativeWithoutBase | InvalidBase | UnsupportedScheme string | OutOfScope url | StaticAsset

definition ignoredExtensions :: "string set" where
  "ignoredExtensions = {''.css'', ''.png'', ''.jpg'', ''.jpeg'', ''.gif'', ''.woff'', ''.woff2'', ''.ico'',
     ''.svg'', ''.ttf'', ''.eot''}"

text \<open>The resolution of a URL that is not absolute.\<close>

definition make_absolute :: "url_library \<Rightarrow> string \<Rightarrow> url \<Rightarrow> (url_error, url) result" where
  "make_absolute lib baseURL u =
     (if uScheme u \<noteq> '''' then Inr u
      else if baseURL = ''''
      then (if uHost u \<noteq> '''' then Inr (u\<lparr>uScheme := ''https''\<rparr>) else Inl RelativeWithoutBase)
      else (case url_Parse lib baseURL of
          None \<Rightarrow> Inl InvalidBase
        | Some base \<Rightarrow> Inr (url_Resolve lib base u)))"

text \<open>The rewriting of host, path and query after the checks.\<close>

definition canonical :: "url_library \<Rightarrow> url \<Rightarrow> url" where
  "canonical lib u =
     (let u1 = (if (uScheme u = ''http'' \<and> HasSuffix (uHost u) '':80'')
                   \<or> (uScheme u = ''https'' \<and> HasSuffix (uHost u) '':443'')
                then u\<lparr>uHost := Hostname u\<rparr> else u);
          u2 = (if uPath u1 = '''' then u1\<lparr>uPath := ''/''\<rparr> else u1)
      in if uRawQuery u2 \<noteq> '''' then u2\<lparr>uRawQuery := url_QueryEncode lib (uRawQuery u2)\<rparr> else u2)"

definition normalizeAndValidate ::
  "url_library \<Rightarrow> scope \<Rightarrow> string \<Rightarrow> string \<Rightarrow> (url_error, url) result" where
  "normalizeAndValidate lib sc rawURL baseURL =
     (case url_Parse lib rawURL of
        None \<Rightarrow> Inl InvalidURL
      | Some u0 \<Rightarrow>
          bindR (make_absolute lib baseURL u0) (\<lambda>u1.
            let u = u1\<lparr>uFragment := ''''\<rparr> in
            if uScheme u \<noteq> ''http'' \<and> uScheme u \<noteq> ''https'' then Inl (UnsupportedScheme (uScheme u))
            else if \<not> IsInScope sc u then Inl (OutOfScope u)
            else let v = canonical lib u in
              if ToLower (path_ext (uPath v)) \<in> ignoredExtensions then Inl StaticAsset else Inr v))"

section \<open>Facts about hosts\<close>

text \<open>
  What the public suffix list documents of a registrable domain: it has at least two labels, and
  it is a host name, so it holds no colon and no bracket.
\<close>

definition proper_domain :: "string \<Rightarrow> bool" where
  "proper_domain d \<longleftrightarrow> CHR ''.'' \<in> set d \<and> CHR '':'' \<notin> set d \<and> CHR '']'' \<notin> set d"

lemma HasSuffix_iff: "HasSuffix s t \<longleftrightarrow> (\<exists>r. s = r @ t)"
proof -
  have "HasSuffix s t \<longleftrightarrow> (\<exists>r. rev s = rev t @ r)" by (simp add: HasSuffix_def HasPrefix_iff)
  also have "\<dots> \<longleftrightarrow> (\<exists>r. s = r @ t)" by (metis rev_append rev_rev_ident)
  finally show ?thesis .
qed

lemma dot_no_digit: "\<not> is_port_digit CHR ''.''"
  by code_simp

lemma strip_port_domain:
  assumes "proper_domain d"
  shows "strip_port (r @ d) = r @ d"
proof -
  have "takeWhile (\<lambda>c. c \<noteq> CHR '':'') (rev (r @ d)) = rev d @ takeWhile (\<lambda>c. c \<noteq> CHR '':'') (rev r)"
    unfolding rev_append by (rule takeWhile_append2) (use assms in \<open>auto simp: proper_domain_def\<close>)
  moreover have "\<not> list_all is_port_digit (rev d)"
    using assms dot_no_digit by (auto simp: proper_domain_def list_all_iff)
  ultimately show ?thesis by (auto simp: strip_port_def Let_def)
qed

lemma strip_brackets_domain:
  assumes "proper_domain d"
  shows "strip_brackets (r @ d) = r @ d"
proof -
  have "d \<noteq> []" using assms by (auto simp: proper_domain_def)
  then have "last (r @ d) \<noteq> CHR '']''"
    using assms last_in_set [of d] unfolding proper_domain_def by (metis last_appendR)
  then have "\<not> HasSuffix (r @ d) '']''" unfolding HasSuffix_iff by (metis last_snoc)
  then show ?thesis by (simp add: strip_brackets_def)
qed

text \<open>A host that is in scope has no port and no brackets to strip.\<close>

lemma in_scope_host:
  assumes "IsInScope s u" and "proper_domain (rootDomain s)"
  shows "Hostname (u\<lparr>uHost := Hostname u\<rparr>) = Hostname u"
proof -
  obtain r where "Hostname u = r @ rootDomain s"
    using assms(1) by (auto simp: IsInScope_def HasSuffix_iff Let_def split: if_splits intro: that [of "[]"] that)
  moreover have "Hostname (u\<lparr>uHost := h\<rparr>) = strip_brackets (strip_port h)" for h
    by (simp add: Hostname_def)
  ultimately show ?thesis
    by (simp add: strip_port_domain [OF assms(2)] strip_brackets_domain [OF assms(2)])
qed

lemma canonical_simps [simp]:
  "uScheme (canonical lib u) = uScheme u" "uFragment (canonical lib u) = uFragment u"
  "uPath (canonical lib u) \<noteq> ''''"
  by (auto simp: canonical_def Let_def)

lemma canonical_host:
  "uHost (canonical lib u) =
     (if (uScheme u = ''http'' \<and> HasSuffix (uHost u) '':80'') \<or> (uScheme u = ''https'' \<and> HasSuffix (uHost u) '':443'')
      then Hostname u else uHost u)"
  by (simp add: canonical_def Let_def)

lemma Hostname_cong: "uHost u = uHost v \<Longrightarrow> Hostname u = Hostname v"
  by (simp add: Hostname_def)

lemma Hostname_canonical:
  assumes "IsInScope s u" and "proper_domain (rootDomain s)"
  shows "Hostname (canonical lib u) = Hostname u"
proof -
  have "uHost (canonical lib u) = Hostname u \<or> uHost (canonical lib u) = uHost u"
    by (simp add: canonical_host)
  then show ?thesis
    using in_scope_host [OF assms] Hostname_cong [of "canonical lib u" u]
      Hostname_cong [of "canonical lib u" "u\<lparr>uHost := Hostname u\<rparr>"] by auto
qed

lemma IsInScope_cong: "Hostname u = Hostname v \<Longrightarrow> IsInScope s u = IsInScope s v"
  by (simp add: IsInScope_def)

text \<open>A host in scope that is a bare host name ends in no port.\<close>

lemma no_port_suffix:
  assumes "IsInScope s u" and "proper_domain (rootDomain s)" and "p \<in> {'':80'', '':443''}"
  shows "\<not> HasSuffix (Hostname u) p"
proof
  assume "HasSuffix (Hostname u) p"
  then have "last (Hostname u) \<in> {CHR ''0'', CHR ''3''}" and port: "strip_port (Hostname u) \<noteq> Hostname u"
    using assms(3) by (auto simp: HasSuffix_iff strip_port_def Let_def is_port_digit_def digit_val_def)
  obtain r where "Hostname u = r @ rootDomain s"
    using assms(1) by (auto simp: IsInScope_def HasSuffix_iff Let_def split: if_splits intro: that [of "[]"] that)
  with port show False using strip_port_domain [OF assms(2)] by simp
qed

lemma canonical_no_port:
  assumes "IsInScope s u" and "proper_domain (rootDomain s)"
  shows "\<not> (uScheme u = ''http'' \<and> HasSuffix (uHost (canonical lib u)) '':80'')
    \<and> \<not> (uScheme u = ''https'' \<and> HasSuffix (uHost (canonical lib u)) '':443'')"
  using no_port_suffix [OF assms] by (auto simp: canonical_host)

lemma canonical_idem:
  assumes "IsInScope s u" and "proper_domain (rootDomain s)"
    and enc: "\<forall>q. url_QueryEncode lib (url_QueryEncode lib q) = url_QueryEncode lib q"
  shows "canonical lib (canonical lib u) = canonical lib u"
proof -
  let ?v = "canonical lib u"
  have q: "uRawQuery ?v \<noteq> '''' \<longrightarrow> url_QueryEncode lib (uRawQuery ?v) = uRawQuery ?v"
    using enc by (auto simp: canonical_def Let_def)
  have "\<not> ((uScheme ?v = ''http'' \<and> HasSuffix (uHost ?v) '':80'') \<or> (uScheme ?v = ''https'' \<and> HasSuffix (uHost ?v) '':443''))"
    using canonical_no_port [OF assms(1,2)] by auto
  with q show ?thesis
    unfolding canonical_def [of lib ?v] Let_def by auto
qed

lemma normalize_cases:
  assumes "normalizeAndValidate lib sc raw base = Inr v"
  obtains u0 u1 where "url_Parse lib raw = Some u0" and "make_absolute lib base u0 = Inr u1"
    and "uScheme u1 \<in> {''http'', ''https''}" and "IsInScope sc (u1\<lparr>uFragment := ''''\<rparr>)"
    and "v = canonical lib (u1\<lparr>uFragment := ''''\<rparr>)"
    and "ToLower (path_ext (uPath v)) \<notin> ignoredExtensions"
  using assms by (auto simp: normalizeAndValidate_def Let_def split: option.splits if_splits)

text \<open>
  C29. A URL that normalisation accepts is an HTTP(S) URL inside the scope, without fragment, with
  a path, without the default port of its scheme and not a static asset; everything else is
  rejected with an error. The scope of the normalised URL is that of the URL that was checked
  although the host is rewritten after the check. Normalisation is idempotent, so the printed URL
  is a canonical key: normalising it again gives the same URL.
\<close>

theorem normalize_url_correct:
  assumes "normalizeAndValidate lib sc raw base = Inr v"
    and "proper_domain (rootDomain sc)"
    and "\<forall>q. url_QueryEncode lib (url_QueryEncode lib q) = url_QueryEncode lib q"
  shows "uScheme v \<in> {''http'', ''https''} \<and> uFragment v = '''' \<and> uPath v \<noteq> ''''
    \<and> IsInScope sc v
    \<and> \<not> (uScheme v = ''http'' \<and> HasSuffix (uHost v) '':80'')
    \<and> \<not> (uScheme v = ''https'' \<and> HasSuffix (uHost v) '':443'')
    \<and> ToLower (path_ext (uPath v)) \<notin> ignoredExtensions
    \<and> (url_Parse lib (url_String lib v) = Some v \<longrightarrow>
         (\<forall>base'. normalizeAndValidate lib sc (url_String lib v) base' = Inr v))"
proof -
  obtain u0 u1 where u: "url_Parse lib raw = Some u0" "make_absolute lib base u0 = Inr u1"
    "uScheme u1 \<in> {''http'', ''https''}" "IsInScope sc (u1\<lparr>uFragment := ''''\<rparr>)"
    "v = canonical lib (u1\<lparr>uFragment := ''''\<rparr>)" "ToLower (path_ext (uPath v)) \<notin> ignoredExtensions"
    using normalize_cases [OF assms(1)] .
  have scheme: "uScheme v = uScheme u1" and frag: "uFragment v = ''''" and path: "uPath v \<noteq> ''''"
    using u(5) by simp_all
  have scope: "IsInScope sc v"
    using u(4,5) IsInScope_cong [OF Hostname_canonical [OF u(4) assms(2), of lib]] by simp
  have port: "\<not> (uScheme v = ''http'' \<and> HasSuffix (uHost v) '':80'')"
    "\<not> (uScheme v = ''https'' \<and> HasSuffix (uHost v) '':443'')"
    using canonical_no_port [OF u(4) assms(2), of lib] u(5) scheme by simp_all
  have idem: "canonical lib v = v" using canonical_idem [OF u(4) assms(2,3)] u(5) by simp
  have "v\<lparr>uFragment := ''''\<rparr> = v" using frag by simp
  then have "normalizeAndValidate lib sc (url_String lib v) base' = Inr v"
    if "url_Parse lib (url_String lib v) = Some v" for base'
    using that u(3,6) scheme scope idem by (auto simp: normalizeAndValidate_def make_absolute_def)
  with u(3,6) scheme frag path scope port show ?thesis by simp
qed

definition example_urls :: url_library where
  "example_urls =
    \<lparr>url_Parse = (\<lambda>s. if s = ''HTTPS://a.example.com:443#top''
        then Some \<lparr>uScheme = ''https'', uUser = '''', uHost = ''a.example.com:443'', uPath = '''', uRawQuery = '''', uFragment = ''top''\<rparr>
        else if s = ''https://a.example.com/''
        then Some \<lparr>uScheme = ''https'', uUser = '''', uHost = ''a.example.com'', uPath = ''/'', uRawQuery = '''', uFragment = ''''\<rparr>
        else None),
     url_Resolve = (\<lambda>b u. u), url_QueryEncode = (\<lambda>q. q),
     url_String = (\<lambda>u. uScheme u @ ''://'' @ uHost u @ uPath u),
     effectiveTLDPlusOne = (\<lambda>h. Some ''example.com'')\<rparr>"

definition example_scope :: scope where
  "example_scope = \<lparr>rootDomain = ''example.com'', includeSubdomains = True\<rparr>"

definition example_url :: url where
  "example_url = \<lparr>uScheme = ''https'', uUser = '''', uHost = ''a.example.com'', uPath = ''/'', uRawQuery = '''', uFragment = ''''\<rparr>"

theorem normalize_url_correct_witness:
  "normalizeAndValidate example_urls example_scope ''HTTPS://a.example.com:443#top'' '''' = Inr example_url
   \<and> IsInScope example_scope example_url
   \<and> normalizeAndValidate example_urls example_scope ''https://a.example.com/'' ''x'' = Inr example_url"
proof -
  have n: "normalizeAndValidate example_urls example_scope ''HTTPS://a.example.com:443#top'' '''' = Inr example_url"
    by code_simp
  have p: "proper_domain (rootDomain example_scope)" by code_simp
  have q: "\<forall>q. url_QueryEncode example_urls (url_QueryEncode example_urls q) = url_QueryEncode example_urls q"
    by (simp add: example_urls_def)
  have s: "url_String example_urls example_url = ''https://a.example.com/''"
    "url_Parse example_urls ''https://a.example.com/'' = Some example_url"
    by (simp_all add: example_urls_def example_url_def)
  from n normalize_url_correct [OF n p q] s show ?thesis by auto
qed

end
