(* ===== verification/DiscoveryEngine.thy ===== *)
theory DiscoveryEngine
  imports Discovery
begin

text \<open>
  The discovery engine (\<^verbatim>\<open>internal/discovery/engine.go\<close>) as a transition system over its shared
  state: the crawl queue and its wait group, the set of processed URLs, the task channel, the
  knowledge graph, and the goroutines. Goroutine 0 is the one \<^verbatim>\<open>Start\<close> launches (it seeds, then waits
  for the workers and closes the task channel), goroutines 1 to n are the workers, the passive
  discovery goroutines are appended as they start. An action is one atomic step of one goroutine;
  \<open>crawl_step\<close> returns \<open>None\<close> when the goroutine is blocked or elsewhere.

  What a page or a passive source returns is part of the action, as are fresh identifiers. Sends on
  the task channel succeed while it is open (its reader is outside the engine). A send on a closed
  channel panics: a worker recovers and finishes its task, any other goroutine ends the process
  (\<open>crashed\<close>). The fields \<open>crawledLog\<close>, \<open>enqueuedLog\<close> and \<open>failed\<close> only record what happened: pages
  crawled with the links accepted from them, URLs enqueued, and whether a task was skipped, dropped
  or lost in a panic.
\<close>

section \<open>State\<close>

record engine_config =
  cfgMaxDepth :: int
  cfgConcurrency :: nat
  cfgPassive :: bool
  cfgTaint :: bool
  cfgHeaders :: bool
  cfgJWT :: bool

datatype role = Seeder | Passive | Crawler

datatype phase = Next | Dispatch url "string list" | Record url

datatype actor = Waiting | Gone role | Busy role int "url list" phase

record crawl_state =
  crawlQueue :: "(string \<times> int) list"
  queueClosed :: bool
  processed :: "string set"
  pending :: int
  actors :: "actor list"
  sent :: "(string \<times> string) list"
  tasksClosed :: bool
  graph :: kg
  cancelled :: bool
  crashed :: bool
  crawledLog :: "(string \<times> url list) list"
  enqueuedLog :: "string list"
  failed :: bool

definition queueCapacity :: nat where
  "queueCapacity = 5000"

section \<open>What is done for one asset\<close>

definition asset_node :: "string \<Rightarrow> string \<Rightarrow> string \<Rightarrow> kg_node" where
  "asset_node ty name props =
     \<lparr>nID = name, nType = ty, nLabel = name, nStatus = ''new'', nProperties = props, nCreatedAt = 0, nLastSeen = 0\<rparr>"

definition asset_edge :: "string \<Rightarrow> string \<Rightarrow> string \<Rightarrow> string \<Rightarrow> kg_edge" where
  "asset_edge eid src dst ty =
     \<lparr>eID = eid, eFrom = src, eTo = dst, eType = ty, eLabel = ty, eProperties = '''', eCreatedAt = 0, eLastSeen = 0\<rparr>"

text \<open>A failed edge is only logged.\<close>

definition try_edge :: "kg \<Rightarrow> kg_edge \<Rightarrow> kg" where
  "try_edge g e = (case AddEdge g e of Inr g' \<Rightarrow> g' | Inl _ \<Rightarrow> g)"

text \<open>
  The writes of one asset are one step. Each of them holds the lock of the graph by itself, so another
  goroutine may write in between; no step of the crawl depends on what it reads from the graph.
\<close>

definition record_asset ::
  "url_library \<Rightarrow> scope \<Rightarrow> url \<Rightarrow> string \<Rightarrow> string \<Rightarrow> string \<Rightarrow> kg \<Rightarrow> kg" where
  "record_asset lib sc u props e1 e2 g =
     (let urlString = url_String lib u; hostname = Hostname u;
          g1 = AddNode g (asset_node ''URL'' urlString props);
          g2 = AddNode g1 (asset_node ''DOMAIN'' hostname '''');
          g3 = try_edge g2 (asset_edge e1 hostname urlString ''HOSTS_URL'')
      in if hostname \<noteq> rootDomain sc
         then try_edge g3 (asset_edge e2 (rootDomain sc) hostname ''HAS_SUBDOMAIN'') else g3)"

definition task_types :: "engine_config \<Rightarrow> string list" where
  "task_types cfg =
     (if cfgTaint cfg then [''ANALYZE_WEB_PAGE_TAINT''] else []) @
     (if cfgHeaders cfg then [''ANALYZE_HEADERS''] else []) @
     (if cfgJWT cfg then [''ANALYZE_JWT''] else [])"

definition accept :: "url_library \<Rightarrow> scope \<Rightarrow> string \<Rightarrow> string list \<Rightarrow> url list" where
  "accept lib sc base raws =
     List.map_filter (\<lambda>r. case normalizeAndValidate lib sc r base of Inr u \<Rightarrow> Some u | Inl _ \<Rightarrow> None) raws"

section \<open>Steps\<close>

datatype action =
    ANext nat "string list"
  | ASend nat
  | ASkip nat
  | ARecord nat string string string
  | ATake nat "string list option"
  | AFinish nat
  | APanic nat
  | ACloseQueue
  | AExit nat
  | ACancel
  | ACloseTasks

definition set_actor :: "nat \<Rightarrow> actor \<Rightarrow> crawl_state \<Rightarrow> crawl_state" where
  "set_actor i a s = s\<lparr>actors := (actors s)[i := a]\<rparr>"

text \<open>The deferred \<^verbatim>\<open>taskWG.Done\<close> of a crawl.\<close>

definition end_crawl :: "nat \<Rightarrow> crawl_state \<Rightarrow> crawl_state" where
  "end_crawl i s = (set_actor i Waiting s)\<lparr>pending := pending s - 1\<rparr>"

text \<open>Seeding a target first writes the root domain and starts passive discovery.\<close>

definition start_passive ::
  "url_library \<Rightarrow> scope \<Rightarrow> engine_config \<Rightarrow> string list \<Rightarrow> crawl_state \<Rightarrow> crawl_state" where
  "start_passive lib sc cfg raws s =
     (let s1 = s\<lparr>graph := AddNode (graph s) (asset_node ''DOMAIN'' (rootDomain sc) '''')\<rparr>
      in if cfgPassive cfg then s1\<lparr>actors := actors s1 @ [Busy Passive 0 (accept lib sc '''' raws) Next]\<rparr> else s1)"

text \<open>The \<^verbatim>\<open>LoadOrStore\<close> at the head of \<^verbatim>\<open>processAsset\<close>.\<close>

definition claim :: "url_library \<Rightarrow> engine_config \<Rightarrow> nat \<Rightarrow> role \<Rightarrow> int \<Rightarrow> url \<Rightarrow> url list \<Rightarrow> crawl_state \<Rightarrow> crawl_state" where
  "claim lib cfg i r d u us s =
     (if url_String lib u \<in> processed s then set_actor i (Busy r d us Next) s
      else (set_actor i (Busy r d us (Dispatch u (task_types cfg))) s)
             \<lparr>processed := insert (url_String lib u) (processed s)\<rparr>)"

text \<open>The end of \<^verbatim>\<open>processAsset\<close>: the graph, then the queue unless the depth is reached.\<close>

definition enqueue :: "url_library \<Rightarrow> engine_config \<Rightarrow> int \<Rightarrow> url \<Rightarrow> crawl_state \<Rightarrow> crawl_state" where
  "enqueue lib cfg d u s =
     (if d < cfgMaxDepth cfg
      then (if queueClosed s then s\<lparr>crashed := True\<rparr>
            else if length (crawlQueue s) < queueCapacity
            then s\<lparr>crawlQueue := crawlQueue s @ [(url_String lib u, d)], pending := pending s + 1,
                   enqueuedLog := enqueuedLog s @ [url_String lib u]\<rparr>
            else s\<lparr>failed := True\<rparr>)
      else s)"

definition step_next ::
  "url_library \<Rightarrow> scope \<Rightarrow> engine_config \<Rightarrow> nat \<Rightarrow> string list \<Rightarrow> crawl_state \<Rightarrow> crawl_state option" where
  "step_next lib sc cfg i raws s =
     (case actors s ! i of
        Busy r d (u # us) Next \<Rightarrow>
          Some (claim lib cfg i r d u us (if r = Seeder then start_passive lib sc cfg raws s else s))
      | _ \<Rightarrow> None)"

definition step_send ::
  "url_library \<Rightarrow> nat \<Rightarrow> crawl_state \<Rightarrow> crawl_state option" where
  "step_send lib i s =
     (case actors s ! i of
        Busy r d us (Dispatch u []) \<Rightarrow> Some (set_actor i (Busy r d us (Record u)) s)
      | Busy r d us (Dispatch u (ty # tys)) \<Rightarrow>
          if tasksClosed s
          then (if r = Crawler then Some ((end_crawl i s)\<lparr>failed := True\<rparr>) else Some (s\<lparr>crashed := True\<rparr>))
          else Some ((set_actor i (Busy r d us (Dispatch u tys)) s)\<lparr>sent := sent s @ [(ty, url_String lib u)]\<rparr>)
      | _ \<Rightarrow> None)"

text \<open>The session context is cancelled from outside, or by the main goroutine when it returns.\<close>

definition sessionDone :: "crawl_state \<Rightarrow> bool" where
  "sessionDone s \<longleftrightarrow> cancelled s \<or> tasksClosed s"

text \<open>A send gives up when its context is done: the session's, or the timeout of a worker's crawl.\<close>

definition step_skip :: "nat \<Rightarrow> crawl_state \<Rightarrow> crawl_state option" where
  "step_skip i s =
     (case actors s ! i of
        Busy r d us (Dispatch u (ty # tys)) \<Rightarrow>
          if sessionDone s \<or> r = Crawler then Some ((set_actor i (Busy r d us (Dispatch u tys)) s)\<lparr>failed := True\<rparr>) else None
      | _ \<Rightarrow> None)"

definition step_record ::
  "url_library \<Rightarrow> scope \<Rightarrow> engine_config \<Rightarrow> nat \<Rightarrow> string \<Rightarrow> string \<Rightarrow> string \<Rightarrow> crawl_state \<Rightarrow> crawl_state option" where
  "step_record lib sc cfg i props e1 e2 s =
     (case actors s ! i of
        Busy r d us (Record u) \<Rightarrow>
          Some (set_actor i (Busy r d us Next)
                 (enqueue lib cfg d u (s\<lparr>graph := record_asset lib sc u props e1 e2 (graph s)\<rparr>)))
      | _ \<Rightarrow> None)"

definition step_take ::
  "url_library \<Rightarrow> scope \<Rightarrow> nat \<Rightarrow> string list option \<Rightarrow> crawl_state \<Rightarrow> crawl_state option" where
  "step_take lib sc i res s =
     (case (actors s ! i, crawlQueue s) of
        (Waiting, (k, d) # q) \<Rightarrow>
          (let links = (case res of None \<Rightarrow> [] | Some raws \<Rightarrow> accept lib sc k raws)
           in Some ((set_actor i (Busy Crawler (d + 1) links Next) s)
                \<lparr>crawlQueue := q, crawledLog := crawledLog s @ [(k, links)]\<rparr>))
      | _ \<Rightarrow> None)"

definition step_finish :: "nat \<Rightarrow> crawl_state \<Rightarrow> crawl_state option" where
  "step_finish i s =
     (case actors s ! i of
        Busy Crawler d [] Next \<Rightarrow> Some (end_crawl i s)
      | Busy r d [] Next \<Rightarrow> Some (set_actor i (Gone r) s)
      | _ \<Rightarrow> None)"

definition step_panic :: "nat \<Rightarrow> crawl_state \<Rightarrow> crawl_state option" where
  "step_panic i s =
     (case actors s ! i of
        Busy Crawler d us ph \<Rightarrow> Some ((end_crawl i s)\<lparr>failed := True\<rparr>)
      | _ \<Rightarrow> None)"

definition is_busy :: "actor \<Rightarrow> bool" where
  "is_busy a = (case a of Busy _ _ _ _ \<Rightarrow> True | _ \<Rightarrow> False)"

definition crawling :: "actor \<Rightarrow> bool" where
  "crawling a = (case a of Busy Crawler _ _ _ \<Rightarrow> True | _ \<Rightarrow> False)"

text \<open>The closing goroutine waits for the seeding goroutines and then for the crawl tasks.\<close>

definition step_close_queue :: "crawl_state \<Rightarrow> crawl_state option" where
  "step_close_queue s =
     (if \<not> queueClosed s \<and> pending s = 0 \<and> (\<forall>a\<in>set (actors s). is_busy a \<longrightarrow> crawling a)
      then Some (s\<lparr>queueClosed := True\<rparr>) else None)"

definition step_exit :: "nat \<Rightarrow> crawl_state \<Rightarrow> crawl_state option" where
  "step_exit i s =
     (if actors s ! i = Waiting \<and> (sessionDone s \<or> queueClosed s \<and> crawlQueue s = [])
      then Some (set_actor i (Gone Crawler) s) else None)"

text \<open>The main goroutine has seeded and all workers have returned.\<close>

definition step_close_tasks ::
  "engine_config \<Rightarrow> crawl_state \<Rightarrow> crawl_state option" where
  "step_close_tasks cfg s =
     (if \<not> tasksClosed s \<and> actors s ! 0 = Gone Seeder
        \<and> (\<forall>i\<in>{1..cfgConcurrency cfg}. actors s ! i = Gone Crawler)
      then Some (s\<lparr>tasksClosed := True\<rparr>) else None)"

text \<open>One step; a crashed process takes none.\<close>

fun crawl_step ::
  "url_library \<Rightarrow> scope \<Rightarrow> engine_config \<Rightarrow> action \<Rightarrow> crawl_state \<Rightarrow> crawl_state option" where
  "crawl_step lib sc cfg (ANext i raws) s = (if i < length (actors s) \<and> \<not> crashed s then step_next lib sc cfg i raws s else None)"
| "crawl_step lib sc cfg (ASend i) s = (if i < length (actors s) \<and> \<not> crashed s then step_send lib i s else None)"
| "crawl_step lib sc cfg (ASkip i) s = (if i < length (actors s) \<and> \<not> crashed s then step_skip i s else None)"
| "crawl_step lib sc cfg (ARecord i props e1 e2) s =
     (if i < length (actors s) \<and> \<not> crashed s then step_record lib sc cfg i props e1 e2 s else None)"
| "crawl_step lib sc cfg (ATake i res) s = (if i < length (actors s) \<and> \<not> crashed s then step_take lib sc i res s else None)"
| "crawl_step lib sc cfg (AFinish i) s = (if i < length (actors s) \<and> \<not> crashed s then step_finish i s else None)"
| "crawl_step lib sc cfg (APanic i) s = (if i < length (actors s) \<and> \<not> crashed s then step_panic i s else None)"
| "crawl_step lib sc cfg ACloseQueue s = (if \<not> crashed s then step_close_queue s else None)"
| "crawl_step lib sc cfg (AExit i) s = (if i < length (actors s) \<and> \<not> crashed s then step_exit i s else None)"
| "crawl_step lib sc cfg ACancel s = (if \<not> crashed s then Some (s\<lparr>cancelled := True\<rparr>) else None)"
| "crawl_step lib sc cfg ACloseTasks s = (if \<not> crashed s then step_close_tasks cfg s else None)"

text \<open>\<^verbatim>\<open>Start\<close>: without targets it returns an error, else the session begins.\<close>

definition Start ::
  "url_library \<Rightarrow> scope \<Rightarrow> engine_config \<Rightarrow> kg \<Rightarrow> string list \<Rightarrow> (string, crawl_state) result" where
  "Start lib sc cfg g initialTargets =
     (if initialTargets = [] then Inl ''at least one initial target must be provided''
      else Inr \<lparr>crawlQueue = [], queueClosed = False, processed = {}, pending = 0,
             actors = Busy Seeder 0 (accept lib sc '''' initialTargets) Next
                      # replicate (cfgConcurrency cfg) Waiting,
             sent = [], tasksClosed = False, graph = g, cancelled = False, crashed = False,
             crawledLog = [], enqueuedLog = [], failed = False\<rparr>)"

inductive crawl :: "url_library \<Rightarrow> scope \<Rightarrow> engine_config \<Rightarrow> crawl_state \<Rightarrow> crawl_state \<Rightarrow> bool"
  for lib sc cfg s0 where
  crawl_start: "crawl lib sc cfg s0 s0"
| crawl_more: "crawl lib sc cfg s0 s \<Longrightarrow> crawl_step lib sc cfg a s = Some s' \<Longrightarrow> crawl lib sc cfg s0 s'"

fun crawl_run :: "url_library \<Rightarrow> scope \<Rightarrow> engine_config \<Rightarrow> action list \<Rightarrow> crawl_state \<Rightarrow> crawl_state option" where
  "crawl_run lib sc cfg [] s = Some s"
| "crawl_run lib sc cfg (a # as) s = Option.bind (crawl_step lib sc cfg a s) (crawl_run lib sc cfg as)"

lemma crawl_run_crawl: "crawl lib sc cfg s0 s \<Longrightarrow> crawl_run lib sc cfg as s = Some s' \<Longrightarrow> crawl lib sc cfg s0 s'"
  by (induction as arbitrary: s) (auto simp: Option.bind_eq_Some_conv intro: crawl_more)

section \<open>The steps by their effect\<close>

lemma accept_Nil: "accept lib sc base [] = []"
  by (simp add: accept_def List.map_filter_def)

lemma crawl_step_cases:
  assumes "crawl_step lib sc cfg a s = Some s'"
  obtains
    (claims) i r d u us raws where "i < length (actors s)" "actors s ! i = Busy r d (u # us) Next"
      "s' = claim lib cfg i r d u us (if r = Seeder then start_passive lib sc cfg raws s else s)"
  | (moves) i r d us u tys ph snt f where "i < length (actors s)" "actors s ! i = Busy r d us (Dispatch u tys)"
      "s' = (set_actor i (Busy r d us ph) s)\<lparr>sent := snt, failed := f\<rparr>"
      "tys = [] \<and> ph = Record u \<and> snt = sent s \<and> f = failed s
       \<or> (\<exists>ty tys'. tys = ty # tys' \<and> ph = Dispatch u tys' \<and>
            (snt = sent s \<and> f \<or> snt = sent s @ [(ty, url_String lib u)] \<and> f = failed s))"
  | (crash) i r d us u ty tys where "i < length (actors s)" "actors s ! i = Busy r d us (Dispatch u (ty # tys))"
      "tasksClosed s" "r \<noteq> Crawler" "s' = s\<lparr>crashed := True\<rparr>"
  | (idles) i d us ph f where "i < length (actors s)" "actors s ! i = Busy Crawler d us ph"
      "s' = (end_crawl i s)\<lparr>failed := f\<rparr>" "f \<or> f = failed s \<and> us = [] \<and> ph = Next"
  | (records) i r d us u props e1 e2 where "i < length (actors s)" "actors s ! i = Busy r d us (Record u)"
      "s' = set_actor i (Busy r d us Next)
              (enqueue lib cfg d u (s\<lparr>graph := record_asset lib sc u props e1 e2 (graph s)\<rparr>))"
  | (takes) i k d q raws where "i < length (actors s)" "actors s ! i = Waiting" "crawlQueue s = (k, d) # q"
      "s' = (set_actor i (Busy Crawler (d + 1) (accept lib sc k raws) Next) s)
              \<lparr>crawlQueue := q, crawledLog := crawledLog s @ [(k, accept lib sc k raws)]\<rparr>"
  | (ends) i r d where "i < length (actors s)" "actors s ! i = Busy r d [] Next" "r \<noteq> Crawler" "s' = set_actor i (Gone r) s"
  | (closes) "\<not> queueClosed s" "pending s = 0" "\<forall>a\<in>set (actors s). is_busy a \<longrightarrow> crawling a"
      "s' = s\<lparr>queueClosed := True\<rparr>"
  | (exits) i where "i < length (actors s)" "actors s ! i = Waiting"
      "sessionDone s \<or> queueClosed s \<and> crawlQueue s = []" "s' = set_actor i (Gone Crawler) s"
  | (cancels) "s' = s\<lparr>cancelled := True\<rparr>"
  | (shuts) "\<not> tasksClosed s" "actors s ! 0 = Gone Seeder" "\<forall>i\<in>{1..cfgConcurrency cfg}. actors s ! i = Gone Crawler"
      "s' = s\<lparr>tasksClosed := True\<rparr>"
proof (cases a)
  case (ANext i raws)
  with assms show thesis
    by (auto simp: step_next_def split: if_splits actor.splits list.splits phase.splits intro: claims)
next
  case (ASend i)
  with assms obtain r d us u tys where i: "i < length (actors s)" and a: "actors s ! i = Busy r d us (Dispatch u tys)"
    by (auto simp: step_send_def split: if_splits actor.splits list.splits phase.splits)
  show thesis
  proof (cases tys)
    case Nil
    with ASend assms a i show thesis
      by (intro moves [OF i a, where ph = "Record u" and snt = "sent s" and f = "failed s"]) (auto simp: step_send_def set_actor_def split: if_splits)
  next
    case (Cons ty tys')
    with ASend assms a i show thesis
      by (cases "tasksClosed s"; cases "r = Crawler")
         (auto simp: step_send_def set_actor_def split: if_splits intro: crash idles
            moves [OF i a, where ph = "Dispatch u tys'" and snt = "sent s @ [(ty, url_String lib u)]" and f = "failed s"])
  qed
next
  case (ASkip i)
  with assms obtain r d us u ty tys where i: "i < length (actors s)"
    and a: "actors s ! i = Busy r d us (Dispatch u (ty # tys))"
    by (auto simp: step_skip_def split: if_splits actor.splits list.splits phase.splits)
  with ASkip assms show thesis
    by (intro moves [OF i a, where ph = "Dispatch u tys" and snt = "sent s" and f = True]) (auto simp: step_skip_def set_actor_def split: if_splits)
next
  case (ARecord i p e1 e2)
  with assms show thesis
    by (auto simp: step_record_def split: if_splits actor.splits phase.splits intro: records)
next
  case (ATake i res)
  with assms obtain k d q where t: "i < length (actors s)" "actors s ! i = Waiting" "crawlQueue s = (k, d) # q"
    and s': "s' = (set_actor i (Busy Crawler (d + 1) (accept lib sc k (case res of None \<Rightarrow> [] | Some raws \<Rightarrow> raws)) Next) s)
        \<lparr>crawlQueue := q, crawledLog := crawledLog s @ [(k, accept lib sc k (case res of None \<Rightarrow> [] | Some raws \<Rightarrow> raws))]\<rparr>"
    by (auto simp: step_take_def Let_def accept_Nil split: if_splits actor.splits list.splits option.splits)
  from takes [OF t s'] show thesis .
next
  case (AFinish i)
  have fin: thesis if "i < length (actors s)" "actors s ! i = Busy Crawler d [] Next" "s' = end_crawl i s" for d
    using that by (intro idles [of i d "[]" Next "failed s"]) (auto simp: end_crawl_def set_actor_def)
  from AFinish assms show thesis
    by (auto simp: step_finish_def split: if_splits actor.splits list.splits phase.splits role.splits
        intro: ends fin)
next
  case (APanic i)
  with assms show thesis
    by (auto simp: step_panic_def split: if_splits actor.splits role.splits intro: idles)
next
  case ACloseQueue
  with assms show thesis by (auto simp: step_close_queue_def split: if_splits intro: closes)
next
  case (AExit i)
  with assms show thesis by (auto simp: step_exit_def split: if_splits intro: exits)
next
  case ACancel
  with assms show thesis by (auto split: if_splits intro: cancels)
next
  case ACloseTasks
  with assms show thesis by (auto simp: step_close_tasks_def split: if_splits intro: shuts)
qed

lemma set_actor_simps [simp]:
  "actors (set_actor i a s) = (actors s)[i := a]" "crawlQueue (set_actor i a s) = crawlQueue s"
  "queueClosed (set_actor i a s) = queueClosed s" "processed (set_actor i a s) = processed s" "pending (set_actor i a s) = pending s"
  "sent (set_actor i a s) = sent s" "tasksClosed (set_actor i a s) = tasksClosed s" "graph (set_actor i a s) = graph s"
  "cancelled (set_actor i a s) = cancelled s" "crashed (set_actor i a s) = crashed s" "crawledLog (set_actor i a s) = crawledLog s"
  "enqueuedLog (set_actor i a s) = enqueuedLog s" "failed (set_actor i a s) = failed s"
  by (simp_all add: set_actor_def)

text \<open>Starting passive discovery adds at most one goroutine and touches the graph only.\<close>

lemma start_passive_simps [simp]:
  "crawlQueue (start_passive lib sc cfg raws s) = crawlQueue s" "queueClosed (start_passive lib sc cfg raws s) = queueClosed s"
  "processed (start_passive lib sc cfg raws s) = processed s" "pending (start_passive lib sc cfg raws s) = pending s"
  "sent (start_passive lib sc cfg raws s) = sent s" "tasksClosed (start_passive lib sc cfg raws s) = tasksClosed s"
  "cancelled (start_passive lib sc cfg raws s) = cancelled s" "crashed (start_passive lib sc cfg raws s) = crashed s"
  "crawledLog (start_passive lib sc cfg raws s) = crawledLog s" "enqueuedLog (start_passive lib sc cfg raws s) = enqueuedLog s"
  "failed (start_passive lib sc cfg raws s) = failed s"
  "actors (start_passive lib sc cfg raws s) =
     actors s @ (if cfgPassive cfg then [Busy Passive 0 (accept lib sc '''' raws) Next] else [])"
  "graph (start_passive lib sc cfg raws s) = AddNode (graph s) (asset_node ''DOMAIN'' (rootDomain sc) '''')"
  by (simp_all add: start_passive_def Let_def)

text \<open>The claim of a URL, by its two outcomes.\<close>

lemma claim_simps [simp]:
  "crawlQueue (claim lib cfg i r d u us s) = crawlQueue s" "queueClosed (claim lib cfg i r d u us s) = queueClosed s"
  "pending (claim lib cfg i r d u us s) = pending s" "sent (claim lib cfg i r d u us s) = sent s"
  "tasksClosed (claim lib cfg i r d u us s) = tasksClosed s" "graph (claim lib cfg i r d u us s) = graph s"
  "cancelled (claim lib cfg i r d u us s) = cancelled s" "crashed (claim lib cfg i r d u us s) = crashed s"
  "crawledLog (claim lib cfg i r d u us s) = crawledLog s" "enqueuedLog (claim lib cfg i r d u us s) = enqueuedLog s"
  "failed (claim lib cfg i r d u us s) = failed s"
  "processed (claim lib cfg i r d u us s) = insert (url_String lib u) (processed s)"
  "actors (claim lib cfg i r d u us s) =
     (actors s)[i := Busy r d us (if url_String lib u \<in> processed s then Next else Dispatch u (task_types cfg))]"
  by (auto simp: claim_def)

lemma end_crawl_simps [simp]:
  "crawlQueue (end_crawl i s) = crawlQueue s" "queueClosed (end_crawl i s) = queueClosed s"
  "pending (end_crawl i s) = pending s - 1" "sent (end_crawl i s) = sent s"
  "tasksClosed (end_crawl i s) = tasksClosed s" "graph (end_crawl i s) = graph s"
  "cancelled (end_crawl i s) = cancelled s" "crashed (end_crawl i s) = crashed s"
  "crawledLog (end_crawl i s) = crawledLog s" "enqueuedLog (end_crawl i s) = enqueuedLog s"
  "failed (end_crawl i s) = failed s" "processed (end_crawl i s) = processed s"
  "actors (end_crawl i s) = (actors s)[i := Waiting]"
  by (simp_all add: end_crawl_def)

lemma enqueue_simps [simp]:
  "actors (enqueue lib cfg d u s) = actors s" "queueClosed (enqueue lib cfg d u s) = queueClosed s"
  "sent (enqueue lib cfg d u s) = sent s" "tasksClosed (enqueue lib cfg d u s) = tasksClosed s"
  "graph (enqueue lib cfg d u s) = graph s" "cancelled (enqueue lib cfg d u s) = cancelled s"
  "crawledLog (enqueue lib cfg d u s) = crawledLog s" "processed (enqueue lib cfg d u s) = processed s"
  by (simp_all add: enqueue_def)

section \<open>Accounting and shutdown\<close>

text \<open>
  The wait group counts the queued tasks and the running crawls; a closed queue is empty and every
  goroutine has finished its work.
\<close>

definition accounted :: "crawl_state \<Rightarrow> bool" where
  "accounted s \<longleftrightarrow>
     pending s = int (length (crawlQueue s)) + cnt crawling (actors s)
     \<and> (queueClosed s \<longrightarrow> crawlQueue s = [] \<and> (\<forall>a\<in>set (actors s). \<not> is_busy a))"

lemma crawling_simps [simp]:
  "\<not> crawling Waiting" "\<not> crawling (Gone r)" "crawling (Busy r d us ph) \<longleftrightarrow> r = Crawler"
  by (auto simp: crawling_def split: role.splits)

lemma is_busy_simps [simp]: "\<not> is_busy Waiting" "\<not> is_busy (Gone r)" "is_busy (Busy r d us ph)"
  by (auto simp: is_busy_def)

lemma crawling_busy: "crawling a \<Longrightarrow> is_busy a"
  by (cases a) auto

lemma busy_open: "accounted s \<Longrightarrow> i < length (actors s) \<Longrightarrow> is_busy (actors s ! i) \<Longrightarrow> \<not> queueClosed s"
  by (auto simp: accounted_def)

lemma set_update: "i < length xs \<Longrightarrow> x \<in> set (xs[i := y]) \<Longrightarrow> x = y \<or> x \<in> set xs"
  by (meson insertE set_update_subset_insert subsetD)

lemma accounted_update:
  assumes "accounted s" and "i < length (actors s)" and "is_busy (actors s ! i)"
    and "actors s' = (actors s)[i := x]" and "crawlQueue s' = crawlQueue s" and "queueClosed s' = queueClosed s"
    and "pending s' = pending s - of_bool (crawling (actors s ! i)) + of_bool (crawling x)"
  shows "accounted s'"
  using assms busy_open [OF assms(1-3)] by (auto simp: accounted_def cnt_update)

lemma accounted_step:
  assumes "accounted s" and "crawl_step lib sc cfg a s = Some s'"
  shows "accounted s'"
  using assms(2)
proof (cases rule: crawl_step_cases)
  case (claims i r d u us raws)
  have "\<not> queueClosed s" using busy_open [OF assms(1) claims(1)] claims(2) by simp
  with claims assms(1) show ?thesis
    by (auto simp: accounted_def cnt_update nth_append list_update_append)
next
  case (records i r d us u props e1 e2)
  have "\<not> queueClosed s" using busy_open [OF assms(1) records(1)] records(2) by simp
  with records assms(1) show ?thesis
    by (auto simp: accounted_def cnt_update enqueue_def)
next
  case (takes i k d q raws)
  then have "\<not> queueClosed s" using assms(1) by (auto simp: accounted_def)
  with takes assms(1) show ?thesis by (auto simp: accounted_def cnt_update)
next
  case (closes)
  then have "int (length (crawlQueue s)) + cnt crawling (actors s) = 0"
    using assms(1) by (simp add: accounted_def)
  then have "cnt crawling (actors s) = 0" and "length (crawlQueue s) = 0"
    using cnt_nonneg [of crawling "actors s"] by linarith+
  with closes assms(1) show ?thesis by (auto simp: accounted_def cnt_zero)
next
  case (exits i)
  with assms(1) show ?thesis by (auto simp: accounted_def cnt_update dest: set_update)
next
  case (moves i r d us u tys ph snt f)
  then show ?thesis by (intro accounted_update [OF assms(1), of i]) auto
next
  case (idles i d us ph f)
  then show ?thesis by (intro accounted_update [OF assms(1), of i]) auto
next
  case (ends i r d)
  then show ?thesis by (intro accounted_update [OF assms(1), of i]) auto
qed (use assms(1) in \<open>auto simp: accounted_def\<close>)

text \<open>Which goroutine plays which part.\<close>

definition plays :: "nat \<Rightarrow> nat \<Rightarrow> actor \<Rightarrow> bool" where
  "plays n i a \<longleftrightarrow>
     (if i = 0 then (\<exists>us ph. a = Busy Seeder 0 us ph) \<or> a = Gone Seeder
      else if i \<le> n then a = Waiting \<or> a = Gone Crawler \<or> (\<exists>d us ph. a = Busy Crawler d us ph)
      else (\<exists>us ph. a = Busy Passive 0 us ph) \<or> a = Gone Passive)"

definition cast_ok :: "engine_config \<Rightarrow> crawl_state \<Rightarrow> bool" where
  "cast_ok cfg s \<longleftrightarrow> cfgConcurrency cfg < length (actors s)
     \<and> (\<forall>i<length (actors s). plays (cfgConcurrency cfg) i (actors s ! i))"

lemma plays_busy:
  "plays n i (Busy r d us ph) \<longleftrightarrow> (if i = 0 then r = Seeder \<and> d = 0 else if i \<le> n then r = Crawler else r = Passive \<and> d = 0)"
  by (auto simp: plays_def)

lemma plays_simps [simp]:
  "plays n i Waiting \<longleftrightarrow> i \<noteq> 0 \<and> i \<le> n"
  "plays n i (Gone r) \<longleftrightarrow> (if i = 0 then r = Seeder else if i \<le> n then r = Crawler else r = Passive)"
  by (auto simp: plays_def)

lemma cast_okD: "cast_ok cfg s \<Longrightarrow> i < length (actors s) \<Longrightarrow> plays (cfgConcurrency cfg) i (actors s ! i)"
  by (simp add: cast_ok_def)

lemma cast_update:
  assumes "cast_ok cfg s" and "actors s' = (actors s)[i := a]" and "i < length (actors s)"
    and "plays (cfgConcurrency cfg) i (actors s ! i) \<Longrightarrow> plays (cfgConcurrency cfg) i a"
  shows "cast_ok cfg s'"
  using assms by (auto simp: cast_ok_def nth_list_update)

lemma cast_append:
  assumes "cast_ok cfg s" and "actors s' = actors s @ as" and "\<forall>a\<in>set as. \<exists>us. a = Busy Passive 0 us Next"
  shows "cast_ok cfg s'"
  unfolding cast_ok_def
proof (intro conjI allI impI)
  show "cfgConcurrency cfg < length (actors s')" using assms by (simp add: cast_ok_def)
  fix i assume i: "i < length (actors s')"
  show "plays (cfgConcurrency cfg) i (actors s' ! i)"
  proof (cases "i < length (actors s)")
    case True
    with assms show ?thesis by (simp add: nth_append cast_ok_def)
  next
    case False
    with i assms(2) have "actors s' ! i \<in> set as" by (simp add: nth_append)
    with assms(3) obtain us where "actors s' ! i = Busy Passive 0 us Next" by blast
    with False assms(1) show ?thesis by (auto simp: plays_busy cast_ok_def)
  qed
qed

lemma cast_step:
  assumes "cast_ok cfg s" and "crawl_step lib sc cfg a s = Some s'"
  shows "cast_ok cfg s'"
  using assms(2)
proof (cases rule: crawl_step_cases)
  case (claims i r d u us raws)
  let ?s1 = "if r = Seeder then start_passive lib sc cfg raws s else s"
  have "cast_ok cfg ?s1"
    using assms(1) cast_append [OF assms(1), of "start_passive lib sc cfg raws s"] by simp
  moreover have "i < length (actors ?s1)" "actors ?s1 ! i = Busy r d (u # us) Next"
    using claims by (simp_all add: nth_append)
  ultimately show ?thesis
    unfolding claims(3) using cast_update [of cfg ?s1 _ i] by (simp add: plays_busy)
next
  case (moves i r d us u tys ph snt f)
  then show ?thesis by (intro cast_update [OF assms(1), of s' i]) (auto simp: plays_busy)
next
  case (idles i d us ph f)
  then show ?thesis by (intro cast_update [OF assms(1), of s' i]) (auto simp: plays_busy split: if_splits)
next
  case (records i r d us u props e1 e2)
  then show ?thesis by (intro cast_update [OF assms(1), of s' i]) (auto simp: plays_busy)
next
  case (takes i k d q raws)
  then show ?thesis by (intro cast_update [OF assms(1), of s' i]) (auto simp: plays_busy)
next
  case (ends i r d)
  then show ?thesis by (intro cast_update [OF assms(1), of s' i]) (auto simp: plays_busy)
next
  case (exits i)
  then show ?thesis by (intro cast_update [OF assms(1), of s' i]) auto
qed (use assms(1) in \<open>auto simp: cast_ok_def\<close>)

text \<open>
  A worker leaves only when the session is cancelled or the queue is closed; the task channel is
  closed after the seeding and every worker; only a cancelled session can crash.
\<close>

definition orderly :: "engine_config \<Rightarrow> crawl_state \<Rightarrow> bool" where
  "orderly cfg s \<longleftrightarrow>
     (Gone Crawler \<in> set (actors s) \<longrightarrow> cancelled s \<or> queueClosed s)
     \<and> (tasksClosed s \<longrightarrow> (\<forall>i\<le>cfgConcurrency cfg. actors s ! i = Gone (if i = 0 then Seeder else Crawler)))
     \<and> (crashed s \<longrightarrow> cancelled s)"

lemma gone_kept:
  assumes "cast_ok cfg s" and "orderly cfg s" and "tasksClosed s" and "i < length (actors s)"
    and "actors s ! i = Waiting \<or> is_busy (actors s ! i)"
  shows "cfgConcurrency cfg < i \<and> is_busy (actors s ! i) \<and> (0 < cfgConcurrency cfg \<longrightarrow> cancelled s \<or> queueClosed s)"
proof -
  have "\<not> i \<le> cfgConcurrency cfg"
    using assms(2,3,5) by (cases "i \<le> cfgConcurrency cfg") (auto simp: orderly_def)
  moreover from this have "actors s ! i \<noteq> Waiting"
    using cast_okD [OF assms(1,4)] by auto
  moreover have "cancelled s \<or> queueClosed s" if "0 < cfgConcurrency cfg"
  proof -
    have "actors s ! 1 = Gone Crawler" using assms(2,3) that by (auto simp: orderly_def)
    moreover have "1 < length (actors s)" using assms(1) that by (auto simp: cast_ok_def)
    ultimately have "Gone Crawler \<in> set (actors s)" by (metis nth_mem)
    with assms(2) show ?thesis by (simp add: orderly_def)
  qed
  ultimately show ?thesis using assms(5) by auto
qed

lemma orderly_update:
  assumes "orderly cfg s" and "cast_ok cfg s" and "i < length (actors s)" and "is_busy (actors s ! i)"
    and "actors s' = (actors s)[i := x]" and "x \<noteq> Gone Crawler" and "tasksClosed s' = tasksClosed s"
    and "queueClosed s' = queueClosed s" and "cancelled s' = cancelled s" and "crashed s' = crashed s"
  shows "orderly cfg s'"
proof -
  have "tasksClosed s \<longrightarrow> cfgConcurrency cfg < i" using gone_kept [OF assms(2,1) _ assms(3)] assms(4) by blast
  moreover have "Gone Crawler \<in> set (actors s') \<longrightarrow> Gone Crawler \<in> set (actors s)"
    using assms(3,5,6) set_update by fastforce
  ultimately show ?thesis using assms by (auto simp: orderly_def)
qed

lemma orderly_step:
  assumes "orderly cfg s" and "cast_ok cfg s" and "accounted s" and "0 < cfgConcurrency cfg"
    and "crawl_step lib sc cfg a s = Some s'"
  shows "orderly cfg s'"
  using assms(5)
proof (cases rule: crawl_step_cases)
  case (claims i r d u us raws)
  let ?s1 = "if r = Seeder then start_passive lib sc cfg raws s else s"
  have "cfgConcurrency cfg < length (actors s)" using assms(2) by (simp add: cast_ok_def)
  then have "orderly cfg ?s1" using assms(1) by (auto simp: orderly_def nth_append)
  moreover have "cast_ok cfg ?s1"
    using assms(2) cast_append [OF assms(2), of "start_passive lib sc cfg raws s"] by simp
  moreover have "i < length (actors ?s1)" "is_busy (actors ?s1 ! i)"
    using claims by (simp_all add: nth_append)
  ultimately show ?thesis unfolding claims(3) by (rule orderly_update) (rule claim_simps | simp)+
next
  case (crash i r d us u ty tys)
  have "is_busy (actors s ! i)" using crash(2) by simp
  then have "cancelled s"
    using gone_kept [OF assms(2,1) crash(3,1)] busy_open [OF assms(3) crash(1)] assms(4) by blast
  with crash(5) assms(1) show ?thesis by (simp add: orderly_def)
next
  case (exits i)
  have "cancelled s \<or> queueClosed s"
    using exits(2,3) gone_kept [OF assms(2,1) _ exits(1)] by (auto simp: sessionDone_def)
  moreover have "\<not> tasksClosed s" using exits(2) gone_kept [OF assms(2,1) _ exits(1)] by auto
  ultimately show ?thesis using exits(4) assms(1) by (simp add: orderly_def)
next
  case (takes i k d q raws)
  have "\<not> tasksClosed s" using takes(2) gone_kept [OF assms(2,1) _ takes(1)] by auto
  with takes assms(1) show ?thesis by (auto simp: orderly_def dest: set_update)
next
  case shuts
  have "cfgConcurrency cfg < length (actors s)" using assms(2) by (simp add: cast_ok_def)
  with shuts assms(1) show ?thesis by (auto simp: orderly_def)
next
  case (records i r d us u props e1 e2)
  have "\<not> queueClosed s" using busy_open [OF assms(3) records(1)] records(2) by simp
  then show ?thesis
    unfolding records(3) using records(1,2)
    by (intro orderly_update [OF assms(1,2), of i]) (auto simp: enqueue_def)
next
  case (moves i r d us u tys ph snt f)
  then show ?thesis by (intro orderly_update [OF assms(1,2), of i]) auto
next
  case (idles i d us ph f)
  then show ?thesis by (intro orderly_update [OF assms(1,2), of i]) auto
next
  case (ends i r d)
  then show ?thesis by (intro orderly_update [OF assms(1,2), of i]) auto
qed (use assms(1) in \<open>auto simp: orderly_def\<close>)

section \<open>Scope, depth and single processing\<close>

text \<open>The URLs a goroutine still holds.\<close>

fun held :: "actor \<Rightarrow> url list" where
  "held (Busy r d us Next) = us"
| "held (Busy r d us (Dispatch u tys)) = u # us"
| "held (Busy r d us (Record u)) = u # us"
| "held _ = []"

definition scoped :: "url_library \<Rightarrow> scope \<Rightarrow> crawl_state \<Rightarrow> bool" where
  "scoped lib sc s \<longleftrightarrow>
     (\<forall>a\<in>set (actors s). \<forall>u\<in>set (held a). IsInScope sc u)
     \<and> (\<forall>k\<in>processed s. \<exists>u. url_String lib u = k \<and> IsInScope sc u)"

lemma accept_scope:
  assumes "proper_domain (rootDomain sc)" and "u \<in> set (accept lib sc base raws)"
  shows "IsInScope sc u"
proof -
  obtain raw where "normalizeAndValidate lib sc raw base = Inr u"
    using assms(2) by (auto simp: accept_def List.map_filter_def split: sum.splits)
  then show ?thesis
    by (elim normalize_cases) (metis Hostname_canonical IsInScope_cong assms(1))
qed

lemma actors_cases:
  assumes "as' = as[i := x] @ rest" and "i < length as" and "a \<in> set as'"
  shows "a = x \<or> a \<in> set as \<or> a \<in> set rest"
  using assms set_update [OF assms(2)] by auto

lemma held_claim: "set (held (Busy r d us (if b then Next else Dispatch u tys))) \<subseteq> insert u (set us)"
  by auto

lemma scoped_step:
  assumes "scoped lib sc s" and dom: "proper_domain (rootDomain sc)" and "crawl_step lib sc cfg a s = Some s'"
  shows "scoped lib sc s'"
proof -
  have old: "IsInScope sc u" if "i < length (actors s)" "u \<in> set (held (actors s ! i))" for i u
    using that assms(1) by (auto simp: scoped_def)
  have update: "scoped lib sc s'"
    if "i < length (actors s)" "actors s' = (actors s)[i := x] @ rest" "\<forall>u\<in>set (held x). IsInScope sc u"
      "\<forall>y\<in>set rest. \<forall>u\<in>set (held y). IsInScope sc u"
      "processed s' \<subseteq> processed s \<union> {url_String lib u |u. IsInScope sc u}" for s' i x rest
    unfolding scoped_def
  proof (intro conjI ballI)
    fix y u
    assume "y \<in> set (actors s')" and u: "u \<in> set (held y)"
    then show "IsInScope sc u"
      using actors_cases [OF that(2,1)] that(3,4) assms(1) unfolding scoped_def by blast
  next
    fix k
    assume "k \<in> processed s'"
    then show "\<exists>u. url_String lib u = k \<and> IsInScope sc u"
      using that(5) assms(1) unfolding scoped_def by blast
  qed
  from assms(3) show ?thesis
  proof (cases rule: crawl_step_cases)
    case (claims i r d u us raws)
    have us: "IsInScope sc v" if "v \<in> set (u # us)" for v
      using old [OF claims(1), of v] claims(2) that by simp
    let ?rest = "if r = Seeder \<and> cfgPassive cfg then [Busy Passive 0 (accept lib sc '''' raws) Next] else []"
    show ?thesis
    proof (rule update [OF claims(1), where rest = ?rest])
      show "actors s' = (actors s)[i := Busy r d us (if url_String lib u \<in> processed s then Next
          else Dispatch u (task_types cfg))] @ ?rest"
        using claims by (simp add: list_update_append)
    qed (use us claims accept_scope [OF dom] held_claim in auto)
  next
    case (records i r d us u props e1 e2)
    then show ?thesis using old [OF records(1)] by (intro update [OF records(1), of _ _ "[]"]) auto
  next
    case (takes i k d q raws)
    then show ?thesis using accept_scope [OF dom] by (intro update [OF takes(1), of _ _ "[]"]) auto
  next
    case (moves i r d us u tys ph snt f)
    then show ?thesis using old [OF moves(1)] by (intro update [OF moves(1), of _ _ "[]"]) auto
  next
    case (idles i d us ph f)
    then show ?thesis by (intro update [OF idles(1), of _ _ "[]"]) auto
  next
    case (ends i r d)
    then show ?thesis by (intro update [OF ends(1), of _ _ "[]"]) auto
  next
    case (exits i)
    then show ?thesis by (intro update [OF exits(1), of _ _ "[]"]) auto
  qed (use assms(1) in \<open>auto simp: scoped_def\<close>)
qed

text \<open>The URL a goroutine is processing, between its claim and its place in the queue.\<close>

fun processing :: "actor \<Rightarrow> url option" where
  "processing (Busy r d us (Dispatch u tys)) = Some u"
| "processing (Busy r d us (Record u)) = Some u"
| "processing _ = None"

fun unsent :: "actor \<Rightarrow> string list" where
  "unsent (Busy r d us (Dispatch u tys)) = tys"
| "unsent _ = []"

fun depth_ok :: "actor \<Rightarrow> bool" where
  "depth_ok (Busy r d us ph) = (0 \<le> d)"
| "depth_ok _ = True"

definition depths_ok :: "url_library \<Rightarrow> engine_config \<Rightarrow> crawl_state \<Rightarrow> bool" where
  "depths_ok lib cfg s \<longleftrightarrow>
     (\<forall>e\<in>set (crawlQueue s). 0 \<le> snd e \<and> snd e < cfgMaxDepth cfg \<and> fst e \<in> processed s)
     \<and> (\<forall>a\<in>set (actors s). depth_ok a \<and> (\<forall>u. processing a = Some u \<longrightarrow> url_String lib u \<in> processed s))"

lemma depths_update:
  assumes "depths_ok lib cfg s" and "actors s' = (actors s)[i := x] @ rest" and "i < length (actors s)"
    and "processed s \<subseteq> processed s'"
    and "\<forall>e\<in>set (crawlQueue s'). e \<in> set (crawlQueue s) \<or> 0 \<le> snd e \<and> snd e < cfgMaxDepth cfg \<and> fst e \<in> processed s'"
    and "\<forall>a\<in>insert x (set rest). depth_ok a \<and> (\<forall>u. processing a = Some u \<longrightarrow> url_String lib u \<in> processed s')"
  shows "depths_ok lib cfg s'"
  unfolding depths_ok_def
proof (intro conjI ballI)
  fix a assume "a \<in> set (actors s')"
  then have "a = x \<or> a \<in> set (actors s) \<or> a \<in> set rest" by (rule actors_cases [OF assms(2,3)])
  then show "depth_ok a" "\<forall>u. processing a = Some u \<longrightarrow> url_String lib u \<in> processed s'"
    using assms(1,4,6) unfolding depths_ok_def by blast+
qed (use assms(1,4,5) in \<open>unfold depths_ok_def, blast+\<close>)

lemma depths_step:
  assumes "depths_ok lib cfg s" and "crawl_step lib sc cfg a s = Some s'"
  shows "depths_ok lib cfg s'"
proof -
  have old: "depth_ok (actors s ! i)" "processing (actors s ! i) = Some u \<Longrightarrow> url_String lib u \<in> processed s"
    if "i < length (actors s)" for i u
    using that assms(1) nth_mem unfolding depths_ok_def by blast+
  from assms(2) show ?thesis
  proof (cases rule: crawl_step_cases)
    case (claims i r d u us raws)
    let ?rest = "if r = Seeder \<and> cfgPassive cfg then [Busy Passive 0 (accept lib sc '''' raws) Next] else []"
    show ?thesis
    proof (rule depths_update [OF assms(1) _ claims(1), where rest = ?rest])
      show "actors s' = (actors s)[i := Busy r d us (if url_String lib u \<in> processed s then Next
          else Dispatch u (task_types cfg))] @ ?rest"
        using claims by (simp add: list_update_append)
    qed (use claims old(1) [OF claims(1)] in auto)
  next
    case (records i r d us u props e1 e2)
    have "0 \<le> d" "url_String lib u \<in> processed s"
      using old(1) [OF records(1)] old(2) [OF records(1), of u] records(2) by simp_all
    with records show ?thesis
      by (intro depths_update [OF assms(1) _ records(1), where rest = "[]"]) (auto simp: enqueue_def split: if_splits)
  next
    case (takes i k d q raws)
    have "0 \<le> d" using assms(1) takes(3) unfolding depths_ok_def by auto
    with takes show ?thesis
      by (intro depths_update [OF assms(1) _ takes(1), where rest = "[]"]) auto
  next
    case (moves i r d us u tys ph snt f)
    then show ?thesis using old(1) [OF moves(1)] old(2) [OF moves(1), of u]
      by (intro depths_update [OF assms(1) _ moves(1), where rest = "[]"]) auto
  next
    case (idles i d us ph f)
    then show ?thesis by (intro depths_update [OF assms(1) _ idles(1), where rest = "[]"]) auto
  next
    case (ends i r d)
    then show ?thesis by (intro depths_update [OF assms(1) _ ends(1), where rest = "[]"]) auto
  next
    case (exits i)
    then show ?thesis by (intro depths_update [OF assms(1) _ exits(1), where rest = "[]"]) auto
  qed (use assms(1) in \<open>auto simp: depths_ok_def\<close>)
qed

text \<open>
  Every task is sent once: the tasks a goroutine has still to send are distinct and not sent, and
  no two goroutines process the same URL.
\<close>

definition singly :: "url_library \<Rightarrow> engine_config \<Rightarrow> crawl_state \<Rightarrow> bool" where
  "singly lib cfg s \<longleftrightarrow>
     distinct (sent s)
     \<and> (\<forall>t\<in>set (sent s). snd t \<in> processed s \<and> fst t \<in> set (task_types cfg))
     \<and> (\<forall>i<length (actors s). \<forall>u. processing (actors s ! i) = Some u \<longrightarrow>
          distinct (unsent (actors s ! i)) \<and> set (unsent (actors s ! i)) \<subseteq> set (task_types cfg)
          \<and> (\<forall>ty\<in>set (unsent (actors s ! i)). (ty, url_String lib u) \<notin> set (sent s)))
     \<and> (\<forall>i<length (actors s). \<forall>j<length (actors s). \<forall>u v.
          processing (actors s ! i) = Some u \<longrightarrow> processing (actors s ! j) = Some v \<longrightarrow>
          url_String lib u = url_String lib v \<longrightarrow> i = j)"

lemma distinct_task_types: "distinct (task_types cfg)"
  by (simp add: task_types_def)

lemma nth_update_append:
  assumes "as' = as[i := x] @ rest" and "i < length as" and "j < length as'"
  shows "as' ! j = x \<and> j = i \<or> j \<noteq> i \<and> j < length as \<and> as' ! j = as ! j \<or> as' ! j \<in> set rest"
proof (cases "j < length as")
  case True
  with assms(1,2) show ?thesis by (cases "j = i") (simp_all add: nth_append)
next
  case False
  with assms show ?thesis by (simp add: nth_append)
qed

text \<open>A goroutine that stops processing, or starts on a URL nobody has processed.\<close>

lemma singly_update:
  assumes s: "singly lib cfg s" and as: "actors s' = (actors s)[i := x] @ rest" "i < length (actors s)"
    and rest: "\<forall>y\<in>set rest. processing y = None" and eq: "sent s' = sent s" "processed s \<subseteq> processed s'"
    and x: "\<And>u. processing x = Some u \<Longrightarrow> url_String lib u \<notin> processed s \<and> unsent x = task_types cfg"
    and d: "depths_ok lib cfg s"
  shows "singly lib cfg s'"
proof -
  have old: "url_String lib v \<in> processed s" if "j < length (actors s)" "processing (actors s ! j) = Some v" for j v
    using that d nth_mem unfolding depths_ok_def by blast
  have fresh: "url_String lib u \<noteq> url_String lib v"
    if "processing x = Some u" "j < length (actors s)" "processing (actors s ! j) = Some v" for u v j
    using x [OF that(1)] old [OF that(2,3)] by auto
  have proc: "j = i \<and> actors s' ! j = x \<or> j \<noteq> i \<and> j < length (actors s) \<and> actors s' ! j = actors s ! j"
    if "j < length (actors s')" "processing (actors s' ! j) = Some u" for j u
    using nth_update_append [OF as that(1)] that(2) rest by auto
  show ?thesis
    unfolding singly_def
  proof (intro conjI allI impI)
    fix j u assume j: "j < length (actors s')" "processing (actors s' ! j) = Some u"
    from proc [OF j] have "distinct (unsent (actors s' ! j)) \<and> set (unsent (actors s' ! j)) \<subseteq> set (task_types cfg)
        \<and> (\<forall>ty\<in>set (unsent (actors s' ! j)). (ty, url_String lib u) \<notin> set (sent s'))"
    proof
      assume "j = i \<and> actors s' ! j = x"
      with j(2) x [of u] s distinct_task_types show ?thesis unfolding singly_def eq by auto
    next
      assume "j \<noteq> i \<and> j < length (actors s) \<and> actors s' ! j = actors s ! j"
      with j(2) s show ?thesis unfolding singly_def eq by auto
    qed
    then show "distinct (unsent (actors s' ! j))" "set (unsent (actors s' ! j)) \<subseteq> set (task_types cfg)"
      "\<forall>ty\<in>set (unsent (actors s' ! j)). (ty, url_String lib u) \<notin> set (sent s')" by blast+
  next
    fix j k u v
    assume "j < length (actors s')" "k < length (actors s')" "processing (actors s' ! j) = Some u"
      "processing (actors s' ! k) = Some v" "url_String lib u = url_String lib v"
    with proc [of j u] proc [of k v] fresh [of u k v] fresh [of v j u] s show "j = k"
      unfolding singly_def by metis
  qed (use s eq in \<open>unfold singly_def, auto\<close>)
qed

text \<open>A goroutine that sends the next task of the URL it is processing, or skips it.\<close>

lemma singly_advance:
  assumes s: "singly lib cfg s" and i: "i < length (actors s)" "actors s ! i = Busy r d us (Dispatch u tys)"
    and as: "actors s' = (actors s)[i := x]" "processing x = Some u" "processed s' = processed s"
    and tys: "tys = unsent x \<and> sent s' = sent s
        \<or> (\<exists>ty. tys = ty # unsent x \<and> (sent s' = sent s \<or> sent s' = sent s @ [(ty, url_String lib u)]))"
    and d: "depths_ok lib cfg s"
  shows "singly lib cfg s'"
proof -
  have at: "\<forall>v. processing (actors s ! i) = Some v \<longrightarrow>
      distinct (unsent (actors s ! i)) \<and> set (unsent (actors s ! i)) \<subseteq> set (task_types cfg)
      \<and> (\<forall>ty\<in>set (unsent (actors s ! i)). (ty, url_String lib v) \<notin> set (sent s))"
    using s i(1) unfolding singly_def by blast
  have "\<forall>v. processing (actors s ! i) = Some v \<longrightarrow> url_String lib v \<in> processed s"
    using d nth_mem [OF i(1)] unfolding depths_ok_def by blast
  then have u: "url_String lib u \<in> processed s" "distinct tys" "set tys \<subseteq> set (task_types cfg)"
    "\<forall>ty\<in>set tys. (ty, url_String lib u) \<notin> set (sent s)"
    using at i(2) by simp_all
  have other: "url_String lib v \<noteq> url_String lib u" if "j < length (actors s)" "j \<noteq> i" "processing (actors s ! j) = Some v" for j v
    using that s i unfolding singly_def by fastforce
  have proc: "j = i \<and> u = v \<or> j \<noteq> i \<and> processing (actors s ! j) = Some v"
    if "j < length (actors s)" "processing (actors s' ! j) = Some v" for j v
    using that as(1,2) i(1) by (cases "j = i") auto
  have un: "unsent (actors s' ! j) = (if j = i then unsent x else unsent (actors s ! j))" if "j < length (actors s)" for j
    using that as(1) i(1) by simp
  have fresh: "\<forall>ty\<in>set (unsent x). (ty, url_String lib u) \<notin> set (sent s')" "distinct (unsent x)"
    "set (unsent x) \<subseteq> set (task_types cfg)"
    using tys u by auto
  have kept: "(ty, url_String lib v) \<notin> set (sent s')"
    if "(ty, url_String lib v) \<notin> set (sent s)" "url_String lib v \<noteq> url_String lib u" for ty v
    using that tys by auto
  have len: "length (actors s') = length (actors s)" using as(1) by simp
  show ?thesis
    unfolding singly_def len
  proof (intro conjI allI impI)
    show "distinct (sent s')" using s tys u unfolding singly_def by auto
    show "\<forall>t\<in>set (sent s'). snd t \<in> processed s' \<and> fst t \<in> set (task_types cfg)"
      using s tys u as(3) unfolding singly_def by auto
  next
    fix j v assume j: "j < length (actors s)" "processing (actors s' ! j) = Some v"
    from proc [OF j] have "distinct (unsent (actors s' ! j)) \<and> set (unsent (actors s' ! j)) \<subseteq> set (task_types cfg)
        \<and> (\<forall>ty\<in>set (unsent (actors s' ! j)). (ty, url_String lib v) \<notin> set (sent s'))"
    proof
      assume "j = i \<and> u = v"
      then show ?thesis using fresh un [OF j(1)] by auto
    next
      assume o: "j \<noteq> i \<and> processing (actors s ! j) = Some v"
      then have "url_String lib v \<noteq> url_String lib u" using other j(1) by blast
      with o j(1) s kept show ?thesis unfolding singly_def un [OF j(1)] by auto
    qed
    then show "distinct (unsent (actors s' ! j))" "set (unsent (actors s' ! j)) \<subseteq> set (task_types cfg)"
      "\<forall>ty\<in>set (unsent (actors s' ! j)). (ty, url_String lib v) \<notin> set (sent s')" by blast+
  next
    fix j k v w
    assume "j < length (actors s)" "k < length (actors s)" "processing (actors s' ! j) = Some v"
      "processing (actors s' ! k) = Some w" "url_String lib v = url_String lib w"
    with proc [of j v] proc [of k w] other [of j v] other [of k w] s show "j = k"
      unfolding singly_def by metis
  qed
qed

lemma singly_step:
  assumes s: "singly lib cfg s" and d: "depths_ok lib cfg s" and "crawl_step lib sc cfg a s = Some s'"
  shows "singly lib cfg s'"
  using assms(3)
proof (cases rule: crawl_step_cases)
  case (claims i r d' u us raws)
  let ?rest = "if r = Seeder \<and> cfgPassive cfg then [Busy Passive 0 (accept lib sc '''' raws) Next] else []"
  show ?thesis
  proof (rule singly_update [OF s _ claims(1) _ _ _ _ d, where rest = ?rest])
    show "actors s' = (actors s)[i := Busy r d' us (if url_String lib u \<in> processed s then Next
          else Dispatch u (task_types cfg))] @ ?rest"
      using claims by (simp add: list_update_append)
  qed (use claims in \<open>auto split: if_splits\<close>)
next
  case (moves i r d' us u tys ph snt f)
  show ?thesis
    by (rule singly_advance [OF s moves(1,2) _ _ _ _ d]) (use moves(3,4) in auto)
next
  case (records i r d' us u props e1 e2)
  then show ?thesis by (intro singly_update [OF s _ records(1) _ _ _ _ d, where rest = "[]"]) auto
next
  case (takes i k d' q raws)
  then show ?thesis by (intro singly_update [OF s _ takes(1) _ _ _ _ d, where rest = "[]"]) auto
next
  case (idles i d' us ph f)
  then show ?thesis by (intro singly_update [OF s _ idles(1) _ _ _ _ d, where rest = "[]"]) auto
next
  case (ends i r d')
  then show ?thesis by (intro singly_update [OF s _ ends(1) _ _ _ _ d, where rest = "[]"]) auto
next
  case (exits i)
  then show ?thesis by (intro singly_update [OF s _ exits(1) _ _ _ _ d, where rest = "[]"]) auto
qed (use s in \<open>simp_all add: singly_def\<close>)


section \<open>Completeness\<close>

text \<open>The knowledge graph keeps its invariant and its nodes.\<close>

lemma kg_try_edge: "kg_inv g \<Longrightarrow> kg_inv (try_edge g e)" "kg_nodes (try_edge g e) = kg_nodes g"
  by (auto simp: try_edge_def AddEdge_store split: sum.splits dest: kg_inv_AddEdge)

lemma kg_inv_record_asset [inv_intros]: "kg_inv g \<Longrightarrow> kg_inv (record_asset lib sc u props e1 e2 g)"
  by (simp add: record_asset_def Let_def kg_try_edge kg_inv_AddNode)

lemma record_asset_nodes:
  "dom (kg_nodes (record_asset lib sc u props e1 e2 g)) = {url_String lib u, Hostname u} \<union> dom (kg_nodes g)"
  by (auto simp: record_asset_def Let_def kg_try_edge AddNode_def asset_node_def)

lemma AddNode_nodes: "kg_nodes (AddNode g n) = (kg_nodes g)(nID n \<mapsto> n)"
  by (simp add: AddNode_def)

text \<open>The URLs a goroutine has still to look at.\<close>

fun todo :: "actor \<Rightarrow> url list" where
  "todo (Busy r d us ph) = us"
| "todo _ = []"

text \<open>A URL the session was given or found is processed, or waits in a goroutine.\<close>

definition awaited :: "url_library \<Rightarrow> crawl_state \<Rightarrow> url \<Rightarrow> bool" where
  "awaited lib s u \<longleftrightarrow>
     failed s \<or> url_String lib u \<in> processed s \<or> (\<exists>a\<in>set (actors s). u \<in> set (todo a))"

text \<open>A processed URL has its tasks sent and its node stored, or a goroutine is on it.\<close>

definition served :: "url_library \<Rightarrow> engine_config \<Rightarrow> crawl_state \<Rightarrow> string \<Rightarrow> bool" where
  "served lib cfg s k \<longleftrightarrow>
     failed s \<or> (k \<in> dom (kg_nodes (graph s)) \<and> (\<forall>ty\<in>set (task_types cfg). (ty, k) \<in> set (sent s)))
     \<or> (\<exists>a\<in>set (actors s). \<exists>u. processing a = Some u \<and> url_String lib u = k
          \<and> (\<forall>ty\<in>set (task_types cfg). ty \<in> set (unsent a) \<or> (ty, k) \<in> set (sent s)))"

definition session_covers :: "url_library \<Rightarrow> engine_config \<Rightarrow> url list \<Rightarrow> crawl_state \<Rightarrow> bool" where
  "session_covers lib cfg seeds s \<longleftrightarrow>
     kg_inv (graph s)
     \<and> enqueuedLog s = map fst (crawledLog s) @ map fst (crawlQueue s)
     \<and> (\<forall>u \<in> set seeds \<union> (\<Union>e\<in>set (crawledLog s). set (snd e)). awaited lib s u)
     \<and> (\<forall>k\<in>processed s. served lib cfg s k)"

lemma awaited_kept:
  assumes "awaited lib s u" and "actors s' = (actors s)[i := x] @ rest" and "i < length (actors s)"
    and "processed s \<subseteq> processed s'" and "failed s \<longrightarrow> failed s'"
    and "\<forall>u\<in>set (todo (actors s ! i)). failed s' \<or> url_String lib u \<in> processed s' \<or> u \<in> set (todo x)"
  shows "awaited lib s' u"
proof (cases "failed s' \<or> url_String lib u \<in> processed s'")
  case False
  with assms(1,4,5) obtain j where j: "j < length (actors s)" "u \<in> set (todo (actors s ! j))"
    unfolding awaited_def by (metis in_set_conv_nth subsetD)
  show ?thesis
  proof (cases "j = i")
    case True
    with assms(2,3,6) False j show ?thesis
      unfolding awaited_def by (auto simp: set_update_memI)
  next
    case False
    then have "actors s ! j \<in> set (actors s')"
      using assms(2) j(1) by (metis UnCI length_list_update nth_list_update_neq nth_mem set_append)
    with j(2) show ?thesis unfolding awaited_def by blast
  qed
qed (auto simp: awaited_def)

lemma served_kept:
  assumes "served lib cfg s k" and "actors s' = (actors s)[i := x] @ rest" and "i < length (actors s)"
    and "dom (kg_nodes (graph s)) \<subseteq> dom (kg_nodes (graph s'))" and "set (sent s) \<subseteq> set (sent s')"
    and "failed s \<longrightarrow> failed s'"
    and "\<forall>u. processing (actors s ! i) = Some u \<longrightarrow> url_String lib u = k \<longrightarrow>
          (\<forall>ty\<in>set (task_types cfg). ty \<in> set (unsent (actors s ! i)) \<or> (ty, k) \<in> set (sent s)) \<longrightarrow> 
          failed s' \<or> served lib cfg s' k"
  shows "served lib cfg s' k"
proof -
  consider "failed s" | "k \<in> dom (kg_nodes (graph s))" "\<forall>ty\<in>set (task_types cfg). (ty, k) \<in> set (sent s)"
    | a u where "a \<in> set (actors s)" "processing a = Some u" "url_String lib u = k"
        "\<forall>ty\<in>set (task_types cfg). ty \<in> set (unsent a) \<or> (ty, k) \<in> set (sent s)"
    using assms(1) unfolding served_def by blast
  then show ?thesis
  proof cases
    case 1
    with assms(6) show ?thesis by (simp add: served_def)
  next
    case 2
    with assms(4,5) show ?thesis unfolding served_def by blast
  next
    case (3 a u)
    then obtain j where j: "j < length (actors s)" "a = actors s ! j" by (metis in_set_conv_nth)
    show ?thesis
    proof (cases "j = i")
      case True
      with 3 j assms(7) show ?thesis by (auto simp: served_def)
    next
      case False
      then have "a \<in> set (actors s')"
        using assms(2) j by (metis UnCI length_list_update nth_list_update_neq nth_mem set_append)
      with 3 assms(5) show ?thesis unfolding served_def by blast
    qed
  qed
qed


lemma session_covers_update:
  assumes c: "session_covers lib cfg seeds s" and as: "actors s' = (actors s)[i := x] @ rest" "i < length (actors s)"
    and kg: "kg_inv (graph s')" "dom (kg_nodes (graph s)) \<subseteq> dom (kg_nodes (graph s'))"
    and log: "enqueuedLog s' = map fst (crawledLog s') @ map fst (crawlQueue s')"
      "\<forall>e\<in>set (crawledLog s'). e \<in> set (crawledLog s) \<or> set (snd e) \<subseteq> set (todo x)"
    and mono: "processed s \<subseteq> processed s'" "set (sent s) \<subseteq> set (sent s')" "failed s \<longrightarrow> failed s'"
    and todo: "\<forall>u\<in>set (todo (actors s ! i)). failed s' \<or> url_String lib u \<in> processed s' \<or> u \<in> set (todo x)"
    and new: "\<forall>k\<in>processed s' - processed s. served lib cfg s' k"
    and proc: "\<forall>u k. processing (actors s ! i) = Some u \<longrightarrow> url_String lib u = k \<longrightarrow>
          (\<forall>ty\<in>set (task_types cfg). ty \<in> set (unsent (actors s ! i)) \<or> (ty, k) \<in> set (sent s)) \<longrightarrow>
          failed s' \<or> served lib cfg s' k"
  shows "session_covers lib cfg seeds s'"
  unfolding session_covers_def
proof (intro conjI ballI)
  fix u assume u: "u \<in> set seeds \<union> (\<Union>e\<in>set (crawledLog s'). set (snd e))"
  show "awaited lib s' u"
  proof (cases "u \<in> set (todo x)")
    case True
    then show ?thesis using as by (auto simp: awaited_def set_update_memI)
  next
    case False
    with u log(2) have "u \<in> set seeds \<union> (\<Union>e\<in>set (crawledLog s). set (snd e))" by auto
    then have "awaited lib s u" using c unfolding session_covers_def by blast
    then show ?thesis using awaited_kept [OF _ as mono(1,3) todo] by blast
  qed
next
  fix k assume k: "k \<in> processed s'"
  show "served lib cfg s' k"
  proof (cases "k \<in> processed s")
    case True
    then have "served lib cfg s k" using c unfolding session_covers_def by blast
    then show ?thesis by (rule served_kept [OF _ as kg(2) mono(2,3)]) (use proc in blast)
  qed (use k new in blast)
qed (rule kg(1) log(1))+

lemma session_covers_step:
  assumes c: "session_covers lib cfg seeds s" and "crawl_step lib sc cfg a s = Some s'"
  shows "session_covers lib cfg seeds s'"
proof -
  have g: "kg_inv (graph s)" "enqueuedLog s = map fst (crawledLog s) @ map fst (crawlQueue s)"
    using c by (simp_all add: session_covers_def)
  from assms(2) show ?thesis
  proof (cases rule: crawl_step_cases)
    case (claims i r d u us raws)
    let ?rest = "if r = Seeder \<and> cfgPassive cfg then [Busy Passive 0 (accept lib sc '''' raws) Next] else []"
    let ?x = "Busy r d us (if url_String lib u \<in> processed s then Next else Dispatch u (task_types cfg))"
    have as: "actors s' = (actors s)[i := ?x] @ ?rest"
      using claims by (simp add: list_update_append)
    show ?thesis
    proof (rule session_covers_update [OF c as claims(1)])
      have "served lib cfg s' k" if "k \<in> processed s' - processed s" for k
      proof -
        have k: "url_String lib u = k" "k \<notin> processed s" using that claims(3) by (auto split: if_splits)
        have x: "?x \<in> set (actors s')" unfolding as using claims(1) by (simp add: set_update_memI)
        show ?thesis
          unfolding served_def by (intro disjI2 bexI [OF _ x] exI [of _ u]) (use k in simp)
      qed
      then show "\<forall>k\<in>processed s' - processed s. served lib cfg s' k" by blast
    qed (use claims g in \<open>auto intro: inv_intros simp: AddNode_nodes\<close>)
  next
    case (moves i r d us u tys ph snt f)
    let ?x = "Busy r d us ph"
    have x: "?x \<in> set (actors s')" using moves(1,3) by (simp add: set_update_memI)
    have "served lib cfg s' (url_String lib u)"
      if "\<forall>ty\<in>set (task_types cfg). ty \<in> set tys \<or> (ty, url_String lib u) \<in> set (sent s)"
    proof -
      have "processing ?x = Some u" using moves(4) by auto
      moreover have "\<forall>ty\<in>set (task_types cfg). failed s' \<or> ty \<in> set (unsent ?x) \<or> (ty, url_String lib u) \<in> set (sent s')"
        using that moves(3,4) by auto
      ultimately show ?thesis
        unfolding served_def by (cases "failed s'") (simp, intro disjI2 bexI [OF _ x] exI [of _ u], simp)
    qed
    with moves g show ?thesis
      by (intro session_covers_update [OF c _ moves(1), where rest = "[]"]) auto
  next
    case (idles i d us ph f)
    then show ?thesis using g by (intro session_covers_update [OF c _ idles(1), where rest = "[]"]) (auto simp: served_def)
  next
    case (records i r d us u props e1 e2)
    have "served lib cfg s' (url_String lib u)"
      if "\<forall>ty\<in>set (task_types cfg). (ty, url_String lib u) \<in> set (sent s)"
      using that record_asset_nodes unfolding served_def records(3) by simp
    with records g show ?thesis
      by (intro session_covers_update [OF c _ records(1), where rest = "[]"])
         (auto intro: inv_intros simp: record_asset_nodes enqueue_def)
  next
    case (takes i k d q raws)
    then show ?thesis using g by (intro session_covers_update [OF c _ takes(1), where rest = "[]"]) auto
  next
    case (ends i r d)
    then show ?thesis using g by (intro session_covers_update [OF c _ ends(1), where rest = "[]"]) auto
  next
    case (exits i)
    then show ?thesis using g by (intro session_covers_update [OF c _ exits(1), where rest = "[]"]) auto
  qed (use c in \<open>auto simp: session_covers_def awaited_def served_def\<close>)
qed


section \<open>Progress and termination\<close>

text \<open>
  The work left, as a multiset of ranks: a page at depth d weighs more than everything that can be
  found on it, the steps that process a URL lower its rank one by one, and what a goroutine, an
  open channel or an uncancelled session can still do counts too.
\<close>

definition rank :: "engine_config \<Rightarrow> int \<Rightarrow> nat" where
  "rank cfg d = 10 * nat (cfgMaxDepth cfg - d)"

fun phase_work :: "nat \<Rightarrow> phase \<Rightarrow> nat multiset" where
  "phase_work n Next = {#}"
| "phase_work n (Dispatch u tys) = {#n + 2 + length tys#}"
| "phase_work n (Record u) = {#n + 1#}"

fun actor_work :: "engine_config \<Rightarrow> actor \<Rightarrow> nat multiset" where
  "actor_work cfg Waiting = {#0#}"
| "actor_work cfg (Gone r) = {#}"
| "actor_work cfg (Busy r d us ph) =
     {#1#} + replicate_mset (length us) (rank cfg d + (if r = Seeder then 7 else 6)) + phase_work (rank cfg d) ph"

definition flags :: "crawl_state \<Rightarrow> nat multiset" where
  "flags s = replicate_mset (of_bool (\<not> queueClosed s) + of_bool (\<not> tasksClosed s) + of_bool (\<not> cancelled s)
                             + of_bool (\<not> crashed s)) 0"

definition queue_work :: "engine_config \<Rightarrow> (string \<times> int) list \<Rightarrow> nat multiset" where
  "queue_work cfg q = mset (map (\<lambda>e. rank cfg (snd e)) q)"

definition work_left :: "engine_config \<Rightarrow> crawl_state \<Rightarrow> nat multiset" where
  "work_left cfg s =
     sum_list (map (actor_work cfg) (actors s)) + queue_work cfg (crawlQueue s) + flags s"

lemma work_update:
  fixes f :: "actor \<Rightarrow> nat multiset"
  assumes "i < length as" and "as' = as[i := x] @ rest"
  shows "\<exists>A. sum_list (map f as) = A + f (as ! i) \<and> sum_list (map f as') = A + f x + sum_list (map f rest)"
proof -
  have "sum_list (map f as) = sum_list (map f (take i as @ as ! i # drop (Suc i) as))"
    using id_take_nth_drop [OF assms(1)] by simp
  moreover have "sum_list (map f as') = sum_list (map f (take i as @ x # drop (Suc i) as)) + sum_list (map f rest)"
    using assms by (simp add: upd_conv_take_nth_drop)
  ultimately show ?thesis
    by (intro exI [of _ "sum_list (map f (take i as)) + sum_list (map f (drop (Suc i) as))"]) (simp add: ac_simps)
qed

lemma mult_one_step:
  assumes "J \<noteq> {#}" and "\<forall>k\<in>#K. \<exists>j\<in>#J. k < j" and "N = I + K" and "M = I + J"
  shows "(N, M) \<in> mult less_than"
  unfolding assms(3,4) using assms(1,2) by (intro one_step_implies_mult) auto

text \<open>What a goroutine gives up for what it and those it starts get.\<close>

lemma work_decreases:
  assumes "i < length (actors s)" and "actors s' = (actors s)[i := x] @ rest"
    and "flags s' = flags s" and "queue_work cfg (crawlQueue s) = Q + gone"
    and "queue_work cfg (crawlQueue s') = Q + new"
    and "actor_work cfg (actors s ! i) = B + J" and "actor_work cfg x = B + K"
    and "J + gone \<noteq> {#}" and "\<forall>k\<in>#K + new + sum_list (map (actor_work cfg) rest). \<exists>j\<in>#J + gone. k < j"
  shows "(work_left cfg s', work_left cfg s) \<in> mult less_than"
proof -
  obtain A where A: "sum_list (map (actor_work cfg) (actors s)) = A + (B + J)"
    "sum_list (map (actor_work cfg) (actors s')) = A + (B + K) + sum_list (map (actor_work cfg) rest)"
    using work_update [OF assms(1,2), of "actor_work cfg"] assms(6,7) by auto
  show ?thesis
    by (rule mult_one_step [OF assms(8,9), where I = "A + B + Q + flags s"])
       (simp_all add: work_left_def A assms(3,4,5) ac_simps)
qed

lemma flag_decreases:
  assumes "flags s = add_mset 0 (flags s')" and "actors s' = actors s" and "crawlQueue s' = crawlQueue s"
  shows "(work_left cfg s', work_left cfg s) \<in> mult less_than"
  by (rule mult_one_step [of "{#0#}" "{#}" _ "work_left cfg s'"]) (simp_all add: work_left_def assms)

lemma crawl_step_alive: "crawl_step lib sc cfg a s = Some s' \<Longrightarrow> \<not> crashed s"
  by (cases a) (auto split: if_splits)

lemma length_task_types: "length (task_types cfg) \<le> 3"
  by (simp add: task_types_def)

lemma rank_deeper: "d < cfgMaxDepth cfg \<Longrightarrow> rank cfg (d + 1) + 10 = rank cfg d"
  by (simp add: rank_def)

lemma work_step:
  assumes d: "depths_ok lib cfg s" and "crawl_step lib sc cfg a s = Some s'"
    and cast: "cast_ok cfg s" and acc: "accounted s"
  shows "(work_left cfg s', work_left cfg s) \<in> mult less_than \<or> s' = s\<lparr>cancelled := True\<rparr>"
  using assms(2)
proof (cases rule: crawl_step_cases)
  case (claims i r d' u us raws)
  let ?rest = "if r = Seeder \<and> cfgPassive cfg then [Busy Passive 0 (accept lib sc '''' raws) Next] else []"
  let ?x = "Busy r d' us (if url_String lib u \<in> processed s then Next else Dispatch u (task_types cfg))"
  have as: "actors s' = (actors s)[i := ?x] @ ?rest"
    using claims by (simp add: list_update_append)
  let ?w = "rank cfg d' + (if r = Seeder then 7 else 6)"
  have seeder: "r = Seeder \<longrightarrow> d' = 0"
    using cast_okD [OF cast claims(1)] claims(2) by (auto simp: plays_busy split: if_splits)
  have "(work_left cfg s', work_left cfg s) \<in> mult less_than"
    by (rule work_decreases [OF claims(1) as, where B = "{#1#} + replicate_mset (length us) ?w" and J = "{#?w#}"
          and K = "phase_work (rank cfg d') (if url_String lib u \<in> processed s then Next else Dispatch u (task_types cfg))"
          and Q = "queue_work cfg (crawlQueue s)" and gone = "{#}" and new = "{#}"])
       (use claims seeder length_task_types [of cfg] in \<open>auto simp: flags_def queue_work_def\<close>)
  then show ?thesis ..
next
  case (moves i r d' us u tys ph snt f)
  have "(work_left cfg s', work_left cfg s) \<in> mult less_than"
    by (rule work_decreases [OF moves(1), where rest = "[]" and x = "Busy r d' us ph"
          and B = "{#1#} + replicate_mset (length us) (rank cfg d' + (if r = Seeder then 7 else 6))"
          and J = "{#rank cfg d' + 2 + length tys#}" and K = "phase_work (rank cfg d') ph"
          and Q = "queue_work cfg (crawlQueue s)" and gone = "{#}" and new = "{#}"])
       (use moves in \<open>auto simp: flags_def queue_work_def\<close>)
  then show ?thesis ..
next
  case (idles i d' us ph f)
  have "(work_left cfg s', work_left cfg s) \<in> mult less_than"
    by (rule work_decreases [OF idles(1), where rest = "[]" and x = Waiting and B = "{#}"
          and J = "actor_work cfg (Busy Crawler d' us ph)" and K = "{#0#}"
          and Q = "queue_work cfg (crawlQueue s)" and gone = "{#}" and new = "{#}"])
       (use idles in \<open>auto simp: flags_def queue_work_def\<close>)
  then show ?thesis ..
next
  case (ends i r d')
  have "(work_left cfg s', work_left cfg s) \<in> mult less_than"
    by (rule work_decreases [OF ends(1), where rest = "[]" and x = "Gone r" and B = "{#}" and J = "{#1#}" and K = "{#}"
          and Q = "queue_work cfg (crawlQueue s)" and gone = "{#}" and new = "{#}"])
       (use ends in \<open>auto simp: flags_def queue_work_def\<close>)
  then show ?thesis ..
next
  case (exits i)
  have "(work_left cfg s', work_left cfg s) \<in> mult less_than"
    by (rule work_decreases [OF exits(1), where rest = "[]" and x = "Gone Crawler" and B = "{#}" and J = "{#0#}" and K = "{#}"
          and Q = "queue_work cfg (crawlQueue s)" and gone = "{#}" and new = "{#}"])
       (use exits in \<open>auto simp: flags_def queue_work_def\<close>)
  then show ?thesis ..
next
  case (takes i k d' q raws)
  have "d' < cfgMaxDepth cfg" using d takes(3) by (auto simp: depths_ok_def)
  then have "(work_left cfg s', work_left cfg s) \<in> mult less_than"
    by (intro work_decreases [OF takes(1), where rest = "[]" and x = "Busy Crawler (d' + 1) (accept lib sc k raws) Next"
          and B = "{#}" and J = "{#0#}" and K = "actor_work cfg (Busy Crawler (d' + 1) (accept lib sc k raws) Next)"
          and Q = "queue_work cfg q" and gone = "{#rank cfg d'#}" and new = "{#}"])
       (use takes rank_deeper [of d' cfg] in \<open>auto simp: flags_def queue_work_def\<close>)
  then show ?thesis ..
next
  case (records i r d' us u props e1 e2)
  let ?new = "queue_work cfg (drop (length (crawlQueue s)) (crawlQueue s'))"
  have open_queue: "\<not> queueClosed s" using busy_open [OF acc records(1)] records(2) by simp
  have "(work_left cfg s', work_left cfg s) \<in> mult less_than"
    by (rule work_decreases [OF records(1), where rest = "[]" and x = "Busy r d' us Next"
          and B = "{#1#} + replicate_mset (length us) (rank cfg d' + (if r = Seeder then 7 else 6))"
          and J = "{#rank cfg d' + 1#}" and K = "{#}" and Q = "queue_work cfg (crawlQueue s)" and gone = "{#}" and new = ?new])
       (use records open_queue in \<open>auto simp: flags_def queue_work_def enqueue_def split: if_splits\<close>)
  then show ?thesis ..
qed (use flag_decreases crawl_step_alive [OF assms(2)] in \<open>auto simp: flags_def\<close>)


section \<open>Reachable states\<close>

definition crawl_inv :: "url_library \<Rightarrow> scope \<Rightarrow> engine_config \<Rightarrow> url list \<Rightarrow> crawl_state \<Rightarrow> bool" where
  "crawl_inv lib sc cfg seeds s \<longleftrightarrow>
     accounted s \<and> cast_ok cfg s \<and> orderly cfg s \<and> scoped lib sc s \<and> depths_ok lib cfg s \<and> singly lib cfg s
     \<and> session_covers lib cfg seeds s"


lemma crawl_inv_Start:
  assumes "Start lib sc cfg g ts = Inr s" and "proper_domain (rootDomain sc)" and "kg_inv g"
  shows "crawl_inv lib sc cfg (accept lib sc '''' ts) s"
proof -
  define seeds where "seeds = accept lib sc '''' ts"
  have s: "s = \<lparr>crawlQueue = [], queueClosed = False, processed = {}, pending = 0,
             actors = Busy Seeder 0 seeds Next # replicate (cfgConcurrency cfg) Waiting,
             sent = [], tasksClosed = False, graph = g, cancelled = False, crashed = False,
             crawledLog = [], enqueuedLog = [], failed = False\<rparr>"
    using assms(1) by (auto simp: Start_def seeds_def split: if_splits)
  have at: "actors s ! i = (if i = 0 then Busy Seeder 0 seeds Next else Waiting)" if "i < length (actors s)" for i
    using that by (cases i) (simp_all add: s)
  have len: "length (actors s) = Suc (cfgConcurrency cfg)" by (simp add: s)
  have "accounted s" by (auto simp: s accounted_def cnt_def)
  moreover have "cast_ok cfg s" using at by (auto simp: cast_ok_def len plays_busy)
  moreover have "orderly cfg s" by (auto simp: s orderly_def)
  moreover have "scoped lib sc s" using accept_scope [OF assms(2)] by (auto simp: s scoped_def seeds_def)
  moreover have "depths_ok lib cfg s" by (auto simp: s depths_ok_def)
  moreover have "singly lib cfg s"
    using at by (auto simp: singly_def len s simp del: nth_Cons' split: if_splits)
  moreover have "session_covers lib cfg seeds s" using assms(3) by (simp add: s session_covers_def awaited_def)
  ultimately show ?thesis by (simp add: crawl_inv_def seeds_def)
qed

lemma crawl_inv_step:
  assumes "crawl_inv lib sc cfg seeds s" and "proper_domain (rootDomain sc)" and "0 < cfgConcurrency cfg"
    and "crawl_step lib sc cfg a s = Some s'"
  shows "crawl_inv lib sc cfg seeds s'"
  using assms unfolding crawl_inv_def
  by (meson accounted_step cast_step session_covers_step depths_step orderly_step scoped_step singly_step)

lemma crawl_inv_reachable:
  assumes "crawl lib sc cfg s0 s" and "Start lib sc cfg g ts = Inr s0" and "proper_domain (rootDomain sc)"
    and "kg_inv g" and "0 < cfgConcurrency cfg"
  shows "crawl_inv lib sc cfg (accept lib sc '''' ts) s"
  using assms(1)
proof (induction rule: crawl.induct)
  case crawl_start
  show ?case by (rule crawl_inv_Start [OF assms(2,3,4)])
next
  case (crawl_more s a s')
  show ?case by (rule crawl_inv_step [OF crawl_more.IH assms(3,5) crawl_more.hyps(2)])
qed

text \<open>A goroutine with work can take a step.\<close>

lemma busy_progress:
  assumes "is_busy (actors s ! i)" and "i < length (actors s)" and "\<not> crashed s"
  shows "\<exists>a s'. a \<noteq> ACancel \<and> crawl_step lib sc cfg a s = Some s'"
proof -
  obtain r d us ph where a: "actors s ! i = Busy r d us ph" using assms(1) by (cases "actors s ! i") auto
  show ?thesis
  proof (cases ph)
    case Next
    show ?thesis
    proof (cases us)
      case Nil
      with a Next assms show ?thesis
        by (intro exI [of _ "AFinish i"]) (cases r; simp add: step_finish_def)
    next
      case (Cons u us')
      with a Next assms show ?thesis by (intro exI [of _ "ANext i []"]) (simp add: step_next_def)
    qed
  next
    case (Dispatch u tys)
    with a assms show ?thesis
      by (intro exI [of _ "ASend i"]) (cases tys; simp add: step_send_def)
  next
    case (Record u)
    with a assms show ?thesis by (intro exI [of _ "ARecord i [] [] []"]) (simp add: step_record_def)
  qed
qed

lemma crawl_progress:
  assumes inv: "accounted s" "cast_ok cfg s" "orderly cfg s" and n: "0 < cfgConcurrency cfg"
    and live: "\<not> cancelled s" "\<not> tasksClosed s"
  shows "\<exists>a s'. a \<noteq> ACancel \<and> crawl_step lib sc cfg a s = Some s'"
proof -
  have alive: "\<not> crashed s" using inv(3) live(1) by (auto simp: orderly_def)
  show ?thesis
  proof (cases "\<exists>a\<in>set (actors s). is_busy a")
    case True
    then obtain i where "i < length (actors s)" "is_busy (actors s ! i)" by (metis in_set_conv_nth)
    then show ?thesis using busy_progress alive by blast
  next
    case idle: False
    have len: "cfgConcurrency cfg < length (actors s)" using inv(2) by (simp add: cast_ok_def)
    have worker: "actors s ! i = Waiting \<or> actors s ! i = Gone Crawler" if "0 < i" "i \<le> cfgConcurrency cfg" for i
    proof -
      have i: "i < length (actors s)" using that len by simp
      then have "\<not> is_busy (actors s ! i)" using idle nth_mem by blast
      then show ?thesis using cast_okD [OF inv(2) i] that by (auto simp: plays_def)
    qed
    have zero: "cnt crawling (actors s) = 0" using idle crawling_busy by (auto simp: cnt_zero)
    show ?thesis
    proof (cases "queueClosed s")
      case closed: True
      then have q: "crawlQueue s = []" using inv(1) by (simp add: accounted_def)
      show ?thesis
      proof (cases "\<exists>i\<in>{1..cfgConcurrency cfg}. actors s ! i = Waiting")
        case True
        then obtain i where "i \<in> {1..cfgConcurrency cfg}" "actors s ! i = Waiting" by blast
        then show ?thesis using closed q alive len by (intro exI [of _ "AExit i"]) (auto simp: step_exit_def)
      next
        case False
        then have "\<forall>i\<in>{1..cfgConcurrency cfg}. actors s ! i = Gone Crawler" using worker by auto
        moreover have "actors s ! 0 = Gone Seeder"
        proof -
          have z: "0 < length (actors s)" using len by linarith
          then have "\<not> is_busy (actors s ! 0)" using idle nth_mem by blast
          then show ?thesis using cast_okD [OF inv(2) z] by (auto simp: plays_def)
        qed
        ultimately show ?thesis using live alive by (intro exI [of _ ACloseTasks]) (auto simp: step_close_tasks_def)
      qed
    next
      case opened: False
      show ?thesis
      proof (cases "crawlQueue s")
        case Nil
        then show ?thesis using opened zero inv(1) idle alive
          by (intro exI [of _ ACloseQueue]) (auto simp: step_close_queue_def accounted_def)
      next
        case (Cons e q)
        have one: "1 < length (actors s)" using len n by simp
        have "actors s ! 1 \<noteq> Gone Crawler"
        proof
          assume "actors s ! 1 = Gone Crawler"
          then have "Gone Crawler \<in> set (actors s)" using one by (metis nth_mem)
          then show False using inv(3) live(1) opened by (simp add: orderly_def)
        qed
        then have "actors s ! 1 = Waiting" using worker [of 1] n by auto
        then show ?thesis using Cons one alive
          by (intro exI [of _ "ATake 1 None"]) (auto simp: step_take_def Let_def split: prod.splits)
      qed
    qed
  qed
qed


lemma closed_after_tasks:
  assumes "cast_ok cfg s" and "orderly cfg s" and "0 < cfgConcurrency cfg" and "tasksClosed s"
  shows "cancelled s \<or> queueClosed s"
proof -
  have "1 < length (actors s)" using assms(1,3) by (auto simp: cast_ok_def)
  moreover have "actors s ! 1 = Gone Crawler" using assms(2-4) by (auto simp: orderly_def)
  ultimately have "Gone Crawler \<in> set (actors s)" by (metis nth_mem)
  with assms(2) show ?thesis by (simp add: orderly_def)
qed

lemma idle_todo: "\<not> is_busy a \<Longrightarrow> todo a = [] \<and> processing a = None"
  by (cases a) auto

section \<open>Properties\<close>

text \<open>
  C8. In every state a session can reach, whatever the interleaving of the goroutines and whatever
  the pages and passive sources return: every processed URL is in scope; no task is sent twice, and
  tasks are sent only for processed URLs and enabled scanners; queued pages are below the depth
  limit; the wait group counts exactly the queued and running crawls; a closed queue is empty and
  no goroutine is still working; the process crashes only after a cancellation; and the knowledge
  graph keeps its invariant.
\<close>

theorem crawl_safety:
  assumes "Start lib sc cfg g ts = Inr s0" and "crawl lib sc cfg s0 s"
    and "proper_domain (rootDomain sc)" and "kg_inv g" and "0 < cfgConcurrency cfg"
  shows "(\<forall>k\<in>processed s. \<exists>u. url_String lib u = k \<and> IsInScope sc u)
    \<and> distinct (sent s) \<and> (\<forall>t\<in>set (sent s). snd t \<in> processed s \<and> fst t \<in> set (task_types cfg))
    \<and> (\<forall>e\<in>set (crawlQueue s). 0 \<le> snd e \<and> snd e < cfgMaxDepth cfg \<and> fst e \<in> processed s)
    \<and> pending s = int (length (crawlQueue s)) + cnt crawling (actors s)
    \<and> (queueClosed s \<longrightarrow> crawlQueue s = [] \<and> (\<forall>a\<in>set (actors s). \<not> is_busy a))
    \<and> (crashed s \<longrightarrow> cancelled s)
    \<and> kg_inv (graph s)"
proof -
  have "accounted s" "orderly cfg s" "scoped lib sc s" "depths_ok lib cfg s" "singly lib cfg s" "kg_inv (graph s)"
    using crawl_inv_reachable [OF assms(2,1,3,4,5)] by (simp_all add: crawl_inv_def session_covers_def)
  then show ?thesis
    unfolding accounted_def orderly_def scoped_def depths_ok_def singly_def by (intro conjI) (simp_all (no_asm_simp))
qed

definition example_page :: "string \<Rightarrow> url" where
  "example_page p = \<lparr>uScheme = ''https'', uUser = '''', uHost = ''a.example.com'', uPath = p, uRawQuery = '''', uFragment = ''''\<rparr>"

definition example_web :: url_library where
  "example_web = example_urls\<lparr>url_Parse := (\<lambda>s.
     if s = ''https://a.example.com/'' then Some (example_page ''/'')
     else if s = ''https://a.example.com/b'' then Some (example_page ''/b'') else None)\<rparr>"

definition example_config :: engine_config where
  "example_config = \<lparr>cfgMaxDepth = 1, cfgConcurrency = 1, cfgPassive = True, cfgTaint = True, cfgHeaders = False, cfgJWT = False\<rparr>"

definition example_start :: crawl_state where
  "example_start = \<lparr>crawlQueue = [], queueClosed = False, processed = {}, pending = 0,
     actors = [Busy Seeder 0 [example_page ''/''] Next, Waiting], sent = [], tasksClosed = False, graph = NewInMemoryKG,
     cancelled = False, crashed = False, crawledLog = [], enqueuedLog = [], failed = False\<rparr>"

definition example_actions :: "action list" where
  "example_actions =
     [ANext 0 [''https://a.example.com/''], ASend 0, ASend 0, ARecord 0 '''' ''e1'' ''e2'', ATake 1 (Some [''https://a.example.com/b'', ''ftp://x'']),
      ANext 2 [], AFinish 2, ANext 1 [], ASend 1, AFinish 0, ASend 1, ARecord 1 '''' ''e3'' ''e4'', AFinish 1, ACloseQueue, AExit 1, ACloseTasks]"

definition example_end :: crawl_state where
  "example_end = the (crawl_run example_web example_scope example_config example_actions example_start)"

lemma example_Start: "Start example_web example_scope example_config NewInMemoryKG [''https://a.example.com/''] = Inr example_start"
proof -
  have "accept example_web example_scope '''' [''https://a.example.com/''] = [example_page ''/'']" by code_simp
  then show ?thesis by (simp add: Start_def example_start_def example_config_def)
qed

lemma example_runs:
  "crawl_run example_web example_scope example_config example_actions example_start = Some example_end"
proof -
  have "\<not> Option.is_none (crawl_run example_web example_scope example_config example_actions example_start)" by code_simp
  then show ?thesis by (auto simp: example_end_def Option.is_none_def)
qed

lemma example_reachable: "crawl example_web example_scope example_config example_start example_end"
  by (rule crawl_run_crawl [OF crawl_start example_runs])

lemma example_conditions:
  "proper_domain (rootDomain example_scope)" "kg_inv NewInMemoryKG" "0 < cfgConcurrency example_config"
proof -
  show "proper_domain (rootDomain example_scope)" by code_simp
  show "kg_inv NewInMemoryKG" by (rule inv_intros)
  show "0 < cfgConcurrency example_config" by (simp add: example_config_def)
qed

theorem crawl_safety_witness:
  "distinct (sent example_end) \<and> kg_inv (graph example_end) \<and> crawlQueue example_end = []
   \<and> sent example_end = [(''ANALYZE_WEB_PAGE_TAINT'', ''https://a.example.com/''), (''ANALYZE_WEB_PAGE_TAINT'', ''https://a.example.com/b'')]"
proof -
  have "queueClosed example_end" by code_simp
  moreover have "sent example_end = [(''ANALYZE_WEB_PAGE_TAINT'', ''https://a.example.com/''), (''ANALYZE_WEB_PAGE_TAINT'', ''https://a.example.com/b'')]"
    by code_simp
  ultimately show ?thesis
    using crawl_safety [OF example_Start example_reachable example_conditions] by blast
qed

text \<open>
  C9. Every session ends and does its work. No run changes the state forever: the changes of state
  form a well-founded relation. A reachable state without cancellation in which nothing can change
  any more has the task channel and the queue closed; and then, unless a task was dropped, skipped
  or lost in a panic, every enqueued page has been crawled, in the order of the queue, every valid
  target and every valid link of a crawled page has been processed, and every processed URL has
  its node in the knowledge graph and one task per enabled scanner.
\<close>

theorem crawl_terminates_complete:
  assumes "Start lib sc cfg g ts = Inr s0" and "proper_domain (rootDomain sc)" and "kg_inv g" and "0 < cfgConcurrency cfg"
  shows "wf {(s', s). crawl lib sc cfg s0 s \<and> (\<exists>a. crawl_step lib sc cfg a s = Some s') \<and> s' \<noteq> s}
    \<and> (\<forall>s. crawl lib sc cfg s0 s \<and> \<not> cancelled s \<and> (\<forall>a. a \<noteq> ACancel \<longrightarrow> crawl_step lib sc cfg a s = None) \<longrightarrow>
         tasksClosed s \<and> queueClosed s
         \<and> (\<not> failed s \<longrightarrow>
              enqueuedLog s = map fst (crawledLog s)
              \<and> (\<forall>u \<in> set (accept lib sc '''' ts) \<union> (\<Union>e\<in>set (crawledLog s). set (snd e)). url_String lib u \<in> processed s)
              \<and> (\<forall>k\<in>processed s. k \<in> dom (kg_nodes (graph s)) \<and> (\<forall>ty\<in>set (task_types cfg). (ty, k) \<in> set (sent s)))))"
proof (intro conjI allI impI)
  have inv: "crawl_inv lib sc cfg (accept lib sc '''' ts) s" if "crawl lib sc cfg s0 s" for s
    by (rule crawl_inv_reachable [OF that assms])
  have "(work_left cfg s', work_left cfg s) \<in> mult less_than"
    if "crawl lib sc cfg s0 s" "crawl_step lib sc cfg a s = Some s'" "s' \<noteq> s" for s s' a
  proof -
    have "(work_left cfg s', work_left cfg s) \<in> mult less_than \<or> s' = s\<lparr>cancelled := True\<rparr>"
      using work_step [OF _ that(2)] inv [OF that(1)] unfolding crawl_inv_def by blast
    moreover have "(work_left cfg s', work_left cfg s) \<in> mult less_than" if "s' = s\<lparr>cancelled := True\<rparr>"
      using that \<open>s' \<noteq> s\<close> by (intro flag_decreases) (cases "cancelled s"; auto simp: flags_def)+
    ultimately show ?thesis by blast
  qed
  then show "wf {(s', s). crawl lib sc cfg s0 s \<and> (\<exists>a. crawl_step lib sc cfg a s = Some s') \<and> s' \<noteq> s}"
    by (intro wf_subset [OF wf_inv_image [OF wf_mult [OF wf_less_than], of "work_left cfg"]]) (auto simp: inv_image_def)
next
  fix s
  assume s: "crawl lib sc cfg s0 s \<and> \<not> cancelled s \<and> (\<forall>a. a \<noteq> ACancel \<longrightarrow> crawl_step lib sc cfg a s = None)"
  then have i: "accounted s" "cast_ok cfg s" "orderly cfg s" "session_covers lib cfg (accept lib sc '''' ts) s"
    using crawl_inv_reachable [OF _ assms, of s] by (simp_all add: crawl_inv_def)
  show tc: "tasksClosed s" using crawl_progress [OF i(1-3) assms(4), of lib sc] s by (metis option.distinct(1))
  show qc: "queueClosed s" using closed_after_tasks [OF i(2,3) assms(4) tc] s by blast
  have idle: "crawlQueue s = []" "a \<in> set (actors s) \<Longrightarrow> todo a = [] \<and> processing a = None" for a
    using i(1) qc idle_todo by (auto simp: accounted_def)
  assume f: "\<not> failed s"
  show "enqueuedLog s = map fst (crawledLog s)" using i(4) idle(1) by (simp add: session_covers_def)
  show "\<forall>u \<in> set (accept lib sc '''' ts) \<union> (\<Union>e\<in>set (crawledLog s). set (snd e)). url_String lib u \<in> processed s"
    using i(4) f idle(2) unfolding session_covers_def awaited_def by fastforce
  show "\<forall>k\<in>processed s. k \<in> dom (kg_nodes (graph s)) \<and> (\<forall>ty\<in>set (task_types cfg). (ty, k) \<in> set (sent s))"
    using i(4) f idle(2) unfolding session_covers_def served_def by fastforce
qed


lemma example_quiet: "\<forall>a. a \<noteq> ACancel \<longrightarrow> crawl_step example_web example_scope example_config a example_end = None"
proof (intro allI impI)
  have as: "actors example_end = [Gone Seeder, Gone Crawler, Gone Passive]" by code_simp
  have fl: "queueClosed example_end" "tasksClosed example_end" by code_simp+
  have gone: "\<exists>r. actors example_end ! i = Gone r" if "i < length (actors example_end)" for i
    using that by (cases i; cases "i - 1") (auto simp: as)
  fix a assume "a \<noteq> ACancel"
  then show "crawl_step example_web example_scope example_config a example_end = None"
    by (cases a)
       (auto simp: fl dest!: gone simp: step_next_def step_send_def step_skip_def step_record_def step_take_def
         step_finish_def step_panic_def step_exit_def step_close_queue_def step_close_tasks_def)
qed

theorem crawl_terminates_complete_witness:
  "tasksClosed example_end \<and> queueClosed example_end
   \<and> enqueuedLog example_end = map fst (crawledLog example_end)
   \<and> map fst (crawledLog example_end) = [''https://a.example.com/'']
   \<and> Pair ''ANALYZE_WEB_PAGE_TAINT'' ` processed example_end \<subseteq> set (sent example_end)"
proof -
  have e: "\<not> cancelled example_end" "\<not> failed example_end" "map fst (crawledLog example_end) = [''https://a.example.com/'']"
    by code_simp+
  have t: "''ANALYZE_WEB_PAGE_TAINT'' \<in> set (task_types example_config)" by code_simp
  show ?thesis
    using crawl_terminates_complete [OF example_Start example_conditions] example_reachable example_quiet e t by blast
qed

text \<open>
  Shutting down around a goroutine. In a cancelled session every other goroutine can be run to its
  end, one step at a time, until the task channel is closed.
\<close>

lemma busy_advances:
  assumes b: "is_busy (actors s ! i)" and i: "i < length (actors s)" and live: "\<not> crashed s" "\<not> tasksClosed s" "\<not> queueClosed s"
    and j: "j < length (actors s)" "j \<noteq> i"
  shows "\<exists>a s'. crawl_step lib sc cfg a s = Some s' \<and> \<not> crashed s' \<and> cancelled s' = cancelled s \<and>
           actors s' ! j = actors s ! j \<and> actors s' ! i \<noteq> actors s ! i"
proof -
  obtain r d us ph where a: "actors s ! i = Busy r d us ph" using b by (cases "actors s ! i") auto
  show ?thesis
  proof (cases ph)
    case Next
    show ?thesis
    proof (cases us)
      case Nil
      with a Next i live j show ?thesis
        by (intro exI [of _ "AFinish i"]) (cases r; simp add: step_finish_def)
    next
      case (Cons u us')
      with a Next i live j show ?thesis
        by (intro exI [of _ "ANext i []"]) (simp add: step_next_def nth_append)
    qed
  next
    case (Dispatch u tys)
    with a i live j show ?thesis
      by (intro exI [of _ "ASend i"]) (cases tys; simp add: step_send_def)
  next
    case (Record u)
    with a i live j show ?thesis
      by (intro exI [of _ "ARecord i [] [] []"]) (simp add: step_record_def enqueue_def)
  qed
qed

lemma shutdown_around:
  assumes inv: "crawl_inv lib sc cfg seeds s" and dom: "proper_domain (rootDomain sc)" and n: "0 < cfgConcurrency cfg"
    and s: "cancelled s" "\<not> crashed s" and j: "j < length (actors s)" "actors s ! j = Busy Passive d us ph"
  shows "\<exists>s'. crawl lib sc cfg s s' \<and> cancelled s' \<and> \<not> crashed s' \<and> tasksClosed s' \<and>
           j < length (actors s') \<and> actors s' ! j = Busy Passive d us ph"
proof -
  have "wf (inv_image (mult less_than) (work_left cfg))"
    by (rule wf_inv_image) (rule wf_mult [OF wf_less_than])
  then show ?thesis
    using inv s j
  proof (induction s rule: wf_induct_rule)
    case (less s)
    note facts = less.prems
    have i: "accounted s" "cast_ok cfg s" "orderly cfg s" "depths_ok lib cfg s"
      using facts(1) by (simp_all add: crawl_inv_def)
    have len: "cfgConcurrency cfg < length (actors s)" using i(2) by (simp add: cast_ok_def)
    have jn: "cfgConcurrency cfg < j"
      using cast_okD [OF i(2) facts(4)] facts(5) by (auto simp: plays_def split: if_splits)
    have open_queue: "\<not> queueClosed s" using busy_open [OF i(1) facts(4)] facts(5) by simp
    have on: "\<exists>s'. crawl lib sc cfg s s' \<and> cancelled s' \<and> \<not> crashed s' \<and> tasksClosed s' \<and>
           j < length (actors s') \<and> actors s' ! j = Busy Passive d us ph"
      if st: "crawl_step lib sc cfg a s = Some s1" and s1: "\<not> crashed s1" "cancelled s1" "actors s1 ! j = actors s ! j"
        and k: "actors s1 ! k \<noteq> actors s ! k" for a s1 k
    proof -
      have "s1 \<noteq> s\<lparr>cancelled := True\<rparr>" using k by auto
      then have "(s1, s) \<in> inv_image (mult less_than) (work_left cfg)"
        using work_step [OF i(4) st i(2,1)] by auto
      moreover have inv1: "crawl_inv lib sc cfg seeds s1" by (rule crawl_inv_step [OF facts(1) dom n st])
      moreover have "length (actors s) \<le> length (actors s1)"
        using st by (cases rule: crawl_step_cases) (auto simp: set_actor_def end_crawl_def)
      ultimately obtain s' where s': "crawl lib sc cfg s1 s'" "cancelled s'" "\<not> crashed s'" "tasksClosed s'"
          "j < length (actors s')" "actors s' ! j = Busy Passive d us ph"
        using less.IH [of s1] s1 facts(4,5) by auto
      have "crawl lib sc cfg s s'"
        using s'(1) by (induction rule: crawl.induct) (auto intro: crawl.intros st)
      then show ?thesis using s' by blast
    qed
    show ?case
    proof (cases "tasksClosed s")
      case True
      then show ?thesis using facts crawl_start by blast
    next
      case False
      consider (busy) i where "i \<le> cfgConcurrency cfg" "is_busy (actors s ! i)"
        | (waiting) i where "i \<in> {1..cfgConcurrency cfg}" "actors s ! i = Waiting"
        | (gone) "actors s ! 0 = Gone Seeder" "\<forall>i\<in>{1..cfgConcurrency cfg}. actors s ! i = Gone Crawler"
      proof -
        have "is_busy (actors s ! k) \<or> actors s ! k = (if k = 0 then Gone Seeder else Gone Crawler) \<or>
            k \<in> {1..cfgConcurrency cfg} \<and> actors s ! k = Waiting" if "k \<le> cfgConcurrency cfg" for k
          using cast_okD [OF i(2), of k] that len by (auto simp: plays_def split: if_splits)
        then show ?thesis using busy waiting gone by (metis atLeastAtMost_iff le0 not_one_le_zero)
      qed
      then show ?thesis
      proof cases
        case (busy k)
        then show ?thesis
          using busy_advances [of s k j lib sc cfg] facts(2-4) False open_queue len jn on by fastforce
      next
        case (waiting k)
        then have "crawl_step lib sc cfg (AExit k) s = Some (set_actor k (Gone Crawler) s)"
          using facts(2,3) len by (simp add: step_exit_def sessionDone_def)
        then show ?thesis
          by (rule on [where k = k]) (use waiting facts(2,3) len jn in auto)
      next
        case gone
        then have st: "crawl_step lib sc cfg ACloseTasks s = Some (s\<lparr>tasksClosed := True\<rparr>)"
          using False facts(3) by (simp add: step_close_tasks_def)
        show ?thesis
          by (rule exI [of _ "s\<lparr>tasksClosed := True\<rparr>"]) (use crawl_more [OF crawl_start st] facts in simp)
      qed
    qed
  qed
qed

text \<open>
  C36. Cancelling a session can crash the process. Take any session with at least one worker (any
  targets, pages and passive sources) and any state it can reach, not crashed, in which a passive
  discovery goroutine has claimed a URL and has a task left to send. Then the other goroutines can
  proceed so that, after a cancellation, the seeding ends, the workers leave and the task channel is
  closed while that goroutine is still there; its next send is on the closed channel and crashes
  the process, because nothing recovers the panic. Conversely, this is the only way to crash: the
  step that crashes a session is always the send of a passive discovery goroutine on the task
  channel closed after a cancellation.
\<close>

theorem cancel_can_crash:
  assumes "Start lib sc cfg g ts = Inr s0"
    and "proper_domain (rootDomain sc)" and "kg_inv g" and "0 < cfgConcurrency cfg"
  shows "(\<forall>s j d us u ty tys. crawl lib sc cfg s0 s \<and> \<not> crashed s \<and> j < length (actors s)
            \<and> actors s ! j = Busy Passive d us (Dispatch u (ty # tys)) \<longrightarrow>
          (\<exists>s1 s2. crawl lib sc cfg s s1 \<and> cancelled s1 \<and> tasksClosed s1 \<and> \<not> crashed s1
            \<and> actors s1 ! j = Busy Passive d us (Dispatch u (ty # tys))
            \<and> crawl_step lib sc cfg (ASend j) s1 = Some s2 \<and> crashed s2))
    \<and> (\<forall>s a s'. crawl lib sc cfg s0 s \<and> crawl_step lib sc cfg a s = Some s' \<and> crashed s' \<longrightarrow>
          cancelled s \<and> tasksClosed s
          \<and> (\<exists>i d us u ty tys. a = ASend i \<and> i < length (actors s)
               \<and> actors s ! i = Busy Passive d us (Dispatch u (ty # tys))))"
proof (rule conjI; intro allI impI; elim conjE)
  fix s j d us u ty tys
  assume s: "crawl lib sc cfg s0 s" "\<not> crashed s" "j < length (actors s)"
      "actors s ! j = Busy Passive d us (Dispatch u (ty # tys))"
  let ?c = "s\<lparr>cancelled := True\<rparr>"
  have st: "crawl_step lib sc cfg ACancel s = Some ?c" using s(2) by simp
  have "crawl_inv lib sc cfg (accept lib sc '''' ts) ?c"
    using crawl_inv_reachable [OF crawl_more [OF s(1) st] assms] .
  then obtain s1 where s1: "crawl lib sc cfg ?c s1" "cancelled s1" "\<not> crashed s1" "tasksClosed s1"
      "j < length (actors s1)" "actors s1 ! j = Busy Passive d us (Dispatch u (ty # tys))"
    using shutdown_around [of lib sc cfg _ ?c j d us] assms(2,4) s by auto
  have "crawl lib sc cfg s s1"
    using s1(1) by (induction rule: crawl.induct) (auto intro: crawl.intros st)
  moreover have "crawl_step lib sc cfg (ASend j) s1 = Some (s1\<lparr>crashed := True\<rparr>)"
    using s1 by (simp add: step_send_def)
  ultimately show "\<exists>s1 s2. crawl lib sc cfg s s1 \<and> cancelled s1 \<and> tasksClosed s1 \<and> \<not> crashed s1
      \<and> actors s1 ! j = Busy Passive d us (Dispatch u (ty # tys))
      \<and> crawl_step lib sc cfg (ASend j) s1 = Some s2 \<and> crashed s2"
    using s1 by fastforce
next
  fix s a s'
  assume s: "crawl lib sc cfg s0 s" and st: "crawl_step lib sc cfg a s = Some s'" and c: "crashed s'"
  have i: "accounted s" "cast_ok cfg s" "orderly cfg s"
    using crawl_inv_reachable [OF s assms] by (simp_all add: crawl_inv_def)
  have alive: "\<not> crashed s" using crawl_step_alive [OF st] .
  have cause: "\<exists>k d us u ty tys. a = ASend k \<and> k < length (actors s) \<and> tasksClosed s \<and>
      actors s ! k = Busy Passive d us (Dispatch u (ty # tys))"
  proof (cases a)
    case (ASend k)
    then obtain r d us u ty tys where k: "k < length (actors s)" "actors s ! k = Busy r d us (Dispatch u (ty # tys))"
        "tasksClosed s" "r \<noteq> Crawler"
      using st c alive by (auto simp: step_send_def split: if_splits actor.splits phase.splits list.splits)
    have "r \<noteq> Seeder"
      using cast_okD [OF i(2) k(1)] k(2,3) i(3) by (auto simp: plays_busy orderly_def split: if_splits)
    then show ?thesis using k ASend by (cases r) auto
  next
    case (ARecord k props e1 e2)
    then have "k < length (actors s)" "is_busy (actors s ! k)"
      using st by (auto simp: step_record_def split: if_splits actor.splits phase.splits)
    then have "\<not> queueClosed s" using busy_open [OF i(1)] by blast
    then show ?thesis
      using ARecord st c alive by (auto simp: step_record_def enqueue_def split: if_splits actor.splits phase.splits)
  qed (use st c alive in \<open>auto simp: step_next_def step_skip_def step_take_def step_finish_def step_panic_def
      step_close_queue_def step_exit_def step_close_tasks_def Let_def
      split: if_splits actor.splits phase.splits list.splits role.splits\<close>)
  moreover have "cancelled s" if "tasksClosed s" and "k < length (actors s)" "is_busy (actors s ! k)" for k
    using closed_after_tasks [OF i(2,3) assms(4) that(1)] busy_open [OF i(1) that(2,3)] by blast
  ultimately show "cancelled s \<and> tasksClosed s \<and> (\<exists>i d us u ty tys. a = ASend i \<and> i < length (actors s)
      \<and> actors s ! i = Busy Passive d us (Dispatch u (ty # tys)))"
    by fastforce
qed

definition example_dispatching :: crawl_state where
  "example_dispatching = the (crawl_run example_web example_scope example_config
     [ANext 0 [''https://a.example.com/b''], ANext 2 []] example_start)"

theorem cancel_can_crash_witness:
  "\<exists>s. crawl example_web example_scope example_config example_dispatching s \<and> cancelled s \<and> crashed s"
proof -
  have "\<not> Option.is_none (crawl_run example_web example_scope example_config
      [ANext 0 [''https://a.example.com/b''], ANext 2 []] example_start)" by code_simp
  then have "crawl_run example_web example_scope example_config
      [ANext 0 [''https://a.example.com/b''], ANext 2 []] example_start = Some example_dispatching"
    by (auto simp: example_dispatching_def Option.is_none_def)
  then have reach: "crawl example_web example_scope example_config example_start example_dispatching"
    by (rule crawl_run_crawl [OF crawl_start])
  have at: "\<not> crashed example_dispatching" "2 < length (actors example_dispatching)"
      "actors example_dispatching ! 2 = Busy Passive 0 [] (Dispatch (example_page ''/b'') [''ANALYZE_WEB_PAGE_TAINT''])"
    by code_simp+
  obtain s1 s2 where s: "crawl example_web example_scope example_config example_dispatching s1" "cancelled s1"
      "crawl_step example_web example_scope example_config (ASend 2) s1 = Some s2" "crashed s2"
      "actors s1 ! 2 = Busy Passive 0 [] (Dispatch (example_page ''/b'') [''ANALYZE_WEB_PAGE_TAINT''])" "tasksClosed s1"
    using cancel_can_crash [OF example_Start example_conditions] reach at by blast
  have "cancelled s2"
    using s(2,3,5,6) by (auto simp: step_send_def split: if_splits)
  then show ?thesis using crawl_more [OF s(1,3)] s(4) by blast
qed

end
