(* ===== verification/Regex.thy ===== *)
theory Regex
  imports Prelude
begin

text \<open>
  The part of Go's \<^verbatim>\<open>regexp\<close> the program uses, with its leftmost-first semantics: \<open>rmatch\<close> lists the
  matches of an expression at a position in the order of preference (greedy repetitions longest
  first, alternatives from the left), each with its captured groups, and the searches take the
  first one at the leftmost position where there is one. The repetitions the program's patterns use
  are counted ones and repetitions of a character class.
\<close>

datatype regex =
    Empty
  | Chr "char \<Rightarrow> bool"
  | Many1 "char \<Rightarrow> bool"
  | Cat regex regex
  | Alt regex regex
  | Opt regex
  | WordBoundary
  | Group regex

definition is_word_char :: "char \<Rightarrow> bool" where
  "is_word_char c =
     (let n = (of_char c :: nat) in 48 \<le> n \<and> n \<le> 57 \<or> 65 \<le> n \<and> n \<le> 90 \<or> n = 95 \<or> 97 \<le> n \<and> n \<le> 122)"

definition at_boundary :: "char option \<Rightarrow> string \<Rightarrow> bool" where
  "at_boundary p s =
     ((case p of None \<Rightarrow> False | Some c \<Rightarrow> is_word_char c) \<noteq> (case s of [] \<Rightarrow> False | c # _ \<Rightarrow> is_word_char c))"

text \<open>The character before the position that follows a piece of text.\<close>

definition before :: "char option \<Rightarrow> string \<Rightarrow> char option" where
  "before p m = (if m = [] then p else Some (last m))"

fun rmatch :: "regex \<Rightarrow> char option \<Rightarrow> string \<Rightarrow> (string \<times> string list) list" where
  "rmatch Empty p s = [([], [])]"
| "rmatch (Chr P) p s = (case s of [] \<Rightarrow> [] | c # _ \<Rightarrow> if P c then [([c], [])] else [])"
| "rmatch (Many1 P) p s = map (\<lambda>k. (take k s, [])) (rev [1..<Suc (length (takeWhile P s))])"
| "rmatch (Cat a b) p s =
     concat (map (\<lambda>(m, g). map (\<lambda>(n, h). (m @ n, g @ h)) (rmatch b (before p m) (drop (length m) s))) (rmatch a p s))"
| "rmatch (Alt a b) p s = rmatch a p s @ rmatch b p s"
| "rmatch (Opt a) p s = rmatch a p s @ [([], [])]"
| "rmatch WordBoundary p s = (if at_boundary p s then [([], [])] else [])"
| "rmatch (Group a) p s = map (\<lambda>(m, g). (m, m # g)) (rmatch a p s)"

text \<open>Literal text and counted repetition.\<close>

fun Lit :: "string \<Rightarrow> regex" where
  "Lit [] = Empty"
| "Lit (c # s) = Cat (Chr (\<lambda>d. d = c)) (Lit s)"

fun Times :: "nat \<Rightarrow> regex \<Rightarrow> regex" where
  "Times 0 r = Empty"
| "Times (Suc n) r = Cat r (Times n r)"

text \<open>\<^verbatim>\<open>{1,n}\<close>, greedy.\<close>

fun UpTo :: "nat \<Rightarrow> regex \<Rightarrow> regex" where
  "UpTo 0 r = Empty"
| "UpTo (Suc n) r = Cat r (if n = 0 then Empty else Opt (UpTo n r))"

section \<open>Searching\<close>

text \<open>\<^verbatim>\<open>FindStringSubmatch\<close>, without the first entry of its result.\<close>

fun find_submatch :: "regex \<Rightarrow> char option \<Rightarrow> string \<Rightarrow> (string \<times> string list) option" where
  "find_submatch r p [] = (case rmatch r p [] of [] \<Rightarrow> None | m # _ \<Rightarrow> Some m)"
| "find_submatch r p (c # s) =
     (case rmatch r p (c # s) of [] \<Rightarrow> find_submatch r (Some c) s | m # _ \<Rightarrow> Some m)"

text \<open>
  \<^verbatim>\<open>FindAllString\<close> for a pattern without empty matches: after a match the search goes on behind it.
\<close>

function find_all :: "regex \<Rightarrow> char option \<Rightarrow> string \<Rightarrow> string list" where
  "find_all r p [] = []"
| "find_all r p (c # s) =
     (case rmatch r p (c # s) of
        [] \<Rightarrow> find_all r (Some c) s
      | (m, g) # _ \<Rightarrow>
          if m = [] then find_all r (Some c) s else m # find_all r (before p m) (drop (length m) (c # s)))"
  by pat_completeness auto
termination by (relation "measure (\<lambda>(r, p, s). length s)") auto

section \<open>Laws\<close>

text \<open>Every match is a prefix of the text.\<close>

lemma rmatch_prefix: "(m, g) \<in> set (rmatch r p s) \<Longrightarrow> \<exists>t. s = m @ t"
proof (induction r arbitrary: p s m g)
  case (Chr P)
  then show ?case by (cases s) (auto split: if_splits)
next
  case (Many1 P)
  then show ?case by (auto intro: append_take_drop_id [symmetric])
next
  case (Cat a b)
  then obtain m1 g1 m2 g2 where m: "(m1, g1) \<in> set (rmatch a p s)" "m = m1 @ m2"
    "(m2, g2) \<in> set (rmatch b (before p m1) (drop (length m1) s))" by auto
  obtain t where "s = m1 @ t" using Cat.IH(1) [OF m(1)] by blast
  moreover obtain t' where "drop (length m1) s = m2 @ t'" using Cat.IH(2) [OF m(3)] by blast
  ultimately show ?case using m(2) by simp
qed (auto split: if_splits)

lemma find_all_substring: "m \<in> set (find_all r p s) \<Longrightarrow> Contains s m \<and> m \<noteq> []"
proof (induction "length s" arbitrary: p s rule: less_induct)
  case less
  show ?case
  proof (cases s)
    case Nil
    with less.prems show ?thesis by simp
  next
    case (Cons c t)
    have later: "Contains s m \<and> m \<noteq> []" if "m \<in> set (find_all r q (drop n s))" "0 < n" for q n
    proof -
      have "Contains (drop n s) m \<and> m \<noteq> []" using that by (intro less.hyps) (simp_all add: Cons)
      moreover have "s = take n s @ drop n s" by simp
      ultimately show ?thesis by (metis Contains_iff append.assoc)
    qed
    consider "m \<in> set (find_all r (Some c) (drop 1 s))"
      | n g xs where "rmatch r p s = (n, g) # xs" "n \<noteq> []" "m = n \<or> m \<in> set (find_all r (before p n) (drop (length n) s))"
      using less.prems Cons by (auto split: list.splits prod.splits if_splits)
    then show ?thesis
    proof cases
      case 1
      then show ?thesis by (rule later) simp
    next
      case (2 n g xs)
      then have "\<exists>u. s = n @ u" using rmatch_prefix [of n g r p s] by simp
      then have "Contains s n" by (metis Contains_iff append_Nil)
      with 2 later show ?thesis by blast
    qed
  qed
qed

text \<open>Text in which no match starts is skipped.\<close>

lemma find_all_skip:
  assumes "\<forall>q a d b. pre = a @ d # b \<longrightarrow> rmatch r q (d # b @ s) = []"
  shows "\<exists>q. find_all r p (pre @ s) = find_all r q s"
  using assms
proof (induction pre arbitrary: p)
  case (Cons c pre)
  have "rmatch r p (c # pre @ s) = []" using Cons.prems by (metis append_Nil)
  then have "find_all r p ((c # pre) @ s) = find_all r (Some c) (pre @ s)" by simp
  moreover have "\<exists>q. find_all r (Some c) (pre @ s) = find_all r q s"
    using Cons.prems by (intro Cons.IH) (metis append_Cons)
  ultimately show ?case by simp
qed auto

lemma find_all_head:
  assumes "\<exists>rest. rmatch r p s = (m, g) # rest" and "m \<noteq> []"
  shows "m \<in> set (find_all r p s)"
proof -
  obtain rest where r: "rmatch r p s = (m, g) # rest" using assms(1) by blast
  obtain t where "s = m @ t" using rmatch_prefix [of m g r p s] r by auto
  with r assms(2) show ?thesis by (cases m) auto
qed

text \<open>Literal text has one match or none.\<close>

lemma rmatch_Lit: "rmatch (Lit t) p s = (if HasPrefix s t then [(t, [])] else [])"
proof (induction t arbitrary: p s)
  case (Cons c t)
  show ?case by (cases s) (auto simp: Cons.IH)
qed simp

lemma rmatch_Cat_Lit:
  "rmatch (Cat (Lit t) r) p s =
     (if HasPrefix s t then map (\<lambda>(n, h). (t @ n, h)) (rmatch r (before p t) (drop (length t) s)) else [])"
  by (simp add: rmatch_Lit)

text \<open>A class repeated as often as possible, when what follows cannot start inside the class.\<close>

lemma rmatch_Many1_greedy:
  assumes "s = a @ t" and "a \<noteq> []" and "list_all P a" and "t = [] \<or> \<not> P (hd t)"
  shows "\<exists>rest. rmatch (Many1 P) p s = (a, []) # rest
     \<and> (\<forall>x\<in>set rest. \<exists>k. 1 \<le> k \<and> k < length a \<and> x = (take k a, []))"
proof -
  have l: "takeWhile P s = a"
    using assms by (cases t) (auto simp: takeWhile_append2 list_all_iff)
  have "rev [1..<Suc (length a)] = length a # rev [1..<length a]" using assms(2) by (cases a) auto
  then show ?thesis using assms(1) l by (auto simp: Suc_le_eq)
qed

lemma rmatch_greedy_sep:
  assumes "s = a @ c # t" and "a \<noteq> []" and "list_all P a" and "\<not> P c"
  shows "rmatch (Cat (Many1 P) (Cat (Lit [c]) r)) p s = map (\<lambda>(n, h). (a @ c # n, h)) (rmatch r (Some c) t)"
proof -
  obtain rest where rest: "rmatch (Many1 P) p s = (a, []) # rest"
    "\<forall>x\<in>set rest. \<exists>k. 1 \<le> k \<and> k < length a \<and> x = (take k a, [])"
    using rmatch_Many1_greedy [OF assms(1-3), of p] assms(4) by auto
  have short: "rmatch (Cat (Lit [c]) r) q (drop (length (take k a)) s) = []" if "k < length a" for k q
  proof -
    have "drop (length (take k a)) s = a ! k # drop (Suc k) a @ c # t"
      using that assms(1) by (simp add: Cons_nth_drop_Suc)
    moreover have "a ! k \<noteq> c" using that assms(3,4) by (metis list_all_length)
    ultimately show ?thesis by (simp add: rmatch_Cat_Lit)
  qed
  have none: "\<forall>x\<in>set rest. rmatch (Cat (Lit [c]) r) (before p (fst x)) (drop (length (fst x)) s) = []"
  proof
    fix x assume "x \<in> set rest"
    with rest(2) obtain k where "k < length a" "x = (take k a, [])" by blast
    then show "rmatch (Cat (Lit [c]) r) (before p (fst x)) (drop (length (fst x)) s) = []"
      by (simp only: fst_conv short)
  qed
  have "concat (map (\<lambda>(m, g). map (\<lambda>(n, h). (m @ n, g @ h)) (rmatch (Cat (Lit [c]) r) (before p m) (drop (length m) s))) rest) = []"
    using none by (simp add: case_prod_beta' del: rmatch.simps)
  moreover have "rmatch (Cat (Lit [c]) r) (before p a) (drop (length a) s) = map (\<lambda>(n, h). (c # n, h)) (rmatch r (Some c) t)"
    using assms(1) unfolding rmatch_Cat_Lit by (simp add: before_def)
  ultimately show ?thesis
    unfolding rmatch.simps(4) [of "Many1 P"] rest(1) by (simp add: case_prod_beta' comp_def del: rmatch.simps Lit.simps)
qed

lemma rmatch_Times:
  assumes "length h = n" and "list_all P h"
  shows "rmatch (Times n (Chr P)) p (h @ t) = [(h, [])]"
  using assms by (induction n arbitrary: p h) (auto simp: length_Suc_conv)

end
