(* ===== verification/PanScanner.thy ===== *)
theory PanScanner
  imports Regex
begin

text \<open>
  The card number scanner of the active taint analyser
  (\<^verbatim>\<open>internal/analysis/active/taint/scanner.go\<close>): the pattern of card numbers, transcribed piece by
  piece, and the Luhn check. The lemmas show that the check catches every single wrong digit and
  every swap of neighbouring digits but that of 0 and 9.
\<close>

section \<open>The pattern\<close>

definition digit_in :: "string \<Rightarrow> regex" where
  "digit_in cs = Chr (\<lambda>c. c \<in> set cs)"

definition any_digit :: regex where
  "any_digit = digit_in ''0123456789''"

definition separator :: regex where
  "separator = Opt (Chr (\<lambda>c. c = CHR ''-'' \<or> c = CHR '' ''))"

text \<open>A group of n digits behind an optional separator.\<close>

definition digits_group :: "nat \<Rightarrow> regex" where
  "digits_group n = Cat separator (Times n any_digit)"

fun cats :: "regex list \<Rightarrow> regex" where
  "cats [] = Empty"
| "cats [r] = r"
| "cats (r # s # rs) = Cat r (cats (s # rs))"

fun alts :: "regex list \<Rightarrow> regex" where
  "alts [] = Empty"
| "alts [r] = r"
| "alts (r # s # rs) = Alt r (alts (s # rs))"

definition panPattern :: regex where
  "panPattern = cats [WordBoundary, alts
     [cats [Lit ''4'', Times 3 any_digit, Times 2 (digits_group 4), Opt (Cat separator (UpTo 4 any_digit))],
      cats [alts [cats [Lit ''5'', digit_in ''12345'', Times 2 any_digit],
                  cats [Lit ''222'', digit_in ''123456789''],
                  cats [Lit ''22'', digit_in ''3456789'', any_digit],
                  cats [Lit ''2'', digit_in ''3456'', Times 2 any_digit],
                  cats [Lit ''27'', digit_in ''01'', any_digit],
                  Lit ''2720''],
            Times 3 (digits_group 4)],
      cats [Lit ''3'', digit_in ''47'', Times 2 any_digit, digits_group 6, digits_group 5],
      cats [Lit ''6'', alts [Lit ''011'', cats [Lit ''5'', Times 2 any_digit], cats [Lit ''4'', digit_in ''456789'', any_digit]],
            Times 3 (digits_group 4)],
      cats [Lit ''3'', alts [cats [Lit ''0'', digit_in ''012345''], cats [digit_in ''68'', any_digit]], any_digit,
            digits_group 6, digits_group 4]],
     WordBoundary]"

section \<open>The Luhn check\<close>

text \<open>Matches of the pattern are ASCII, so dropping what is no digit is done on bytes.\<close>

definition stripSeparators :: "string \<Rightarrow> string" where
  "stripSeparators pan = filter (\<lambda>c. digit_val c \<noteq> None) pan"

definition luhn_digit :: "bool \<Rightarrow> nat \<Rightarrow> nat" where
  "luhn_digit alt n = (if alt then (if 9 < 2 * n then 2 * n - 9 else 2 * n) else n)"

text \<open>The loop, from the last character to the first.\<close>

fun luhn_loop :: "string \<Rightarrow> bool \<Rightarrow> nat \<Rightarrow> nat option" where
  "luhn_loop [] alt acc = Some acc"
| "luhn_loop (c # cs) alt acc =
     (case digit_val c of None \<Rightarrow> None | Some n \<Rightarrow> luhn_loop cs (\<not> alt) (acc + luhn_digit alt n))"

definition luhnCheck :: "string \<Rightarrow> bool" where
  "luhnCheck ccNumber =
     (if length ccNumber < 13 \<or> 19 < length ccNumber then False
      else (case luhn_loop (rev ccNumber) False 0 of None \<Rightarrow> False | Some acc \<Rightarrow> acc mod 10 = 0))"

definition HasValidPAN :: "string \<Rightarrow> bool" where
  "HasValidPAN input = list_ex (\<lambda>m. luhnCheck (stripSeparators m)) (find_all panPattern None input)"

section \<open>Error detection\<close>

fun luhn_total :: "bool \<Rightarrow> string \<Rightarrow> nat" where
  "luhn_total alt [] = 0"
| "luhn_total alt (c # cs) = luhn_digit alt (the (digit_val c)) + luhn_total (\<not> alt) cs"

lemma luhn_loop_total:
  "luhn_loop cs alt acc = (if \<forall>c\<in>set cs. digit_val c \<noteq> None then Some (acc + luhn_total alt cs) else None)"
  by (induction cs arbitrary: alt acc) (auto split: option.splits)

lemma luhn_total_append: "luhn_total alt (xs @ ys) = luhn_total alt xs + luhn_total (alt \<noteq> odd (length xs)) ys"
proof (induction xs arbitrary: alt)
  case (Cons x xs)
  show ?case by (cases alt; cases "even (length xs)") (simp_all add: Cons)
qed simp

lemma luhnCheck_iff:
  "luhnCheck s \<longleftrightarrow> 13 \<le> length s \<and> length s \<le> 19 \<and> (\<forall>c\<in>set s. digit_val c \<noteq> None) \<and> luhn_total False (rev s) mod 10 = 0"
  by (auto simp: luhnCheck_def luhn_loop_total)

lemma digit_val_bound: "digit_val c = Some n \<Longrightarrow> n < 10"
  by (auto simp: digit_val_def Let_def split: if_splits)

lemma digit_val_inj: "digit_val c = Some n \<Longrightarrow> digit_val d = Some n \<Longrightarrow> c = d"
proof -
  assume "digit_val c = Some n" "digit_val d = Some n"
  then have "(of_char c :: nat) = of_char d" unfolding digit_val_def Let_def by (metis eq_diff_iff option.distinct(1) option.inject)
  then show "c = d" by simp
qed

text \<open>The effect of the other digits cancels.\<close>

lemma luhn_total_update:
  assumes "s = a @ x @ b" and "s' = a @ x' @ b" and "length x = length x'"
  shows "\<exists>k alt. luhn_total False (rev s) = k + luhn_total alt (rev x) \<and> luhn_total False (rev s') = k + luhn_total alt (rev x')"
  using assms
  by (intro exI [of _ "luhn_total False (rev b) + luhn_total (odd (length b) \<noteq> odd (length x)) (rev a)"] exI [of _ "odd (length b)"])
     (auto simp: luhn_total_append)

lemma below_ten: "(n :: nat) < 10 \<Longrightarrow> n \<in> {0, 1, 2, 3, 4, 5, 6, 7, 8, 9}"
  by auto

lemma luhn_digit_inj:
  assumes "m < 10" "n < 10" "luhn_digit alt m mod 10 = luhn_digit alt n mod 10"
  shows "m = n"
  using below_ten [OF assms(1)] below_ten [OF assms(2)] assms(3) by (cases alt) (auto simp: luhn_digit_def)

lemma luhn_swap:
  assumes "m < 10" "n < 10" "(luhn_digit alt m + luhn_digit (\<not> alt) n) mod 10 = (luhn_digit alt n + luhn_digit (\<not> alt) m) mod 10"
  shows "m = n \<or> {m, n} = {0, 9}"
  using below_ten [OF assms(1)] below_ten [OF assms(2)] assms(3) by (cases alt) (auto simp: luhn_digit_def)

lemma mod_cancel: "(k + x) mod 10 = 0 \<Longrightarrow> (k + y) mod 10 = 0 \<Longrightarrow> x mod 10 = y mod (10 :: nat)"
proof (induction x y rule: linorder_wlog)
  case (le x y)
  then have "10 dvd (k + y) - (k + x)" by (intro dvd_diff_nat) (simp_all add: dvd_eq_mod_eq_0)
  with le(1) have "y mod 10 = x mod 10" by (simp add: mod_eq_dvd_iff_nat)
  then show ?case by simp
qed simp

lemma luhn_substitution:
  assumes "luhnCheck (a @ [c] @ b)" and "luhnCheck (a @ [d] @ b)"
  shows "c = d"
proof -
  obtain m n where mn: "digit_val c = Some m" "digit_val d = Some n" using assms by (auto simp: luhnCheck_iff)
  obtain k alt where "luhn_total False (rev (a @ [c] @ b)) = k + luhn_digit alt m"
    "luhn_total False (rev (a @ [d] @ b)) = k + luhn_digit alt n"
    using luhn_total_update [of "a @ [c] @ b" a "[c]" b "a @ [d] @ b" "[d]"] mn by auto
  then have "luhn_digit alt m mod 10 = luhn_digit alt n mod 10"
    using assms mod_cancel unfolding luhnCheck_iff by metis
  then have "m = n" by (rule luhn_digit_inj [OF digit_val_bound [OF mn(1)] digit_val_bound [OF mn(2)]])
  with mn show ?thesis by (auto intro: digit_val_inj)
qed

lemma luhn_transposition:
  assumes "luhnCheck (a @ [c, d] @ b)" and "luhnCheck (a @ [d, c] @ b)" and "c \<noteq> d"
  shows "{digit_val c, digit_val d} = {Some 0, Some 9}"
proof -
  obtain m n where mn: "digit_val c = Some m" "digit_val d = Some n" using assms by (auto simp: luhnCheck_iff)
  obtain k alt where "luhn_total False (rev (a @ [c, d] @ b)) = k + (luhn_digit alt n + luhn_digit (\<not> alt) m)"
    "luhn_total False (rev (a @ [d, c] @ b)) = k + (luhn_digit alt m + luhn_digit (\<not> alt) n)"
    using luhn_total_update [of "a @ [c, d] @ b" a "[c, d]" b "a @ [d, c] @ b" "[d, c]"] mn by auto
  then have "(luhn_digit alt n + luhn_digit (\<not> alt) m) mod 10 = (luhn_digit alt m + luhn_digit (\<not> alt) n) mod 10"
    using assms mod_cancel unfolding luhnCheck_iff by metis
  then have "n = m \<or> {n, m} = {0, 9}" by (rule luhn_swap [OF digit_val_bound [OF mn(2)] digit_val_bound [OF mn(1)]])
  with mn assms(3) digit_val_inj show ?thesis by (auto simp: doubleton_eq_iff)
qed

text \<open>
  C30. The card number check is sound and detects typing errors: a value is reported only for a part
  of it that the Luhn check accepts; of two accepted numbers that differ in one position only, the
  digits there are equal, and swapping two different neighbouring digits is only accepted for a 0
  and a 9.
\<close>

theorem pan_check_correct:
  "(HasValidPAN v \<longrightarrow> (\<exists>m. Contains v m \<and> luhnCheck (stripSeparators m)))
   \<and> (luhnCheck (a @ [c] @ b) \<and> luhnCheck (a @ [d] @ b) \<longrightarrow> c = d)
   \<and> (luhnCheck (a @ [c, d] @ b) \<and> luhnCheck (a @ [d, c] @ b) \<and> c \<noteq> d \<longrightarrow> {digit_val c, digit_val d} = {Some 0, Some 9})"
proof (intro conjI impI)
  assume "HasValidPAN v"
  then show "\<exists>m. Contains v m \<and> luhnCheck (stripSeparators m)"
    unfolding HasValidPAN_def list_ex_iff using find_all_substring [of _ panPattern None v] by metis
qed (use luhn_substitution luhn_transposition in blast)+

theorem pan_check_correct_witness:
  "HasValidPAN ''card 4111-1111-1111-1111.'' \<and> (\<exists>m. Contains ''card 4111-1111-1111-1111.'' m \<and> luhnCheck (stripSeparators m))
   \<and> \<not> HasValidPAN ''card 4111-1111-1111-1112.''"
proof -
  have v: "HasValidPAN ''card 4111-1111-1111-1111.''" by code_simp
  moreover have "\<not> HasValidPAN ''card 4111-1111-1111-1112.''" by code_simp
  ultimately show ?thesis using pan_check_correct [of "''card 4111-1111-1111-1111.''"] by blast
qed

end
