(* ===== verification/TaintAnalyzer.thy ===== *)
theory TaintAnalyzer
  imports TaintProbes PanScanner JsFingerprinter
begin

text \<open>
  The correlation engine of the active taint analyser
  (\<^verbatim>\<open>internal/analysis/active/taint/taint_analyzer.go\<close>, \<^verbatim>\<open>types.go\<close>): what is reported for an event from
  the browser or the out-of-band server, given the registered probes, the flow rules and the
  findings of the static analyser. Every operation reads the shared maps under their locks; a
  handler here is a function of their contents. \<open>reported\<close> lists what goes to the reporter.

  Two things are parameters: \<^verbatim>\<open>url.Parse(...).Path\<close> (\<open>None\<close> for a parse error) and the order in which
  Go traverses the map of matched probes.
\<close>

section \<open>Data\<close>

record sink_event =
  seType :: string
  seValue :: string
  seDetail :: string
  seStackTrace :: string
  sePageURL :: string
  sePageTitle :: string

record proof_event =
  peCanary :: string
  peStackTrace :: string
  pePageURL :: string
  pePageTitle :: string

record oast_interaction =
  oiCanary :: string
  oiProtocol :: string
  oiSourceIP :: string
  oiRawRequest :: string

datatype event = SinkEvent sink_event | ExecutionProofEvent proof_event | OASTInteraction oast_interaction | ShimErrorEvent

datatype SanitizationLevel = SanitizationNone | SanitizationPartial | SanitizationFull

record correlated_finding =
  cfTaskID :: string
  cfTargetURL :: string
  cfOccurrenceURL :: string
  cfOccurrenceTitle :: string
  cfSink :: string
  cfOrigin :: string
  cfValue :: string
  cfCanary :: string
  cfProbe :: "ActiveProbe option"
  cfDetail :: string
  cfIsConfirmed :: bool
  cfSanitization :: SanitizationLevel
  cfStackTrace :: string
  cfOASTDetails :: "oast_interaction option"
  cfConfirmedStatic :: bool
  cfConfirmedDynamic :: bool
  cfStaticFinding :: "static_finding option"

record taint_state =
  tsTaskID :: string
  tsTarget :: string
  activeProbes :: "string \<rightharpoonup> ActiveProbe"
  validTaintFlows :: "(string \<times> string) \<rightharpoonup> bool"
  staticFindings :: "string \<rightharpoonup> static_finding list"

definition registerProbe :: "ActiveProbe \<Rightarrow> taint_state \<Rightarrow> taint_state" where
  "registerProbe p s = s\<lparr>activeProbes := (activeProbes s)(apCanary p \<mapsto> p)\<rparr>"

text \<open>\<^verbatim>\<open>executeCleanup\<close> at time \<open>now\<close>.\<close>

definition executeCleanup :: "int \<Rightarrow> int \<Rightarrow> taint_state \<Rightarrow> taint_state" where
  "executeCleanup now expiration s =
     s\<lparr>activeProbes := (\<lambda>c. case activeProbes s c of
          None \<Rightarrow> None | Some p \<Rightarrow> if expiration < now - apCreatedAt p then None else Some p)\<rparr>"

definition UpdateTaintFlowRuleForTesting :: "string \<times> string \<Rightarrow> bool \<Rightarrow> taint_state \<Rightarrow> taint_state" where
  "UpdateTaintFlowRuleForTesting fl valid s = s\<lparr>validTaintFlows := (validTaintFlows s)(fl \<mapsto> valid)\<rparr>"

text \<open>
  \<^verbatim>\<open>runStaticAnalysis\<close>: cached by file name; an error is not cached. \<open>parse\<close> is the JavaScript parser.
\<close>

definition runStaticAnalysis ::
  "(string \<Rightarrow> node option) \<Rightarrow> string \<Rightarrow> string \<Rightarrow> taint_state \<Rightarrow> (analyze_error, static_finding list) result \<times> taint_state" where
  "runStaticAnalysis parse name content s =
     (if content = [] then (Inr [], s)
      else (case staticFindings s name of
          Some fs \<Rightarrow> (Inr fs, s)
        | None \<Rightarrow> (case Analyze parse name content of
            Inl e \<Rightarrow> (Inl e, s)
          | Inr fs \<Rightarrow> (Inr fs, s\<lparr>staticFindings := (staticFindings s)(name \<mapsto> fs)\<rparr>))))"

section \<open>Rules\<close>

definition isContextValid :: "taint_state \<Rightarrow> sink_event \<Rightarrow> ActiveProbe \<Rightarrow> bool" where
  "isContextValid s e p =
     (if validTaintFlows s (apType p, seType e) \<noteq> Some True then False
      else if seType e = ''NAVIGATION'' \<and> apType p = ProbeTypeXSS
      then (let val = ToLower (seValue e) in
            HasPrefix val ''javascript:'' \<or> HasPrefix val ''data:'' \<or> HasPrefix val ''vbscript:'')
      else True)"

definition path_status :: "string \<Rightarrow> string \<Rightarrow> bool" where
  "path_status path code = (Contains path (''/'' @ code @ ''/'') \<or> HasSuffix path (''/'' @ code))"

definition isErrorPageContext :: "(string \<Rightarrow> string option) \<Rightarrow> string \<Rightarrow> string \<Rightarrow> bool" where
  "isErrorPageContext url_path pageURL pageTitle =
     (let lowerTitle = ToLower pageTitle; u = ToLower pageURL in
      if Contains lowerTitle ''404 not found'' \<or> Contains lowerTitle ''page not found'' \<or> Contains lowerTitle ''server error''
         \<or> Contains lowerTitle ''internal server error'' then True
      else if Contains u ''/error.'' \<or> Contains u ''/errors/'' then True
      else (case url_path pageURL of
          None \<Rightarrow> path_status u ''404'' \<or> path_status u ''500''
        | Some path \<Rightarrow> path_status path ''404'' \<or> Contains path ''/404.'' \<or> path_status path ''500'' \<or> Contains path ''/500.''))"

text \<open>\<^verbatim>\<open>strings.ReplaceAll\<close> of a single character.\<close>

definition ReplaceAll :: "string \<Rightarrow> char \<Rightarrow> string \<Rightarrow> string" where
  "ReplaceAll s c t = concat (map (\<lambda>d. if d = c then t else [d]) s)"

definition checkSanitization :: "string \<Rightarrow> ActiveProbe \<Rightarrow> SanitizationLevel \<times> string" where
  "checkSanitization sinkValue p =
     (if Contains sinkValue (apValue p) then (SanitizationNone, '''')
      else (let q = CHR 0x22;
                tags = (if apType p = ProbeTypeXSS \<and> Contains (apValue p) ''<'' \<and> \<not> Contains sinkValue ''<''
                        then [''HTML tags modified or stripped''] else []);
                quotes = (if apType p = ProbeTypeXSS \<and> Contains (apValue p) [q]
                          then (if Contains sinkValue (ReplaceAll (apValue p) q [CHR 0x5C, q]) then [''Quotes escaped'']
                                else if Contains sinkValue (ReplaceAll (apValue p) q []) then [''Quotes removed or encoded''] else [])
                          else []);
                details = tags @ quotes
            in if details \<noteq> [] then (SanitizationPartial, '' (Potential Sanitization: '' @ Join details '', '' @ '')'')
               else (SanitizationFull, '' (Payload fully sanitized)'')))"

section \<open>Correlation with static findings\<close>

definition re_space :: "char \<Rightarrow> bool" where
  "re_space c = (let n = (of_char c :: nat) in n = 32 \<or> n = 9 \<or> n = 10 \<or> n = 12 \<or> n = 13)"

definition re_digit :: "char \<Rightarrow> bool" where
  "re_digit c = char_between CHR ''0'' CHR ''9'' c"

definition stackTraceLocationRegex :: regex where
  "stackTraceLocationRegex =
     Cat (Alt (Lit ''('') (Cat (Lit ''at'') (Many1 re_space)))
      (Cat (Group (Cat (Lit ''http'') (Cat (Opt (Lit ''s'')) (Cat (Lit ''://'') (Many1 (\<lambda>c. c \<noteq> CHR '':''))))))
       (Cat (Lit '':'') (Cat (Group (Many1 re_digit)) (Cat (Lit '':'') (Group (Many1 re_digit))))))"

text \<open>The value \<^verbatim>\<open>strconv.Atoi\<close> returns for digits; out of range it is the largest integer.\<close>

definition atoi_value :: "string \<Rightarrow> int" where
  "atoi_value s = (case Atoi s of Some n \<Rightarrow> n | None \<Rightarrow> 2 ^ 63 - 1)"

definition parseStackTrace :: "string \<Rightarrow> string \<times> int \<times> int" where
  "parseStackTrace stack =
     (case find_submatch stackTraceLocationRegex None stack of
        Some (m, [f, l, c]) \<Rightarrow> (f, atoi_value l, atoi_value c)
      | _ \<Rightarrow> ('''', -1, -1))"

definition static_source_match :: "string \<Rightarrow> string \<Rightarrow> bool" where
  "static_source_match dynamicSource st =
     (if dynamicSource = ''URL_PARAM'' then st = SourceLocationSearch \<or> st = SourceLocationHref \<or> HasPrefix st ''param:query:''
      else if dynamicSource = ''HASH_FRAGMENT'' then st = SourceLocationHash \<or> HasPrefix st ''param:hash:''
      else if dynamicSource = ''LOCAL_STORAGE'' then st = SourceLocalStorage \<or> HasPrefix st ''param:storage:''
      else if dynamicSource = ''SESSION_STORAGE'' then st = SourceSessionStorage \<or> HasPrefix st ''param:storage:''
      else if dynamicSource = ''COOKIE'' then st = SourceDocumentCookie
      else False)"

definition isSourceContextMatch :: "string \<Rightarrow> string \<Rightarrow> bool" where
  "isSourceContextMatch dynamicSource staticSource = list_ex (static_source_match dynamicSource) (Split staticSource CHR ''|'')"

definition static_match :: "correlated_finding \<Rightarrow> int \<Rightarrow> static_finding \<Rightarrow> bool" where
  "static_match f line sf \<longleftrightarrow>
     (fCanonicalType sf = cfSink f \<or> cfSink f = ''EXECUTION_PROOF'' \<and> GetSinkType (fCanonicalType sf) = ''Code Execution'')
     \<and> isSourceContextMatch (case cfProbe f of Some p \<Rightarrow> apSource p | None \<Rightarrow> '''') (fSource sf)
     \<and> (line \<noteq> -1 \<longrightarrow> \<bar>int (lLine (fLocation sf)) - line\<bar> \<le> 3)"

definition correlateWithStaticFindings :: "taint_state \<Rightarrow> correlated_finding \<Rightarrow> correlated_finding" where
  "correlateWithStaticFindings s f =
     (case parseStackTrace (cfStackTrace f) of (scriptFile, line, col) \<Rightarrow>
      (let targetFile = (if scriptFile = '''' then cfOccurrenceURL f else scriptFile) in
       if targetFile = '''' then f
       else (case staticFindings s targetFile of
           None \<Rightarrow> f
         | Some sfs \<Rightarrow> (case find (static_match f line) sfs of
             None \<Rightarrow> f
           | Some sf \<Rightarrow> f\<lparr>cfConfirmedStatic := True, cfStaticFinding := Some sf, cfIsConfirmed := True,
                 cfDetail := (if cfIsConfirmed f then cfDetail f else cfDetail f @ '' (Statically Verified)'')\<rparr>))))"

section \<open>Event handlers\<close>

definition base_finding :: "taint_state \<Rightarrow> string \<Rightarrow> string \<Rightarrow> string \<Rightarrow> correlated_finding" where
  "base_finding s url title stack =
     \<lparr>cfTaskID = tsTaskID s, cfTargetURL = tsTarget s, cfOccurrenceURL = url, cfOccurrenceTitle = title, cfSink = '''',
      cfOrigin = '''', cfValue = '''', cfCanary = '''', cfProbe = None, cfDetail = '''', cfIsConfirmed = False,
      cfSanitization = SanitizationNone, cfStackTrace = stack, cfOASTDetails = None, cfConfirmedStatic = False,
      cfConfirmedDynamic = True, cfStaticFinding = None\<rparr>"

definition processOASTInteraction :: "taint_state \<Rightarrow> oast_interaction \<Rightarrow> correlated_finding list" where
  "processOASTInteraction s oi =
     (case activeProbes s (oiCanary oi) of
        None \<Rightarrow> []
      | Some p \<Rightarrow>
          [(base_finding s (tsTarget s) ''N/A (Out of Band)'' ''N/A (Out of Band)'')
             \<lparr>cfSink := ''OAST_INTERACTION'', cfOrigin := apSource p, cfValue := apValue p, cfCanary := oiCanary oi,
              cfProbe := Some p, cfIsConfirmed := True, cfOASTDetails := Some oi,
              cfDetail := ''Out-of-band interaction ('' @ oiProtocol oi @ '') detected from '' @ oiSourceIP oi @ ''.''\<rparr>])"

definition proof_finding :: "taint_state \<Rightarrow> proof_event \<Rightarrow> ActiveProbe \<Rightarrow> correlated_finding" where
  "proof_finding s pe p = (base_finding s (pePageURL pe) (pePageTitle pe) (peStackTrace pe))
     \<lparr>cfSink := ''EXECUTION_PROOF'', cfOrigin := apSource p, cfValue := apValue p, cfCanary := peCanary pe,
      cfProbe := Some p, cfIsConfirmed := True, cfDetail := ''Payload execution confirmed via JS callback.''\<rparr>"

definition processExecutionProof :: "taint_state \<Rightarrow> proof_event \<Rightarrow> correlated_finding list" where
  "processExecutionProof s pe =
     (case activeProbes s (peCanary pe) of
        None \<Rightarrow> []
      | Some p \<Rightarrow> [correlateWithStaticFindings s (proof_finding s pe p)])"

definition pollution_finding :: "taint_state \<Rightarrow> sink_event \<Rightarrow> ActiveProbe \<Rightarrow> correlated_finding" where
  "pollution_finding s e p = (base_finding s (sePageURL e) (sePageTitle e) (seStackTrace e))
     \<lparr>cfSink := ''PROTOTYPE_POLLUTION_CONFIRMED'', cfOrigin := apSource p, cfValue := apValue p, cfCanary := seValue e,
      cfProbe := Some p, cfIsConfirmed := True,
      cfDetail := ''Successfully polluted Object.prototype property: '' @ seDetail e\<rparr>"

definition processPrototypePollutionConfirmation :: "taint_state \<Rightarrow> sink_event \<Rightarrow> correlated_finding list" where
  "processPrototypePollutionConfirmation s e =
     (case activeProbes s (seValue e) of
        None \<Rightarrow> []
      | Some p \<Rightarrow>
          if apType p \<noteq> ProbeTypePrototypePollution then []
          else [correlateWithStaticFindings s (pollution_finding s e p)])"

definition sensitive_finding :: "taint_state \<Rightarrow> sink_event \<Rightarrow> string \<Rightarrow> bool \<Rightarrow> correlated_finding" where
  "sensitive_finding s e detail confirmed =
     (base_finding s (sePageURL e) (sePageTitle e) (seStackTrace e))
       \<lparr>cfSink := seType e, cfOrigin := ''HEURISTIC_CLIENT_DATA'', cfValue := seValue e, cfCanary := ''N/A (Sensitive Data)'',
        cfDetail := detail @ seDetail e, cfIsConfirmed := confirmed\<rparr>"

definition processSensitiveDataEvent :: "taint_state \<Rightarrow> sink_event \<Rightarrow> correlated_finding list" where
  "processSensitiveDataEvent s e =
     (if HasValidPAN (seValue e) then [sensitive_finding s e ''High Confidence: Verified Credit Card PAN leaked. '' True]
      else if Contains (seDetail e) ''Sensitive pattern detected''
      then (if find_submatch panPattern None (seValue e) \<noteq> None then []
            else [sensitive_finding s e ''Potential Secret/Key Leak: '' False])
      else [])"

definition sink_finding :: "taint_state \<Rightarrow> sink_event \<Rightarrow> string \<Rightarrow> ActiveProbe \<Rightarrow> correlated_finding" where
  "sink_finding s e canary p =
     (case checkSanitization (seValue e) p of (level, suffix) \<Rightarrow>
        correlateWithStaticFindings s ((base_finding s (sePageURL e) (sePageTitle e) (seStackTrace e))
          \<lparr>cfSink := seType e, cfOrigin := apSource p, cfValue := seValue e, cfCanary := canary, cfProbe := Some p,
           cfDetail := seDetail e @ suffix, cfSanitization := level\<rparr>))"

text \<open>The matched probes as a map from canaries; \<open>order\<close> is the order in which it is traversed.\<close>

definition matchedProbes :: "taint_state \<Rightarrow> sink_event \<Rightarrow> (string \<times> ActiveProbe) list" where
  "matchedProbes s e =
     List.map_filter (\<lambda>c. map_option (Pair c) (activeProbes s c)) (remdups (find_all canaryRegex None (seValue e)))"

definition processSinkEvent ::
  "(string \<Rightarrow> string option) \<Rightarrow> ((string \<times> ActiveProbe) list \<Rightarrow> (string \<times> ActiveProbe) list) \<Rightarrow> taint_state \<Rightarrow> sink_event \<Rightarrow> correlated_finding list" where
  "processSinkEvent url_path order s e =
     List.map_filter (\<lambda>(canary, p).
        if isContextValid s e p \<and> \<not> isErrorPageContext url_path (sePageURL e) (sePageTitle e)
        then Some (sink_finding s e canary p) else None) (order (matchedProbes s e))"

fun processEvent ::
  "(string \<Rightarrow> string option) \<Rightarrow> ((string \<times> ActiveProbe) list \<Rightarrow> (string \<times> ActiveProbe) list) \<Rightarrow> taint_state \<Rightarrow> event \<Rightarrow> correlated_finding list" where
  "processEvent url_path order s (SinkEvent e) =
     (if seType e = ''PROTOTYPE_POLLUTION_CONFIRMED'' then processPrototypePollutionConfirmation s e
      else if seType e = ''SENSITIVE_STORAGE_WRITE'' then processSensitiveDataEvent s e
      else processSinkEvent url_path order s e)"
| "processEvent url_path order s (ExecutionProofEvent pe) = processExecutionProof s pe"
| "processEvent url_path order s (OASTInteraction oi) = processOASTInteraction s oi"
| "processEvent url_path order s ShimErrorEvent = []"


section \<open>What is reported\<close>

text \<open>A static finding that supports a report: same sink and source, in a file that was analysed.\<close>

definition supported :: "taint_state \<Rightarrow> correlated_finding \<Rightarrow> bool" where
  "supported s f \<longleftrightarrow> (\<exists>file_name sfs sf line. staticFindings s file_name = Some sfs \<and> sf \<in> set sfs
     \<and> cfStaticFinding f = Some sf \<and> static_match f line sf)"

lemma correlate_fields [simp]:
  "cfTaskID (correlateWithStaticFindings s f) = cfTaskID f" "cfTargetURL (correlateWithStaticFindings s f) = cfTargetURL f"
  "cfSink (correlateWithStaticFindings s f) = cfSink f" "cfOrigin (correlateWithStaticFindings s f) = cfOrigin f"
  "cfValue (correlateWithStaticFindings s f) = cfValue f" "cfCanary (correlateWithStaticFindings s f) = cfCanary f"
  "cfProbe (correlateWithStaticFindings s f) = cfProbe f" "cfSanitization (correlateWithStaticFindings s f) = cfSanitization f"
  "cfConfirmedDynamic (correlateWithStaticFindings s f) = cfConfirmedDynamic f"
  by (simp_all add: correlateWithStaticFindings_def Let_def split: prod.splits option.splits)

lemma static_match_cong: "cfSink f = cfSink g \<Longrightarrow> cfProbe f = cfProbe g \<Longrightarrow> static_match f line sf = static_match g line sf"
  by (simp add: static_match_def)

lemma correlate_cases:
  "correlateWithStaticFindings s f = f
   \<or> cfConfirmedStatic (correlateWithStaticFindings s f) \<and> cfIsConfirmed (correlateWithStaticFindings s f)
     \<and> supported s (correlateWithStaticFindings s f)"
proof -
  obtain script line col where t: "parseStackTrace (cfStackTrace f) = (script, line, col)" by (metis prod_cases3)
  let ?file = "if script = '''' then cfOccurrenceURL f else script"
  let ?g = "correlateWithStaticFindings s f"
  show ?thesis
  proof (cases "?file \<noteq> '''' \<and> (\<exists>sfs sf. staticFindings s ?file = Some sfs \<and> find (static_match f line) sfs = Some sf)")
    case True
    then obtain sfs sf where m: "staticFindings s ?file = Some sfs" "find (static_match f line) sfs = Some sf" by blast
    have g: "cfConfirmedStatic ?g" "cfIsConfirmed ?g" "cfStaticFinding ?g = Some sf"
      using True m by (simp_all add: correlateWithStaticFindings_def t Let_def)
    have sf: "sf \<in> set sfs" "static_match f line sf" using m(2) by (auto simp: find_Some_iff)
    have "static_match ?g line sf" using sf(2) static_match_cong [of ?g f] by simp
    then have "supported s ?g" using m(1) sf(1) g(3) unfolding supported_def by blast
    with g show ?thesis by blast
  next
    case False
    then show ?thesis
      by (auto simp: correlateWithStaticFindings_def t Let_def split: option.splits)
  qed
qed

lemma base_finding_fields [simp]:
  "cfTaskID (base_finding s url title stack) = tsTaskID s" "cfTargetURL (base_finding s url title stack) = tsTarget s"
  "cfProbe (base_finding s url title stack) = None" "\<not> cfIsConfirmed (base_finding s url title stack)"
  "\<not> cfConfirmedStatic (base_finding s url title stack)" "cfConfirmedDynamic (base_finding s url title stack)"
  "cfSanitization (base_finding s url title stack) = SanitizationNone"
  by (simp_all add: base_finding_def)

lemma matchedProbes_set: "(c, p) \<in> set (matchedProbes s e) \<longleftrightarrow> c \<in> set (find_all canaryRegex None (seValue e)) \<and> activeProbes s c = Some p"
  by (force simp: matchedProbes_def List.map_filter_def)

lemma distinct_matchedProbes: "distinct (map fst (matchedProbes s e))"
proof -
  have "map fst (List.map_filter (\<lambda>c. map_option (Pair c) (activeProbes s c)) cs) = filter (\<lambda>c. activeProbes s c \<noteq> None) cs" for cs
    by (induction cs) (auto simp: List.map_filter_simps split: option.splits)
  then show ?thesis by (simp add: matchedProbes_def)
qed

lemma sink_finding_fields:
  "cfTaskID (sink_finding s e c p) = tsTaskID s" "cfTargetURL (sink_finding s e c p) = tsTarget s"
  "cfCanary (sink_finding s e c p) = c" "cfProbe (sink_finding s e c p) = Some p" "cfOrigin (sink_finding s e c p) = apSource p"
  "cfSink (sink_finding s e c p) = seType e" "cfValue (sink_finding s e c p) = seValue e"
  "cfSanitization (sink_finding s e c p) = fst (checkSanitization (seValue e) p)"
  "cfIsConfirmed (sink_finding s e c p) \<longleftrightarrow> cfConfirmedStatic (sink_finding s e c p)"
  "cfConfirmedStatic (sink_finding s e c p) \<Longrightarrow> supported s (sink_finding s e c p)"
proof -
  define f where "f = (base_finding s (sePageURL e) (sePageTitle e) (seStackTrace e))
          \<lparr>cfSink := seType e, cfOrigin := apSource p, cfValue := seValue e, cfCanary := c, cfProbe := Some p,
           cfDetail := seDetail e @ snd (checkSanitization (seValue e) p), cfSanitization := fst (checkSanitization (seValue e) p)\<rparr>"
  have sf: "sink_finding s e c p = correlateWithStaticFindings s f"
    by (simp add: sink_finding_def f_def split: prod.splits)
  show "cfTaskID (sink_finding s e c p) = tsTaskID s" "cfTargetURL (sink_finding s e c p) = tsTarget s"
    "cfCanary (sink_finding s e c p) = c" "cfProbe (sink_finding s e c p) = Some p" "cfOrigin (sink_finding s e c p) = apSource p"
    "cfSink (sink_finding s e c p) = seType e" "cfValue (sink_finding s e c p) = seValue e"
    "cfSanitization (sink_finding s e c p) = fst (checkSanitization (seValue e) p)"
    unfolding sf by (simp_all add: f_def)
  have "\<not> cfIsConfirmed f" "\<not> cfConfirmedStatic f" by (simp_all add: f_def)
  then show "cfIsConfirmed (sink_finding s e c p) \<longleftrightarrow> cfConfirmedStatic (sink_finding s e c p)"
    "cfConfirmedStatic (sink_finding s e c p) \<Longrightarrow> supported s (sink_finding s e c p)"
    unfolding sf using correlate_cases [of s f] by metis+
qed

lemma checkSanitization_none: "fst (checkSanitization v p) = SanitizationNone \<longleftrightarrow> Contains v (apValue p)"
  by (auto simp: checkSanitization_def Let_def)

text \<open>The findings of a sink event, one per matched probe that passes the rules.\<close>

lemma sink_event_findings:
  assumes "\<forall>xs. mset (order xs) = mset xs"
  shows "f \<in> set (processSinkEvent url_path order s e) \<longleftrightarrow>
     (\<exists>c p. c \<in> set (find_all canaryRegex None (seValue e)) \<and> activeProbes s c = Some p \<and> isContextValid s e p
        \<and> \<not> isErrorPageContext url_path (sePageURL e) (sePageTitle e) \<and> f = sink_finding s e c p)"
proof -
  have "set (order (matchedProbes s e)) = set (matchedProbes s e)" using assms by (metis set_mset_mset)
  then have "f \<in> set (processSinkEvent url_path order s e) \<longleftrightarrow>
     (\<exists>x\<in>set (matchedProbes s e). (isContextValid s e (snd x) \<and> \<not> isErrorPageContext url_path (sePageURL e) (sePageTitle e))
        \<and> sink_finding s e (fst x) (snd x) = f)"
    unfolding processSinkEvent_def by (auto simp: List.map_filter_def case_prod_beta')
  also have "\<dots> \<longleftrightarrow> (\<exists>c p. (c, p) \<in> set (matchedProbes s e) \<and> isContextValid s e p
        \<and> \<not> isErrorPageContext url_path (sePageURL e) (sePageTitle e) \<and> f = sink_finding s e c p)"
    by (metis fst_conv snd_conv surj_pair)
  finally show ?thesis unfolding matchedProbes_set by blast
qed


definition plain_sink :: "sink_event \<Rightarrow> bool" where
  "plain_sink e \<longleftrightarrow> seType e \<noteq> ''PROTOTYPE_POLLUTION_CONFIRMED'' \<and> seType e \<noteq> ''SENSITIVE_STORAGE_WRITE''"

text \<open>What makes a report a confirmed one without the static analyser.\<close>

fun proven :: "event \<Rightarrow> correlated_finding \<Rightarrow> bool" where
  "proven (SinkEvent e) f =
     (seType e = ''PROTOTYPE_POLLUTION_CONFIRMED'' \<and> seValue e = cfCanary f \<and> (\<exists>p. cfProbe f = Some p \<and> apType p = ProbeTypePrototypePollution)
      \<or> seType e = ''SENSITIVE_STORAGE_WRITE'' \<and> HasValidPAN (seValue e))"
| "proven (ExecutionProofEvent pe) f = (peCanary pe = cfCanary f)"
| "proven (OASTInteraction oi) f = (oiCanary oi = cfCanary f)"
| "proven ShimErrorEvent f = False"

text \<open>What holds of every report, and is kept by the correlation with static findings.\<close>

definition well_reported :: "taint_state \<Rightarrow> event \<Rightarrow> correlated_finding \<Rightarrow> bool" where
  "well_reported s ev f \<longleftrightarrow>
     cfTaskID f = tsTaskID s \<and> cfTargetURL f = tsTarget s
     \<and> (\<forall>p. cfProbe f = Some p \<longrightarrow> activeProbes s (cfCanary f) = Some p \<and> cfOrigin f = apSource p)
     \<and> (cfConfirmedStatic f \<longrightarrow> supported s f)
     \<and> (cfIsConfirmed f \<longrightarrow> cfConfirmedStatic f \<or> proven ev f)"

lemma proven_correlate: "proven ev (correlateWithStaticFindings s f) = proven ev f"
  by (cases ev) simp_all

lemma well_reported_correlate:
  assumes "well_reported s ev f"
  shows "well_reported s ev (correlateWithStaticFindings s f)"
  using correlate_cases [of s f]
proof
  assume "correlateWithStaticFindings s f = f"
  with assms show ?thesis by simp
qed (use assms in \<open>auto simp: well_reported_def proven_correlate\<close>)

lemma well_reported_event:
  assumes "\<forall>xs. mset (order xs) = mset xs" and "f \<in> set (processEvent url_path order s ev)"
  shows "well_reported s ev f"
proof (cases ev)
  case (SinkEvent e)
  consider (pollution) "seType e = ''PROTOTYPE_POLLUTION_CONFIRMED''" | (sensitive) "seType e = ''SENSITIVE_STORAGE_WRITE''" | (plain) "plain_sink e"
    by (auto simp: plain_sink_def)
  then show ?thesis
  proof cases
    case pollution
    then obtain p where "f = correlateWithStaticFindings s (pollution_finding s e p)" "activeProbes s (seValue e) = Some p"
      "apType p = ProbeTypePrototypePollution"
      using assms(2) SinkEvent by (auto simp: processPrototypePollutionConfirmation_def split: option.splits if_splits)
    with pollution SinkEvent show ?thesis
      using well_reported_correlate [of s ev "pollution_finding s e p"] by (simp add: well_reported_def pollution_finding_def)
  next
    case sensitive
    then show ?thesis
      using assms(2) SinkEvent
      by (auto simp: processSensitiveDataEvent_def sensitive_finding_def well_reported_def split: if_splits)
  next
    case plain
    then have "f \<in> set (processSinkEvent url_path order s e)" using assms(2) SinkEvent by (simp add: plain_sink_def)
    then show ?thesis
      unfolding sink_event_findings [OF assms(1)] well_reported_def by (auto simp: sink_finding_fields)
  qed
next
  case (ExecutionProofEvent pe)
  then obtain p where "f = correlateWithStaticFindings s (proof_finding s pe p)" "activeProbes s (peCanary pe) = Some p"
    using assms(2) by (auto simp: processExecutionProof_def split: option.splits)
  with ExecutionProofEvent show ?thesis
    using well_reported_correlate [of s ev "proof_finding s pe p"] by (simp add: well_reported_def proof_finding_def)
next
  case (OASTInteraction oi)
  then show ?thesis
    using assms(2) by (auto simp: processOASTInteraction_def well_reported_def split: option.splits)
qed (use assms(2) in simp)

text \<open>
  C4. Every report of the active taint analyser is justified. It names the task; its probe is the
  registered probe of its canary and gives its origin. A report marked as statically confirmed
  carries a static finding with the same sink and source. A confirmed report is statically
  confirmed or comes from an execution proof, an out-of-band interaction or a prototype pollution
  with the probe's canary, or from a value with a valid card number. For a plain sink the canary
  occurs in the value, the flow from the probe's type to the sink is allowed, the page is no error
  page, and the payload counts as unsanitized exactly when the value contains it unchanged.
\<close>

theorem taint_reports_justified:
  assumes "\<forall>xs. mset (order xs) = mset xs" and "f \<in> set (processEvent url_path order s ev)"
  shows "cfTaskID f = tsTaskID s \<and> cfTargetURL f = tsTarget s
    \<and> (\<forall>p. cfProbe f = Some p \<longrightarrow> activeProbes s (cfCanary f) = Some p \<and> cfOrigin f = apSource p)
    \<and> (cfConfirmedStatic f \<longrightarrow> (\<exists>name sfs sf line. staticFindings s name = Some sfs \<and> sf \<in> set sfs
          \<and> cfStaticFinding f = Some sf \<and> static_match f line sf))
    \<and> (cfIsConfirmed f \<longrightarrow> cfConfirmedStatic f \<or> proven ev f)
    \<and> (\<forall>e. ev = SinkEvent e \<and> plain_sink e \<longrightarrow>
         (\<exists>p. cfProbe f = Some p \<and> Contains (seValue e) (cfCanary f) \<and> isContextValid s e p
            \<and> validTaintFlows s (apType p, seType e) = Some True
            \<and> \<not> isErrorPageContext url_path (sePageURL e) (sePageTitle e)
            \<and> (cfSanitization f = SanitizationNone \<longleftrightarrow> Contains (seValue e) (apValue p))))"
proof -
  have w: "well_reported s ev f" by (rule well_reported_event [OF assms])
  have "\<exists>p. cfProbe f = Some p \<and> Contains (seValue e) (cfCanary f) \<and> isContextValid s e p
       \<and> validTaintFlows s (apType p, seType e) = Some True \<and> \<not> isErrorPageContext url_path (sePageURL e) (sePageTitle e)
       \<and> (cfSanitization f = SanitizationNone \<longleftrightarrow> Contains (seValue e) (apValue p))" if e: "ev = SinkEvent e" "plain_sink e" for e
  proof -
    have "f \<in> set (processSinkEvent url_path order s e)" using assms(2) e by (simp add: plain_sink_def)
    then obtain c p where cp: "c \<in> set (find_all canaryRegex None (seValue e))" "isContextValid s e p"
      "\<not> isErrorPageContext url_path (sePageURL e) (sePageTitle e)" "f = sink_finding s e c p"
      unfolding sink_event_findings [OF assms(1)] by blast
    have "validTaintFlows s (apType p, seType e) = Some True" using cp(2) by (auto simp: isContextValid_def split: if_splits)
    with cp find_all_substring [OF cp(1)] show ?thesis by (simp add: sink_finding_fields checkSanitization_none)
  qed
  with w show ?thesis unfolding well_reported_def supported_def by blast
qed

text \<open>
  A payload that reaches a sink unchanged is reported as unsanitized, when everything in front of
  its canary in the value consists of whole canaries and other text.
\<close>

lemma payload_reported:
  assumes "canary_shape c" and "seValue e = u @ c @ v" and "whole_canaries u" and "Contains (seValue e) (apValue p)"
    and "activeProbes s c = Some p"
    and "plain_sink e" and "isContextValid s e p" and "\<not> isErrorPageContext url_path (sePageURL e) (sePageTitle e)"
    and "\<forall>xs. mset (order xs) = mset xs"
  shows "\<exists>f\<in>set (processEvent url_path order s (SinkEvent e)).
    cfProbe f = Some p \<and> cfCanary f = c \<and> cfSink f = seType e \<and> cfSanitization f = SanitizationNone"
proof -
  have "c \<in> set (find_all canaryRegex None (seValue e))" using canary_found [OF assms(3,1)] assms(2) by simp
  then have "sink_finding s e c p \<in> set (processEvent url_path order s (SinkEvent e))"
    using assms(5-8) sink_event_findings [OF assms(9)] by (auto simp: plain_sink_def)
  then show ?thesis
    using assms(4) by (intro bexI [of _ "sink_finding s e c p"]) (simp_all add: sink_finding_fields checkSanitization_none)
qed

definition example_env :: payload_env where
  "example_env = \<lparr>oastServer = None, proofCallback = ''__scalpel_execution_proof_1a2b3c4d''\<rparr>"

definition example_canary :: string where
  "example_canary = generateCanary ''Q'' ''XSS'' ''0f1e2d3c-0000''"

definition example_active :: ActiveProbe where
  "example_active = \<lparr>apType = ''XSS'', apKey = ''sc_test_0'', apValue = preparePayload example_env (hd DefaultProbes) example_canary,
     apCanary = example_canary, apSource = ''URL_PARAM'', apCreatedAt = 0\<rparr>"

definition example_static :: static_finding where
  "example_static = \<lparr>fSource = ''location.search'', fSink = ''innerHTML'', fSinkType = ''DOM XSS (HTML Injection)'',
     fLocation = \<lparr>lFile = ''http://t.example/app.js'', lLine = 16, lColumn = 1, lSnippet = ''''\<rparr>,
     fConfidence = ''High'', fCanonicalType = ''INNER_HTML''\<rparr>"

definition example_taint_state :: taint_state where
  "example_taint_state = registerProbe example_active
     \<lparr>tsTaskID = ''task'', tsTarget = ''http://t.example/'', activeProbes = Map.empty, validTaintFlows = ValidTaintFlows,
      staticFindings = [''http://t.example/app.js'' \<mapsto> [example_static]]\<rparr>"

definition example_sink :: sink_event where
  "example_sink = \<lparr>seType = ''INNER_HTML'', seValue = ''<p>'' @ apValue example_active @ ''</p>'', seDetail = ''el.innerHTML'',
     seStackTrace = ''at f (http://t.example/app.js:15:10)'', sePageURL = ''http://t.example/?q'', sePageTitle = ''Search''\<rparr>"

definition example_path :: "string \<Rightarrow> string option" where
  "example_path u = Some ''/''"

lemma identity_order: "\<forall>xs :: (string \<times> ActiveProbe) list. mset (id xs) = mset xs"
  by simp

theorem taint_reports_justified_witness:
  "\<exists>f. processEvent example_path id example_taint_state (SinkEvent example_sink) = [f] \<and> cfIsConfirmed f \<and> cfConfirmedStatic f
     \<and> cfProbe f = Some example_active \<and> activeProbes example_taint_state (cfCanary f) = Some example_active
     \<and> Contains (seValue example_sink) (cfCanary f)"
proof -
  define fs where "fs = processEvent example_path id example_taint_state (SinkEvent example_sink)"
  have "length fs = 1" unfolding fs_def by code_simp
  then obtain f where f: "fs = [f]" by (auto simp: length_Suc_conv)
  have "list_all cfIsConfirmed fs" "list_all cfConfirmedStatic fs" unfolding fs_def by code_simp+
  moreover have "list_all (\<lambda>f. cfProbe f = Some example_active) fs" unfolding fs_def by code_simp
  moreover have m: "f \<in> set (processEvent example_path id example_taint_state (SinkEvent example_sink))"
    using f unfolding fs_def by simp
  moreover have "plain_sink example_sink" by (simp add: plain_sink_def example_sink_def)
  ultimately show ?thesis
    using taint_reports_justified [OF identity_order m] f unfolding fs_def by auto
qed

end
