(* ===== verification/TaintProbing.thy ===== *)
theory TaintProbing
  imports TaintAnalyzer
begin

text \<open>
  The probing phase of the active taint analyser (\<^verbatim>\<open>executeProbes\<close> and what it calls in
  \<^verbatim>\<open>internal/analysis/active/taint/taint_analyzer.go\<close>): which probes are registered, and which calls of
  the browser session inject them. The session is an interface; a call appends to \<open>pbCalls\<close>, and its
  error is only logged in the code. A pause fails when the context is done, which ends the phase;
  \<open>plPause\<close> says so for the n-th call. Random identifiers, the clock, the parsed target URL and its
  printed form are fields of \<open>probing_lib\<close>.
\<close>

section \<open>Query strings\<close>

type_synonym url_values = "(string \<times> string list) list"

definition hex_upper :: "nat \<Rightarrow> char" where
  "hex_upper n = (if n < 10 then char_of (48 + n) else char_of (55 + n))"

definition query_safe :: "char \<Rightarrow> bool" where
  "query_safe c = (let n = (of_char c :: nat) in
     48 \<le> n \<and> n \<le> 57 \<or> 65 \<le> n \<and> n \<le> 90 \<or> 97 \<le> n \<and> n \<le> 122 \<or> n = 45 \<or> n = 95 \<or> n = 46 \<or> n = 126)"

text \<open>\<^verbatim>\<open>url.QueryEscape\<close>.\<close>

definition QueryEscape :: "string \<Rightarrow> string" where
  "QueryEscape s = concat (map (\<lambda>c. if query_safe c then [c] else if c = CHR '' '' then ''+''
     else [CHR ''%'', hex_upper (of_char c div 16), hex_upper (of_char c mod 16)]) s)"

text \<open>\<^verbatim>\<open>Values.Set\<close>, \<^verbatim>\<open>Values.Add\<close> and \<^verbatim>\<open>Values.Encode\<close>.\<close>

definition values_set :: "string \<Rightarrow> string \<Rightarrow> url_values \<Rightarrow> url_values" where
  "values_set k v vs = (k, [v]) # filter (\<lambda>e. fst e \<noteq> k) vs"

definition values_add :: "string \<Rightarrow> string \<Rightarrow> url_values \<Rightarrow> url_values" where
  "values_add k v vs = (k, (case map_of vs k of None \<Rightarrow> [] | Some xs \<Rightarrow> xs) @ [v]) # filter (\<lambda>e. fst e \<noteq> k) vs"

definition values_encode :: "url_values \<Rightarrow> string" where
  "values_encode vs = Join (concat (map (\<lambda>(k, xs). map (\<lambda>v. QueryEscape k @ ''='' @ QueryEscape v) xs) (sort_key fst vs))) ''&''"

text \<open>\<^verbatim>\<open>json.Marshal\<close> of a string, on ASCII text; other UTF-8 text is kept.\<close>

definition hex_lower :: "nat \<Rightarrow> char" where
  "hex_lower n = (if n < 10 then char_of (48 + n) else char_of (87 + n))"

definition json_char :: "char \<Rightarrow> string" where
  "json_char c = (let n = (of_char c :: nat) in
     if n = 34 \<or> n = 92 then [CHR 0x5C, c]
     else if n = 8 then [CHR 0x5C, CHR ''b''] else if n = 12 then [CHR 0x5C, CHR ''f'']
     else if n = 10 then [CHR 0x5C, CHR ''n''] else if n = 13 then [CHR 0x5C, CHR ''r''] else if n = 9 then [CHR 0x5C, CHR ''t'']
     else if n < 32 \<or> n = 60 \<or> n = 62 \<or> n = 38 then [CHR 0x5C, CHR ''u'', CHR ''0'', CHR ''0'', hex_lower (n div 16), hex_lower (n mod 16)]
     else [c])"

definition json_string :: "string \<Rightarrow> string" where
  "json_string s = [CHR 0x22] @ concat (map json_char s) @ [CHR 0x22]"

section \<open>State\<close>

datatype browser_call = Navigate string | ExecuteScript string | Interact | Pause

record probing =
  pbTaint :: taint_state
  pbNext :: nat
  pbCalls :: "browser_call list"

record probing_lib =
  plUuid :: "nat \<Rightarrow> string"
  plPause :: "nat \<Rightarrow> bool"
  plNow :: "nat \<Rightarrow> int"
  plScheme :: string
  plQuery :: url_values
  plFragmentQuery :: url_values
  plPrint :: "string option \<Rightarrow> string option \<Rightarrow> string"

definition browser :: "browser_call \<Rightarrow> probing \<Rightarrow> probing" where
  "browser c st = st\<lparr>pbCalls := pbCalls st @ [c]\<rparr>"

text \<open>\<^verbatim>\<open>executePause\<close>: the new state and whether the phase goes on.\<close>

definition executePause :: "probing_lib \<Rightarrow> probing \<Rightarrow> bool \<times> probing" where
  "executePause lib st = (plPause lib (length (pbCalls st)), browser Pause st)"

text \<open>Running a step only while the pauses before it succeed.\<close>

definition after_pause :: "probing_lib \<Rightarrow> (probing \<Rightarrow> bool \<times> probing) \<Rightarrow> probing \<Rightarrow> bool \<times> probing" where
  "after_pause lib k st = (case executePause lib st of (ok, st') \<Rightarrow> if ok then k st' else (False, st'))"

definition finished :: "probing \<Rightarrow> bool \<times> probing" where
  "finished st = (True, st)"

section \<open>Injecting probes\<close>

text \<open>
  One injection: draw a canary, prepare the payload and, unless it is empty, register the probe;
  the payload is returned for the injection.
\<close>

definition place_probe ::
  "probing_lib \<Rightarrow> payload_env \<Rightarrow> string \<Rightarrow> string \<Rightarrow> string \<Rightarrow> ProbeDefinition \<Rightarrow> probing \<Rightarrow> string option \<times> probing" where
  "place_probe lib env prefix key src d st =
     (let canary = generateCanary prefix (pdType d) (plUuid lib (pbNext st));
          payload = preparePayload env d canary;
          st1 = st\<lparr>pbNext := Suc (pbNext st)\<rparr>
      in if payload = [] then (None, st1)
         else (Some payload, st1\<lparr>pbTaint := registerProbe
                 \<lparr>apType = pdType d, apKey = key, apValue = payload, apCanary = canary, apSource = src, apCreatedAt = plNow lib (pbNext st)\<rparr>
                 (pbTaint st1)\<rparr>))"

definition storage_line :: "string \<Rightarrow> string \<Rightarrow> string \<Rightarrow> string" where
  "storage_line store key payload =
     ''try { '' @ store @ ''.setItem('' @ [CHR 0x22] @ key @ [CHR 0x22] @ '', '' @ json_string payload @ ''); } catch(e) {}'' @ [CHR 0x0A]"

definition cookie_line :: "probing_lib \<Rightarrow> string \<Rightarrow> string \<Rightarrow> string" where
  "cookie_line lib name payload =
     ''try { document.cookie = `'' @ name @ ''='' @ QueryEscape payload @ ''; path=/; max-age=3600; samesite=Lax;'' @
     (if plScheme lib = ''https'' then '' Secure;'' else '''') @ ''`; } catch(e) {}'' @ [CHR 0x0A]"

definition add_line :: "(string \<Rightarrow> string) \<Rightarrow> string option \<times> probing \<Rightarrow> string \<Rightarrow> string \<times> probing" where
  "add_line mk r script = (case r of (None, st) \<Rightarrow> (script, st) | (Some payload, st) \<Rightarrow> (script @ mk payload, st))"

text \<open>The body of the loop of \<^verbatim>\<open>probePersistentSources\<close>: local storage, session storage, cookie.\<close>

definition persistent_step ::
  "probing_lib \<Rightarrow> payload_env \<Rightarrow> nat \<times> ProbeDefinition \<Rightarrow> string \<times> probing \<Rightarrow> string \<times> probing" where
  "persistent_step lib env nd acc =
     (case (nd, acc) of ((i, d), (script0, st0)) \<Rightarrow>
      (let lsKey = ''sc_store_'' @ itoa i; ssKey = ''sc_store_'' @ itoa i @ ''_s''; cookieName = ''sc_cookie_'' @ itoa i;
           (script1, st1) = add_line (storage_line ''localStorage'' lsKey) (place_probe lib env ''P'' lsKey ''LOCAL_STORAGE'' d st0) script0;
           (script2, st2) = add_line (storage_line ''sessionStorage'' ssKey) (place_probe lib env ''P'' ssKey ''SESSION_STORAGE'' d st1) script1
       in add_line (cookie_line lib cookieName) (place_probe lib env ''P'' cookieName ''COOKIE'' d st2) script2))"

definition probePersistentSources ::
  "probing_lib \<Rightarrow> payload_env \<Rightarrow> ProbeDefinition list \<Rightarrow> probing \<Rightarrow> bool \<times> probing" where
  "probePersistentSources lib env probes st =
     (case fold (persistent_step lib env) (enumerate 0 probes) ([], st) of (script, st') \<Rightarrow>
      if script = [] then (True, st')
      else after_pause lib (\<lambda>s1. after_pause lib (\<lambda>s2. after_pause lib finished
             (browser (Navigate (plPrint lib None None)) s2)) (browser (ExecuteScript script) s1)) st')"

definition test_key :: "nat \<Rightarrow> string" where
  "test_key i = ''sc_test_'' @ itoa i"

text \<open>The query and the fragment loop of \<^verbatim>\<open>probeURLSources\<close>.\<close>

definition query_step ::
  "probing_lib \<Rightarrow> payload_env \<Rightarrow> nat \<times> ProbeDefinition \<Rightarrow> (url_values \<times> nat) \<times> probing \<Rightarrow> (url_values \<times> nat) \<times> probing" where
  "query_step lib env nd acc =
     (case (nd, acc) of ((i, d), ((q, n), st)) \<Rightarrow>
      (case place_probe lib env ''Q'' (test_key i) ''URL_PARAM'' d st of
         (None, st') \<Rightarrow> ((q, n), st')
       | (Some payload, st') \<Rightarrow> ((values_set (test_key i) payload q, Suc n), st')))"

definition hash_step ::
  "probing_lib \<Rightarrow> payload_env \<Rightarrow> nat \<times> ProbeDefinition \<Rightarrow> string list \<times> probing \<Rightarrow> string list \<times> probing" where
  "hash_step lib env nd acc =
     (case (nd, acc) of ((i, d), (parts, st)) \<Rightarrow>
      (case place_probe lib env ''H'' (test_key i) ''HASH_FRAGMENT'' d st of
         (None, st') \<Rightarrow> (parts, st')
       | (Some payload, st') \<Rightarrow> (parts @ [test_key i @ ''='' @ QueryEscape payload], st')))"

definition navigate_paused :: "probing_lib \<Rightarrow> string \<Rightarrow> (probing \<Rightarrow> bool \<times> probing) \<Rightarrow> probing \<Rightarrow> bool \<times> probing" where
  "navigate_paused lib u k = after_pause lib (\<lambda>s. after_pause lib k (browser (Navigate u) s))"

definition probeURLSources :: "probing_lib \<Rightarrow> payload_env \<Rightarrow> ProbeDefinition list \<Rightarrow> probing \<Rightarrow> bool \<times> probing" where
  "probeURLSources lib env probes st =
     (let hash = (\<lambda>s. case fold (hash_step lib env) (enumerate 0 probes) ([], s) of (parts, s') \<Rightarrow>
            if parts = [] then (True, s')
            else navigate_paused lib (plPrint lib None (Some (Join parts ''&''))) finished s')
      in case fold (query_step lib env) (enumerate 0 probes) ((plQuery lib, 0), st) of ((q, n), s') \<Rightarrow>
         if n = 0 then hash s' else navigate_paused lib (plPrint lib (Some (values_encode q)) None) hash s')"

section \<open>Smart probes\<close>

text \<open>\<open>names\<close> lists the analysed files in the order the map is traversed.\<close>

definition allFindings :: "string list \<Rightarrow> taint_state \<Rightarrow> static_finding list" where
  "allFindings names s = concat (map (\<lambda>k. case staticFindings s k of None \<Rightarrow> [] | Some fs \<Rightarrow> fs) names)"

definition source_params :: "string \<Rightarrow> static_finding \<Rightarrow> string list" where
  "source_params kind f =
     filter (\<lambda>n. n \<noteq> []) (map (\<lambda>src. TrimPrefix src kind) (filter (\<lambda>src. HasPrefix src kind) (Split (fSource f) CHR ''|'')))"

definition targetParams :: "string \<Rightarrow> static_finding list \<Rightarrow> string list" where
  "targetParams kind fs = remdups (concat (map (source_params kind) fs))"

definition smart_step ::
  "probing_lib \<Rightarrow> payload_env \<Rightarrow> bool \<Rightarrow> string \<Rightarrow> ProbeDefinition \<Rightarrow> (url_values \<times> nat) \<times> probing \<Rightarrow> (url_values \<times> nat) \<times> probing" where
  "smart_step lib env useHash param d acc =
     (case acc of ((vs, n), st) \<Rightarrow>
      if pdType d = ProbeTypePrototypePollution \<and> pdContext d \<noteq> ''QS_PARSE_MERGE'' then acc
      else (case place_probe lib env (if useHash then ''SMART_H'' else ''SMART_Q'') param (if useHash then ''HASH_FRAGMENT'' else ''URL_PARAM'') d st of
              (None, st') \<Rightarrow> ((vs, n), st')
            | (Some payload, st') \<Rightarrow> ((values_add param payload vs, Suc n), st')))"

text \<open>The loop over the parameters, in the order the map is traversed.\<close>

fun probeSpecificURLParams ::
  "probing_lib \<Rightarrow> payload_env \<Rightarrow> ProbeDefinition list \<Rightarrow> bool \<Rightarrow> string list \<Rightarrow> probing \<Rightarrow> bool \<times> probing" where
  "probeSpecificURLParams lib env probes useHash [] st = (True, st)"
| "probeSpecificURLParams lib env probes useHash (param # params) st =
     (case fold (smart_step lib env useHash param) probes ((if useHash then plFragmentQuery lib else plQuery lib, 0), st) of ((vs, n), st') \<Rightarrow>
      if n = 0 then probeSpecificURLParams lib env probes useHash params st'
      else navigate_paused lib (if useHash then plPrint lib None (Some (values_encode vs)) else plPrint lib (Some (values_encode vs)) None)
             (probeSpecificURLParams lib env probes useHash params) st')"

text \<open>\<open>order\<close> is the order in which a map of parameters is traversed.\<close>

definition generateAndExecuteSmartProbes ::
  "probing_lib \<Rightarrow> payload_env \<Rightarrow> string list \<Rightarrow> (string list \<Rightarrow> string list) \<Rightarrow> ProbeDefinition list \<Rightarrow> probing \<Rightarrow> probing" where
  "generateAndExecuteSmartProbes lib env names order probes st =
     (let fs = allFindings names (pbTaint st);
          targetQueryParams = targetParams ''param:query:'' fs;
          targetHashParams = targetParams ''param:hash:'' fs;
          st1 = snd (probeSpecificURLParams lib env probes False (order targetQueryParams) st)
      in snd (probeSpecificURLParams lib env probes True (order targetHashParams) st1))"

text \<open>Errors of a phase are logged; only a failed pause of \<^verbatim>\<open>executeProbes\<close> itself ends it.\<close>

definition executeProbes ::
  "probing_lib \<Rightarrow> payload_env \<Rightarrow> string list \<Rightarrow> (string list \<Rightarrow> string list) \<Rightarrow> ProbeDefinition list \<Rightarrow> probing \<Rightarrow> bool \<times> probing" where
  "executeProbes lib env names order probes =
     after_pause lib (\<lambda>s0. after_pause lib (\<lambda>s1. after_pause lib (\<lambda>s2.
       after_pause lib (\<lambda>s3. (True, snd (executePause lib (browser Interact s3))))
         (generateAndExecuteSmartProbes lib env names order probes (snd (probeURLSources lib env probes s2))))
       (snd (probePersistentSources lib env probes s1)))
       (browser (Navigate (plPrint lib None None)) s0))"


section \<open>Every registered probe is injected\<close>

text \<open>A probe made from one of the definitions, with one of the identifiers.\<close>

definition placed :: "probing_lib \<Rightarrow> payload_env \<Rightarrow> ProbeDefinition list \<Rightarrow> ActiveProbe \<Rightarrow> bool" where
  "placed lib env probes p \<longleftrightarrow> (\<exists>d\<in>set probes. \<exists>prefix\<in>set canary_prefixes. \<exists>n.
     apCanary p = generateCanary prefix (pdType d) (plUuid lib n) \<and> apType p = pdType d
     \<and> apValue p = preparePayload env d (apCanary p) \<and> apValue p \<noteq> [])"

text \<open>Where the payload of a probe stands in what is given to the browser.\<close>

definition in_script :: "probing_lib \<Rightarrow> string \<Rightarrow> ActiveProbe \<Rightarrow> bool" where
  "in_script lib script p \<longleftrightarrow>
     apSource p = ''LOCAL_STORAGE'' \<and> Contains script (storage_line ''localStorage'' (apKey p) (apValue p))
     \<or> apSource p = ''SESSION_STORAGE'' \<and> Contains script (storage_line ''sessionStorage'' (apKey p) (apValue p))
     \<or> apSource p = ''COOKIE'' \<and> Contains script (cookie_line lib (apKey p) (apValue p))"

definition in_values :: "url_values \<Rightarrow> ActiveProbe \<Rightarrow> bool" where
  "in_values vs p \<longleftrightarrow> (\<exists>xs. (apKey p, xs) \<in> set vs \<and> apValue p \<in> set xs)"

definition in_parts :: "string list \<Rightarrow> ActiveProbe \<Rightarrow> bool" where
  "in_parts parts p \<longleftrightarrow> apSource p = ''HASH_FRAGMENT'' \<and> apKey p @ ''='' @ QueryEscape (apValue p) \<in> set parts"

definition carried :: "probing_lib \<Rightarrow> browser_call list \<Rightarrow> ActiveProbe \<Rightarrow> bool" where
  "carried lib calls p \<longleftrightarrow>
     (\<exists>script. ExecuteScript script \<in> set calls \<and> in_script lib script p)
     \<or> (\<exists>vs. Navigate (plPrint lib (Some (values_encode vs)) None) \<in> set calls \<and> apSource p = ''URL_PARAM'' \<and> in_values vs p)
     \<or> (\<exists>vs. Navigate (plPrint lib None (Some (values_encode vs))) \<in> set calls \<and> apSource p = ''HASH_FRAGMENT'' \<and> in_values vs p)
     \<or> (\<exists>parts. Navigate (plPrint lib None (Some (Join parts ''&''))) \<in> set calls \<and> in_parts parts p)"

text \<open>A phase that registers probes with a property, and changes nothing else of the analyser.\<close>

definition registers :: "probing_lib \<Rightarrow> payload_env \<Rightarrow> ProbeDefinition list \<Rightarrow> (ActiveProbe \<Rightarrow> bool) \<Rightarrow> probing \<Rightarrow> probing \<Rightarrow> bool" where
  "registers lib env probes A st st' \<longleftrightarrow>
     (\<forall>c p. activeProbes (pbTaint st') c = Some p \<longrightarrow>
        activeProbes (pbTaint st) c = Some p \<or> apCanary p = c \<and> placed lib env probes p \<and> A p)
     \<and> (\<exists>m. pbTaint st' = (pbTaint st)\<lparr>activeProbes := m\<rparr>) \<and> set (pbCalls st) \<subseteq> set (pbCalls st')"

lemma registers_refl: "registers lib env probes A st st"
  unfolding registers_def by (metis order_refl taint_state.surjective taint_state.update_convs(3))

lemma registers_trans:
  assumes "registers lib env probes A st st'" and "registers lib env probes B st' st''" and "\<And>p. A p \<Longrightarrow> C p" and "\<And>p. B p \<Longrightarrow> C p"
  shows "registers lib env probes C st st''"
proof -
  obtain m m' where "pbTaint st' = (pbTaint st)\<lparr>activeProbes := m\<rparr>" "pbTaint st'' = (pbTaint st')\<lparr>activeProbes := m'\<rparr>"
    using assms(1,2) unfolding registers_def by blast
  then have "pbTaint st'' = (pbTaint st)\<lparr>activeProbes := m'\<rparr>" by simp
  then have "\<exists>m. pbTaint st'' = (pbTaint st)\<lparr>activeProbes := m\<rparr>" by blast
  with assms show ?thesis unfolding registers_def by (meson subset_trans)
qed

lemma registers_place:
  assumes "place_probe lib env prefix key src d st = (r, st')" and "d \<in> set probes" and "prefix \<in> set canary_prefixes"
  shows "registers lib env probes (\<lambda>p. r = Some (apValue p) \<and> apKey p = key \<and> apSource p = src) st st'
     \<and> pbCalls st' = pbCalls st \<and> (r = None \<longrightarrow> activeProbes (pbTaint st') = activeProbes (pbTaint st))"
proof -
  let ?c = "generateCanary prefix (pdType d) (plUuid lib (pbNext st))"
  show ?thesis
  proof (cases "preparePayload env d ?c = []")
    case True
    with assms(1) have "st' = st\<lparr>pbNext := Suc (pbNext st)\<rparr>" "r = None" by (auto simp: place_probe_def Let_def)
    then show ?thesis using registers_refl [of lib env probes _ st] by (simp add: registers_def)
  next
    case False
    define p where "p = \<lparr>apType = pdType d, apKey = key, apValue = preparePayload env d ?c, apCanary = ?c, apSource = src, apCreatedAt = plNow lib (pbNext st)\<rparr>"
    have st': "pbTaint st' = registerProbe p (pbTaint st)" "pbCalls st' = pbCalls st" and r: "r = Some (apValue p)"
      using False assms(1) by (auto simp: place_probe_def Let_def p_def)
    have "placed lib env probes p" using assms(2,3) False unfolding placed_def p_def by auto
    then show ?thesis
      unfolding registers_def st' r by (auto simp: registerProbe_def p_def split: if_splits)
  qed
qed

lemma in_script_append: "in_script lib a p \<Longrightarrow> in_script lib (a @ b) p"
proof -
  have "Contains a x \<Longrightarrow> Contains (a @ b) x" for x unfolding Contains_iff by (metis append_assoc)
  then show "in_script lib a p \<Longrightarrow> in_script lib (a @ b) p" unfolding in_script_def by blast
qed

text \<open>One line of the persistent script.\<close>

lemma registers_line:
  assumes "registers lib env probes (in_script lib script) st0 st" and "d \<in> set probes"
    and "add_line mk (place_probe lib env ''P'' key src d st) script = (script', st')"
    and "\<And>p. apKey p = key \<Longrightarrow> apSource p = src \<Longrightarrow> in_script lib (mk (apValue p)) p"
  shows "registers lib env probes (in_script lib script') st0 st' \<and> pbCalls st' = pbCalls st"
proof -
  obtain r st1 where pl: "place_probe lib env ''P'' key src d st = (r, st1)" by fastforce
  have P: "''P'' \<in> set canary_prefixes" by (simp add: canary_prefixes_def)
  note reg = registers_place [OF pl assms(2) P]
  have s': "st' = st1" "script' = script @ (case r of None \<Rightarrow> [] | Some x \<Rightarrow> mk x)"
    using assms(3) pl by (auto simp: add_line_def split: option.splits)
  have "in_script lib script' p" if "r = Some (apValue p) \<and> apKey p = key \<and> apSource p = src" for p
  proof -
    have "in_script lib (mk (apValue p)) p" using assms(4) that by blast
    moreover have "Contains (script @ mk (apValue p)) x" if "Contains (mk (apValue p)) x" for x
      using that unfolding Contains_iff by (metis append_assoc)
    ultimately show ?thesis using s'(2) that unfolding in_script_def by auto
  qed
  moreover have "in_script lib script' p" if "in_script lib script p" for p using that s'(2) in_script_append by blast
  ultimately show ?thesis
    using registers_trans [OF assms(1) conjunct1 [OF reg]] reg s'(1) by metis
qed


lemma persistent_step_keeps:
  assumes "registers lib env probes (in_script lib (fst acc)) st0 (snd acc) \<and> pbCalls (snd acc) = pbCalls st0" and "d \<in> set probes"
  shows "registers lib env probes (in_script lib (fst (persistent_step lib env (i, d) acc))) st0 (snd (persistent_step lib env (i, d) acc))
    \<and> pbCalls (snd (persistent_step lib env (i, d) acc)) = pbCalls st0"
proof -
  obtain script0 st where acc: "acc = (script0, st)" by (cases acc)
  let ?ls = "''sc_store_'' @ itoa i" and ?ss = "''sc_store_'' @ itoa i @ ''_s''" and ?ck = "''sc_cookie_'' @ itoa i"
  obtain script1 st1 where l1: "add_line (storage_line ''localStorage'' ?ls) (place_probe lib env ''P'' ?ls ''LOCAL_STORAGE'' d st) script0 = (script1, st1)"
    by fastforce
  obtain script2 st2 where l2: "add_line (storage_line ''sessionStorage'' ?ss) (place_probe lib env ''P'' ?ss ''SESSION_STORAGE'' d st1) script1 = (script2, st2)"
    by fastforce
  obtain script3 st3 where l3: "add_line (cookie_line lib ?ck) (place_probe lib env ''P'' ?ck ''COOKIE'' d st2) script2 = (script3, st3)"
    by fastforce
  have here: "Contains x x" for x unfolding Contains_iff by (metis append_Nil append_Nil2)
  have "registers lib env probes (in_script lib script1) st0 st1 \<and> pbCalls st1 = pbCalls st"
    using assms here unfolding acc by (intro registers_line [OF _ assms(2) l1]) (auto simp: in_script_def)
  moreover from this have "registers lib env probes (in_script lib script2) st0 st2 \<and> pbCalls st2 = pbCalls st1"
    using here by (intro registers_line [OF _ assms(2) l2]) (auto simp: in_script_def)
  moreover from this have "registers lib env probes (in_script lib script3) st0 st3 \<and> pbCalls st3 = pbCalls st2"
    using here by (intro registers_line [OF _ assms(2) l3]) (auto simp: in_script_def)
  moreover have "persistent_step lib env (i, d) acc = (script3, st3)"
    using l1 l2 l3 by (simp add: persistent_step_def acc Let_def)
  ultimately show ?thesis using assms(1) acc by simp
qed

lemma enumerate_fold:
  assumes "I acc" and "\<And>i d acc. d \<in> set probes \<Longrightarrow> I acc \<Longrightarrow> I (f (i, d) acc)"
  shows "I (fold f (enumerate n probes) acc)"
proof -
  have "I (fold f xs acc)" if "snd ` set xs \<subseteq> set probes" for xs
    using that assms(1)
  proof (induction xs arbitrary: acc)
    case (Cons x xs)
    then show ?case using assms(2) [of "snd x" acc "fst x"] by simp
  qed simp
  moreover have "snd ` set (enumerate n probes) \<subseteq> set probes"
    by (metis image_set map_snd_enumerate order_refl)
  ultimately show ?thesis by blast
qed

lemma pauses_go_on: "\<forall>n. plPause lib n \<Longrightarrow> after_pause lib k st = k (browser Pause st)"
  by (simp add: after_pause_def executePause_def)

lemma registers_calls:
  assumes "registers lib env probes A st st'" and "\<And>p. A p \<Longrightarrow> carried lib (pbCalls st'') p"
    and "pbTaint st'' = pbTaint st'" and "set (pbCalls st') \<subseteq> set (pbCalls st'')"
  shows "registers lib env probes (carried lib (pbCalls st'')) st st''"
  using assms unfolding registers_def by (metis subset_trans)

lemma browser_simps [simp]: "pbTaint (browser c st) = pbTaint st" "pbCalls (browser c st) = pbCalls st @ [c]"
  by (simp_all add: browser_def)

lemma registers_browser: "registers lib env probes A st (browser c st)"
  using registers_refl [of lib env probes A st] by (auto simp: registers_def)

text \<open>Phases follow each other: later calls keep what earlier ones carried.\<close>

lemma carried_mono: "carried lib calls p \<Longrightarrow> set calls \<subseteq> set calls' \<Longrightarrow> carried lib calls' p"
  unfolding carried_def by blast

definition injects :: "probing_lib \<Rightarrow> payload_env \<Rightarrow> ProbeDefinition list \<Rightarrow> probing \<Rightarrow> probing \<Rightarrow> bool" where
  "injects lib env probes st st' \<longleftrightarrow> registers lib env probes (carried lib (pbCalls st')) st st'"

lemma injects_trans: "injects lib env probes st st' \<Longrightarrow> injects lib env probes st' st'' \<Longrightarrow> injects lib env probes st st''"
proof -
  assume a: "injects lib env probes st st'" "injects lib env probes st' st''"
  then have "set (pbCalls st') \<subseteq> set (pbCalls st'')" by (simp add: injects_def registers_def)
  then show ?thesis
    using registers_trans [OF a [unfolded injects_def], of "carried lib (pbCalls st'')"] carried_mono unfolding injects_def by blast
qed

lemma injects_browser: "injects lib env probes st (browser c st)"
  unfolding injects_def by (rule registers_browser)

lemma injects_persistent:
  assumes "\<forall>n. plPause lib n"
  shows "injects lib env probes st (snd (probePersistentSources lib env probes st))"
proof -
  obtain script st1 where f: "fold (persistent_step lib env) (enumerate 0 probes) ([], st) = (script, st1)" by fastforce
  have "registers lib env probes (in_script lib (fst (script, st1))) st (snd (script, st1)) \<and> pbCalls (snd (script, st1)) = pbCalls st"
    unfolding f [symmetric]
    by (rule enumerate_fold [where I = "\<lambda>acc. registers lib env probes (in_script lib (fst acc)) st (snd acc) \<and> pbCalls (snd acc) = pbCalls st"])
       (simp add: registers_refl, rule persistent_step_keeps)
  then have r: "registers lib env probes (in_script lib script) st st1" by simp
  let ?st = "snd (probePersistentSources lib env probes st)"
  show ?thesis
  proof (cases "script = []")
    case True
    then have "?st = st1" by (simp add: probePersistentSources_def f)
    moreover have "\<not> in_script lib script p" for p
      using True by (auto simp: in_script_def storage_line_def cookie_line_def)
    ultimately show ?thesis using registers_calls [OF r, of st1] unfolding injects_def by simp
  next
    case False
    then have s: "pbTaint ?st = pbTaint st1" "pbCalls ?st = pbCalls st1 @ [Pause, ExecuteScript script, Pause, Navigate (plPrint lib None None), Pause]"
      by (simp_all add: probePersistentSources_def f pauses_go_on [OF assms] finished_def)
    show ?thesis unfolding injects_def
      by (rule registers_calls [OF r]) (auto simp: s carried_def)
  qed
qed


text \<open>The query loop: keys are numbered, so no probe replaces another one's value.\<close>

definition numbered_below :: "nat \<Rightarrow> ActiveProbe \<Rightarrow> bool" where
  "numbered_below n p \<longleftrightarrow> (\<exists>i<n. apKey p = test_key i)"

definition query_inv :: "probing_lib \<Rightarrow> payload_env \<Rightarrow> ProbeDefinition list \<Rightarrow> probing \<Rightarrow> nat \<Rightarrow> (url_values \<times> nat) \<times> probing \<Rightarrow> bool" where
  "query_inv lib env probes st i acc \<longleftrightarrow>
     registers lib env probes (\<lambda>p. apSource p = ''URL_PARAM'' \<and> in_values (fst (fst acc)) p \<and> numbered_below i p \<and> 0 < snd (fst acc)) st (snd acc)"

lemma test_key_inj: "test_key i = test_key j \<longleftrightarrow> i = j"
  using itoa_inj by (auto simp: test_key_def)

lemma in_values_set: "in_values vs p \<Longrightarrow> apKey p \<noteq> k \<Longrightarrow> in_values (values_set k v vs) p"
  by (auto simp: in_values_def values_set_def)

lemma query_step_keeps:
  assumes "query_inv lib env probes st0 i acc" and "d \<in> set probes"
  shows "query_inv lib env probes st0 (Suc i) (query_step lib env (i, d) acc)"
proof -
  obtain q n st where acc: "acc = ((q, n), st)" by (metis surj_pair)
  let ?k = "test_key i"
  obtain r st' where pl: "place_probe lib env ''Q'' ?k ''URL_PARAM'' d st = (r, st')" by fastforce
  have Q: "''Q'' \<in> set canary_prefixes" by (simp add: canary_prefixes_def)
  note reg = registers_place [OF pl assms(2) Q]
  have old: "registers lib env probes (\<lambda>p. apSource p = ''URL_PARAM'' \<and> in_values q p \<and> numbered_below i p \<and> 0 < n) st0 st"
    using assms(1) by (simp add: query_inv_def acc)
  have below: "numbered_below (Suc i) p \<and> apKey p \<noteq> ?k" if "numbered_below i p" for p
    using that test_key_inj unfolding numbered_below_def by (metis less_Suc_eq less_irrefl)
  have "\<exists>q' n'. query_step lib env (i, d) acc = ((q', n'), st')
      \<and> (\<forall>p. apSource p = ''URL_PARAM'' \<and> in_values q p \<and> numbered_below i p \<and> 0 < n \<longrightarrow> in_values q' p \<and> 0 < n')
      \<and> (\<forall>p. r = Some (apValue p) \<and> apKey p = ?k \<longrightarrow> in_values q' p \<and> 0 < n')"
  proof (cases r)
    case None
    then show ?thesis by (simp add: query_step_def acc pl)
  next
    case (Some payload)
    then have "query_step lib env (i, d) acc = ((values_set ?k payload q, Suc n), st')" by (simp add: query_step_def acc pl)
    moreover have "in_values (values_set ?k payload q) p" if "apValue p = payload" "apKey p = ?k" for p
      using that by (auto simp: in_values_def values_set_def)
    ultimately show ?thesis using Some below in_values_set by (metis option.inject zero_less_Suc)
  qed
  then obtain q' n' where step: "query_step lib env (i, d) acc = ((q', n'), st')"
    and keep: "\<And>p. apSource p = ''URL_PARAM'' \<and> in_values q p \<and> numbered_below i p \<and> 0 < n \<Longrightarrow> in_values q' p \<and> 0 < n'"
    and new: "\<And>p. r = Some (apValue p) \<and> apKey p = ?k \<Longrightarrow> in_values q' p \<and> 0 < n'" by blast
  have mine: "numbered_below (Suc i) p" if "apKey p = ?k" for p using that unfolding numbered_below_def by blast
  show ?thesis
    unfolding query_inv_def step fst_conv snd_conv
    by (rule registers_trans [OF old conjunct1 [OF reg]]) (use keep new below mine in blast)+
qed

lemma query_fold:
  assumes "query_inv lib env probes st0 i acc" and "set ds \<subseteq> set probes"
  shows "\<exists>j. query_inv lib env probes st0 j (fold (query_step lib env) (enumerate i ds) acc)"
  using assms
proof (induction ds arbitrary: i acc)
  case (Cons d ds)
  show ?case using Cons.IH [OF query_step_keeps [OF Cons.prems(1), of d]] Cons.prems(2) by simp
qed auto

lemma hash_step_keeps:
  assumes "registers lib env probes (in_parts (fst acc)) st0 (snd acc)" and "d \<in> set probes"
  shows "registers lib env probes (in_parts (fst (hash_step lib env (i, d) acc))) st0 (snd (hash_step lib env (i, d) acc))"
proof -
  obtain parts st where acc: "acc = (parts, st)" by fastforce
  let ?k = "test_key i"
  obtain r st' where pl: "place_probe lib env ''H'' ?k ''HASH_FRAGMENT'' d st = (r, st')" by fastforce
  have H: "''H'' \<in> set canary_prefixes" by (simp add: canary_prefixes_def)
  note reg = registers_place [OF pl assms(2) H]
  have old: "registers lib env probes (in_parts parts) st0 st" using assms(1) by (simp add: acc)
  have "hash_step lib env (i, d) acc = (parts @ (case r of None \<Rightarrow> [] | Some x \<Rightarrow> [?k @ ''='' @ QueryEscape x]), st')"
    by (simp add: hash_step_def acc pl split: option.splits)
  then show ?thesis
    by (simp only: fst_conv snd_conv) (rule registers_trans [OF old conjunct1 [OF reg]], auto simp: in_parts_def)
qed

lemma injects_navigate:
  assumes "\<forall>n. plPause lib n" and "registers lib env probes A st st'" and "\<And>p calls. A p \<Longrightarrow> Navigate u \<in> set calls \<Longrightarrow> carried lib calls p"
    and "\<And>s. injects lib env probes s (snd (k s))"
  shows "injects lib env probes st (snd (navigate_paused lib u k st'))"
proof -
  let ?s = "browser Pause (browser (Navigate u) (browser Pause st'))"
  have "injects lib env probes st ?s"
    unfolding injects_def by (rule registers_calls [OF assms(2)]) (use assms(3) in auto)
  moreover have "snd (navigate_paused lib u k st') = snd (k ?s)" by (simp add: navigate_paused_def pauses_go_on [OF assms(1)])
  ultimately show ?thesis using injects_trans [OF _ assms(4)] by simp
qed

lemma injects_finished: "injects lib env probes s (snd (finished s))"
  by (simp add: finished_def injects_def registers_refl)


lemma registers_weaken: "registers lib env probes A st st' \<Longrightarrow> (\<And>p. A p \<Longrightarrow> B p) \<Longrightarrow> registers lib env probes B st st'"
  unfolding registers_def by blast

lemma injects_hash:
  assumes "\<forall>n. plPause lib n"
  shows "injects lib env probes s (snd (case fold (hash_step lib env) (enumerate 0 probes) ([], s) of (parts, s') \<Rightarrow>
      if parts = [] then (True, s') else navigate_paused lib (plPrint lib None (Some (Join parts ''&''))) finished s'))"
proof -
  obtain parts s' where f: "fold (hash_step lib env) (enumerate 0 probes) ([], s) = (parts, s')" by fastforce
  have "registers lib env probes (in_parts (fst (parts, s'))) s (snd (parts, s'))"
    unfolding f [symmetric]
    by (rule enumerate_fold [where I = "\<lambda>acc. registers lib env probes (in_parts (fst acc)) s (snd acc)"])
       (simp add: registers_refl, rule hash_step_keeps)
  then have r: "registers lib env probes (in_parts parts) s s'" by simp
  show ?thesis
  proof (cases "parts = []")
    case True
    then show ?thesis
      using registers_weaken [OF r, of "carried lib (pbCalls s')"] by (simp add: f injects_def in_parts_def)
  next
    case False
    have "injects lib env probes s (snd (navigate_paused lib (plPrint lib None (Some (Join parts ''&''))) finished s'))"
      by (rule injects_navigate [OF assms r _ injects_finished]) (unfold carried_def, blast)
    with False show ?thesis by (simp add: f)
  qed
qed

lemma injects_urls:
  assumes "\<forall>n. plPause lib n"
  shows "injects lib env probes st (snd (probeURLSources lib env probes st))"
proof -
  define hash where "hash = (\<lambda>s. case fold (hash_step lib env) (enumerate 0 probes) ([], s) of (parts, s') \<Rightarrow>
      if parts = [] then (True, s') else navigate_paused lib (plPrint lib None (Some (Join parts ''&''))) finished s')"
  have hash: "injects lib env probes s (snd (hash s))" for s
    unfolding hash_def by (rule injects_hash [OF assms])
  obtain q n s' where f: "fold (query_step lib env) (enumerate 0 probes) ((plQuery lib, 0), st) = ((q, n), s')"
    by (metis surj_pair)
  have "query_inv lib env probes st 0 ((plQuery lib, 0), st)" by (simp add: query_inv_def registers_refl)
  then obtain j where "query_inv lib env probes st j ((q, n), s')" using query_fold f by (metis order_refl)
  then have r: "registers lib env probes (\<lambda>p. apSource p = ''URL_PARAM'' \<and> in_values q p \<and> numbered_below j p \<and> 0 < n) st s'"
    by (simp add: query_inv_def)
  have url: "probeURLSources lib env probes st =
      (if n = 0 then hash s' else navigate_paused lib (plPrint lib (Some (values_encode q)) None) hash s')"
    unfolding probeURLSources_def Let_def f hash_def by simp
  show ?thesis
  proof (cases "n = 0")
    case True
    then have "injects lib env probes st s'" using registers_weaken [OF r] by (simp add: injects_def)
    with hash True url show ?thesis using injects_trans by simp
  next
    case False
    have "injects lib env probes st (snd (navigate_paused lib (plPrint lib (Some (values_encode q)) None) hash s'))"
      by (rule injects_navigate [OF assms r _ hash]) (unfold carried_def, blast)
    with False show ?thesis by (simp add: url)
  qed
qed

lemma in_values_add: "in_values vs p \<Longrightarrow> distinct (map fst vs) \<Longrightarrow> in_values (values_add k v vs) p"
  by (cases "apKey p = k") (auto simp: in_values_def values_add_def)

lemma distinct_values_add: "distinct (map fst vs) \<Longrightarrow> distinct (map fst (values_add k v vs))"
  by (auto simp: values_add_def distinct_map intro: inj_on_subset)


definition smart_source :: "bool \<Rightarrow> string" where
  "smart_source useHash = (if useHash then ''HASH_FRAGMENT'' else ''URL_PARAM'')"

definition smart_inv :: "probing_lib \<Rightarrow> payload_env \<Rightarrow> ProbeDefinition list \<Rightarrow> bool \<Rightarrow> probing \<Rightarrow> (url_values \<times> nat) \<times> probing \<Rightarrow> bool" where
  "smart_inv lib env probes useHash st acc \<longleftrightarrow> distinct (map fst (fst (fst acc)))
     \<and> registers lib env probes (\<lambda>p. apSource p = smart_source useHash \<and> in_values (fst (fst acc)) p \<and> 0 < snd (fst acc)) st (snd acc)"

lemma smart_step_keeps:
  assumes "smart_inv lib env probes useHash st0 acc" and "d \<in> set probes"
  shows "smart_inv lib env probes useHash st0 (smart_step lib env useHash param d acc)"
proof (cases "pdType d = ProbeTypePrototypePollution \<and> pdContext d \<noteq> ''QS_PARSE_MERGE''")
  case True
  with assms(1) show ?thesis by (simp add: smart_step_def split: prod.splits)
next
  case False
  obtain vs n st where acc: "acc = ((vs, n), st)" by (metis surj_pair)
  define prefix where "prefix = (if useHash then ''SMART_H'' else ''SMART_Q'')"
  obtain r st' where pl: "place_probe lib env prefix param (smart_source useHash) d st = (r, st')" by fastforce
  have P: "prefix \<in> set canary_prefixes" by (simp add: canary_prefixes_def prefix_def)
  note reg = registers_place [OF pl assms(2) P]
  have old: "distinct (map fst vs)"
    "registers lib env probes (\<lambda>p. apSource p = smart_source useHash \<and> in_values vs p \<and> 0 < n) st0 st"
    using assms(1) by (simp_all add: smart_inv_def acc)
  define vs' where "vs' = (case r of None \<Rightarrow> vs | Some payload \<Rightarrow> values_add param payload vs)"
  define n' where "n' = (case r of None \<Rightarrow> n | Some payload \<Rightarrow> Suc n)"
  have step: "smart_step lib env useHash param d acc = ((vs', n'), st')"
    using False pl by (auto simp: smart_step_def acc vs'_def n'_def prefix_def smart_source_def split: option.splits)
  have new: "in_values vs' p \<and> 0 < n'" if "r = Some (apValue p) \<and> apKey p = param \<and> apSource p = smart_source useHash" for p
    using that by (auto simp: vs'_def n'_def in_values_def values_add_def)
  have keep: "in_values vs' p \<and> 0 < n'" if "apSource p = smart_source useHash \<and> in_values vs p \<and> 0 < n" for p
    using that in_values_add [OF _ old(1)] by (auto simp: vs'_def n'_def split: option.splits)
  have "distinct (map fst vs')" using old(1) distinct_values_add by (auto simp: vs'_def split: option.splits)
  moreover have "registers lib env probes (\<lambda>p. apSource p = smart_source useHash \<and> in_values vs' p \<and> 0 < n') st0 st'"
    by (rule registers_trans [OF old(2) conjunct1 [OF reg]]) (use keep new in blast)+
  ultimately show ?thesis unfolding smart_inv_def step by simp
qed

lemma injects_params:
  assumes "\<forall>n. plPause lib n" and "distinct (map fst (plQuery lib))" and "distinct (map fst (plFragmentQuery lib))"
  shows "injects lib env probes st (snd (probeSpecificURLParams lib env probes useHash params st))"
proof (induction params arbitrary: st)
  case (Cons param params)
  let ?init = "((if useHash then plFragmentQuery lib else plQuery lib, 0), st)"
  obtain vs n st' where f: "fold (smart_step lib env useHash param) probes ?init = ((vs, n), st')" by (metis surj_pair)
  have fold_inv: "smart_inv lib env probes useHash st (fold (smart_step lib env useHash param) ds acc)"
    if "set ds \<subseteq> set probes" "smart_inv lib env probes useHash st acc" for ds acc
    using that
  proof (induction ds arbitrary: acc)
    case (Cons d ds)
    then show ?case using Cons.IH [OF _ smart_step_keeps [OF Cons.prems(2), of d param]] by simp
  qed simp
  have "smart_inv lib env probes useHash st ?init" using assms(2,3) by (simp add: smart_inv_def registers_refl)
  then have r: "registers lib env probes (\<lambda>p. apSource p = smart_source useHash \<and> in_values vs p \<and> 0 < n) st st'"
    using fold_inv [of probes ?init] by (simp add: f smart_inv_def)
  define u where "u = (if useHash then plPrint lib None (Some (values_encode vs)) else plPrint lib (Some (values_encode vs)) None)"
  show ?case
  proof (cases "n = 0")
    case True
    then have "injects lib env probes st st'" using registers_weaken [OF r] by (simp add: injects_def)
    with Cons True f show ?thesis using injects_trans by simp
  next
    case False
    have "injects lib env probes st (snd (navigate_paused lib u (probeSpecificURLParams lib env probes useHash params) st'))"
      by (rule injects_navigate [OF assms(1) r _ Cons]) (auto simp: carried_def u_def smart_source_def)
    with False f show ?thesis by (simp add: u_def)
  qed
qed (simp add: injects_def registers_refl)

lemma injects_probes:
  assumes "\<forall>n. plPause lib n" and "distinct (map fst (plQuery lib))" and "distinct (map fst (plFragmentQuery lib))"
  shows "injects lib env probes st (snd (executeProbes lib env names order probes st))"
proof -
  note trans = injects_trans [of lib env probes]
  have smart: "injects lib env probes s (generateAndExecuteSmartProbes lib env names order probes s)" for s
    unfolding generateAndExecuteSmartProbes_def Let_def by (rule trans) (rule injects_params [OF assms])+
  let ?s1 = "browser Pause (browser (Navigate (plPrint lib None None)) (browser Pause st))"
  let ?s2 = "browser Pause (snd (probePersistentSources lib env probes ?s1))"
  let ?s3 = "browser Pause (generateAndExecuteSmartProbes lib env names order probes (snd (probeURLSources lib env probes ?s2)))"
  have "snd (executeProbes lib env names order probes st) = browser Pause (browser Interact ?s3)"
    by (simp add: executeProbes_def pauses_go_on [OF assms(1)] executePause_def)
  moreover have "injects lib env probes st ?s1" by (meson injects_browser trans)
  moreover have "injects lib env probes ?s1 ?s2" by (meson injects_browser trans injects_persistent [OF assms(1)])
  moreover have "injects lib env probes ?s2 ?s3" by (meson injects_browser trans injects_urls [OF assms(1)] smart)
  moreover have "injects lib env probes ?s3 (browser Pause (browser Interact ?s3))" by (meson injects_browser trans)
  ultimately show ?thesis by (metis trans)
qed


section \<open>From injection to report\<close>

text \<open>
  C3. Probing and correlation fit together. When probing starts with no probe registered, runs with
  default probes and no pause fails, every registered probe is stored under its own canary and its
  payload is in a call of the browser (the injected script, or a URL that was navigated to) under
  the probe's key. If afterwards a value that contains the payload of a registered probe unchanged
  reaches a plain sink, on a page that is no error page, through a flow the rules allow, a report
  follows with this probe and without sanitization. The only condition on the value is that in
  front of the canary every \<^verbatim>\<open>SCALPEL_\<close> starts a whole canary, as when several payloads arrive in
  one value; a torn canary there would make the scan miss the next one. What a default payload
  itself puts in front of its canary meets this condition whenever the names of the proof callback
  and of the out-of-band server contain no capital S.
\<close>

theorem probes_injected_and_tracked:
  assumes "\<forall>n. plPause lib n" and "\<forall>n. uuid_ok (plUuid lib n)"
    and "distinct (map fst (plQuery lib))" and "distinct (map fst (plFragmentQuery lib))"
    and "activeProbes (pbTaint st) = Map.empty"
    and "set probes \<subseteq> set DefaultProbes" and "executeProbes lib env names order probes st = (ok, st')"
    and "activeProbes (pbTaint st') c = Some p"
    and "\<forall>xs. mset (map_order xs) = mset xs"
  shows "apCanary p = c \<and> carried lib (pbCalls st') p
    \<and> (\<forall>e u v. seValue e = u @ c @ v \<and> whole_canaries u \<and> Contains (seValue e) (apValue p)
         \<and> plain_sink e \<and> isContextValid (pbTaint st') e p
         \<and> \<not> isErrorPageContext url_path (sePageURL e) (sePageTitle e) \<longrightarrow>
         (\<exists>f\<in>set (processEvent url_path map_order (pbTaint st') (SinkEvent e)).
            cfProbe f = Some p \<and> cfCanary f = c \<and> cfSink f = seType e \<and> cfSanitization f = SanitizationNone))
    \<and> (env_ok env \<and> Contains (apValue p) c \<longrightarrow> (\<exists>u v. apValue p = u @ c @ v \<and> whole_canaries u))"
proof -
  have "injects lib env probes st st'" using injects_probes [OF assms(1,3,4), of env probes st names order] assms(7) by simp
  then have p: "apCanary p = c" "placed lib env probes p" "carried lib (pbCalls st') p"
    using assms(5,8) unfolding injects_def registers_def by fastforce+
  from p(2) obtain d prefix n where d: "d \<in> set DefaultProbes" "prefix \<in> set canary_prefixes"
    "apCanary p = generateCanary prefix (pdType d) (plUuid lib n)" "apValue p = preparePayload env d (apCanary p)" "apValue p \<noteq> []"
    using assms(6) unfolding placed_def by blast
  have c: "canary_shape c" using generated_shape [OF d(2) default_types [OF d(1)]] assms(2) d(3) p(1) by simp
  then have "HasPrefix c ''SCALPEL_''" unfolding canary_shape_def by auto
  then have "\<exists>u v. apValue p = u @ c @ v \<and> whole_canaries u" if "env_ok env" "Contains (apValue p) c"
    using default_payload_canary [OF d(1) that(1), of c] d(4,5) that(2) p(1) no_S_no_canary
      whole_canaries.no_canary by fastforce
  with p(1,3) payload_reported [OF c _ _ _ assms(8) _ _ _ assms(9), where url_path = url_path]
  show ?thesis by blast
qed


definition example_lib :: probing_lib where
  "example_lib = \<lparr>plUuid = (\<lambda>n. ''0f1e2d3c-0000''), plPause = (\<lambda>n. True), plNow = (\<lambda>n. 0), plScheme = ''http'', plQuery = [], plFragmentQuery = [],
     plPrint = (\<lambda>q f. ''http://t.example/'' @ (case q of None \<Rightarrow> '''' | Some x \<Rightarrow> ''?'' @ x) @ (case f of None \<Rightarrow> '''' | Some x \<Rightarrow> ''#'' @ x))\<rparr>"

definition example_probing :: probing where
  "example_probing = \<lparr>pbTaint = example_taint_state\<lparr>activeProbes := Map.empty, staticFindings := Map.empty\<rparr>, pbNext = 0, pbCalls = []\<rparr>"

definition example_definition :: ProbeDefinition where
  "example_definition = hd DefaultProbes"

definition example_probed :: probing where
  "example_probed = snd (executeProbes example_lib example_env [] id [example_definition] example_probing)"

text \<open>With a single probe, the fragment loop registers it last.\<close>

lemma fragment_registered:
  assumes "\<forall>n. plPause lib n" and "\<forall>n. plUuid lib n = u" and "c = generateCanary ''H'' (pdType d) u" and "preparePayload env d c \<noteq> []"
  shows "\<exists>p. activeProbes (pbTaint (snd (probeURLSources lib env [d] st))) c = Some p \<and> apKey p = test_key 0
    \<and> apType p = pdType d \<and> apValue p = preparePayload env d c"
proof -
  obtain r st1 where q: "fold (query_step lib env) (enumerate 0 [d]) ((plQuery lib, 0), st) = (r, st1)" by fastforce
  define hash where "hash = (\<lambda>s. case fold (hash_step lib env) (enumerate 0 [d]) ([], s) of (parts, s') \<Rightarrow>
      if parts = [] then (True, s') else navigate_paused lib (plPrint lib None (Some (Join parts ''&''))) finished s')"
  have "\<exists>p. activeProbes (pbTaint (snd (hash s))) c = Some p \<and> apKey p = test_key 0
      \<and> apType p = pdType d \<and> apValue p = preparePayload env d c" for s
    using assms by (simp add: hash_def hash_step_def place_probe_def Let_def navigate_paused_def pauses_go_on finished_def registerProbe_def)
  moreover have "\<exists>s. snd (probeURLSources lib env [d] st) = snd (hash s)"
    unfolding probeURLSources_def Let_def q hash_def [symmetric] using assms(1)
    by (auto simp: navigate_paused_def pauses_go_on split: prod.splits)
  ultimately show ?thesis by metis
qed

abbreviation example_probe_canary :: string where
  "example_probe_canary \<equiv> ''SCALPEL_H_XSS_0f1e2d3c''"

lemma example_registered:
  "\<exists>p. activeProbes (pbTaint example_probed) example_probe_canary = Some p \<and> apKey p = ''sc_test_0''
     \<and> apType p = ProbeTypeXSS \<and> Contains (apValue p) example_probe_canary"
proof -
  let ?d = "example_definition"
  have a: "\<forall>n. plPause example_lib n" "\<forall>n. plUuid example_lib n = ''0f1e2d3c-0000''" by (simp_all add: example_lib_def)
  have c: "example_probe_canary = generateCanary ''H'' (pdType ?d) ''0f1e2d3c-0000''" by code_simp
  have n: "preparePayload example_env ?d example_probe_canary \<noteq> []" by code_simp
  have t: "Contains (pdPayload ?d) ''{{.Canary}}''" "pdType ?d = ProbeTypeXSS" by code_simp+
  have "generateAndExecuteSmartProbes example_lib example_env [] id [?d] s = s" for s
    by (simp add: generateAndExecuteSmartProbes_def allFindings_def targetParams_def)
  then have "\<exists>s. pbTaint example_probed = pbTaint (snd (probeURLSources example_lib example_env [?d] s))"
    unfolding example_probed_def executeProbes_def pauses_go_on [OF a(1)] executePause_def
    by (simp only: snd_conv browser_simps) blast
  then obtain s where s: "pbTaint example_probed = pbTaint (snd (probeURLSources example_lib example_env [?d] s))" by blast
  have k: "test_key 0 = ''sc_test_0''" by code_simp
  obtain p where p: "activeProbes (pbTaint example_probed) example_probe_canary = Some p" "apKey p = test_key 0"
    "apType p = pdType ?d" "apValue p = preparePayload example_env ?d example_probe_canary"
    using fragment_registered [OF a c n, of s] unfolding s by blast
  have "Contains (apValue p) example_probe_canary"
    unfolding p(4) by (rule payload_contains_canary [OF t(1) n])
  with p(1-3) k t(2) show ?thesis by metis
qed

text \<open>The payload arrives behind another canary in the markup of a page.\<close>

definition example_arrival :: "ActiveProbe \<Rightarrow> sink_event" where
  "example_arrival p = \<lparr>seType = ''INNER_HTML'', seValue = ''<p>'' @ example_canary @ apValue p @ ''</p>'', seDetail = ''el.innerHTML'',
     seStackTrace = ''at f (http://t.example/app.js:15:10)'', sePageURL = ''http://t.example/?q'', sePageTitle = ''Search''\<rparr>"

theorem probes_injected_and_tracked_witness:
  "\<exists>p. activeProbes (pbTaint example_probed) example_probe_canary = Some p \<and> apKey p = ''sc_test_0''
     \<and> apCanary p = example_probe_canary \<and> carried example_lib (pbCalls example_probed) p
     \<and> (\<exists>f\<in>set (processEvent example_path id (pbTaint example_probed) (SinkEvent (example_arrival p))).
          cfProbe f = Some p \<and> cfSink f = ''INNER_HTML'' \<and> cfSanitization f = SanitizationNone)"
proof -
  let ?c = example_probe_canary and ?lib = example_lib and ?st' = example_probed
  obtain p where p: "activeProbes (pbTaint ?st') ?c = Some p" "apKey p = ''sc_test_0''"
    "apType p = ProbeTypeXSS" "Contains (apValue p) ?c"
    using example_registered by blast
  let ?e = "example_arrival p"
  have a: "\<forall>n. plPause ?lib n" by (simp add: example_lib_def)
  have u: "uuid_ok ''0f1e2d3c-0000''" by code_simp
  then have b: "\<forall>n. uuid_ok (plUuid ?lib n)" by (simp add: example_lib_def)
  have c: "env_ok example_env" by (simp add: env_ok_def example_env_def)
  have d: "distinct (map fst (plQuery ?lib))" "distinct (map fst (plFragmentQuery ?lib))" by (simp_all add: example_lib_def)
  have e: "activeProbes (pbTaint example_probing) = Map.empty" by (simp add: example_probing_def)
  have f: "set [example_definition] \<subseteq> set DefaultProbes" by (simp add: DefaultProbes_def example_definition_def)
  have g: "executeProbes ?lib example_env [] id [example_definition] example_probing
      = (fst (executeProbes ?lib example_env [] id [example_definition] example_probing), ?st')"
    by (simp add: example_probed_def)
  note P = probes_injected_and_tracked [OF a b d e f g p(1) identity_order, where url_path = example_path]
  obtain x y where x: "apValue p = x @ ?c @ y" "whole_canaries x" using P c p(4) by blast
  have "canary_shape example_canary"
    unfolding example_canary_def using u by (intro generated_shape) (simp_all add: canary_prefixes_def probe_types_def ProbeTypeXSS_def)
  then have "whole_canaries (''<p>'' @ example_canary @ x)"
    using x(2) by (intro whole_canaries.one_more) simp_all
  moreover have "seValue ?e = (''<p>'' @ example_canary @ x) @ ?c @ (y @ ''</p>'')"
    by (simp add: example_arrival_def x(1))
  moreover have "Contains (seValue ?e) (apValue p)"
    unfolding example_arrival_def Contains_iff sink_event.simps by (rule exI [of _ "''<p>'' @ example_canary"]) simp
  moreover have t: "seType ?e = ''INNER_HTML''" by (simp add: example_arrival_def)
  moreover have "plain_sink ?e" unfolding plain_sink_def t by simp
  moreover have "isContextValid (pbTaint ?st') ?e p"
  proof -
    have "injects ?lib example_env [example_definition] example_probing ?st'"
      using injects_probes [OF a d, of example_env "[example_definition]" example_probing "[]" id] by (simp add: example_probed_def)
    then obtain m where "pbTaint ?st' = (pbTaint example_probing)\<lparr>activeProbes := m\<rparr>"
      unfolding injects_def registers_def by blast
    then have "validTaintFlows (pbTaint ?st') = ValidTaintFlows"
      by (simp add: example_probing_def example_taint_state_def registerProbe_def)
    moreover have "ValidTaintFlows (ProbeTypeXSS, ''INNER_HTML'') = Some True" by code_simp
    ultimately show ?thesis unfolding isContextValid_def p(3) t by simp
  qed
  moreover have "\<not> isErrorPageContext example_path (sePageURL ?e) (sePageTitle ?e)"
  proof -
    have "\<not> isErrorPageContext example_path ''http://t.example/?q'' ''Search''" by code_simp
    then show ?thesis by (simp add: example_arrival_def)
  qed
  ultimately have "\<exists>f\<in>set (processEvent example_path id (pbTaint ?st') (SinkEvent ?e)).
      cfProbe f = Some p \<and> cfCanary f = ?c \<and> cfSink f = seType ?e \<and> cfSanitization f = SanitizationNone"
    using P by blast
  with t p(1,2) P show ?thesis by (metis (no_types, lifting))
qed

end
