(* ===== verification/TaintPipeline.thy ===== *)
theory TaintPipeline
  imports TaintAnalyzer "HOL-Library.Sublist"
begin

text \<open>
  The event pipeline of the active taint analyser
  (\<^verbatim>\<open>internal/analysis/active/taint/taint_analyzer.go\<close>): browser callbacks and the out-of-band poller put
  events into a bounded channel, correlation workers take them out, and \<^verbatim>\<open>shutdown\<close> cancels the
  background context, waits for the producers, closes the channel and waits for the workers. It is a
  transition system over all goroutines; an action is one atomic step. \<^verbatim>\<open>enqueueEvent\<close> takes two steps, its
  check of the context and its send, because the shutdown can run in between: callbacks that are
  between the two are in \<open>inFlight\<close>, the poller is then \<open>PollChecked\<close>.

  \<open>acceptedLog\<close>, \<open>processedLog\<close> and \<open>reportedLog\<close> record what entered the channel, what the workers took
  out of it and what they reported.
\<close>

section \<open>State\<close>

text \<open>What the poller holds of its last fetch; the flag tells the final fetch from the ticker's.\<close>

datatype poller = PollIdle | PollSending "event list" bool | PollChecked event "event list" bool | PollGone

datatype main_phase = Probing | WaitProducers | WaitWorkers | Finished

record pipeline =
  plState :: taint_state
  bgCancelled :: bool
  eventsChan :: "event list"
  chanClosed :: bool
  inFlight :: "event list"
  cleanerLive :: bool
  pollerState :: poller
  workersLive :: nat
  mainPhase :: main_phase
  panicked :: bool
  acceptedLog :: "event list"
  processedLog :: "event list"
  reportedLog :: "correlated_finding list"

record pipeline_config =
  pcBuffer :: nat
  pcWorkers :: nat
  pcExpiration :: int
  pcOAST :: "string option"
  pcUrlPath :: "string \<Rightarrow> string option"
  pcOrder :: "(string \<times> ActiveProbe) list \<Rightarrow> (string \<times> ActiveProbe) list"

text \<open>The defaults of \<^verbatim>\<open>applyConfigDefaults\<close>; durations in seconds.\<close>

record tuning =
  tuBuffer :: int
  tuGrace :: int
  tuExpiration :: int
  tuCleanup :: int
  tuPolling :: int
  tuWorkers :: int

definition applyConfigDefaults :: "tuning \<Rightarrow> tuning" where
  "applyConfigDefaults t =
     \<lparr>tuBuffer = (if tuBuffer t = 0 then 1000 else tuBuffer t), tuGrace = (if tuGrace t = 0 then 10 else tuGrace t),
      tuExpiration = (if tuExpiration t = 0 then 600 else tuExpiration t), tuCleanup = (if tuCleanup t = 0 then 60 else tuCleanup t),
      tuPolling = (if tuPolling t = 0 then 20 else tuPolling t), tuWorkers = (if tuWorkers t = 0 then 5 else tuWorkers t)\<rparr>"

section \<open>Steps\<close>

datatype pipeline_action =
    CallbackCheck event
  | CallbackSend nat
  | PollTick "oast_interaction list"
  | PollFinal "oast_interaction list"
  | PollSend
  | CleanupTick int
  | CleanupStop
  | WorkerProcess
  | WorkerExit
  | Register ActiveProbe
  | Cancel
  | CloseChannel
  | Finish

text \<open>The send of \<^verbatim>\<open>enqueueEvent\<close> on an open channel: dropped when the buffer is full.\<close>

definition offer :: "pipeline_config \<Rightarrow> event \<Rightarrow> pipeline \<Rightarrow> pipeline" where
  "offer cfg e s =
     (if length (eventsChan s) < pcBuffer cfg
      then s\<lparr>eventsChan := eventsChan s @ [e], acceptedLog := acceptedLog s @ [e]\<rparr> else s)"

definition is_oast :: "event \<Rightarrow> bool" where
  "is_oast e = (case e of OASTInteraction oi \<Rightarrow> True | _ \<Rightarrow> False)"

text \<open>\<^verbatim>\<open>handleSinkEvent\<close> and \<^verbatim>\<open>handleExecutionProof\<close>; shim errors are only logged.\<close>

definition callback_check :: "event \<Rightarrow> pipeline \<Rightarrow> pipeline option" where
  "callback_check e s =
     (if is_oast e \<or> e = ShimErrorEvent then None else if bgCancelled s then Some s else Some (s\<lparr>inFlight := inFlight s @ [e]\<rparr>))"

text \<open>A send on a closed channel panics, in a \<^verbatim>\<open>select\<close> with a default too.\<close>

definition callback_send :: "pipeline_config \<Rightarrow> nat \<Rightarrow> pipeline \<Rightarrow> pipeline option" where
  "callback_send cfg i s =
     (if i < length (inFlight s)
      then (let s' = s\<lparr>inFlight := take i (inFlight s) @ drop (Suc i) (inFlight s)\<rparr> in
            Some (if chanClosed s then s'\<lparr>panicked := True\<rparr> else offer cfg (inFlight s ! i) s'))
      else None)"

text \<open>
  The canaries \<^verbatim>\<open>fetchAndEnqueueOAST\<close> asks the provider about; without any it does not ask. The provider
  answers with interactions of these canaries, or with none when it fails.
\<close>

definition oast_relevant :: "string \<Rightarrow> taint_state \<Rightarrow> string \<Rightarrow> bool" where
  "oast_relevant server s c =
     (case activeProbes s c of None \<Rightarrow> False | Some p \<Rightarrow> apType p = ProbeTypeOAST \<or> Contains (apValue p) server)"

definition fetched :: "pipeline_config \<Rightarrow> taint_state \<Rightarrow> oast_interaction list \<Rightarrow> bool" where
  "fetched cfg s ois = (case pcOAST cfg of None \<Rightarrow> False | Some server \<Rightarrow> list_all (\<lambda>oi. oast_relevant server s (oiCanary oi)) ois)"

definition poll_start :: "pipeline_config \<Rightarrow> bool \<Rightarrow> oast_interaction list \<Rightarrow> pipeline \<Rightarrow> pipeline option" where
  "poll_start cfg final ois s =
     (if pollerState s = PollIdle \<and> fetched cfg (plState s) ois \<and> (final \<longrightarrow> bgCancelled s)
      then Some (s\<lparr>pollerState := PollSending (map OASTInteraction ois) final\<rparr>) else None)"

definition poll_send :: "pipeline_config \<Rightarrow> pipeline \<Rightarrow> pipeline option" where
  "poll_send cfg s =
     (case pollerState s of
        PollSending (e # es) final \<Rightarrow>
          Some (s\<lparr>pollerState := (if bgCancelled s then PollSending es final else PollChecked e es final)\<rparr>)
      | PollChecked e es final \<Rightarrow>
          (let s' = s\<lparr>pollerState := PollSending es final\<rparr> in
           Some (if chanClosed s then s'\<lparr>panicked := True\<rparr> else offer cfg e s'))
      | PollSending [] final \<Rightarrow> Some (s\<lparr>pollerState := (if final then PollGone else PollIdle)\<rparr>)
      | _ \<Rightarrow> None)"

text \<open>\<^verbatim>\<open>cleanupExpiredProbes\<close>: a tick at some time, or the end.\<close>

definition cleanup_step :: "pipeline_config \<Rightarrow> int option \<Rightarrow> pipeline \<Rightarrow> pipeline option" where
  "cleanup_step cfg tick s =
     (if \<not> cleanerLive s then None
      else case tick of
        Some now \<Rightarrow> Some (s\<lparr>plState := executeCleanup now (pcExpiration cfg) (plState s)\<rparr>)
      | None \<Rightarrow> if bgCancelled s then Some (s\<lparr>cleanerLive := False\<rparr>) else None)"

text \<open>
  A worker takes the next event, processes it and reports in one step. In the code other goroutines
  may run in between: the event has left the channel then, and the handler reads the probes under
  their lock; the step stands for the moment of that read.
\<close>

definition worker_process :: "pipeline_config \<Rightarrow> pipeline \<Rightarrow> pipeline option" where
  "worker_process cfg s =
     (case eventsChan s of
        [] \<Rightarrow> None
      | e # es \<Rightarrow> if workersLive s = 0 then None
          else Some (s\<lparr>eventsChan := es, processedLog := processedLog s @ [e],
                       reportedLog := reportedLog s @ processEvent (pcUrlPath cfg) (pcOrder cfg) (plState s) e\<rparr>))"

definition worker_exit :: "pipeline \<Rightarrow> pipeline option" where
  "worker_exit s =
     (if chanClosed s \<and> eventsChan s = [] \<and> 0 < workersLive s then Some (s\<lparr>workersLive := workersLive s - 1\<rparr>) else None)"

definition close_channel :: "pipeline \<Rightarrow> pipeline option" where
  "close_channel s =
     (if mainPhase s = WaitProducers \<and> \<not> cleanerLive s \<and> pollerState s = PollGone
      then Some (s\<lparr>chanClosed := True, mainPhase := WaitWorkers\<rparr>) else None)"

fun pipeline_step :: "pipeline_config \<Rightarrow> pipeline_action \<Rightarrow> pipeline \<Rightarrow> pipeline option" where
  "pipeline_step cfg (CallbackCheck e) s = (if panicked s then None else callback_check e s)"
| "pipeline_step cfg (CallbackSend i) s = (if panicked s then None else callback_send cfg i s)"
| "pipeline_step cfg (PollTick ois) s = (if panicked s then None else poll_start cfg False ois s)"
| "pipeline_step cfg (PollFinal ois) s = (if panicked s then None else poll_start cfg True ois s)"
| "pipeline_step cfg PollSend s = (if panicked s then None else poll_send cfg s)"
| "pipeline_step cfg (CleanupTick now) s =
     (if panicked s then None else cleanup_step cfg (Some now) s)"
| "pipeline_step cfg CleanupStop s = (if panicked s then None else cleanup_step cfg None s)"
| "pipeline_step cfg WorkerProcess s = (if panicked s then None else worker_process cfg s)"
| "pipeline_step cfg WorkerExit s = (if panicked s then None else worker_exit s)"
| "pipeline_step cfg (Register p) s =
     (if panicked s \<or> mainPhase s \<noteq> Probing then None else Some (s\<lparr>plState := registerProbe p (plState s)\<rparr>))"
| "pipeline_step cfg Cancel s =
     (if panicked s \<or> mainPhase s \<noteq> Probing then None else Some (s\<lparr>bgCancelled := True, mainPhase := WaitProducers\<rparr>))"
| "pipeline_step cfg CloseChannel s = (if panicked s then None else close_channel s)"
| "pipeline_step cfg Finish s =
     (if panicked s \<or> mainPhase s \<noteq> WaitWorkers \<or> workersLive s \<noteq> 0 then None else Some (s\<lparr>mainPhase := Finished\<rparr>))"

definition pipeline_init :: "pipeline_config \<Rightarrow> taint_state \<Rightarrow> pipeline" where
  "pipeline_init cfg ts =
     \<lparr>plState = ts, bgCancelled = False, eventsChan = [], chanClosed = False, inFlight = [], cleanerLive = True,
      pollerState = (if pcOAST cfg = None then PollGone else PollIdle), workersLive = pcWorkers cfg, mainPhase = Probing, panicked = False,
      acceptedLog = [], processedLog = [], reportedLog = []\<rparr>"

inductive pipeline_reach :: "pipeline_config \<Rightarrow> pipeline \<Rightarrow> pipeline \<Rightarrow> bool" for cfg where
  pipeline_refl: "pipeline_reach cfg s s"
| pipeline_more: "pipeline_reach cfg s t \<Longrightarrow> pipeline_step cfg a t = Some u \<Longrightarrow> pipeline_reach cfg s u"

fun pipeline_run :: "pipeline_config \<Rightarrow> pipeline_action list \<Rightarrow> pipeline \<Rightarrow> pipeline option" where
  "pipeline_run cfg [] s = Some s"
| "pipeline_run cfg (a # as) s = Option.bind (pipeline_step cfg a s) (pipeline_run cfg as)"

lemma pipeline_run_reach: "pipeline_reach cfg s t \<Longrightarrow> pipeline_run cfg as t = Some u \<Longrightarrow> pipeline_reach cfg s u"
  by (induction as arbitrary: t) (auto simp: Option.bind_eq_Some_conv intro: pipeline_more)


section \<open>Invariant\<close>

definition poll_pending :: "poller \<Rightarrow> event list" where
  "poll_pending p = (case p of PollSending es final \<Rightarrow> es | PollChecked e es final \<Rightarrow> e # es | _ \<Rightarrow> [])"

text \<open>The poller is at its final fetch or gone.\<close>

definition final_polling :: "poller \<Rightarrow> bool" where
  "final_polling p = (case p of PollSending es final \<Rightarrow> final | PollGone \<Rightarrow> True | _ \<Rightarrow> False)"

text \<open>What holds in each phase of \<^verbatim>\<open>Analyze\<close> and \<^verbatim>\<open>shutdown\<close>.\<close>

definition closing_inv :: "pipeline_config \<Rightarrow> pipeline \<Rightarrow> bool" where
  "closing_inv cfg s =
     (case mainPhase s of
        Probing \<Rightarrow> \<not> bgCancelled s \<and> \<not> chanClosed s \<and> \<not> panicked s \<and> workersLive s = pcWorkers cfg
      | WaitProducers \<Rightarrow> bgCancelled s \<and> \<not> chanClosed s \<and> \<not> panicked s \<and> workersLive s = pcWorkers cfg
      | WaitWorkers \<Rightarrow> bgCancelled s \<and> chanClosed s \<and> \<not> cleanerLive s \<and> pollerState s = PollGone
          \<and> (workersLive s = pcWorkers cfg \<or> workersLive s < pcWorkers cfg \<and> eventsChan s = [])
      | Finished \<Rightarrow> bgCancelled s \<and> chanClosed s \<and> \<not> cleanerLive s \<and> pollerState s = PollGone \<and> workersLive s = 0
          \<and> (pcWorkers cfg = 0 \<or> eventsChan s = []))"

text \<open>Every report comes from an event that was processed, in the state of some moment.\<close>

definition reports_processed :: "pipeline_config \<Rightarrow> correlated_finding list \<Rightarrow> event list \<Rightarrow> bool" where
  "reports_processed cfg fs es \<longleftrightarrow>
     (\<forall>f\<in>set fs. \<exists>e\<in>set es. \<exists>ts. f \<in> set (processEvent (pcUrlPath cfg) (pcOrder cfg) ts e))"

lemma reports_processed_Nil [simp]: "reports_processed cfg [] es"
  by (simp add: reports_processed_def)

lemma reports_processed_snoc [simp]:
  "reports_processed cfg fs es \<Longrightarrow>
   reports_processed cfg (fs @ processEvent (pcUrlPath cfg) (pcOrder cfg) ts e) (es @ [e])"
  by (auto simp: reports_processed_def)

definition events_inv :: "pipeline_config \<Rightarrow> pipeline \<Rightarrow> bool" where
  "events_inv cfg s \<longleftrightarrow>
     acceptedLog s = processedLog s @ eventsChan s
     \<and> length (eventsChan s) \<le> pcBuffer cfg
     \<and> list_all (\<lambda>e. \<not> is_oast e) (inFlight s)
     \<and> list_all is_oast (poll_pending (pollerState s))
     \<and> (pcOAST cfg = None \<longrightarrow> pollerState s = PollGone)
     \<and> reports_processed cfg (reportedLog s) (processedLog s)"

lemma offer_simps [simp]:
  "bgCancelled (offer cfg e s) = bgCancelled s" "mainPhase (offer cfg e s) = mainPhase s" "chanClosed (offer cfg e s) = chanClosed s"
  "cleanerLive (offer cfg e s) = cleanerLive s" "pollerState (offer cfg e s) = pollerState s" "workersLive (offer cfg e s) = workersLive s"
  "panicked (offer cfg e s) = panicked s" "inFlight (offer cfg e s) = inFlight s" "processedLog (offer cfg e s) = processedLog s"
  "reportedLog (offer cfg e s) = reportedLog s"
  by (simp_all add: offer_def)

lemma offer_events:
  "eventsChan (offer cfg e s) = eventsChan s @ (if length (eventsChan s) < pcBuffer cfg then [e] else [])"
  "acceptedLog (offer cfg e s) = acceptedLog s @ (if length (eventsChan s) < pcBuffer cfg then [e] else [])"
  by (simp_all add: offer_def)

lemma poll_pending_simps [simp]:
  "poll_pending (PollSending es final) = es" "poll_pending (PollChecked e es final) = e # es"
  "poll_pending PollIdle = []" "poll_pending PollGone = []"
  by (simp_all add: poll_pending_def)

lemma final_polling_simps [simp]:
  "final_polling (PollSending es final) = final" "\<not> final_polling (PollChecked e es final)"
  "\<not> final_polling PollIdle" "final_polling PollGone"
  by (simp_all add: final_polling_def)

lemma is_oast_simps [simp]: "is_oast (OASTInteraction oi)"
  by (simp add: is_oast_def)

text \<open>The operations by what they do to the channel and the phase.\<close>

lemma callback_check_cases:
  assumes "callback_check e s = Some s'"
  obtains "\<not> is_oast e" "bgCancelled s" "s' = s"
  | "\<not> is_oast e" "\<not> bgCancelled s" "s' = s\<lparr>inFlight := inFlight s @ [e]\<rparr>"
  using assms by (auto simp: callback_check_def split: if_splits)

lemma callback_send_cases:
  assumes "callback_send cfg i s = Some s'"
  obtains "i < length (inFlight s)" "chanClosed s"
      "s' = s\<lparr>inFlight := take i (inFlight s) @ drop (Suc i) (inFlight s), panicked := True\<rparr>"
  | "i < length (inFlight s)" "\<not> chanClosed s"
      "s' = offer cfg (inFlight s ! i) (s\<lparr>inFlight := take i (inFlight s) @ drop (Suc i) (inFlight s)\<rparr>)"
  using assms by (auto simp: callback_send_def Let_def split: if_splits)

lemma poll_start_cases:
  assumes "poll_start cfg final ois s = Some s'"
  obtains "pollerState s = PollIdle" "s' = s\<lparr>pollerState := PollSending (map OASTInteraction ois) final\<rparr>"
  using assms by (auto simp: poll_start_def split: if_splits)

lemma poll_send_cases:
  assumes st: "poll_send cfg s = Some s'"
  obtains e es final where "pollerState s = PollSending (e # es) final" "bgCancelled s"
      "s' = s\<lparr>pollerState := PollSending es final\<rparr>"
  | e es final where "pollerState s = PollSending (e # es) final" "\<not> bgCancelled s"
      "s' = s\<lparr>pollerState := PollChecked e es final\<rparr>"
  | e es final where "pollerState s = PollChecked e es final" "chanClosed s"
      "s' = s\<lparr>pollerState := PollSending es final, panicked := True\<rparr>"
  | e es final where "pollerState s = PollChecked e es final" "\<not> chanClosed s"
      "s' = offer cfg e (s\<lparr>pollerState := PollSending es final\<rparr>)"
  | final where "pollerState s = PollSending [] final" "s' = s\<lparr>pollerState := (if final then PollGone else PollIdle)\<rparr>"
proof (cases "pollerState s")
  case (PollSending es final)
  show thesis
  proof (cases es)
    case Nil
    then show thesis using PollSending st that(5) [of final] by (simp add: poll_send_def)
  next
    case (Cons e es')
    then show thesis
      using PollSending st that(1) [of e es' final] that(2) [of e es' final] by (cases "bgCancelled s") (simp_all add: poll_send_def)
  qed
next
  case (PollChecked e es final)
  then show thesis
    using st that(3) [of e es final] that(4) [of e es final] by (cases "chanClosed s") (simp_all add: poll_send_def)
next
  case PollIdle
  with st show thesis by (simp add: poll_send_def)
next
  case PollGone
  with st show thesis by (simp add: poll_send_def)
qed

lemma worker_process_cases:
  assumes "worker_process cfg s = Some s'"
  obtains e es where "eventsChan s = e # es" "0 < workersLive s"
      "s' = s\<lparr>eventsChan := es, processedLog := processedLog s @ [e],
                reportedLog := reportedLog s @ processEvent (pcUrlPath cfg) (pcOrder cfg) (plState s) e\<rparr>"
  using assms by (auto simp: worker_process_def split: if_splits list.splits)

lemmas pipeline_op_cases =
  callback_check_cases callback_send_cases poll_start_cases poll_send_cases worker_process_cases

lemma closing_step:
  assumes inv: "closing_inv cfg s" and st: "pipeline_step cfg a s = Some s'"
  shows "closing_inv cfg s'"
proof (cases a)
  case (CallbackCheck e)
  with st have "callback_check e s = Some s'" by (simp split: if_splits)
  then show ?thesis using inv by (cases rule: callback_check_cases) (simp_all add: closing_inv_def split: main_phase.splits)
next
  case (CallbackSend i)
  with st have "callback_send cfg i s = Some s'" by (simp split: if_splits)
  then show ?thesis
    using inv by (cases rule: callback_send_cases) (simp_all add: closing_inv_def offer_events split: main_phase.splits)
next
  case (PollTick ois)
  with st have "poll_start cfg False ois s = Some s'" by (simp split: if_splits)
  then show ?thesis
    using inv by (cases rule: poll_start_cases) (simp add: closing_inv_def split: main_phase.splits)
next
  case (PollFinal ois)
  with st have "poll_start cfg True ois s = Some s'" by (simp split: if_splits)
  then show ?thesis
    using inv by (cases rule: poll_start_cases) (simp add: closing_inv_def split: main_phase.splits)
next
  case PollSend
  with st have "poll_send cfg s = Some s'" by (simp split: if_splits)
  then show ?thesis
    using inv by (cases rule: poll_send_cases) (simp_all add: closing_inv_def split: main_phase.splits)
next
  case WorkerProcess
  with st have "worker_process cfg s = Some s'" by (simp split: if_splits)
  then show ?thesis
    using inv by (cases rule: worker_process_cases) (auto simp: closing_inv_def split: main_phase.splits)
next
  case WorkerExit
  with st have "worker_exit s = Some s'" by (simp split: if_splits)
  then show ?thesis
    using inv by (auto simp: worker_exit_def closing_inv_def split: main_phase.splits if_splits)
next
  case CloseChannel
  with st have "close_channel s = Some s'" by (simp split: if_splits)
  then show ?thesis
    using inv by (auto simp: close_channel_def closing_inv_def split: if_splits)
qed (use inv st in \<open>auto simp: closing_inv_def cleanup_step_def split: main_phase.splits if_splits\<close>)

lemma events_step:
  assumes inv: "events_inv cfg s" and st: "pipeline_step cfg a s = Some s'"
  shows "events_inv cfg s'"
proof (cases a)
  case (CallbackCheck e)
  with st have "callback_check e s = Some s'" by (simp split: if_splits)
  then show ?thesis using inv by (cases rule: callback_check_cases) (simp_all add: events_inv_def)
next
  case (CallbackSend i)
  with st have "callback_send cfg i s = Some s'" by (simp split: if_splits)
  then show ?thesis
    using inv by (cases rule: callback_send_cases)
      (auto simp: events_inv_def offer_events list_all_iff dest: in_set_takeD in_set_dropD)
next
  case (PollTick ois)
  with st have "poll_start cfg False ois s = Some s'" by (simp split: if_splits)
  then show ?thesis
    using inv by (cases rule: poll_start_cases) (simp add: events_inv_def list_all_iff)
next
  case (PollFinal ois)
  with st have "poll_start cfg True ois s = Some s'" by (simp split: if_splits)
  then show ?thesis
    using inv by (cases rule: poll_start_cases) (simp add: events_inv_def list_all_iff)
next
  case PollSend
  with st have "poll_send cfg s = Some s'" by (simp split: if_splits)
  then show ?thesis
    using inv by (cases rule: poll_send_cases) (simp_all add: events_inv_def offer_events)
next
  case WorkerProcess
  with st have "worker_process cfg s = Some s'" by (simp split: if_splits)
  then show ?thesis
    using inv by (cases rule: worker_process_cases) (simp_all add: events_inv_def)
next
  case WorkerExit
  with st have "worker_exit s = Some s'" by (simp split: if_splits)
  then show ?thesis
    using inv by (auto simp: worker_exit_def events_inv_def split: if_splits)
next
  case CloseChannel
  with st have "close_channel s = Some s'" by (simp split: if_splits)
  then show ?thesis
    using inv by (auto simp: close_channel_def events_inv_def split: if_splits)
qed (use inv st in \<open>auto simp: events_inv_def cleanup_step_def split: if_splits\<close>)

lemma pipeline_inv_from:
  assumes "pipeline_reach cfg s t" and "closing_inv cfg s" and "events_inv cfg s"
  shows "closing_inv cfg t \<and> events_inv cfg t"
  using assms by (induction rule: pipeline_reach.induct) (use closing_step events_step in blast)+

lemma pipeline_inv:
  assumes "pipeline_reach cfg (pipeline_init cfg ts) s"
  shows "closing_inv cfg s" and "events_inv cfg s"
  using pipeline_inv_from [OF assms] by (simp_all add: pipeline_init_def closing_inv_def events_inv_def)


section \<open>Shutdown\<close>

text \<open>What \<^verbatim>\<open>shutdown\<close>, the background goroutines and the workers do on their own.\<close>

fun shutdown_action :: "pipeline_action \<Rightarrow> bool" where
  "shutdown_action (PollFinal ois) = True"
| "shutdown_action PollSend = True"
| "shutdown_action CleanupStop = True"
| "shutdown_action WorkerProcess = True"
| "shutdown_action WorkerExit = True"
| "shutdown_action CloseChannel = True"
| "shutdown_action Finish = True"
| "shutdown_action a = False"

text \<open>Some schedule of these actions ends the analysis.\<close>

definition finishes :: "pipeline_config \<Rightarrow> pipeline \<Rightarrow> bool" where
  "finishes cfg s \<longleftrightarrow>
     (\<exists>as t. list_all shutdown_action as \<and> pipeline_run cfg as s = Some t \<and> mainPhase t = Finished
             \<and> prefix (acceptedLog s) (acceptedLog t))"

lemma finishes_step:
  assumes "finishes cfg s'" and "pipeline_step cfg a s = Some s'" and "shutdown_action a" and "prefix (acceptedLog s) (acceptedLog s')"
  shows "finishes cfg s"
proof -
  obtain as t where "list_all shutdown_action as" "pipeline_run cfg as s' = Some t" "mainPhase t = Finished"
    "prefix (acceptedLog s') (acceptedLog t)"
    using assms(1) by (auto simp: finishes_def)
  then have "list_all shutdown_action (a # as) \<and> pipeline_run cfg (a # as) s = Some t \<and> mainPhase t = Finished
      \<and> prefix (acceptedLog s) (acceptedLog t)"
    using assms(2-4) by (auto intro: prefix_order.order_trans)
  then show ?thesis unfolding finishes_def by blast
qed

lemma finishes_Finished: "mainPhase s = Finished \<Longrightarrow> finishes cfg s"
  unfolding finishes_def by (rule exI [of _ "[]"]) simp

lemma finishes_idle_workers:
  assumes "mainPhase s = WaitWorkers" "\<not> panicked s" "workersLive s = 0"
  shows "finishes cfg s"
  by (rule finishes_step [of cfg "s\<lparr>mainPhase := Finished\<rparr>" Finish]) (use assms in \<open>simp_all add: finishes_Finished\<close>)

lemma finishes_workers:
  assumes "mainPhase s = WaitWorkers" "chanClosed s" "\<not> panicked s" "eventsChan s = []"
  shows "finishes cfg s"
  using assms
proof (induction "workersLive s" arbitrary: s)
  case 0
  then show ?case by (simp add: finishes_idle_workers)
next
  case (Suc n)
  show ?case
  proof (rule finishes_step)
    show "finishes cfg (s\<lparr>workersLive := workersLive s - 1\<rparr>)" using Suc by simp
    show "pipeline_step cfg WorkerExit s = Some (s\<lparr>workersLive := workersLive s - 1\<rparr>)"
      using Suc.prems Suc.hyps(2) by (simp add: worker_exit_def)
  qed simp_all
qed

lemma finishes_drain:
  assumes "mainPhase s = WaitWorkers" "chanClosed s" "\<not> panicked s"
  shows "finishes cfg s"
  using assms
proof (induction "eventsChan s" arbitrary: s)
  case Nil
  then show ?case by (simp add: finishes_workers)
next
  case (Cons e es)
  show ?case
  proof (cases "workersLive s = 0")
    case True
    then show ?thesis using Cons.prems by (simp add: finishes_idle_workers)
  next
    case False
    let ?t = "s\<lparr>eventsChan := es, processedLog := processedLog s @ [e],
                reportedLog := reportedLog s @ processEvent (pcUrlPath cfg) (pcOrder cfg) (plState s) e\<rparr>"
    show ?thesis
    proof (rule finishes_step)
      show "finishes cfg ?t" using Cons by simp
      show "pipeline_step cfg WorkerProcess s = Some ?t"
        using Cons.prems Cons.hyps(2) [symmetric] False by (simp add: worker_process_def)
    qed simp_all
  qed
qed

lemma finishes_close:
  assumes "mainPhase s = WaitProducers" "pollerState s = PollGone" "bgCancelled s" "\<not> panicked s"
  shows "finishes cfg s"
proof -
  have closed: "finishes cfg t" if "mainPhase t = WaitProducers" "pollerState t = PollGone" "\<not> cleanerLive t" "\<not> panicked t" for t
    by (rule finishes_step [of cfg "t\<lparr>chanClosed := True, mainPhase := WaitWorkers\<rparr>" CloseChannel])
       (use that in \<open>simp_all add: finishes_drain close_channel_def\<close>)
  show ?thesis
  proof (cases "cleanerLive s")
    case True
    show ?thesis
      by (rule finishes_step [of cfg "s\<lparr>cleanerLive := False\<rparr>" CleanupStop]) (use True assms closed in \<open>simp_all add: cleanup_step_def\<close>)
  qed (use assms closed in simp)
qed

lemma finishes_polling:
  assumes "mainPhase s = WaitProducers" "bgCancelled s" "\<not> panicked s" "pcOAST cfg \<noteq> None" "pollerState s = PollSending es True"
  shows "finishes cfg s"
  using assms
proof (induction es arbitrary: s)
  case Nil
  show ?case
    by (rule finishes_step [of cfg "s\<lparr>pollerState := PollGone\<rparr>" PollSend])
       (use Nil in \<open>simp_all add: finishes_close poll_send_def\<close>)
next
  case (Cons e es)
  show ?case
    by (rule finishes_step [of cfg "s\<lparr>pollerState := PollSending es True\<rparr>" PollSend])
       (use Cons in \<open>simp_all add: poll_send_def\<close>)
qed

lemma finishes_idle:
  assumes "mainPhase s = WaitProducers" "bgCancelled s" "\<not> panicked s" "pcOAST cfg \<noteq> None" "pollerState s = PollIdle"
  shows "finishes cfg s"
  by (rule finishes_step [of cfg "s\<lparr>pollerState := PollSending [] True\<rparr>" "PollFinal []"])
     (use assms in \<open>auto simp: poll_start_def fetched_def intro: finishes_polling\<close>)

lemma finishes_ticking:
  assumes "mainPhase s = WaitProducers" "bgCancelled s" "\<not> panicked s" "pcOAST cfg \<noteq> None" "pollerState s = PollSending es False"
  shows "finishes cfg s"
  using assms
proof (induction es arbitrary: s)
  case Nil
  show ?case
    by (rule finishes_step [of cfg "s\<lparr>pollerState := PollIdle\<rparr>" PollSend])
       (use Nil in \<open>simp_all add: finishes_idle poll_send_def\<close>)
next
  case (Cons e es)
  show ?case
    by (rule finishes_step [of cfg "s\<lparr>pollerState := PollSending es False\<rparr>" PollSend])
       (use Cons in \<open>simp_all add: poll_send_def\<close>)
qed

lemma finishes_sending:
  assumes "mainPhase s = WaitProducers" "bgCancelled s" "\<not> panicked s" "pcOAST cfg \<noteq> None" "pollerState s = PollSending es final"
  shows "finishes cfg s"
  using assms by (cases final) (simp_all add: finishes_polling finishes_ticking)

lemma shutdown_finishes:
  assumes "closing_inv cfg s" "events_inv cfg s" "bgCancelled s" "\<not> panicked s"
  shows "finishes cfg s"
proof (cases "mainPhase s")
  case WaitProducers
  show ?thesis
  proof (cases "pollerState s")
    case (PollSending es final)
    then have "pcOAST cfg \<noteq> None" using assms by (auto simp: events_inv_def)
    then show ?thesis using PollSending WaitProducers assms by (simp add: finishes_sending)
  next
    case (PollChecked e es final)
    then have o: "pcOAST cfg \<noteq> None" using assms by (auto simp: events_inv_def)
    have c: "\<not> chanClosed s" using WaitProducers assms(1) by (simp add: closing_inv_def)
    show ?thesis
      by (rule finishes_step [of cfg "offer cfg e (s\<lparr>pollerState := PollSending es final\<rparr>)" PollSend])
         (use PollChecked WaitProducers assms c o in \<open>auto simp: poll_send_def offer_events intro: finishes_sending\<close>)
  next
    case PollIdle
    then have "pcOAST cfg \<noteq> None" using assms by (auto simp: events_inv_def)
    then show ?thesis using PollIdle WaitProducers assms by (simp add: finishes_idle)
  qed (use WaitProducers assms in \<open>simp add: finishes_close\<close>)
qed (use assms in \<open>auto simp: closing_inv_def finishes_drain finishes_Finished\<close>)


section \<open>Late events\<close>

lemma late_step:
  assumes "pipeline_step cfg a s = Some s'" and "bgCancelled s" and "final_polling (pollerState s)" and "events_inv cfg s"
  shows "bgCancelled s' \<and> final_polling (pollerState s') \<and> filter is_oast (acceptedLog s') = filter is_oast (acceptedLog s)"
proof (cases a)
  case (CallbackCheck e)
  with assms have "callback_check e s = Some s'" by (simp split: if_splits)
  then show ?thesis using assms by (cases rule: callback_check_cases) simp_all
next
  case (CallbackSend i)
  with assms have "callback_send cfg i s = Some s'" by (simp split: if_splits)
  then show ?thesis
    using assms by (cases rule: callback_send_cases) (auto simp: events_inv_def offer_events list_all_length)
next
  case (PollTick ois)
  with assms have "poll_start cfg False ois s = Some s'" by (simp split: if_splits)
  then show ?thesis using assms by (cases rule: poll_start_cases) simp
next
  case (PollFinal ois)
  with assms have "poll_start cfg True ois s = Some s'" by (simp split: if_splits)
  then show ?thesis using assms by (cases rule: poll_start_cases) simp
next
  case PollSend
  with assms have "poll_send cfg s = Some s'" by (simp split: if_splits)
  then show ?thesis using assms by (cases rule: poll_send_cases) auto
next
  case WorkerProcess
  with assms have "worker_process cfg s = Some s'" by (simp split: if_splits)
  then show ?thesis using assms by (cases rule: worker_process_cases) simp
next
  case WorkerExit
  with assms have "worker_exit s = Some s'" by (simp split: if_splits)
  then show ?thesis using assms by (auto simp: worker_exit_def split: if_splits)
next
  case CloseChannel
  with assms have "close_channel s = Some s'" by (simp split: if_splits)
  then show ?thesis using assms by (auto simp: close_channel_def split: if_splits)
qed (use assms in \<open>auto simp: cleanup_step_def split: if_splits\<close>)

lemma late_reach:
  assumes "pipeline_reach cfg s t" and "bgCancelled s" and "final_polling (pollerState s)" and "closing_inv cfg s" and "events_inv cfg s"
  shows "bgCancelled t \<and> final_polling (pollerState t) \<and> filter is_oast (acceptedLog t) = filter is_oast (acceptedLog s)"
  using assms
proof (induction rule: pipeline_reach.induct)
  case (pipeline_more s t a u)
  then have "events_inv cfg t" using pipeline_inv_from by blast
  with pipeline_more late_step [OF pipeline_more.hyps(2)] show ?case by simp
qed simp

text \<open>A callback that passed its check before the shutdown sends after it.\<close>

definition late_callback :: "pipeline_config \<Rightarrow> event \<Rightarrow> pipeline_action list" where
  "late_callback cfg e =
     [CallbackCheck e, Cancel, CleanupStop] @ (if pcOAST cfg = None then [] else [PollFinal [], PollSend])
     @ [CloseChannel, CallbackSend 0]"

lemma late_callback_panics:
  assumes "\<not> is_oast e" and "e \<noteq> ShimErrorEvent"
  shows "\<exists>t. pipeline_run cfg (late_callback cfg e) (pipeline_init cfg ts) = Some t \<and> panicked t"
  using assms
  by (auto simp: late_callback_def pipeline_init_def callback_check_def callback_send_def poll_start_def poll_send_def
      close_channel_def cleanup_step_def fetched_def Let_def split: option.split)


section \<open>Properties\<close>

text \<open>
  C5. The pipeline loses no accepted event: what entered the channel is, in order, what the workers
  have processed followed by what is still buffered, the buffer never exceeds its capacity, every
  report comes from a processed event, and when the analysis has finished every accepted event
  has been processed. From every reachable state after the cancellation, unless a callback has
  panicked, the shutdown can run to the end on its own, and then every accepted event is processed.
\<close>

theorem pipeline_accounting:
  assumes reach: "pipeline_reach cfg (pipeline_init cfg ts) s" and workers: "0 < pcWorkers cfg"
  shows "acceptedLog s = processedLog s @ eventsChan s \<and> length (eventsChan s) \<le> pcBuffer cfg
    \<and> reports_processed cfg (reportedLog s) (processedLog s)
    \<and> (mainPhase s = Finished \<longrightarrow> processedLog s = acceptedLog s)
    \<and> (bgCancelled s \<and> \<not> panicked s \<longrightarrow>
        (\<exists>as t. list_all shutdown_action as \<and> pipeline_run cfg as s = Some t \<and> mainPhase t = Finished
                \<and> prefix (acceptedLog s) (acceptedLog t) \<and> processedLog t = acceptedLog t))"
proof (intro conjI impI)
  note inv = pipeline_inv [OF reach]
  have all_done: "processedLog t = acceptedLog t"
    if "pipeline_reach cfg (pipeline_init cfg ts) t" "mainPhase t = Finished" for t
    using pipeline_inv [OF that(1)] that(2) workers by (simp add: closing_inv_def events_inv_def)
  show "acceptedLog s = processedLog s @ eventsChan s" "length (eventsChan s) \<le> pcBuffer cfg"
    "reports_processed cfg (reportedLog s) (processedLog s)"
    using inv by (simp_all add: events_inv_def)
  show "processedLog s = acceptedLog s" if "mainPhase s = Finished" using all_done [OF reach that] .
  assume "bgCancelled s \<and> \<not> panicked s"
  then have "finishes cfg s" using shutdown_finishes [OF inv] by blast
  then obtain as t where t: "list_all shutdown_action as" "pipeline_run cfg as s = Some t" "mainPhase t = Finished"
    "prefix (acceptedLog s) (acceptedLog t)" by (auto simp: finishes_def)
  moreover have "processedLog t = acceptedLog t" using all_done [OF pipeline_run_reach [OF reach t(2)] t(3)] .
  ultimately show "\<exists>as t. list_all shutdown_action as \<and> pipeline_run cfg as s = Some t \<and> mainPhase t = Finished
                \<and> prefix (acceptedLog s) (acceptedLog t) \<and> processedLog t = acceptedLog t"
    by blast
qed

text \<open>
  C39. Events that come late. The final poll of \<^verbatim>\<open>pollOASTInteractions\<close> is in vain: whatever it fetches,
  no out-of-band interaction is accepted after it, as \<^verbatim>\<open>enqueueEvent\<close> drops every event once the context
  is cancelled. And for every event a callback may bring there is a schedule in which its send
  meets the closed channel and panics, because \<^verbatim>\<open>shutdown\<close> does not wait for callbacks.
\<close>

theorem late_events:
  assumes "pipeline_reach cfg (pipeline_init cfg ts) s" and "pipeline_step cfg (PollFinal ois) s = Some s'"
    and "pipeline_reach cfg s' t" and "\<not> is_oast e" and "e \<noteq> ShimErrorEvent"
  shows "filter is_oast (acceptedLog t) = filter is_oast (acceptedLog s)
    \<and> (\<exists>u. pipeline_run cfg (late_callback cfg e) (pipeline_init cfg ts) = Some u \<and> panicked u)"
proof
  have "poll_start cfg True ois s = Some s'" using assms(2) by (simp split: if_splits)
  then have s': "bgCancelled s'" "final_polling (pollerState s')" "acceptedLog s' = acceptedLog s"
    by (auto simp: poll_start_def split: if_splits)
  have "pipeline_reach cfg (pipeline_init cfg ts) s'" by (rule pipeline_more [OF assms(1,2)])
  from late_reach [OF assms(3) s'(1,2) pipeline_inv [OF this]] s'(3)
  show "filter is_oast (acceptedLog t) = filter is_oast (acceptedLog s)" by simp
  show "\<exists>u. pipeline_run cfg (late_callback cfg e) (pipeline_init cfg ts) = Some u \<and> panicked u"
    using late_callback_panics [OF assms(4,5)] by blast
qed

section \<open>Instances\<close>

definition example_pipeline :: pipeline_config where
  "example_pipeline = \<lparr>pcBuffer = 1, pcWorkers = 1, pcExpiration = 600, pcOAST = Some ''oast.example'',
     pcUrlPath = (\<lambda>u. None), pcOrder = id\<rparr>"

definition example_oast :: taint_state where
  "example_oast = \<lparr>tsTaskID = ''task'', tsTarget = ''http://t.example/'',
     activeProbes = [''C'' \<mapsto> \<lparr>apType = ''OAST'', apKey = ''q'', apValue = ''v'', apCanary = ''C'', apSource = ''URL_PARAM'', apCreatedAt = 0\<rparr>],
     validTaintFlows = Map.empty, staticFindings = Map.empty\<rparr>"

definition example_interaction :: oast_interaction where
  "example_interaction = \<lparr>oiCanary = ''C'', oiProtocol = ''DNS'', oiSourceIP = ''192.0.2.1'', oiRawRequest = ''''\<rparr>"

definition example_proof :: event where
  "example_proof = ExecutionProofEvent \<lparr>peCanary = ''C'', peStackTrace = '''', pePageURL = '''', pePageTitle = ''''\<rparr>"

text \<open>One interaction is polled in time, a second one only by the final poll.\<close>

definition example_schedule :: "pipeline_action list" where
  "example_schedule = [PollTick [example_interaction], PollSend, PollSend, PollSend, WorkerProcess, Cancel]"

definition example_final_poll :: "pipeline_action list" where
  "example_final_poll = [PollSend, PollSend, CleanupStop, CloseChannel, WorkerExit, Finish]"

lemma example_schedule_runs:
  "\<exists>s s' t. pipeline_run example_pipeline example_schedule (pipeline_init example_pipeline example_oast) = Some s
     \<and> bgCancelled s \<and> \<not> panicked s \<and> length (reportedLog s) = 1 \<and> acceptedLog s = [OASTInteraction example_interaction]
     \<and> pipeline_step example_pipeline (PollFinal [example_interaction]) s = Some s'
     \<and> pipeline_run example_pipeline example_final_poll s' = Some t \<and> mainPhase t = Finished"
proof -
  define e where "e = OASTInteraction example_interaction"
  define s0 where "s0 = pipeline_init example_pipeline example_oast"
  define s1 where "s1 = s0\<lparr>pollerState := PollSending [e] False\<rparr>"
  define s2 where "s2 = s1\<lparr>pollerState := PollChecked e [] False\<rparr>"
  define s3 where "s3 = s2\<lparr>pollerState := PollSending [] False, eventsChan := [e], acceptedLog := [e]\<rparr>"
  define s4 where "s4 = s3\<lparr>pollerState := PollIdle\<rparr>"
  define s5 where "s5 = s4\<lparr>eventsChan := [], processedLog := [e], reportedLog := processEvent (\<lambda>u. None) id example_oast e\<rparr>"
  define s6 where "s6 = s5\<lparr>bgCancelled := True, mainPhase := WaitProducers\<rparr>"
  define s7 where "s7 = s6\<lparr>pollerState := PollSending [e] True\<rparr>"
  note defs = s1_def s2_def s3_def s4_def s5_def s6_def
  have rel: "fetched example_pipeline example_oast [example_interaction]"
    by (simp add: fetched_def example_pipeline_def oast_relevant_def example_oast_def example_interaction_def ProbeTypeOAST_def)
  have one: "length (processEvent (\<lambda>u. None) id example_oast e) = 1"
    by (simp add: e_def processOASTInteraction_def example_oast_def example_interaction_def)
  have f0: "pollerState s0 = PollIdle" "plState s0 = example_oast" "\<not> panicked s0" "\<not> bgCancelled s0" "eventsChan s0 = []"
    "acceptedLog s0 = []" "processedLog s0 = []" "reportedLog s0 = []" "workersLive s0 = 1" "mainPhase s0 = Probing"
    "\<not> chanClosed s0" "cleanerLive s0"
    by (simp_all add: s0_def pipeline_init_def example_pipeline_def)
  have c: "pcBuffer example_pipeline = 1" "pcUrlPath example_pipeline = (\<lambda>u. None)" "pcOrder example_pipeline = id"
    by (simp_all add: example_pipeline_def)
  have "pipeline_step example_pipeline (PollTick [example_interaction]) s0 = Some s1"
    using f0 rel by (simp add: poll_start_def s1_def e_def)
  moreover have "pipeline_step example_pipeline PollSend s1 = Some s2" using f0 by (simp add: poll_send_def s1_def s2_def)
  moreover have "pipeline_step example_pipeline PollSend s2 = Some s3"
    using f0 c by (simp add: poll_send_def s1_def s2_def s3_def offer_def)
  moreover have "pipeline_step example_pipeline PollSend s3 = Some s4" using f0 by (simp add: poll_send_def s1_def s2_def s3_def s4_def)
  moreover have "pipeline_step example_pipeline WorkerProcess s4 = Some s5"
    using f0 c by (simp add: worker_process_def s1_def s2_def s3_def s4_def s5_def)
  moreover have "pipeline_step example_pipeline Cancel s5 = Some s6" using f0 by (simp add: defs)
  ultimately have run: "pipeline_run example_pipeline example_schedule s0 = Some s6" by (simp add: example_schedule_def)
  have f6: "pollerState s6 = PollIdle" "plState s6 = example_oast" "\<not> panicked s6" "bgCancelled s6" "eventsChan s6 = []"
    "acceptedLog s6 = [e]" "length (reportedLog s6) = 1" "workersLive s6 = 1" "mainPhase s6 = WaitProducers"
    "\<not> chanClosed s6" "cleanerLive s6"
    using f0 one by (simp_all add: defs)
  have final: "pipeline_step example_pipeline (PollFinal [example_interaction]) s6 = Some s7"
    using f6 rel by (simp add: poll_start_def s7_def e_def)
  have "\<exists>t. pipeline_run example_pipeline example_final_poll s7 = Some t \<and> mainPhase t = Finished"
    using f6 by (simp add: s7_def example_final_poll_def poll_send_def close_channel_def cleanup_step_def worker_exit_def)
  with run final f6 show ?thesis unfolding s0_def e_def by blast
qed

theorem pipeline_accounting_witness:
  "\<exists>s. pipeline_run example_pipeline example_schedule (pipeline_init example_pipeline example_oast) = Some s
     \<and> length (reportedLog s) = 1 \<and> reports_processed example_pipeline (reportedLog s) (processedLog s)
     \<and> (\<exists>as t. pipeline_run example_pipeline as s = Some t \<and> mainPhase t = Finished
            \<and> prefix [OASTInteraction example_interaction] (processedLog t))"
proof -
  obtain s where s: "pipeline_run example_pipeline example_schedule (pipeline_init example_pipeline example_oast) = Some s"
    "bgCancelled s" "\<not> panicked s" "length (reportedLog s) = 1" "acceptedLog s = [OASTInteraction example_interaction]"
    using example_schedule_runs by blast
  have r: "pipeline_reach example_pipeline (pipeline_init example_pipeline example_oast) s"
    by (rule pipeline_run_reach [OF pipeline_refl s(1)])
  have "0 < pcWorkers example_pipeline" by (simp add: example_pipeline_def)
  note acc = pipeline_accounting [OF r this]
  then obtain as t where t: "pipeline_run example_pipeline as s = Some t" "mainPhase t = Finished"
    "prefix (acceptedLog s) (acceptedLog t)" "processedLog t = acceptedLog t"
    using s(2,3) by blast
  have "reports_processed example_pipeline (reportedLog s) (processedLog s)" using acc by blast
  with s t show ?thesis by metis
qed

theorem late_events_witness:
  "\<exists>s s' t. pipeline_run example_pipeline example_schedule (pipeline_init example_pipeline example_oast) = Some s
     \<and> pipeline_step example_pipeline (PollFinal [example_interaction]) s = Some s'
     \<and> pipeline_run example_pipeline example_final_poll s' = Some t \<and> mainPhase t = Finished
     \<and> filter is_oast (acceptedLog t) = [OASTInteraction example_interaction]
     \<and> (\<exists>u. pipeline_run example_pipeline (late_callback example_pipeline example_proof) (pipeline_init example_pipeline example_oast) = Some u
            \<and> panicked u)"
proof -
  obtain s s' t where s: "pipeline_run example_pipeline example_schedule (pipeline_init example_pipeline example_oast) = Some s"
    "acceptedLog s = [OASTInteraction example_interaction]"
    and f: "pipeline_step example_pipeline (PollFinal [example_interaction]) s = Some s'"
    and t: "pipeline_run example_pipeline example_final_poll s' = Some t" "mainPhase t = Finished"
    using example_schedule_runs by blast
  have r: "pipeline_reach example_pipeline (pipeline_init example_pipeline example_oast) s"
    by (rule pipeline_run_reach [OF pipeline_refl s(1)])
  have u: "pipeline_reach example_pipeline s' t" by (rule pipeline_run_reach [OF pipeline_refl t(1)])
  have "\<not> is_oast example_proof" "example_proof \<noteq> ShimErrorEvent" by (simp_all add: example_proof_def is_oast_def)
  note late = late_events [OF r f u this]
  then have "filter is_oast (acceptedLog t) = [OASTInteraction example_interaction]" using s(2) by simp
  with s(1) f t late show ?thesis by blast
qed

end
