(* ===== verification/IdorIdentifiers.thy ===== *)
theory IdorIdentifiers
  imports JsonCompare Regex "HOL-Library.Sublist"
begin

text \<open>
  The identifiers of the IDOR analyser (\<^verbatim>\<open>internal/analysis/auth/idor/helpers.go\<close>, \<^verbatim>\<open>types.go\<close>): how they
  are found in requests and responses, the pool they are kept in, the values that are tried in
  their place, and how a value is put back where an identifier was found.

  A request has its URL with the parsed query, its headers under canonical names, its cookies (the
  \<^verbatim>\<open>Cookie\<close> header as \<^verbatim>\<open>net/http\<close> reads it) and its body. Go maps are association lists in the order a \<^verbatim>\<open>range\<close>
  loop visits them. XML elements carry the path \<^verbatim>\<open>etree\<close> gives them; what the code uses of \<^verbatim>\<open>etree\<close>,
  \<^verbatim>\<open>uuid\<close>, \<^verbatim>\<open>encoding/json\<close>, \<^verbatim>\<open>mime/multipart\<close> and the hash functions is in the record \<open>idor_lib\<close>.
\<close>

section \<open>Identifiers\<close>

datatype IdentifierType = TypeNumericID | TypeUUID | TypeHash | TypeEmail | TypeUsername | TypeULID

datatype IdentifierLocation =
  LocationURLPath | LocationQueryParam | LocationJSONBody | LocationXMLBody | LocationFormBody
  | LocationHeader | LocationCookie | LocationEncodedPayload

text \<open>The last field is the encoding, the location and the key of the payload of an encoded one.\<close>

record ObservedIdentifier =
  oValue :: string
  oType :: IdentifierType
  oLocation :: IdentifierLocation
  oKey :: string
  oPathIndex :: int
  oEncoded :: "(string \<times> IdentifierLocation \<times> string) option"

fun type_text :: "IdentifierType \<Rightarrow> string" where
  "type_text TypeNumericID = ''NumericID''"
| "type_text TypeUUID = ''UUID''"
| "type_text TypeHash = ''Hash''"
| "type_text TypeEmail = ''Email''"
| "type_text TypeUsername = ''Username''"
| "type_text TypeULID = ''ULID''"

fun location_text :: "IdentifierLocation \<Rightarrow> string" where
  "location_text LocationURLPath = ''URLPath''"
| "location_text LocationQueryParam = ''QueryParam''"
| "location_text LocationJSONBody = ''JSONBody''"
| "location_text LocationXMLBody = ''XMLBody''"
| "location_text LocationFormBody = ''FormBody''"
| "location_text LocationHeader = ''Header''"
| "location_text LocationCookie = ''Cookie''"
| "location_text LocationEncodedPayload = ''EncodedPayload''"

definition format_int :: "int \<Rightarrow> string" where
  "format_int i = (if i < 0 then ''-'' @ itoa (nat (- i)) else itoa (nat i))"

definition identifier_String :: "ObservedIdentifier \<Rightarrow> string" where
  "identifier_String i =
     (case oEncoded i of
        Some (enc, loc, key) \<Rightarrow>
          enc @ '' in '' @ location_text loc @ ''['' @ key @ ''] at '' @ oKey i @ '' ('' @ type_text (oType i) @ '')''
      | None \<Rightarrow>
          if oLocation i = LocationURLPath
          then ''Path['' @ format_int (oPathIndex i) @ ''] ('' @ type_text (oType i) @ '')''
          else location_text (oLocation i) @ '': '' @ oKey i @ '' ('' @ type_text (oType i) @ '')'')"

section \<open>Patterns\<close>

definition any_hex :: "char \<Rightarrow> bool" where
  "any_hex c = (let n = (of_char c :: nat) in 48 \<le> n \<and> n \<le> 57 \<or> 65 \<le> n \<and> n \<le> 70 \<or> 97 \<le> n \<and> n \<le> 102)"

definition one_of :: "string \<Rightarrow> regex" where
  "one_of cs = Chr (\<lambda>c. c \<in> set cs)"

text \<open>\<^verbatim>\<open>(?i)\<close> is in the classes.\<close>

definition uuidRegex :: regex where
  "uuidRegex =
     Cat WordBoundary (Cat (Times 8 (Chr any_hex)) (Cat (Lit ''-'') (Cat (Times 4 (Chr any_hex)) (Cat (Lit ''-'')
       (Cat (one_of ''12345'') (Cat (Times 3 (Chr any_hex)) (Cat (Lit ''-'')
         (Cat (one_of ''89abAB'') (Cat (Times 3 (Chr any_hex)) (Cat (Lit ''-'') (Cat (Times 12 (Chr any_hex)) WordBoundary)))))))))))"

definition decimal :: "char \<Rightarrow> bool" where
  "decimal c = (digit_val c \<noteq> None)"

definition numericRegex :: regex where
  "numericRegex = Cat WordBoundary (Cat (UpTo 19 (Chr decimal)) WordBoundary)"

text \<open>The alternatives bind weaker than the boundaries, as in the pattern.\<close>

definition hashRegex :: regex where
  "hashRegex =
     Alt (Cat WordBoundary (Times 32 (Chr any_hex))) (Alt (Times 40 (Chr any_hex)) (Cat (Times 64 (Chr any_hex)) WordBoundary))"

definition regex_matches :: "regex \<Rightarrow> string \<Rightarrow> bool" where
  "regex_matches r s = (find_submatch r None s \<noteq> None)"

text \<open>\<^verbatim>\<open>uuid_ok\<close> tells whether \<^verbatim>\<open>uuid.Parse\<close> accepts a text.\<close>

definition matchIdentifier :: "(string \<Rightarrow> bool) \<Rightarrow> string \<Rightarrow> IdentifierType \<Rightarrow> regex \<Rightarrow> bool" where
  "matchIdentifier uuid_ok val ty r =
     (if val = [] then False
      else if \<not> regex_matches r val then False
      else case ty of
        TypeUUID \<Rightarrow> uuid_ok val
      | TypeNumericID \<Rightarrow>
          (case Atoi val of None \<Rightarrow> True | Some v \<Rightarrow> \<not> (1990 \<le> v \<and> v \<le> 2035 \<and> length val = 4))
      | _ \<Rightarrow> True)"

definition found :: "string \<Rightarrow> IdentifierType \<Rightarrow> IdentifierLocation \<Rightarrow> string \<Rightarrow> int \<Rightarrow> ObservedIdentifier" where
  "found val ty loc key idx =
     \<lparr>oValue = val, oType = ty, oLocation = loc, oKey = key, oPathIndex = idx, oEncoded = None\<rparr>"

definition checkAndAdd ::
  "(string \<Rightarrow> bool) \<Rightarrow> string \<Rightarrow> IdentifierLocation \<Rightarrow> string \<Rightarrow> int \<Rightarrow> ObservedIdentifier list" where
  "checkAndAdd uuid_ok val loc key idx =
     (if matchIdentifier uuid_ok val TypeUUID uuidRegex then [found val TypeUUID loc key idx]
      else
        let isHash = matchIdentifier uuid_ok val TypeHash hashRegex;
            isNumeric = matchIdentifier uuid_ok val TypeNumericID numericRegex
        in if isNumeric \<and> \<not> isHash then [found val TypeNumericID loc key idx]
           else if isHash then [found val TypeHash loc key idx] else [])"

text \<open>Headers of requests are looked at for UUIDs and hashes only.\<close>

definition checkHeader :: "(string \<Rightarrow> bool) \<Rightarrow> string \<Rightarrow> string \<Rightarrow> ObservedIdentifier list" where
  "checkHeader uuid_ok key val =
     (if matchIdentifier uuid_ok val TypeUUID uuidRegex then [found val TypeUUID LocationHeader key 0]
      else if matchIdentifier uuid_ok val TypeHash hashRegex then [found val TypeHash LocationHeader key 0] else [])"

section \<open>Documents\<close>

definition elem_prefix :: "string \<Rightarrow> nat \<Rightarrow> string" where
  "elem_prefix pfx i = pfx @ ''['' @ itoa i @ '']''"

definition field_prefix :: "string \<Rightarrow> string \<Rightarrow> string" where
  "field_prefix pfx key = (if pfx = [] then key else pfx @ ''.'' @ key)"

lemma size_zip_right [termination_simp]:
  "(a, b) \<in> set (zip xs ys) \<Longrightarrow> size b < Suc (size_list size ys)"
  by (meson le_imp_less_Suc set_zip_rightD size_list_estimation' order_refl)

fun extractFromJSON :: "(string \<Rightarrow> bool) \<Rightarrow> string \<Rightarrow> json \<Rightarrow> ObservedIdentifier list" where
  "extractFromJSON uuid_ok pfx data =
     (if 15 < length (filter (\<lambda>c. c = CHR ''.'') pfx) then []
      else case data of
        JObj m \<Rightarrow> concat (map (\<lambda>(key, val). extractFromJSON uuid_ok (field_prefix pfx key) val) m)
      | JArr xs \<Rightarrow> concat (map (\<lambda>(i, val). extractFromJSON uuid_ok (elem_prefix pfx i) val) (zip [0..<length xs] xs))
      | JStr v \<Rightarrow> checkAndAdd uuid_ok v LocationJSONBody pfx 0
      | JNum v \<Rightarrow> checkAndAdd uuid_ok v LocationJSONBody pfx 0
      | _ \<Rightarrow> [])"

declare extractFromJSON.simps [simp del]

datatype xml = XElement (xPath: string) (xText: string) (xAttrs: "(string \<times> string) list") (xChildren: "xml list")

fun extractFromXML :: "(string \<Rightarrow> bool) \<Rightarrow> xml \<Rightarrow> ObservedIdentifier list" where
  "extractFromXML uuid_ok (XElement path text attrs children) =
     (if TrimSpace text \<noteq> [] then checkAndAdd uuid_ok (TrimSpace text) LocationXMLBody path 0 else [])
     @ concat (map (\<lambda>(key, val). checkAndAdd uuid_ok val LocationXMLBody (path @ ''/@'' @ key) 0) attrs)
     @ concat (map (extractFromXML uuid_ok) children)"

section \<open>Requests and responses\<close>

type_synonym http_values = "(string \<times> string list) list"

record request_url =
  uPath :: string
  uQuery :: http_values
  uRest :: string

record request =
  rqMethod :: string
  rqURL :: request_url
  rqHeader :: http_values
  rqCookies :: "(string \<times> string) list"
  rqBody :: string

record response =
  rsStatus :: int
  rsHeader :: http_values
  rsRequestURL :: request_url

text \<open>\<^verbatim>\<open>textproto.CanonicalMIMEHeaderKey\<close>: a name with a byte that is no token byte is left as it is.\<close>

definition token_byte :: "char \<Rightarrow> bool" where
  "token_byte c =
     (let n = (of_char c :: nat) in
      48 \<le> n \<and> n \<le> 57 \<or> 65 \<le> n \<and> n \<le> 90 \<or> 97 \<le> n \<and> n \<le> 122
      \<or> 35 \<le> n \<and> n \<le> 39 \<or> n \<in> {33, 42, 43, 45, 46, 94, 95, 96, 124, 126})"

fun canonical_bytes :: "bool \<Rightarrow> string \<Rightarrow> string" where
  "canonical_bytes up [] = []"
| "canonical_bytes up (c # s) = (if up then upper_char c else lower_char c) # canonical_bytes (c = CHR ''-'') s"

definition CanonicalHeaderKey :: "string \<Rightarrow> string" where
  "CanonicalHeaderKey key = (if list_all token_byte key then canonical_bytes True key else key)"

definition header_get :: "http_values \<Rightarrow> string \<Rightarrow> string" where
  "header_get h key = (case map_of h (CanonicalHeaderKey key) of Some (v # vs) \<Rightarrow> v | _ \<Rightarrow> [])"

definition header_del :: "string \<Rightarrow> http_values \<Rightarrow> http_values" where
  "header_del key h = filter (\<lambda>(k, vs). k \<noteq> CanonicalHeaderKey key) h"

definition header_set :: "string \<Rightarrow> string \<Rightarrow> http_values \<Rightarrow> http_values" where
  "header_set key val h = header_del key h @ [(CanonicalHeaderKey key, [val])]"

text \<open>\<^verbatim>\<open>url.Values\<close>: the same without canonical names.\<close>

definition values_get :: "http_values \<Rightarrow> string \<Rightarrow> string" where
  "values_get q key = (case map_of q key of Some (v # vs) \<Rightarrow> v | _ \<Rightarrow> [])"

definition values_put :: "string \<Rightarrow> string \<Rightarrow> http_values \<Rightarrow> http_values" where
  "values_put key val q = filter (\<lambda>(k, vs). k \<noteq> key) q @ [(key, [val])]"

record part =
  pName :: string
  pFile :: string
  pHeader :: http_values
  pData :: "string option"

text \<open>
  A multipart body is read as the results of the calls of \<^verbatim>\<open>NextPart\<close>, a part or (\<open>None\<close>) an error
  after which reading goes on, as at a part with malformed headers, and as whether the closing
  boundary ends them. Where it is missing, \<^verbatim>\<open>NextPart\<close> fails with an error that is not \<^verbatim>\<open>io.EOF\<close>,
  and again on every further call.
\<close>

record idor_lib =
  il_uuid :: "string \<Rightarrow> bool"
  il_json :: "string \<Rightarrow> json option"
  il_marshal :: "json \<Rightarrow> string option"
  il_float :: "string \<Rightarrow> bool"
  il_xml :: "string \<Rightarrow> xml option"
  il_find :: "xml \<Rightarrow> string \<Rightarrow> nat list option"
  il_xml_write :: "xml \<Rightarrow> string"
  il_form :: "string \<Rightarrow> http_values option"
  il_form_write :: "http_values \<Rightarrow> string"
  il_multipart :: "string \<Rightarrow> string \<Rightarrow> (part option list \<times> bool) option"
  il_multipart_write :: "(http_values \<times> string) list \<Rightarrow> string \<times> string"
  il_md5 :: "string \<Rightarrow> string"
  il_sha1 :: "string \<Rightarrow> string"
  il_sha256 :: "string \<Rightarrow> string"
  il_new_uuid :: string

section \<open>Extraction\<close>

text \<open>The loop over the parts; it may not end.\<close>

partial_function (option) multipart_loop ::
  "(string \<Rightarrow> bool) \<Rightarrow> part option list \<Rightarrow> bool \<Rightarrow> ObservedIdentifier list \<Rightarrow> ObservedIdentifier list option" where
  "multipart_loop uuid_ok parts final acc =
     (case parts of
        [] \<Rightarrow> if final then Some acc else multipart_loop uuid_ok [] final acc
      | None # ps \<Rightarrow> multipart_loop uuid_ok ps final acc
      | Some p # ps \<Rightarrow>
          multipart_loop uuid_ok ps final
            (acc @ (if pFile p \<noteq> [] then []
                    else case pData p of None \<Rightarrow> [] | Some d \<Rightarrow> checkAndAdd uuid_ok d LocationFormBody (pName p) 0)))"

definition noisy_header :: "string \<Rightarrow> bool" where
  "noisy_header key = list_ex (EqualFold key) [''Cookie'', ''Authorization'', ''User-Agent'', ''Referer'']"

definition session_cookie :: "string \<Rightarrow> bool" where
  "session_cookie name = (EqualFold name ''session'' \<or> EqualFold name ''JSESSIONID'' \<or> Contains (ToLower name) ''auth'')"

definition form_identifiers :: "(string \<Rightarrow> bool) \<Rightarrow> http_values \<Rightarrow> IdentifierLocation \<Rightarrow> ObservedIdentifier list" where
  "form_identifiers uuid_ok q loc =
     concat (map (\<lambda>(key, vals). concat (map (\<lambda>val. checkAndAdd uuid_ok val loc key 0) vals)) q)"

definition path_identifiers :: "(string \<Rightarrow> bool) \<Rightarrow> string \<Rightarrow> ObservedIdentifier list" where
  "path_identifiers uuid_ok path =
     (let parts = Split path (CHR ''/'') in
      concat (map (\<lambda>(i, part). if part = [] then [] else checkAndAdd uuid_ok part LocationURLPath [] (int i))
        (zip [0..<length parts] parts)))"

definition header_identifiers :: "(string \<Rightarrow> bool) \<Rightarrow> http_values \<Rightarrow> ObservedIdentifier list" where
  "header_identifiers uuid_ok h =
     concat (map (\<lambda>(key, vals). if noisy_header key then [] else concat (map (checkHeader uuid_ok key) vals)) h)"

definition cookie_identifiers :: "(string \<Rightarrow> bool) \<Rightarrow> (string \<times> string) list \<Rightarrow> ObservedIdentifier list" where
  "cookie_identifiers uuid_ok cs =
     concat (map (\<lambda>(name, val). if session_cookie name then [] else checkAndAdd uuid_ok val LocationCookie name 0) cs)"

definition body_identifiers :: "idor_lib \<Rightarrow> string \<Rightarrow> string \<Rightarrow> ObservedIdentifier list option" where
  "body_identifiers lib contentType body =
     (if body = [] then Some []
      else if Contains contentType ''application/json''
        then Some (case il_json lib body of None \<Rightarrow> [] | Some data \<Rightarrow> extractFromJSON (il_uuid lib) [] data)
      else if Contains contentType ''application/xml'' \<or> Contains contentType ''text/xml''
        then Some (case il_xml lib body of None \<Rightarrow> [] | Some el \<Rightarrow> extractFromXML (il_uuid lib) el)
      else if Contains contentType ''application/x-www-form-urlencoded''
        then Some (case il_form lib body of None \<Rightarrow> [] | Some q \<Rightarrow> form_identifiers (il_uuid lib) q LocationFormBody)
      else if Contains contentType ''multipart/form-data''
        then (case il_multipart lib contentType body of
                None \<Rightarrow> Some []
              | Some (parts, final) \<Rightarrow> multipart_loop (il_uuid lib) parts final [])
      else Some [])"

text \<open>The key of \<^verbatim>\<open>deduplicateIdentifiers\<close> is the type and the value.\<close>

fun dedup_loop :: "(IdentifierType \<times> string) set \<Rightarrow> ObservedIdentifier list \<Rightarrow> ObservedIdentifier list" where
  "dedup_loop seen [] = []"
| "dedup_loop seen (i # is) =
     (if (oType i, oValue i) \<in> seen then dedup_loop seen is else i # dedup_loop (insert (oType i, oValue i) seen) is)"

definition deduplicateIdentifiers :: "ObservedIdentifier list \<Rightarrow> ObservedIdentifier list" where
  "deduplicateIdentifiers is = dedup_loop {} is"

definition ExtractIdentifiers :: "idor_lib \<Rightarrow> request \<Rightarrow> ObservedIdentifier list option" where
  "ExtractIdentifiers lib req =
     map_option
       (\<lambda>body. deduplicateIdentifiers
          (path_identifiers (il_uuid lib) (uPath (rqURL req))
           @ form_identifiers (il_uuid lib) (uQuery (rqURL req)) LocationQueryParam
           @ header_identifiers (il_uuid lib) (rqHeader req)
           @ cookie_identifiers (il_uuid lib) (rqCookies req) @ body))
       (body_identifiers lib (header_get (rqHeader req) ''Content-Type'') (rqBody req))"

definition response_body_identifiers :: "idor_lib \<Rightarrow> string \<Rightarrow> string \<Rightarrow> ObservedIdentifier list" where
  "response_body_identifiers lib contentType body =
     (if body = [] then []
      else if Contains contentType ''application/json''
        then (case il_json lib body of None \<Rightarrow> [] | Some data \<Rightarrow> extractFromJSON (il_uuid lib) [] data)
      else if Contains contentType ''application/xml'' \<or> Contains contentType ''text/xml''
        then (case il_xml lib body of None \<Rightarrow> [] | Some el \<Rightarrow> extractFromXML (il_uuid lib) el)
      else [])"

definition ExtractIdentifiersFromResponse :: "idor_lib \<Rightarrow> response option \<Rightarrow> string \<Rightarrow> ObservedIdentifier list" where
  "ExtractIdentifiersFromResponse lib resp body =
     (case resp of
        None \<Rightarrow> []
      | Some r \<Rightarrow>
          deduplicateIdentifiers
            (form_identifiers (il_uuid lib) (rsHeader r) LocationHeader
             @ response_body_identifiers lib (header_get (rsHeader r) ''Content-Type'') body))"

section \<open>The pool and the values to try\<close>

text \<open>The values of a type in the order a \<^verbatim>\<open>range\<close> loop visits them.\<close>

type_synonym IdentifierPool = "IdentifierType \<Rightarrow> string list"

definition NewIdentifierPool :: IdentifierPool where
  "NewIdentifierPool = (\<lambda>ty. [])"

definition pool_Add :: "ObservedIdentifier \<Rightarrow> IdentifierPool \<Rightarrow> IdentifierPool" where
  "pool_Add i pool = pool(oType i := (if oValue i \<in> set (pool (oType i)) then pool (oType i) else pool (oType i) @ [oValue i]))"

definition GetDifferent :: "IdentifierPool \<Rightarrow> IdentifierType \<Rightarrow> string \<Rightarrow> string option" where
  "GetDifferent pool ty current = List.find (\<lambda>v. v \<noteq> current) (pool ty)"

definition pool_Count :: "IdentifierPool \<Rightarrow> nat" where
  "pool_Count pool =
     sum_list (map (\<lambda>ty. length (pool ty)) [TypeNumericID, TypeUUID, TypeHash, TypeEmail, TypeUsername, TypeULID])"

text \<open>Arithmetic on \<^verbatim>\<open>int64\<close> wraps around.\<close>

definition wrap64 :: "int \<Rightarrow> int" where
  "wrap64 i = (i + 2 ^ 63) mod 2 ^ 64 - 2 ^ 63"

definition numeric_values :: "int \<Rightarrow> string list" where
  "numeric_values val =
     [format_int (wrap64 (val + 1))]
     @ (if 0 < val then [format_int (val - 1)] else [])
     @ (if val < 2 ^ 63 - 1000 \<and> wrap64 (val + 1) < wrap64 (val + 100) then [format_int (wrap64 (val + 100))] else [])"

definition generateHash :: "idor_lib \<Rightarrow> string \<Rightarrow> string \<Rightarrow> string" where
  "generateHash lib originalHash inp =
     (if length originalHash = 32 then il_md5 lib inp
      else if length originalHash = 40 then il_sha1 lib inp else il_sha256 lib inp)"

fun uniqueStrings_loop :: "string set \<Rightarrow> string list \<Rightarrow> string list" where
  "uniqueStrings_loop seen [] = []"
| "uniqueStrings_loop seen (v # vs) =
     (if v \<in> seen then uniqueStrings_loop seen vs else v # uniqueStrings_loop (insert v seen) vs)"

definition uniqueStrings :: "string list \<Rightarrow> string list" where
  "uniqueStrings vs = uniqueStrings_loop {} vs"

definition GenerateTestValues :: "idor_lib \<Rightarrow> IdentifierPool option \<Rightarrow> ObservedIdentifier \<Rightarrow> (string, string list) result" where
  "GenerateTestValues lib pool i =
     (let pooled = (case pool of None \<Rightarrow> []
                    | Some p \<Rightarrow> (case GetDifferent p (oType i) (oValue i) of None \<Rightarrow> [] | Some v \<Rightarrow> [v]))
      in case oType i of
        TypeNumericID \<Rightarrow>
          (case Atoi (oValue i) of
             None \<Rightarrow> Inl ''could not parse numeric ID''
           | Some val \<Rightarrow> Inr (uniqueStrings (pooled @ numeric_values val)))
      | TypeUUID \<Rightarrow> Inr (uniqueStrings (pooled @ [il_new_uuid lib]))
      | TypeHash \<Rightarrow> Inr (uniqueStrings (pooled @ [generateHash lib (oValue i) ''test_idor_value'']))
      | _ \<Rightarrow> if pooled = [] then Inl ''unsupported identifier type'' else Inr (uniqueStrings pooled))"

section \<open>Paths in JSON documents\<close>

datatype segment = SegKey string | SegIndex int

text \<open>The groups \<^verbatim>\<open>[n]\<close> a part ends in: \<^verbatim>\<open>((?:\[\d+\])+)$\<close>.\<close>

function index_groups :: "string \<Rightarrow> string list option" where
  "index_groups s =
     (case s of
        [] \<Rightarrow> Some []
      | c # t \<Rightarrow>
          if c \<noteq> CHR ''['' then None
          else case dropWhile decimal t of
            [] \<Rightarrow> None
          | e # r \<Rightarrow>
              if takeWhile decimal t \<noteq> [] \<and> e = CHR '']'' then map_option (\<lambda>ds. takeWhile decimal t # ds) (index_groups r) else None)"
  by pat_completeness auto
termination
proof (relation "measure length")
  fix s c t e r
  assume "s = c # t" "dropWhile decimal t = e # r"
  then show "(r, s) \<in> measure length" using length_dropWhile_le [of decimal t] by simp
qed simp

declare index_groups.simps [simp del]

definition parse_part :: "string \<Rightarrow> segment list" where
  "parse_part part =
     (let keyPart = takeWhile (\<lambda>c. c \<noteq> CHR ''['') part; rest = dropWhile (\<lambda>c. c \<noteq> CHR ''['') part in
      case (if rest = [] then None else index_groups rest) of
        None \<Rightarrow> [SegKey part]
      | Some ds \<Rightarrow>
          (if keyPart \<noteq> [] then [SegKey keyPart] else [])
          @ concat (map (\<lambda>d. case Atoi d of None \<Rightarrow> [] | Some i \<Rightarrow> [SegIndex i]) ds))"

definition parseJSONPath :: "string \<Rightarrow> segment list" where
  "parseJSONPath path =
     concat (map parse_part (filter (\<lambda>p. p \<noteq> [])
       (Split (if HasPrefix path ''['' then ''.'' @ path else path) (CHR ''.''))))"

fun modify_segments :: "json \<Rightarrow> segment list \<Rightarrow> json \<Rightarrow> (string, json) result" where
  "modify_segments new [] current = Inl ''failed to apply modification''"
| "modify_segments new (s # ss) current =
     (if current = JNull then Inl ''encountered nil value''
      else case s of
        SegKey k \<Rightarrow>
          (case current of
             JObj m \<Rightarrow>
               if ss = [] then Inr (JObj (put k new m))
               else (case map_of m k of
                       None \<Rightarrow> Inl ''key not found in object''
                     | Some x \<Rightarrow> bindR (modify_segments new ss x) (\<lambda>x'. Inr (JObj (put k x' m))))
           | _ \<Rightarrow> Inl ''expected object'')
      | SegIndex i \<Rightarrow>
          (case current of
             JArr a \<Rightarrow>
               if i < 0 \<or> int (length a) \<le> i then Inl ''array index out of bounds''
               else if ss = [] then Inr (JArr (a[nat i := new]))
               else bindR (modify_segments new ss (a ! nat i)) (\<lambda>x'. Inr (JArr (a[nat i := x'])))
           | _ \<Rightarrow> Inl ''expected array''))"

definition replacement :: "(string \<Rightarrow> bool) \<Rightarrow> string \<Rightarrow> json" where
  "replacement is_float v = (if is_float v then JNum v else JStr v)"

definition modifyJSONByPath :: "(string \<Rightarrow> bool) \<Rightarrow> json \<Rightarrow> string \<Rightarrow> string \<Rightarrow> (string, json) result" where
  "modifyJSONByPath is_float data path newValue =
     (if parseJSONPath path = [] then Inl ''invalid or empty path for modification''
      else modify_segments (replacement is_float newValue) (parseJSONPath path) data)"

section \<open>Putting a value in place\<close>

text \<open>The element at a position below the root, with a change applied to it.\<close>

fun xml_change :: "(xml \<Rightarrow> (string, xml) result) \<Rightarrow> nat list \<Rightarrow> xml \<Rightarrow> (string, xml) result" where
  "xml_change f [] e = f e"
| "xml_change f (n # ns) (XElement path text attrs children) =
     (if n < length children
      then bindR (xml_change f ns (children ! n)) (\<lambda>c. Inr (XElement path text attrs (children[n := c])))
      else Inl ''XML element not found'')"

definition set_text :: "string \<Rightarrow> xml \<Rightarrow> (string, xml) result" where
  "set_text val e = Inr (XElement (xPath e) val (xAttrs e) (xChildren e))"

text \<open>The first attribute of the name; attributes of a parsed element have distinct names.\<close>

definition set_attr :: "string \<Rightarrow> string \<Rightarrow> xml \<Rightarrow> (string, xml) result" where
  "set_attr name val e =
     (if name \<in> fst ` set (xAttrs e)
      then Inr (XElement (xPath e) (xText e) (map (\<lambda>(k, v). (k, if k = name then val else v)) (xAttrs e)) (xChildren e))
      else Inl ''XML attribute not found'')"

text \<open>\<^verbatim>\<open>strings.Split(path, "/@")\<close> at its last part.\<close>

fun split_attr :: "string \<Rightarrow> (string \<times> string) option" where
  "split_attr [] = None"
| "split_attr (c # s) =
     (case split_attr s of
        Some (p, a) \<Rightarrow> Some (c # p, a)
      | None \<Rightarrow> if HasPrefix (c # s) ''/@'' then Some ([], drop 2 (c # s)) else None)"

definition modifyXMLByPath :: "idor_lib \<Rightarrow> xml \<Rightarrow> string \<Rightarrow> string \<Rightarrow> (string, xml) result" where
  "modifyXMLByPath lib doc path newValue =
     (case split_attr path of
        Some (elementPath, attrName) \<Rightarrow>
          (case il_find lib doc elementPath of
             None \<Rightarrow> Inl ''XML element not found''
           | Some pos \<Rightarrow> xml_change (set_attr attrName newValue) pos doc)
      | None \<Rightarrow>
          (case il_find lib doc path of
             None \<Rightarrow> Inl ''XML element not found''
           | Some pos \<Rightarrow> xml_change (set_text newValue) pos doc))"

text \<open>\<^verbatim>\<open>createFormPart\<close> keeps the headers but the length.\<close>

definition createFormPart :: "http_values \<Rightarrow> string \<Rightarrow> http_values \<times> string" where
  "createFormPart h val = (filter (\<lambda>(k, vs). \<not> EqualFold k ''Content-Length'') h, val)"

fun copy_parts :: "string \<Rightarrow> string \<Rightarrow> part option list \<Rightarrow> (string, (http_values \<times> string) list) result" where
  "copy_parts fieldName newValue [] = Inr []"
| "copy_parts fieldName newValue (None # ps) = Inl ''error reading next part''"
| "copy_parts fieldName newValue (Some p # ps) =
     bindR (if pName p = fieldName then Inr (createFormPart (pHeader p) newValue)
            else case pData p of None \<Rightarrow> Inl ''error copying part data'' | Some d \<Rightarrow> Inr (pHeader p, d))
       (\<lambda>q. bindR (copy_parts fieldName newValue ps) (\<lambda>qs. Inr (q # qs)))"

definition modifyMultipartFormData ::
  "idor_lib \<Rightarrow> string \<Rightarrow> string \<Rightarrow> string \<Rightarrow> string \<Rightarrow> (string, string \<times> string) result" where
  "modifyMultipartFormData lib body contentType fieldName newValue =
     (case il_multipart lib contentType body of
        None \<Rightarrow> Inl ''invalid multipart content type''
      | Some (parts, final) \<Rightarrow>
          bindR (copy_parts fieldName newValue parts)
            (\<lambda>qs. if final then Inr (il_multipart_write lib qs) else Inl ''error reading next part''))"

definition apply_path :: "ObservedIdentifier \<Rightarrow> string \<Rightarrow> request \<Rightarrow> (string, request) result" where
  "apply_path i testValue req =
     (let parts = Split (uPath (rqURL req)) (CHR ''/''); n = oPathIndex i in
      if 0 \<le> n \<and> n < int (length parts)
      then if parts ! nat n = oValue i
           then Inr (req\<lparr>rqURL := (rqURL req)\<lparr>uPath := Join (parts[nat n := testValue]) ''/''\<rparr>\<rparr>)
           else Inl ''mismatch in URL path extraction''
      else Inl ''invalid URL path index'')"

definition apply_query :: "ObservedIdentifier \<Rightarrow> string \<Rightarrow> request \<Rightarrow> (string, request) result" where
  "apply_query i testValue req =
     (if values_get (uQuery (rqURL req)) (oKey i) \<noteq> []
      then Inr (req\<lparr>rqURL := (rqURL req)\<lparr>uQuery := values_put (oKey i) testValue (uQuery (rqURL req))\<rparr>\<rparr>)
      else Inl ''query parameter key not found'')"

definition apply_header :: "ObservedIdentifier \<Rightarrow> string \<Rightarrow> request \<Rightarrow> (string, request) result" where
  "apply_header i testValue req =
     (if header_get (rqHeader req) (oKey i) \<noteq> []
      then Inr (req\<lparr>rqHeader := header_set (oKey i) testValue (rqHeader req)\<rparr>) else Inl ''header key not found'')"

definition apply_cookie :: "ObservedIdentifier \<Rightarrow> string \<Rightarrow> request \<Rightarrow> (string, request) result" where
  "apply_cookie i testValue req =
     (if oKey i \<in> fst ` set (rqCookies req)
      then Inr (req\<lparr>rqCookies := map (\<lambda>(n, v). (n, if n = oKey i then testValue else v)) (rqCookies req)\<rparr>)
      else Inl ''cookie not found for replacement'')"

definition apply_form :: "idor_lib \<Rightarrow> ObservedIdentifier \<Rightarrow> string \<Rightarrow> request \<Rightarrow> (string, request) result" where
  "apply_form lib i testValue req =
     (let contentType = header_get (rqHeader req) ''Content-Type'' in
      if Contains contentType ''application/x-www-form-urlencoded''
      then (case il_form lib (rqBody req) of
              None \<Rightarrow> Inl ''failed to parse form-urlencoded body''
            | Some q \<Rightarrow>
                if values_get q (oKey i) \<noteq> []
                then Inr (req\<lparr>rqBody := il_form_write lib (values_put (oKey i) testValue q)\<rparr>) else Inl ''form key not found'')
      else if Contains contentType ''multipart/form-data''
      then bindR (modifyMultipartFormData lib (rqBody req) contentType (oKey i) testValue)
             (\<lambda>(body, newType). Inr (req\<lparr>rqHeader := header_set ''Content-Type'' newType (rqHeader req), rqBody := body\<rparr>))
      else Inl ''unsupported content type for LocationFormBody'')"

definition apply_json :: "idor_lib \<Rightarrow> ObservedIdentifier \<Rightarrow> string \<Rightarrow> request \<Rightarrow> (string, request) result" where
  "apply_json lib i testValue req =
     (case il_json lib (rqBody req) of
        None \<Rightarrow> Inl ''failed to unmarshal JSON body''
      | Some data \<Rightarrow>
          bindR (modifyJSONByPath (il_float lib) data (oKey i) testValue)
            (\<lambda>data'. case il_marshal lib data' of
                None \<Rightarrow> Inl ''failed to marshal modified JSON body''
              | Some body \<Rightarrow> Inr (req\<lparr>rqBody := body\<rparr>)))"

definition apply_xml :: "idor_lib \<Rightarrow> ObservedIdentifier \<Rightarrow> string \<Rightarrow> request \<Rightarrow> (string, request) result" where
  "apply_xml lib i testValue req =
     (case il_xml lib (rqBody req) of
        None \<Rightarrow> Inl ''failed to parse XML body''
      | Some doc \<Rightarrow>
          bindR (modifyXMLByPath lib doc (oKey i) testValue) (\<lambda>doc'. Inr (req\<lparr>rqBody := il_xml_write lib doc'\<rparr>)))"

definition ApplyTestValue :: "idor_lib \<Rightarrow> request \<Rightarrow> ObservedIdentifier \<Rightarrow> string \<Rightarrow> (string, request) result" where
  "ApplyTestValue lib req i testValue =
     (case oLocation i of
        LocationURLPath \<Rightarrow> apply_path i testValue req
      | LocationQueryParam \<Rightarrow> apply_query i testValue req
      | LocationHeader \<Rightarrow> apply_header i testValue req
      | LocationCookie \<Rightarrow> apply_cookie i testValue req
      | LocationFormBody \<Rightarrow> apply_form lib i testValue req
      | LocationJSONBody \<Rightarrow> apply_json lib i testValue req
      | LocationXMLBody \<Rightarrow> apply_xml lib i testValue req
      | LocationEncodedPayload \<Rightarrow> Inl ''unsupported location to apply test value'')"

section \<open>Paths and documents\<close>

text \<open>The value at a path, and the text a path of segments has in an identifier's key.\<close>

fun json_at :: "segment list \<Rightarrow> json \<Rightarrow> json option" where
  "json_at [] v = Some v"
| "json_at (SegKey k # ss) v = (case v of JObj m \<Rightarrow> Option.bind (map_of m k) (json_at ss) | _ \<Rightarrow> None)"
| "json_at (SegIndex i # ss) v =
     (case v of JArr a \<Rightarrow> if 0 \<le> i \<and> i < int (length a) then json_at ss (a ! nat i) else None | _ \<Rightarrow> None)"

fun path_text :: "string \<Rightarrow> segment list \<Rightarrow> string" where
  "path_text pfx [] = pfx"
| "path_text pfx (SegKey k # ss) = path_text (field_prefix pfx k) ss"
| "path_text pfx (SegIndex i # ss) = path_text (elem_prefix pfx (nat i)) ss"

text \<open>Keys that a path text separates, arrays whose indices fit in an \<^verbatim>\<open>int\<close>, objects with distinct keys.\<close>

definition plain_key :: "string \<Rightarrow> bool" where
  "plain_key k = (k \<noteq> [] \<and> CHR ''.'' \<notin> set k \<and> CHR ''['' \<notin> set k)"

fun plain_doc :: "json \<Rightarrow> bool" where
  "plain_doc (JObj m) = (distinct (map fst m) \<and> (\<forall>e\<in>set m. plain_key (fst e) \<and> plain_doc (snd e)))"
| "plain_doc (JArr xs) = (length xs < 2 ^ 63 \<and> (\<forall>x\<in>set xs. plain_doc x))"
| "plain_doc v = True"

definition plain_segment :: "segment \<Rightarrow> bool" where
  "plain_segment s = (case s of SegKey k \<Rightarrow> plain_key k | SegIndex i \<Rightarrow> 0 \<le> i \<and> i < 2 ^ 63)"

lemma found_simps [simp]:
  "oValue (found val ty loc key idx) = val" "oType (found val ty loc key idx) = ty"
  "oLocation (found val ty loc key idx) = loc" "oKey (found val ty loc key idx) = key"
  "oPathIndex (found val ty loc key idx) = idx" "oEncoded (found val ty loc key idx) = None"
  by (simp_all add: found_def)

lemma checkAndAdd_cases:
  assumes "i \<in> set (checkAndAdd uuid_ok val loc key idx)"
  shows "oValue i = val \<and> oLocation i = loc \<and> oKey i = key \<and> oPathIndex i = idx \<and> oEncoded i = None"
  using assms by (auto simp: checkAndAdd_def Let_def split: if_splits)

text \<open>An identifier of a document is a leaf of it, and its key is the text of the leaf's path.\<close>

definition leaf_text :: "json \<Rightarrow> string option" where
  "leaf_text v = (case v of JStr s \<Rightarrow> Some s | JNum s \<Rightarrow> Some s | _ \<Rightarrow> None)"

lemma extract_leaf:
  "plain_doc data \<Longrightarrow> i \<in> set (extractFromJSON uuid_ok pfx data) \<Longrightarrow>
   \<exists>ss v. json_at ss data = Some v \<and> leaf_text v = Some (oValue i) \<and> oKey i = path_text pfx ss
     \<and> list_all plain_segment ss \<and> oLocation i = LocationJSONBody"
proof (induction uuid_ok pfx data rule: extractFromJSON.induct)
  case (1 uuid_ok pfx data)
  have short: "\<not> 15 < length (filter (\<lambda>c. c = CHR ''.'') pfx)"
    using 1(4) by (auto simp: extractFromJSON.simps [of uuid_ok pfx data] split: if_splits)
  have leaf: ?case if "data = JStr v \<or> data = JNum v" "i \<in> set (checkAndAdd uuid_ok v LocationJSONBody pfx 0)" for v
    using checkAndAdd_cases [OF that(2)] that(1)
    by (intro exI [of _ "[]"] exI [of _ data]) (auto simp: leaf_text_def)
  show ?case
  proof (cases data)
    case (JObj m)
    then obtain key val where kv: "(key, val) \<in> set m" "i \<in> set (extractFromJSON uuid_ok (field_prefix pfx key) val)"
      using 1(4) short by (auto simp: extractFromJSON.simps [of uuid_ok pfx "JObj m"])
    have p: "plain_key key" "plain_doc val" "distinct (map fst m)" using 1(3) JObj kv(1) by auto
    obtain ss v where s: "json_at ss val = Some v" "leaf_text v = Some (oValue i)" "oKey i = path_text (field_prefix pfx key) ss"
      "list_all plain_segment ss" "oLocation i = LocationJSONBody"
      using 1(2) [OF short JObj kv(1) _ p(2) kv(2)] by blast
    have "map_of m key = Some val" using p(3) kv(1) by simp
    then have "json_at (SegKey key # ss) data = Some v" "path_text pfx (SegKey key # ss) = oKey i"
      "list_all plain_segment (SegKey key # ss)"
      using JObj s p by (simp_all add: plain_segment_def)
    then show ?thesis using s by metis
  next
    case (JArr xs)
    then obtain n val where kv: "(n, val) \<in> set (zip [0..<length xs] xs)"
      "i \<in> set (extractFromJSON uuid_ok (elem_prefix pfx n) val)"
      using 1(4) short by (auto simp: extractFromJSON.simps [of uuid_ok pfx "JArr xs"])
    then have n: "n < length xs" "val = xs ! n" by (auto simp: set_zip)
    have p: "plain_doc val" "length xs < 2 ^ 63" using 1(3) JArr n by auto
    obtain ss v where s: "json_at ss val = Some v" "leaf_text v = Some (oValue i)" "oKey i = path_text (elem_prefix pfx n) ss"
      "list_all plain_segment ss" "oLocation i = LocationJSONBody"
      using 1(1) [OF short JArr kv(1) _ p(1) kv(2)] by blast
    have "int n < 2 ^ 63" using n(1) p(2) by (simp add: less_trans)
    then have "json_at (SegIndex (int n) # ss) data = Some v" "path_text pfx (SegIndex (int n) # ss) = oKey i"
      "list_all plain_segment (SegIndex (int n) # ss)"
      using JArr s n by (simp_all add: plain_segment_def)
    then show ?thesis using s by metis
  next
    case (JStr v)
    then show ?thesis using 1(4) short leaf [of v] by (simp add: extractFromJSON.simps [of uuid_ok pfx "JStr v"])
  next
    case (JNum v)
    then show ?thesis using 1(4) short leaf [of v] by (simp add: extractFromJSON.simps [of uuid_ok pfx "JNum v"])
  next
    case JNull
    then show ?thesis using 1(4) short by (simp add: extractFromJSON.simps [of uuid_ok pfx JNull])
  next
    case (JBool b)
    then show ?thesis using 1(4) short by (simp add: extractFromJSON.simps [of uuid_ok pfx "JBool b"])
  qed
qed

lemma Split_append_part: "sep \<notin> set t \<Longrightarrow> Split (s @ sep # t) sep = Split s sep @ [t]"
  by (induction s) (auto simp: Split_no_sep split: list.splits)

lemma Split_append_last:
  "sep \<notin> set t \<Longrightarrow> Split (s @ t) sep = butlast (Split s sep) @ [last (Split s sep) @ t]"
  by (induction s) (auto simp: Split_no_sep split: list.splits)

definition groups :: "nat list \<Rightarrow> string" where
  "groups ns = concat (map (\<lambda>n. ''['' @ itoa n @ '']'') ns)"

lemma groups_simps [simp]:
  "groups [] = []" "groups (n # ns) = CHR ''['' # itoa n @ CHR '']'' # groups ns"
  "groups (ns @ [n]) = groups ns @ CHR ''['' # itoa n @ [CHR '']'']" "groups ns = [] \<longleftrightarrow> ns = []"
  by (cases ns; simp add: groups_def)+

lemma decimal_itoa: "list_all decimal (itoa n)"
  using itoa_chars by (fastforce simp: list_all_iff decimal_def)

lemma index_groups_groups: "index_groups (groups ns) = Some (map itoa ns)"
proof (induction ns)
  case Nil
  show ?case by (simp add: index_groups.simps [of "[]"])
next
  case (Cons n ns)
  have d: "\<forall>c\<in>set (itoa n). decimal c" "\<not> decimal (CHR '']'')"
    using decimal_itoa [of n] by (auto simp: list_all_iff decimal_def digit_val_def)
  then have "takeWhile decimal (itoa n @ CHR '']'' # groups ns) = itoa n"
    "dropWhile decimal (itoa n @ CHR '']'' # groups ns) = CHR '']'' # groups ns"
    by (simp_all add: takeWhile_append2 dropWhile_append2)
  then show ?case
    using Cons by (simp add: index_groups.simps [of "CHR ''['' # itoa n @ CHR '']'' # groups ns"])
qed

lemma parse_part_groups:
  assumes "CHR ''['' \<notin> set k" and "k \<noteq> [] \<or> ns \<noteq> []" and "list_all (\<lambda>n. n < 2 ^ 63) ns"
  shows "parse_part (k @ groups ns) = (if k \<noteq> [] then [SegKey k] else []) @ map (\<lambda>n. SegIndex (int n)) ns"
proof -
  have g: "groups ns = [] \<or> hd (groups ns) = CHR ''[''" by (cases ns) simp_all
  have "\<forall>c\<in>set k. c \<noteq> CHR ''[''" using assms(1) by auto
  then have t: "takeWhile (\<lambda>c. c \<noteq> CHR ''['') (k @ groups ns) = k" "dropWhile (\<lambda>c. c \<noteq> CHR ''['') (k @ groups ns) = groups ns"
    using g by (cases "groups ns"; simp add: takeWhile_append2 dropWhile_append2)+
  have a: "concat (map (\<lambda>d. case Atoi d of None \<Rightarrow> [] | Some i \<Rightarrow> [SegIndex i]) (map itoa ns)) = map (\<lambda>n. SegIndex (int n)) ns"
    using assms(3) by (induction ns) (simp_all add: Atoi_itoa)
  show ?thesis
    using assms(2) unfolding parse_part_def Let_def t by (cases "ns = []") (simp_all add: index_groups_groups a del: map_map)
qed

lemma path_text_snoc [simp]:
  "path_text pfx (ss @ [SegKey k]) = field_prefix (path_text pfx ss) k"
  "path_text pfx (ss @ [SegIndex i]) = elem_prefix (path_text pfx ss) (nat i)"
  by (induction pfx ss rule: path_text.induct) simp_all

text \<open>The last part of a path text, and what the parts before it are parsed to.\<close>

lemma path_parts:
  assumes "list_all plain_segment ss" and "ss \<noteq> []"
  shows "\<exists>ps k ns. Split (path_text [] ss) (CHR ''.'') = ps @ [k @ groups ns]
    \<and> CHR ''['' \<notin> set k \<and> (k \<noteq> [] \<or> ns \<noteq> []) \<and> list_all (\<lambda>n. n < 2 ^ 63) ns
    \<and> concat (map parse_part (filter (\<lambda>p. p \<noteq> []) ps)) @ (if k \<noteq> [] then [SegKey k] else []) @ map (\<lambda>n. SegIndex (int n)) ns = ss"
  using assms
proof (induction ss rule: rev_induct)
  case (snoc s ss)
  show ?case
  proof (cases "ss = []")
    case True
    show ?thesis
    proof (cases s)
      case (SegKey k)
      then have "plain_key k" using snoc.prems by (simp add: plain_segment_def)
      then have "Split (path_text [] [s]) (CHR ''.'') = [] @ [k @ groups []]"
        using SegKey by (simp add: plain_key_def field_prefix_def Split_no_sep)
      then show ?thesis
        using True SegKey \<open>plain_key k\<close> by (intro exI [of _ "[]"] exI [of _ k] exI [of _ "[]"]) (simp add: plain_key_def)
    next
      case (SegIndex i)
      then have i: "0 \<le> i" "nat i < 2 ^ 63" using snoc.prems by (auto simp: plain_segment_def nat_less_iff)
      have "Split (path_text [] [s]) (CHR ''.'') = [] @ [[] @ groups [nat i]]"
        using SegIndex itoa_not_mem [of "CHR ''.''"] by (simp add: elem_prefix_def Split_no_sep)
      then show ?thesis
        using True SegIndex i by (intro exI [of _ "[]"] exI [of _ "[]"] exI [of _ "[nat i]"]) simp
    qed
  next
    case False
    then obtain ps k ns where IH: "Split (path_text [] ss) (CHR ''.'') = ps @ [k @ groups ns]"
      "CHR ''['' \<notin> set k" "k \<noteq> [] \<or> ns \<noteq> []" "list_all (\<lambda>n. n < 2 ^ 63) ns"
      "concat (map parse_part (filter (\<lambda>p. p \<noteq> []) ps)) @ (if k \<noteq> [] then [SegKey k] else []) @ map (\<lambda>n. SegIndex (int n)) ns = ss"
      using snoc by auto
    have ne: "path_text [] ss \<noteq> []" using IH(1,3) by auto
    show ?thesis
    proof (cases s)
      case (SegKey k')
      then have k': "plain_key k'" using snoc.prems by (simp add: plain_segment_def)
      then have "Split (path_text [] (ss @ [s])) (CHR ''.'') = (ps @ [k @ groups ns]) @ [k' @ groups []]"
        using SegKey ne IH(1) by (simp add: plain_key_def field_prefix_def Split_append_part)
      moreover have "k @ groups ns \<noteq> []" using IH(3) by simp
      ultimately show ?thesis
        using SegKey k' IH(5) parse_part_groups [OF IH(2-4)]
        by (intro exI [of _ "ps @ [k @ groups ns]"] exI [of _ k'] exI [of _ "[]"]) (simp add: plain_key_def)
    next
      case (SegIndex i)
      then have i: "0 \<le> i" "nat i < 2 ^ 63" using snoc.prems by (auto simp: plain_segment_def nat_less_iff)
      have "CHR ''.'' \<notin> set (CHR ''['' # itoa (nat i) @ [CHR '']''])" using itoa_not_mem [of "CHR ''.''"] by simp
      from Split_append_last [OF this, of "path_text [] ss"]
      have "Split (path_text [] (ss @ [s])) (CHR ''.'') = ps @ [k @ groups (ns @ [nat i])]"
        using SegIndex IH(1) by (simp add: elem_prefix_def)
      then show ?thesis
        using SegIndex i IH(2-5) by (intro exI [of _ ps] exI [of _ k] exI [of _ "ns @ [nat i]"]) auto
    qed
  qed
qed simp

lemma parse_path_text:
  assumes "list_all plain_segment ss" and "ss \<noteq> []"
  shows "parseJSONPath (path_text [] ss) = ss"
proof -
  obtain ps k ns where p: "Split (path_text [] ss) (CHR ''.'') = ps @ [k @ groups ns]"
    "CHR ''['' \<notin> set k" "k \<noteq> [] \<or> ns \<noteq> []" "list_all (\<lambda>n. n < 2 ^ 63) ns"
    "concat (map parse_part (filter (\<lambda>p. p \<noteq> []) ps)) @ (if k \<noteq> [] then [SegKey k] else []) @ map (\<lambda>n. SegIndex (int n)) ns = ss"
    using path_parts [OF assms] by blast
  have "k @ groups ns \<noteq> []" using p(3) by simp
  then have "concat (map parse_part (filter (\<lambda>p. p \<noteq> []) (Split (path_text [] ss) (CHR ''.'')))) = ss"
    using p(1,5) parse_part_groups [OF p(2-4)] by simp
  then show ?thesis by (simp add: parseJSONPath_def)
qed

text \<open>Setting the value at a path that is there changes it and nothing beside it.\<close>

lemma map_of_put: "distinct (map fst m) \<Longrightarrow> map_of (put k v m) = (map_of m)(k \<mapsto> v)"
proof (induction m)
  case Nil
  show ?case by (simp add: put_def)
next
  case (Cons e m)
  show ?case
  proof (cases "fst e = k")
    case True
    then have "k \<notin> fst ` set m" using Cons.prems by auto
    then have "map (\<lambda>(k', v'). (k', if k' = k then v else v')) m = m" by (intro map_idI) force
    then show ?thesis using True by (cases e) (auto simp: put_def)
  next
    case False
    then have "put k v (e # m) = e # put k v m" by (cases e) (auto simp: put_def)
    then show ?thesis using Cons False by (cases e) auto
  qed
qed

lemma modify_segments_at:
  assumes "json_at ss data = Some v" and "ss \<noteq> []" and "plain_doc data"
  shows "\<exists>data'. modify_segments new ss data = Inr data' \<and> json_at ss data' = Some new
    \<and> (\<forall>ss'. \<not> prefix ss ss' \<and> \<not> prefix ss' ss \<longrightarrow> json_at ss' data' = json_at ss' data)"
  using assms
proof (induction ss arbitrary: data)
  case (Cons s ss)
  show ?case
  proof (cases s)
    case (SegKey k)
    with Cons.prems(1) obtain m x where m: "data = JObj m" "map_of m k = Some x" "json_at ss x = Some v"
      by (auto split: json.splits simp: Option.bind_eq_Some_conv)
    then have d: "distinct (map fst m)" "plain_doc x" using Cons.prems(3) by (auto dest: map_of_SomeD)
    note put = map_of_put [OF d(1)]
    obtain x' where x': "(if ss = [] then x' = new else modify_segments new ss x = Inr x')" "json_at ss x' = Some new"
      "\<forall>ss'. \<not> prefix ss ss' \<and> \<not> prefix ss' ss \<longrightarrow> json_at ss' x' = json_at ss' x"
      using Cons.IH [OF m(3) _ d(2)] by (cases "ss = []") auto
    have "modify_segments new (s # ss) data = Inr (JObj (put k x' m))"
      using SegKey m x'(1) by (auto split: if_splits)
    moreover have "json_at (s # ss) (JObj (put k x' m)) = Some new" using SegKey x'(2) put by simp
    moreover have "json_at ss' (JObj (put k x' m)) = json_at ss' data"
      if "\<not> prefix (s # ss) ss'" "\<not> prefix ss' (s # ss)" for ss'
      using that SegKey m x'(3) put by (cases "(ss', JObj m)" rule: json_at.cases) auto
    ultimately show ?thesis by blast
  next
    case (SegIndex i)
    with Cons.prems(1) obtain a where a: "data = JArr a" "0 \<le> i" "i < int (length a)" "json_at ss (a ! nat i) = Some v"
      by (auto split: json.splits if_splits)
    then have n: "nat i < length a" by linarith
    have d: "plain_doc (a ! nat i)" using Cons.prems(3) a(1) n by simp
    obtain x' where x': "(if ss = [] then x' = new else modify_segments new ss (a ! nat i) = Inr x')" "json_at ss x' = Some new"
      "\<forall>ss'. \<not> prefix ss ss' \<and> \<not> prefix ss' ss \<longrightarrow> json_at ss' x' = json_at ss' (a ! nat i)"
      using Cons.IH [OF a(4) _ d] by (cases "ss = []") auto
    have "modify_segments new (s # ss) data = Inr (JArr (a[nat i := x']))"
      using SegIndex a x'(1) by (auto split: if_splits)
    moreover have "json_at (s # ss) (JArr (a[nat i := x'])) = Some new" using SegIndex x'(2) a n by simp
    moreover have "json_at ss' (JArr (a[nat i := x'])) = json_at ss' data"
      if "\<not> prefix (s # ss) ss'" "\<not> prefix ss' (s # ss)" for ss'
    proof (cases "(ss', JArr a)" rule: json_at.cases)
      case (3 j ts v)
      show ?thesis
      proof (cases "j = i")
        case True
        then show ?thesis using 3 that SegIndex a n x'(3) by auto
      next
        case False
        then show ?thesis using 3 a n by (auto simp: nth_list_update eq_nat_nat_iff)
      qed
    qed (use that a in auto)
    ultimately show ?thesis by blast
  qed
qed simp

section \<open>What the patterns match\<close>

lemma regex_matches_match:
  assumes "regex_matches r s"
  shows "\<exists>a b q. s = a @ b \<and> rmatch r q b \<noteq> []"
proof -
  have "find_submatch r p s \<noteq> None \<Longrightarrow> \<exists>a b q. s = a @ b \<and> rmatch r q b \<noteq> []" for p
  proof (induction s arbitrary: p)
    case Nil
    then have "rmatch r p [] \<noteq> []" by (auto split: list.splits)
    then show ?case by blast
  next
    case (Cons c s)
    show ?case
    proof (cases "rmatch r p (c # s)")
      case Nil
      then have "find_submatch r (Some c) s \<noteq> None" using Cons.prems by simp
      from Cons.IH [OF this] obtain a b q where "s = a @ b" "rmatch r q b \<noteq> []" by blast
      then have "c # s = (c # a) @ b \<and> rmatch r q b \<noteq> []" by simp
      then show ?thesis by blast
    next
      case (Cons m ms)
      then have "c # s = [] @ (c # s) \<and> rmatch r p (c # s) \<noteq> []" by simp
      then show ?thesis by blast
    qed
  qed
  then show ?thesis using assms unfolding regex_matches_def by blast
qed

lemma Times_match: "(m, g) \<in> set (rmatch (Times n (Chr P)) p s) \<Longrightarrow> length m = n \<and> list_all P m \<and> (\<exists>t. s = m @ t)"
proof (induction n arbitrary: p s m g)
  case (Suc n)
  then obtain c t where s: "s = c # t" "P c" "\<exists>m' g'. m = c # m' \<and> (m', g') \<in> set (rmatch (Times n (Chr P)) (before p [c]) t)"
    by (cases s) (auto split: if_splits)
  then show ?case using Suc.IH by fastforce
qed simp

lemma UpTo_match:
  "0 < n \<Longrightarrow> (m, g) \<in> set (rmatch (UpTo n (Chr P)) p s) \<Longrightarrow>
   1 \<le> length m \<and> length m \<le> n \<and> list_all P m \<and> (\<exists>t. s = m @ t)"
proof (induction n arbitrary: p s m g)
  case (Suc n)
  then obtain c t m' g' where s: "s = c # t" "P c" "m = c # m'"
    "(m', g') \<in> set (rmatch (if n = 0 then Empty else Opt (UpTo n (Chr P))) (before p [c]) t)"
    by (cases s) (auto split: if_splits)
  show ?case
  proof (cases "n = 0 \<or> m' = []")
    case True
    with s show ?thesis by (auto split: if_splits)
  next
    case False
    with s(4) have "(m', g') \<in> set (rmatch (UpTo n (Chr P)) (before p [c]) t)" by auto
    with Suc.IH [of m' g' "before p [c]" t] False s show ?thesis by auto
  qed
qed simp

text \<open>A run of digits that begins and ends at word boundaries.\<close>

definition digit_word :: "string \<Rightarrow> bool" where
  "digit_word s \<longleftrightarrow> (\<exists>a d b. s = a @ d @ b \<and> 1 \<le> length d \<and> length d \<le> 19 \<and> list_all decimal d
     \<and> at_boundary (before None d) b)"

lemma before_nonempty: "m \<noteq> [] \<Longrightarrow> before p m = before None m"
  by (simp add: before_def)

lemma Cat_mem:
  "(m, g) \<in> set (rmatch (Cat a b) p s) \<longleftrightarrow>
     (\<exists>m1 g1 m2 g2. (m1, g1) \<in> set (rmatch a p s) \<and> (m2, g2) \<in> set (rmatch b (before p m1) (drop (length m1) s))
        \<and> m = m1 @ m2 \<and> g = g1 @ g2)"
  (is "_ \<longleftrightarrow> ?r")
proof
  show "(m, g) \<in> set (rmatch (Cat a b) p s) \<Longrightarrow> ?r" by auto
  assume ?r
  then obtain m1 g1 m2 g2 where "(m1, g1) \<in> set (rmatch a p s)" "(m2, g2) \<in> set (rmatch b (before p m1) (drop (length m1) s))"
    "m = m1 @ m2" "g = g1 @ g2" by blast
  then show "(m, g) \<in> set (rmatch (Cat a b) p s)"
    by (auto simp del: split_paired_Ex intro!: bexI [of _ "(m1, g1)"] image_eqI [of _ _ "(m2, g2)"])
qed

lemma boundary_mem: "(m, g) \<in> set (rmatch WordBoundary p s) \<longleftrightarrow> at_boundary p s \<and> m = [] \<and> g = []"
  by auto

lemma before_Nil [simp]: "before p [] = p"
  by (simp add: before_def)

lemma numericRegex_match:
  assumes "regex_matches numericRegex s"
  shows "digit_word s"
proof -
  obtain a b q where ab: "s = a @ b" "rmatch numericRegex q b \<noteq> []" using regex_matches_match [OF assms] by blast
  then obtain m g where m: "(m, g) \<in> set (rmatch numericRegex q b)" by (cases "rmatch numericRegex q b") auto
  then obtain d g' where d: "(d, g') \<in> set (rmatch (UpTo 19 (Chr decimal)) q b)" "at_boundary (before q d) (drop (length d) b)"
    unfolding numericRegex_def Cat_mem boundary_mem by (auto simp del: rmatch.simps)
  have u: "1 \<le> length d \<and> length d \<le> 19 \<and> list_all decimal d \<and> (\<exists>t. b = d @ t)"
    by (rule UpTo_match [OF _ d(1)]) simp
  then obtain t where t: "b = d @ t" by blast
  have "d \<noteq> []" using u by auto
  then have "at_boundary (before None d) t" using d(2) t before_nonempty [of d q] by simp
  then show ?thesis unfolding digit_word_def using ab(1) t u by blast
qed

definition hex_run :: "string \<Rightarrow> bool" where
  "hex_run s \<longleftrightarrow> (\<exists>a h b. s = a @ h @ b \<and> length h \<in> {32, 40, 64} \<and> list_all any_hex h)"

lemma hexRegex_match: "(m, g) \<in> set (rmatch (Times n (Chr any_hex)) p s) \<Longrightarrow> n \<in> {32, 40, 64} \<Longrightarrow> hex_run (a @ s)"
  unfolding hex_run_def using Times_match [of m g n any_hex p s] by auto

lemma hashRegex_match:
  assumes "regex_matches hashRegex s"
  shows "hex_run s"
proof -
  obtain a b q where ab: "s = a @ b" "rmatch hashRegex q b \<noteq> []" using regex_matches_match [OF assms] by blast
  then obtain m g where m: "(m, g) \<in> set (rmatch hashRegex q b)" by (cases "rmatch hashRegex q b") auto
  consider "(m, g) \<in> set (rmatch (Cat WordBoundary (Times 32 (Chr any_hex))) q b)"
    | "(m, g) \<in> set (rmatch (Times 40 (Chr any_hex)) q b)"
    | "(m, g) \<in> set (rmatch (Cat (Times 64 (Chr any_hex)) WordBoundary) q b)"
    using m unfolding hashRegex_def rmatch.simps(5) set_append Un_iff by blast
  then have "\<exists>n m' g' p. n \<in> {32, 40, 64} \<and> (m', g') \<in> set (rmatch (Times n (Chr any_hex)) p b)"
  proof cases
    case 1
    then have "(m, g) \<in> set (rmatch (Times 32 (Chr any_hex)) q b)" unfolding Cat_mem boundary_mem by (auto simp del: rmatch.simps)
    then show ?thesis by blast
  next
    case 2
    then show ?thesis by blast
  next
    case 3
    then show ?thesis unfolding Cat_mem by blast
  qed
  then show ?thesis using hexRegex_match ab(1) by blast
qed

text \<open>What an identifier of each type is.\<close>

definition well_typed :: "(string \<Rightarrow> bool) \<Rightarrow> ObservedIdentifier \<Rightarrow> bool" where
  "well_typed uuid_ok i \<longleftrightarrow> oValue i \<noteq> [] \<and> oEncoded i = None \<and>
     (case oType i of
        TypeUUID \<Rightarrow> uuid_ok (oValue i)
      | TypeNumericID \<Rightarrow> digit_word (oValue i) \<and> (\<forall>y. 1990 \<le> y \<and> y \<le> 2035 \<longrightarrow> oValue i \<noteq> itoa y)
      | TypeHash \<Rightarrow> hex_run (oValue i)
      | _ \<Rightarrow> False)"

lemma itoa_year:
  assumes "1990 \<le> (y :: nat)" "y \<le> 2035"
  shows "length (itoa y) = 4" "Atoi (itoa y) = Some (int y)"
proof -
  have d: "\<not> y < 10" "\<not> y div 10 < 10" "\<not> y div 10 div 10 < 10" "y div 10 div 10 div 10 < 10" using assms by auto
  then show "length (itoa y) = 4"
    by (simp add: itoa.simps [of y] itoa.simps [of "y div 10"] itoa.simps [of "y div 10 div 10"] itoa.simps [of "y div 10 div 10 div 10"])
  show "Atoi (itoa y) = Some (int y)" using assms by (intro Atoi_itoa) simp
qed

lemma match_numeric:
  assumes "matchIdentifier uuid_ok val TypeNumericID numericRegex"
  shows "well_typed uuid_ok (found val TypeNumericID loc key idx)"
proof -
  have m: "val \<noteq> []" "regex_matches numericRegex val" using assms by (auto simp: matchIdentifier_def split: if_splits)
  have "val \<noteq> itoa y" if "1990 \<le> y \<and> y \<le> 2035" for y
    using assms itoa_year [of y] that by (auto simp: matchIdentifier_def split: if_splits)
  then show ?thesis using m numericRegex_match by (simp add: well_typed_def)
qed

lemma match_hash:
  assumes "matchIdentifier uuid_ok val TypeHash hashRegex"
  shows "well_typed uuid_ok (found val TypeHash loc key idx)"
proof -
  have "val \<noteq> []" "regex_matches hashRegex val" using assms by (auto simp: matchIdentifier_def split: if_splits)
  then show ?thesis using hashRegex_match by (simp add: well_typed_def)
qed

lemma match_uuid:
  assumes "matchIdentifier uuid_ok val TypeUUID uuidRegex"
  shows "well_typed uuid_ok (found val TypeUUID loc key idx)"
  using assms by (simp add: matchIdentifier_def well_typed_def split: if_splits)

lemma checkAndAdd_typed:
  assumes "i \<in> set (checkAndAdd uuid_ok val loc key idx)"
  shows "well_typed uuid_ok i"
proof -
  consider "matchIdentifier uuid_ok val TypeUUID uuidRegex" "i = found val TypeUUID loc key idx"
    | "matchIdentifier uuid_ok val TypeNumericID numericRegex" "i = found val TypeNumericID loc key idx"
    | "matchIdentifier uuid_ok val TypeHash hashRegex" "i = found val TypeHash loc key idx"
    using assms unfolding checkAndAdd_def Let_def by (simp split: if_splits)
  then show ?thesis by cases (simp_all add: match_uuid match_numeric match_hash)
qed

lemma checkHeader_typed:
  assumes "i \<in> set (checkHeader uuid_ok key val)"
  shows "well_typed uuid_ok i"
proof -
  consider "matchIdentifier uuid_ok val TypeUUID uuidRegex" "i = found val TypeUUID LocationHeader key 0"
    | "matchIdentifier uuid_ok val TypeHash hashRegex" "i = found val TypeHash LocationHeader key 0"
    using assms unfolding checkHeader_def by (simp split: if_splits)
  then show ?thesis by cases (simp_all add: match_uuid match_hash)
qed

section \<open>Where identifiers come from\<close>

lemma multipart_loop_result:
  assumes "multipart_loop uuid_ok parts final acc = Some is"
  shows "final \<and> (\<forall>i\<in>set is. i \<in> set acc \<or> oLocation i = LocationFormBody \<and> well_typed uuid_ok i)"
  using assms
proof (rule multipart_loop.raw_induct [rotated, where P = "\<lambda>uuid_ok parts final acc is.
    final \<and> (\<forall>i\<in>set is. i \<in> set acc \<or> oLocation i = LocationFormBody \<and> well_typed uuid_ok i)"], goal_cases)
  case (1 loop uuid_ok parts final acc "is")
  show ?case
  proof (cases parts)
    case Nil
    then show ?thesis using 1(1) [of uuid_ok "[]" final acc "is"] 1(2) by (auto split: if_splits)
  next
    case (Cons x ps)
    show ?thesis
    proof (cases x)
      case None
      then have "loop uuid_ok ps final acc = Some is" using 1(2) Cons by simp
      from 1(1) [OF this] show ?thesis .
    next
      case (Some p)
      let ?new = "if pFile p \<noteq> [] then [] else case pData p of None \<Rightarrow> [] | Some d \<Rightarrow> checkAndAdd uuid_ok d LocationFormBody (pName p) 0"
      have "loop uuid_ok ps final (acc @ ?new) = Some is" using 1(2) Cons Some by simp
      from 1(1) [OF this] show ?thesis
        using checkAndAdd_cases checkAndAdd_typed by (fastforce split: if_splits option.splits)
    qed
  qed
qed

lemma multipart_loop_closed:
  "multipart_loop uuid_ok parts True acc \<noteq> None"
  by (induction parts arbitrary: acc) (subst multipart_loop.simps; simp split: option.split)+

lemma multipart_loop_open: "multipart_loop uuid_ok parts False acc = None"
  using multipart_loop_result [of uuid_ok parts False acc] by (cases "multipart_loop uuid_ok parts False acc") auto

lemma path_identifiers_cases:
  assumes "i \<in> set (path_identifiers uuid_ok path)"
  shows "oLocation i = LocationURLPath \<and> well_typed uuid_ok i \<and>
    (\<exists>n<length (Split path (CHR ''/'')). oPathIndex i = int n \<and> Split path (CHR ''/'') ! n = oValue i)"
proof -
  obtain n part where p: "(n, part) \<in> set (zip [0..<length (Split path (CHR ''/''))] (Split path (CHR ''/'')))"
    "i \<in> set (checkAndAdd uuid_ok part LocationURLPath [] (int n))"
    using assms by (auto simp: path_identifiers_def Let_def split: if_splits)
  then have "n < length (Split path (CHR ''/''))" "Split path (CHR ''/'') ! n = part" by (auto simp: set_zip)
  with checkAndAdd_cases [OF p(2)] checkAndAdd_typed [OF p(2)] show ?thesis by auto
qed

lemma form_identifiers_cases:
  assumes "i \<in> set (form_identifiers uuid_ok q loc)"
  shows "oLocation i = loc \<and> well_typed uuid_ok i \<and> (\<exists>vals. (oKey i, vals) \<in> set q \<and> oValue i \<in> set vals)"
proof -
  obtain key vals val where "(key, vals) \<in> set q" "val \<in> set vals" "i \<in> set (checkAndAdd uuid_ok val loc key 0)"
    using assms by (auto simp: form_identifiers_def)
  then show ?thesis using checkAndAdd_cases checkAndAdd_typed by metis
qed

lemma header_identifiers_cases:
  assumes "i \<in> set (header_identifiers uuid_ok h)"
  shows "oLocation i = LocationHeader \<and> well_typed uuid_ok i \<and> (\<exists>vals. (oKey i, vals) \<in> set h \<and> oValue i \<in> set vals)"
proof -
  obtain key vals val where "(key, vals) \<in> set h" "val \<in> set vals" "i \<in> set (checkHeader uuid_ok key val)"
    using assms by (auto simp: header_identifiers_def split: if_splits)
  moreover from this have "well_typed uuid_ok i" using checkHeader_typed by blast
  ultimately show ?thesis by (auto simp: checkHeader_def split: if_splits)
qed

lemma cookie_identifiers_cases:
  assumes "i \<in> set (cookie_identifiers uuid_ok cs)"
  shows "oLocation i = LocationCookie \<and> well_typed uuid_ok i \<and> (oKey i, oValue i) \<in> set cs"
proof -
  obtain name val where "(name, val) \<in> set cs" "i \<in> set (checkAndAdd uuid_ok val LocationCookie name 0)"
    using assms by (auto simp: cookie_identifiers_def split: if_splits)
  then show ?thesis using checkAndAdd_cases checkAndAdd_typed by metis
qed

lemma extractFromXML_cases: "i \<in> set (extractFromXML uuid_ok e) \<Longrightarrow> oLocation i = LocationXMLBody \<and> well_typed uuid_ok i"
  by (induction uuid_ok e rule: extractFromXML.induct) (auto dest: checkAndAdd_cases checkAndAdd_typed split: if_splits)

lemma extractFromJSON_location: "i \<in> set (extractFromJSON uuid_ok pfx data) \<Longrightarrow> oLocation i = LocationJSONBody \<and> well_typed uuid_ok i"
proof (induction uuid_ok pfx data rule: extractFromJSON.induct)
  case (1 uuid_ok pfx data)
  have short: "\<not> 15 < length (filter (\<lambda>c. c = CHR ''.'') pfx)"
    using 1(3) by (auto simp: extractFromJSON.simps [of uuid_ok pfx data] split: if_splits)
  show ?case
  proof (cases data)
    case (JObj m)
    then obtain key val where "(key, val) \<in> set m" "i \<in> set (extractFromJSON uuid_ok (field_prefix pfx key) val)"
      using 1(3) short by (auto simp: extractFromJSON.simps [of uuid_ok pfx "JObj m"])
    then show ?thesis using 1(2) [OF short JObj] by blast
  next
    case (JArr xs)
    then obtain n val where "(n, val) \<in> set (zip [0..<length xs] xs)" "i \<in> set (extractFromJSON uuid_ok (elem_prefix pfx n) val)"
      using 1(3) short by (auto simp: extractFromJSON.simps [of uuid_ok pfx "JArr xs"])
    then show ?thesis using 1(1) [OF short JArr] by blast
  qed (use 1(3) short in \<open>auto simp: extractFromJSON.simps [of uuid_ok pfx] dest: checkAndAdd_cases checkAndAdd_typed\<close>)
qed

lemma body_identifiers_cases:
  assumes "body_identifiers lib contentType body = Some is" and "i \<in> set is"
  shows "oLocation i \<in> {LocationJSONBody, LocationXMLBody, LocationFormBody}" and "well_typed (il_uuid lib) i"
    and "oLocation i = LocationJSONBody \<Longrightarrow> \<exists>data. il_json lib body = Some data \<and> i \<in> set (extractFromJSON (il_uuid lib) [] data)"
  using assms
  by (auto simp: body_identifiers_def split: if_splits option.splits
      dest: extractFromXML_cases extractFromJSON_location form_identifiers_cases multipart_loop_result)

lemma dedup_loop_mem: "i \<in> set (dedup_loop seen is) \<Longrightarrow> i \<in> set is \<and> (oType i, oValue i) \<notin> seen"
  by (induction seen "is" rule: dedup_loop.induct) (auto split: if_splits)

lemma dedup_loop_distinct: "distinct (map (\<lambda>i. (oType i, oValue i)) (dedup_loop seen is))"
  by (induction seen "is" rule: dedup_loop.induct) (auto dest: dedup_loop_mem)

text \<open>An identifier of a request, by its location.\<close>

lemma ExtractIdentifiers_cases:
  assumes "ExtractIdentifiers lib req = Some is" and "i \<in> set is"
  obtains (path) "oLocation i = LocationURLPath" "i \<in> set (path_identifiers (il_uuid lib) (uPath (rqURL req)))"
  | (query) "oLocation i = LocationQueryParam" "i \<in> set (form_identifiers (il_uuid lib) (uQuery (rqURL req)) LocationQueryParam)"
  | (head) "oLocation i = LocationHeader" "i \<in> set (header_identifiers (il_uuid lib) (rqHeader req))"
  | (cookie) "oLocation i = LocationCookie" "i \<in> set (cookie_identifiers (il_uuid lib) (rqCookies req))"
  | (body) body where "body_identifiers lib (header_get (rqHeader req) ''Content-Type'') (rqBody req) = Some body" "i \<in> set body"
proof -
  obtain body where b: "body_identifiers lib (header_get (rqHeader req) ''Content-Type'') (rqBody req) = Some body"
    "is = deduplicateIdentifiers
          (path_identifiers (il_uuid lib) (uPath (rqURL req))
           @ form_identifiers (il_uuid lib) (uQuery (rqURL req)) LocationQueryParam
           @ header_identifiers (il_uuid lib) (rqHeader req)
           @ cookie_identifiers (il_uuid lib) (rqCookies req) @ body)"
    using assms(1) by (auto simp: ExtractIdentifiers_def)
  then have "i \<in> set (path_identifiers (il_uuid lib) (uPath (rqURL req))
           @ form_identifiers (il_uuid lib) (uQuery (rqURL req)) LocationQueryParam
           @ header_identifiers (il_uuid lib) (rqHeader req)
           @ cookie_identifiers (il_uuid lib) (rqCookies req) @ body)"
    using assms(2) dedup_loop_mem unfolding deduplicateIdentifiers_def by metis
  then consider "i \<in> set (path_identifiers (il_uuid lib) (uPath (rqURL req)))"
    | "i \<in> set (form_identifiers (il_uuid lib) (uQuery (rqURL req)) LocationQueryParam)"
    | "i \<in> set (header_identifiers (il_uuid lib) (rqHeader req))"
    | "i \<in> set (cookie_identifiers (il_uuid lib) (rqCookies req))" | "i \<in> set body"
    by auto
  then show thesis
    using path_identifiers_cases form_identifiers_cases header_identifiers_cases cookie_identifiers_cases
      path query head cookie body [OF b(1)] by cases metis+
qed

section \<open>Properties\<close>

text \<open>A multipart body whose closing boundary is missing.\<close>

definition broken_multipart :: "idor_lib \<Rightarrow> string \<Rightarrow> string \<Rightarrow> bool" where
  "broken_multipart lib contentType body \<longleftrightarrow>
     body \<noteq> []
     \<and> \<not> list_ex (Contains contentType) [''application/json'', ''application/xml'', ''text/xml'', ''application/x-www-form-urlencoded'']
     \<and> Contains contentType ''multipart/form-data''
     \<and> (case il_multipart lib contentType body of None \<Rightarrow> False | Some (parts, final) \<Rightarrow> \<not> final)"

lemma multipart_loop_None: "multipart_loop uuid_ok parts final acc = None \<longleftrightarrow> \<not> final"
  using multipart_loop_closed multipart_loop_open by (cases final) auto

lemma body_identifiers_None: "body_identifiers lib contentType body = None \<longleftrightarrow> broken_multipart lib contentType body"
  unfolding body_identifiers_def broken_multipart_def
  by (simp add: multipart_loop_None split: option.split prod.split)

text \<open>
  C19. The identifiers found in a request are distinct in type and value, and each is what its type
  says: a UUID is one for \<^verbatim>\<open>uuid.Parse\<close>, a numeric identifier holds a run of at most 19 digits that ends
  at a word boundary and is no year from 1990 to 2035, a hash holds 32, 40 or 64 hexadecimal digits
  in a row. The extraction never returns on a multipart body without its closing boundary, and
  returns on every other.
\<close>

theorem identifiers_well_formed:
  "(\<forall>is. ExtractIdentifiers lib req = Some is \<longrightarrow>
      distinct (map (\<lambda>i. (oType i, oValue i)) is) \<and> list_all (well_typed (il_uuid lib)) is)
   \<and> (ExtractIdentifiers lib req = None \<longleftrightarrow> broken_multipart lib (header_get (rqHeader req) ''Content-Type'') (rqBody req))"
proof (intro conjI allI impI)
  fix "is" assume e: "ExtractIdentifiers lib req = Some is"
  then show "distinct (map (\<lambda>i. (oType i, oValue i)) is)"
    by (auto simp: ExtractIdentifiers_def deduplicateIdentifiers_def dedup_loop_distinct)
  show "list_all (well_typed (il_uuid lib)) is"
    unfolding list_all_iff
  proof
    fix i assume "i \<in> set is"
    with e show "well_typed (il_uuid lib) i"
      by (cases rule: ExtractIdentifiers_cases)
        (use path_identifiers_cases form_identifiers_cases header_identifiers_cases cookie_identifiers_cases
          body_identifiers_cases(2) in blast)+
  qed
next
  show "ExtractIdentifiers lib req = None \<longleftrightarrow> broken_multipart lib (header_get (rqHeader req) ''Content-Type'') (rqBody req)"
    by (simp add: ExtractIdentifiers_def body_identifiers_None)
qed


section \<open>Values to try\<close>

lemma uniqueStrings_loop_set: "set (uniqueStrings_loop seen vs) = set vs - seen"
  by (induction seen vs rule: uniqueStrings_loop.induct) auto

lemma uniqueStrings_loop_distinct: "distinct (uniqueStrings_loop seen vs)"
  by (induction seen vs rule: uniqueStrings_loop.induct) (auto simp: uniqueStrings_loop_set)

lemma uniqueStrings [simp]: "set (uniqueStrings vs) = set vs" "distinct (uniqueStrings vs)"
  by (simp_all add: uniqueStrings_def uniqueStrings_loop_set uniqueStrings_loop_distinct)

lemma Atoi_format_int:
  assumes "- (2 ^ 63) \<le> i" "i < 2 ^ 63"
  shows "Atoi (format_int i) = Some i"
proof (cases "i < 0")
  case True
  then show ?thesis using assms by (simp add: format_int_def Atoi_def Let_def)
next
  case False
  then show ?thesis using assms by (simp add: format_int_def Atoi_itoa nat_less_iff)
qed

lemma wrap64_range: "- (2 ^ 63) \<le> wrap64 i \<and> wrap64 i < 2 ^ 63"
proof -
  have "0 \<le> (i + 2 ^ 63) mod 2 ^ 64" "(i + 2 ^ 63) mod 2 ^ 64 < (2 :: int) ^ 64" by simp_all
  then show ?thesis unfolding wrap64_def by simp
qed

lemma wrap64_id: "- (2 ^ 63) \<le> i \<Longrightarrow> i < 2 ^ 63 \<Longrightarrow> wrap64 i = i"
  by (simp add: wrap64_def)

lemma GetDifferent_cases:
  "GetDifferent pool ty v = None \<longleftrightarrow> set (pool ty) \<subseteq> {v}"
  "GetDifferent pool ty v = Some w \<Longrightarrow> w \<in> set (pool ty) \<and> w \<noteq> v"
  by (auto simp: GetDifferent_def find_None_iff find_Some_iff)

text \<open>
  C31. The values tried for a numeric identifier that parses: they are distinct, none is the observed
  text, and each is either a value of the pool, taken as it was observed (it need not parse), or the
  text of an \<^verbatim>\<open>int64\<close> that the code computed. A value of the pool comes with them when the pool has
  another one, and the neighbours are among them. At the largest \<^verbatim>\<open>int64\<close> the increment wraps around to
  the smallest. A numeric identifier that does not parse gets an error, whatever the pool holds.
\<close>

theorem test_values_numeric:
  assumes "oType i = TypeNumericID"
  shows "(Atoi (oValue i) = None \<longrightarrow> (\<exists>e. GenerateTestValues lib (Some pool) i = Inl e))
    \<and> (\<forall>n. Atoi (oValue i) = Some n \<longrightarrow>
        (\<exists>vs. GenerateTestValues lib (Some pool) i = Inr vs \<and> distinct vs \<and> oValue i \<notin> set vs
          \<and> (\<forall>v\<in>set vs. v \<in> set (pool TypeNumericID) \<or> (\<exists>m. - (2 ^ 63) \<le> m \<and> m < 2 ^ 63 \<and> v = format_int m))
          \<and> (\<not> set (pool TypeNumericID) \<subseteq> {oValue i} \<longrightarrow> set (pool TypeNumericID) \<inter> set vs \<noteq> {})
          \<and> (n < 2 ^ 63 - 1 \<longrightarrow> format_int (n + 1) \<in> set vs) \<and> (0 < n \<longrightarrow> format_int (n - 1) \<in> set vs)
          \<and> (n = 2 ^ 63 - 1 \<longrightarrow> format_int (- (2 ^ 63)) \<in> set vs)))"
proof (intro conjI impI allI)
  show "\<exists>e. GenerateTestValues lib (Some pool) i = Inl e" if "Atoi (oValue i) = None"
    using assms that by (simp add: GenerateTestValues_def)
  fix n assume n: "Atoi (oValue i) = Some n"
  then have range: "- (2 ^ 63) \<le> n" "n < 2 ^ 63" by (auto simp: Atoi_def Let_def split: if_splits option.splits)
  define pooled where "pooled = (case GetDifferent pool TypeNumericID (oValue i) of None \<Rightarrow> [] | Some v \<Rightarrow> [v])"
  have g: "GenerateTestValues lib (Some pool) i = Inr (uniqueStrings (pooled @ numeric_values n))"
    using assms n by (simp add: GenerateTestValues_def pooled_def)
  have num: "\<exists>m. v = format_int m \<and> - (2 ^ 63) \<le> m \<and> m < 2 ^ 63 \<and> m \<noteq> n" if "v \<in> set (numeric_values n)" for v
  proof -
    have "wrap64 (n + 1) \<noteq> n" using range wrap64_id [of "n + 1"] by (cases "n = 2 ^ 63 - 1") (auto simp: wrap64_def)
    moreover have "wrap64 (n + 100) \<noteq> n" if "n < 2 ^ 63 - 1000" using that range wrap64_id [of "n + 100"] by simp
    ultimately show ?thesis
      using that range wrap64_range by (auto simp: numeric_values_def split: if_splits)
  qed
  have "oValue i \<notin> set (numeric_values n)"
    using num n Atoi_format_int by fastforce
  moreover have "oValue i \<notin> set pooled"
    using GetDifferent_cases(2) [of pool TypeNumericID "oValue i"] by (cases "GetDifferent pool TypeNumericID (oValue i)") (auto simp: pooled_def)
  moreover have "\<forall>v\<in>set (numeric_values n). \<exists>m. - (2 ^ 63) \<le> m \<and> m < 2 ^ 63 \<and> v = format_int m" using num by blast
  moreover have "set pooled \<subseteq> set (pool TypeNumericID)" "\<not> set (pool TypeNumericID) \<subseteq> {oValue i} \<Longrightarrow> pooled \<noteq> []"
    using GetDifferent_cases [of pool TypeNumericID "oValue i"] by (auto simp: pooled_def split: option.splits)
  moreover have "format_int (n + 1) \<in> set (numeric_values n)" if "n < 2 ^ 63 - 1"
    using that range by (simp add: numeric_values_def wrap64_id)
  moreover have "format_int (- (2 ^ 63)) \<in> set (numeric_values n)" if "n = 2 ^ 63 - 1"
  proof -
    have "wrap64 (n + 1) = - (2 ^ 63)" using that by (simp add: wrap64_def)
    then show ?thesis by (simp add: numeric_values_def)
  qed
  moreover have "format_int (n - 1) \<in> set (numeric_values n)" if "0 < n" using that by (simp add: numeric_values_def)
  ultimately show "\<exists>vs. GenerateTestValues lib (Some pool) i = Inr vs \<and> distinct vs \<and> oValue i \<notin> set vs
          \<and> (\<forall>v\<in>set vs. v \<in> set (pool TypeNumericID) \<or> (\<exists>m. - (2 ^ 63) \<le> m \<and> m < 2 ^ 63 \<and> v = format_int m))
          \<and> (\<not> set (pool TypeNumericID) \<subseteq> {oValue i} \<longrightarrow> set (pool TypeNumericID) \<inter> set vs \<noteq> {})
          \<and> (n < 2 ^ 63 - 1 \<longrightarrow> format_int (n + 1) \<in> set vs) \<and> (0 < n \<longrightarrow> format_int (n - 1) \<in> set vs)
          \<and> (n = 2 ^ 63 - 1 \<longrightarrow> format_int (- (2 ^ 63)) \<in> set vs)"
    unfolding g by (intro exI [of _ "uniqueStrings (pooled @ numeric_values n)"]) (cases pooled; auto)
qed

section \<open>Instances\<close>

definition example_idor_doc :: json where
  "example_idor_doc = JObj [(''user'', JObj [(''ids'', JArr [JNum ''41'', JStr ''42'']), (''n'', JBool True)])]"

definition example_idor_lib :: idor_lib where
  "example_idor_lib =
     \<lparr>il_uuid = (\<lambda>s. False), il_json = (\<lambda>s. if s = ''d'' then Some example_idor_doc else None), il_marshal = (\<lambda>d. Some ''d''),
      il_float = (\<lambda>s. Atoi s \<noteq> None), il_xml = (\<lambda>s. None), il_find = (\<lambda>d p. None), il_xml_write = (\<lambda>d. []),
      il_form = (\<lambda>s. None), il_form_write = (\<lambda>q. []), il_multipart = (\<lambda>t b. None), il_multipart_write = (\<lambda>ps. ([], [])),
      il_md5 = id, il_sha1 = id, il_sha256 = id, il_new_uuid = ''u''\<rparr>"

definition example_idor_request :: request where
  "example_idor_request =
     \<lparr>rqMethod = ''PUT'', rqURL = \<lparr>uPath = ''/u/77'', uQuery = [], uRest = []\<rparr>,
      rqHeader = [(''Content-Type'', [''application/json''])], rqCookies = [], rqBody = ''d''\<rparr>"

definition example_path_id :: ObservedIdentifier where
  "example_path_id = found ''77'' TypeNumericID LocationURLPath [] 2"

definition example_json_id :: ObservedIdentifier where
  "example_json_id = found ''42'' TypeNumericID LocationJSONBody ''user.ids[1]'' 0"

lemma example_extract:
  "ExtractIdentifiers example_idor_lib example_idor_request =
     Some [example_path_id, found ''41'' TypeNumericID LocationJSONBody ''user.ids[0]'' 0, example_json_id]"
  by code_simp


theorem test_values_numeric_witness:
  "\<exists>vs. GenerateTestValues example_idor_lib (Some (pool_Add (found ''5'' TypeNumericID LocationCookie [] 0) NewIdentifierPool))
       example_path_id = Inr vs
     \<and> distinct vs \<and> ''77'' \<notin> set vs \<and> ''5'' \<in> set vs \<and> format_int 78 \<in> set vs \<and> format_int 76 \<in> set vs"
proof -
  have t: "oType example_path_id = TypeNumericID" "oValue example_path_id = ''77''" by (simp_all add: example_path_id_def)
  have a: "Atoi ''77'' = Some 77" by code_simp
  define pool where "pool = pool_Add (found ''5'' TypeNumericID LocationCookie [] 0) NewIdentifierPool"
  have p: "pool TypeNumericID = [''5'']" by (simp add: pool_def pool_Add_def NewIdentifierPool_def)
  obtain vs where "GenerateTestValues example_idor_lib (Some pool) example_path_id = Inr vs" "distinct vs" "''77'' \<notin> set vs"
    "set (pool TypeNumericID) \<inter> set vs \<noteq> {}" "format_int (77 + 1) \<in> set vs" "format_int (77 - 1) \<in> set vs"
    using test_values_numeric [OF t(1), of example_idor_lib pool] a p unfolding t(2) by auto
  then show ?thesis unfolding pool_def [symmetric] p by auto
qed

theorem identifiers_well_formed_witness:
  "distinct (map (\<lambda>i. (oType i, oValue i)) [example_path_id, found ''41'' TypeNumericID LocationJSONBody ''user.ids[0]'' 0, example_json_id])
   \<and> well_typed (il_uuid example_idor_lib) example_path_id
   \<and> ExtractIdentifiers (example_idor_lib\<lparr>il_multipart := (\<lambda>t b. Some ([], False))\<rparr>)
       (example_idor_request\<lparr>rqHeader := [(''Content-Type'', [''multipart/form-data''])]\<rparr>) = None"
proof -
  have "broken_multipart (example_idor_lib\<lparr>il_multipart := (\<lambda>t b. Some ([], False))\<rparr>)
      (header_get [(''Content-Type'', [''multipart/form-data''])] ''Content-Type'') ''d''"
    by code_simp
  then have "ExtractIdentifiers (example_idor_lib\<lparr>il_multipart := (\<lambda>t b. Some ([], False))\<rparr>)
       (example_idor_request\<lparr>rqHeader := [(''Content-Type'', [''multipart/form-data''])]\<rparr>) = None"
    using identifiers_well_formed [of "example_idor_lib\<lparr>il_multipart := (\<lambda>t b. Some ([], False))\<rparr>"
        "example_idor_request\<lparr>rqHeader := [(''Content-Type'', [''multipart/form-data''])]\<rparr>"]
    by (simp add: example_idor_request_def)
  moreover have "distinct (map (\<lambda>i. (oType i, oValue i)) [example_path_id, found ''41'' TypeNumericID LocationJSONBody ''user.ids[0]'' 0, example_json_id])
     \<and> list_all (well_typed (il_uuid example_idor_lib)) [example_path_id, found ''41'' TypeNumericID LocationJSONBody ''user.ids[0]'' 0, example_json_id]"
    using identifiers_well_formed [of example_idor_lib example_idor_request] example_extract by blast
  ultimately show ?thesis by auto
qed

end
