(* ===== verification/IdorDetect.thy ===== *)
theory IdorDetect
  imports IdorIdentifiers "HOL-Library.List_Lexorder" "HOL-Library.Char_ord"
begin

text \<open>
  The IDOR analyser (\<^verbatim>\<open>internal/analysis/auth/idor/idor.go\<close>, \<^verbatim>\<open>idor_analyzer.go\<close>): the set-up of its
  strategies, the tasks it derives from recorded traffic, the requests it replays, how it judges their
  responses and which findings it keeps.

  The client, the comparer, \<^verbatim>\<open>net/url\<close> and \<^verbatim>\<open>mime\<close> are in the record \<open>idor_env\<close>. The tasks run
  concurrently but share nothing but the findings channel, so that a run is the findings of the
  tasks in some order of arrival; the answer to a request may differ from task to task, which their
  numbers tell apart. Cancellation of the context is not modelled. A call of a nil session panics.
\<close>

section \<open>Configuration\<close>

record session =
  IsAuthenticated :: bool
  ApplyToRequest :: "request \<Rightarrow> request"
  HeaderNames :: "string list"
  CookieNames :: "string list"

definition NilSession :: session where
  "NilSession = \<lparr>IsAuthenticated = False, ApplyToRequest = (\<lambda>r. r), HeaderNames = [], CookieNames = []\<rparr>"

record idor_config =
  Session :: "session option"
  SecondSession :: "session option"
  SkipHorizontal :: bool
  SkipManipulation :: bool
  SkipUnauthenticated :: bool
  SkipHorizontalManipulation :: bool
  AllowUnsafeMethods :: bool
  ComparisonOptions :: Options
  ConcurrencyLevel :: int

record traffic_pair =
  prRequest :: request
  prResponse :: "response option"
  prResponseBody :: string

record idor_env =
  env_send :: "nat \<Rightarrow> request \<Rightarrow> (response \<times> string) option"
  env_compare :: "string \<Rightarrow> string \<Rightarrow> Options \<Rightarrow> ComparisonResult option"
  env_url :: "request_url \<Rightarrow> string"
  env_resolve :: "request_url \<Rightarrow> string \<Rightarrow> string option"
  env_media :: "string \<Rightarrow> string"
  env_cpus :: int
  env_pool :: "IdentifierPool \<Rightarrow> IdentifierPool"

definition authenticated :: "session option \<Rightarrow> bool" where
  "authenticated s = (case s of None \<Rightarrow> False | Some s \<Rightarrow> IsAuthenticated s)"

definition disable_unavailable :: "idor_config \<Rightarrow> idor_config" where
  "disable_unavailable cfg =
     (let c1 = (if \<not> SkipManipulation cfg \<and> \<not> authenticated (Session cfg) then cfg\<lparr>SkipManipulation := True\<rparr> else cfg) in
      if (\<not> SkipHorizontal cfg \<or> \<not> SkipHorizontalManipulation cfg)
         \<and> (\<not> authenticated (Session cfg) \<or> \<not> authenticated (SecondSession cfg))
      then c1\<lparr>SkipHorizontal := True, SkipHorizontalManipulation := True\<rparr> else c1)"

definition default_concurrency :: "int \<Rightarrow> int \<Rightarrow> int" where
  "default_concurrency cpus level = (if level \<le> 0 then (if cpus * 5 < 10 then 10 else cpus * 5) else level)"

definition validateAndConfigure :: "int \<Rightarrow> idor_config \<Rightarrow> (string, idor_config) result" where
  "validateAndConfigure cpus cfg =
     (let c1 = disable_unavailable cfg in
      if \<not> authenticated (Session cfg) \<and> SkipUnauthenticated cfg
      then Inl ''no valid sessions provided and Unauthenticated checks are disabled; nothing to analyze''
      else
        let c2 = (if \<not> authenticated (Session cfg)
                  then c1\<lparr>SkipHorizontal := True, SkipManipulation := True, SkipHorizontalManipulation := True\<rparr> else c1) in
        Inr (c2\<lparr>ComparisonOptions := (if EntropyThreshold (Rules (ComparisonOptions c2)) = 0 then DefaultOptions
                                      else ComparisonOptions c2),
                ConcurrencyLevel := default_concurrency cpus (ConcurrencyLevel c2)\<rparr>))"

section \<open>Requests\<close>

definition isSafeMethod :: "string \<Rightarrow> bool" where
  "isSafeMethod m = (m = ''GET'')"

definition isSuccessful :: "response option \<Rightarrow> bool" where
  "isSuccessful r = (case r of None \<Rightarrow> False | Some r \<Rightarrow> 200 \<le> rsStatus r \<and> rsStatus r < 400)"

definition static_extensions :: "string list" where
  "static_extensions = [''.js'', ''.css'', ''.png'', ''.jpg'', ''.jpeg'', ''.gif'', ''.woff'', ''.woff2'', ''.svg'', ''.ico'', ''.ttf'', ''.map'']"

definition shouldSkipRequest :: "request \<Rightarrow> bool \<Rightarrow> bool" where
  "shouldSkipRequest req allowUnsafe =
     (if \<not> allowUnsafe \<and> \<not> isSafeMethod (rqMethod req) then True
      else if rqMethod req \<in> {''OPTIONS'', ''HEAD'', ''TRACE''} then True
      else list_ex (HasSuffix (ToLower (uPath (rqURL req)))) static_extensions)"

definition sanitizeRequest :: "string list \<Rightarrow> string list \<Rightarrow> request \<Rightarrow> request" where
  "sanitizeRequest headerNames cookieNames req =
     (let h = fold header_del headerNames (rqHeader req);
          cookies = (if ''Cookie'' \<in> set (map CanonicalHeaderKey headerNames) then [] else rqCookies req) in
      req\<lparr>rqCookies := (if cookieNames \<noteq> [] then filter (\<lambda>(n, v). n \<notin> set cookieNames) cookies else []),
          rqHeader := fold header_del [''Authorization'', ''X-Api-Key'', ''X-Auth-Token'', ''X-CSRF-Token'', ''X-XSRF-Token''] h\<rparr>)"

section \<open>Judging a response\<close>

record evaluation =
  evVulnerable :: bool
  evComparison :: "ComparisonResult option"
  evSeverity :: string
  evTestType :: string
  evEvidence :: string

definition not_vulnerable :: evaluation where
  "not_vulnerable = \<lparr>evVulnerable = False, evComparison = None, evSeverity = [], evTestType = [], evEvidence = []\<rparr>"

definition plain_result :: "bool \<Rightarrow> string \<Rightarrow> ComparisonResult" where
  "plain_result eq d = \<lparr>AreEquivalent = eq, Diff = d, IsJSON = False, NormalizedA = None, NormalizedB = None\<rparr>"

definition manipulation :: "string \<Rightarrow> bool" where
  "manipulation ty = (ty = ''Manipulation'' \<or> ty = ''HorizontalManipulation'')"

definition is_redirect :: "int \<Rightarrow> bool" where
  "is_redirect st = (300 \<le> st \<and> st < 400)"

definition oracle_evaluation :: "traffic_pair \<Rightarrow> int \<Rightarrow> string \<Rightarrow> string \<Rightarrow> evaluation" where
  "oracle_evaluation pair st ty val =
     (if manipulation ty
      then if st = 403 \<and> \<not> isSafeMethod (rqMethod (prRequest pair)) then not_vulnerable
        else \<lparr>evVulnerable = True,
              evComparison = Some (plain_result False (''Status code indicates authorization check performed: '' @ format_int st)),
              evSeverity = ''Low'', evTestType = ''ResourceEnumeration'',
              evEvidence = ''Request for ID '' @ [CHR 39] @ val @ [CHR 39] @ '' resulted in '' @ format_int st
                @ '', indicating the resource exists but access is denied (Authorization Oracle).''\<rparr>
      else not_vulnerable)"

definition redirect_evaluation :: "idor_env \<Rightarrow> traffic_pair \<Rightarrow> response \<Rightarrow> response \<Rightarrow> string \<Rightarrow> evaluation" where
  "redirect_evaluation env pair orig resp ty =
     (let loc = header_get (rsHeader resp) ''Location'';
          resource = env_url env (rqURL (prRequest pair)) in
      if \<not> is_redirect (rsStatus orig) \<and> loc \<noteq> [] \<and> env_resolve env (rsRequestURL resp) loc = Some resource
      then \<lparr>evVulnerable = True,
            evComparison = Some (plain_result True (''Original request was successful (Status '' @ format_int (rsStatus orig)
              @ ''), but replay was a self-referential redirect (Status '' @ format_int (rsStatus resp) @ '')'')),
            evSeverity = ''High'', evTestType = [],
            evEvidence = ''Request as another user resulted in a redirect back to the resource URL ('' @ loc
              @ ''), indicating a flawed authorization check.''\<rparr>
      else if ty = ''Unauthenticated'' then not_vulnerable
      else if is_redirect (rsStatus orig) \<and> header_get (rsHeader orig) ''Location'' \<noteq> []
              \<and> header_get (rsHeader orig) ''Location'' = loc
      then not_vulnerable\<lparr>evVulnerable := True,
             evComparison := Some (plain_result True (''Both requests redirected to the same location: '' @ loc))\<rparr>
      else not_vulnerable)"

definition horizontal_evaluation :: "idor_env \<Rightarrow> string \<Rightarrow> string \<Rightarrow> Options \<Rightarrow> evaluation option" where
  "horizontal_evaluation env orig replay opts =
     (case env_compare env orig replay opts of
        None \<Rightarrow> None
      | Some a \<Rightarrow>
          if AreEquivalent a
          then Some \<lparr>evVulnerable = True, evComparison = Some a, evSeverity = ''High'', evTestType = [],
                     evEvidence = ''User B successfully accessed User A'' @ [CHR 39]
                       @ ''s resource (Horizontal). Response identical to User A'' @ [CHR 39] @ ''s response.''\<rparr>
          else map_option (\<lambda>s. not_vulnerable) (env_compare env orig replay (opts\<lparr>NormalizeAllValuesForStructure := True\<rparr>)))"

text \<open>The length heuristic; the quotient and \<^verbatim>\<open>0.15\<close> are compared as rationals.\<close>

definition lengths_evaluation :: "string \<Rightarrow> string \<Rightarrow> string \<Rightarrow> evaluation" where
  "lengths_evaluation mediaType orig replay =
     (let a = int (length orig); b = int (length replay) in
      if a = 0 \<and> b = 0
      then not_vulnerable\<lparr>evVulnerable := True, evComparison := Some (plain_result True ''Both response bodies were empty.'')\<rparr>
      else if 0 < a \<and> 3 * a < 20 * \<bar>a - b\<bar>
      then not_vulnerable\<lparr>evComparison := Some (plain_result False (''Response lengths differ significantly (Original: ''
             @ format_int a @ '', Replay: '' @ format_int b @ '')''))\<rparr>
      else not_vulnerable\<lparr>evVulnerable := True,
             evComparison := Some (plain_result True (''Non-structured data ('' @ mediaType @ '') with similar lengths (Original: ''
               @ format_int a @ '', Replay: '' @ format_int b @ '')''))\<rparr>)"

text \<open>The options of the body comparison for a manipulated identifier, or for none.\<close>

definition body_options :: "Options \<Rightarrow> string \<Rightarrow> ObservedIdentifier option \<Rightarrow> string \<Rightarrow> Options" where
  "body_options opts ty ident val =
     (case ident of
        None \<Rightarrow> opts
      | Some i \<Rightarrow>
          if manipulation ty
          then opts\<lparr>NormalizeAllValuesForStructure := True, SpecificValuesToIgnore := SpecificValuesToIgnore opts \<union> {oValue i, val}\<rparr>
          else opts)"

definition structured :: "string \<Rightarrow> bool" where
  "structured mediaType = (Contains mediaType ''json'' \<or> Contains mediaType ''xml'')"

definition body_evaluation ::
  "idor_env \<Rightarrow> response \<Rightarrow> string \<Rightarrow> string \<Rightarrow> Options \<Rightarrow> evaluation option" where
  "body_evaluation env orig origBody replayBody opts =
     (let mediaType = env_media env (header_get (rsHeader orig) ''Content-Type'') in
      if structured mediaType
      then map_option (\<lambda>c. not_vulnerable\<lparr>evVulnerable := AreEquivalent c, evComparison := Some c\<rparr>)
             (env_compare env origBody replayBody opts)
      else Some (lengths_evaluation mediaType origBody replayBody))"

text \<open>\<open>None\<close> is a returned error. The original response is there, as only successful ones are replayed.\<close>

definition evaluateResponse ::
  "idor_env \<Rightarrow> idor_config \<Rightarrow> traffic_pair \<Rightarrow> response \<Rightarrow> response \<Rightarrow> string \<Rightarrow> string \<Rightarrow>
   ObservedIdentifier option \<Rightarrow> string \<Rightarrow> evaluation option" where
  "evaluateResponse env cfg pair orig resp body ty ident val =
     (if rsStatus resp = 401 \<or> rsStatus resp = 403 then Some (oracle_evaluation pair (rsStatus resp) ty val)
      else if is_redirect (rsStatus resp) then Some (redirect_evaluation env pair orig resp ty)
      else if \<not> isSuccessful (Some resp) then Some not_vulnerable
      else if ty = ''Horizontal'' then horizontal_evaluation env (prResponseBody pair) body (ComparisonOptions cfg)
      else body_evaluation env orig (prResponseBody pair) body (body_options (ComparisonOptions cfg) ty ident val))"

section \<open>Tasks\<close>

record analysis_task =
  tkPair :: traffic_pair
  tkType :: string
  tkIdentifier :: "ObservedIdentifier option"
  tkValue :: string

record idor_finding =
  ixURL :: string
  ixMethod :: string
  ixEvidence :: string
  ixSeverity :: string
  ixTestType :: string
  ixStatus :: int
  ixIdentifier :: "ObservedIdentifier option"
  ixTested :: string
  ixComparison :: "ComparisonResult option"

definition new_finding :: "string \<Rightarrow> idor_finding" where
  "new_finding ty = \<lparr>ixURL = [], ixMethod = [], ixEvidence = [], ixSeverity = [], ixTestType = ty, ixStatus = 0,
     ixIdentifier = None, ixTested = [], ixComparison = None\<rparr>"

text \<open>
  What a task replays: its session, the request before the session is applied, and the finding it
  starts from. \<open>Inl\<close> is the case in which the task ends without a request.
\<close>

definition prepare_task ::
  "idor_lib \<Rightarrow> idor_config \<Rightarrow> analysis_task \<Rightarrow> (string, session option \<times> request \<times> idor_finding) result" where
  "prepare_task lib cfg t =
     (let req = prRequest (tkPair t); f = new_finding (tkType t);
          manipulated = (case tkIdentifier t of None \<Rightarrow> Inl ''no identifier'' | Some i \<Rightarrow> ApplyTestValue lib req i (tkValue t)) in
      if tkType t = ''Horizontal'' then Inr (SecondSession cfg, req, f)
      else if tkType t = ''Manipulation''
      then bindR manipulated (\<lambda>r. Inr (Session cfg, r,
             f\<lparr>ixSeverity := ''Medium'', ixIdentifier := tkIdentifier t, ixTested := tkValue t,
               ixEvidence := ''Successfully accessed resource with manipulated ID '' @ [CHR 39] @ tkValue t @ [CHR 39] @ '' (Manipulation).''\<rparr>))
      else if tkType t = ''HorizontalManipulation''
      then bindR manipulated (\<lambda>r. Inr (SecondSession cfg, r,
             f\<lparr>ixSeverity := ''High'', ixIdentifier := tkIdentifier t, ixTested := tkValue t,
               ixEvidence := ''User B successfully accessed resource with manipulated ID '' @ [CHR 39] @ tkValue t @ [CHR 39]
                 @ '' (Horizontal Manipulation).''\<rparr>))
      else if tkType t = ''Unauthenticated''
      then (let artifacts = (if authenticated (Session cfg) then the (Session cfg) else NilSession) in
            Inr (Some NilSession, sanitizeRequest (HeaderNames artifacts) (CookieNames artifacts) req,
             f\<lparr>ixSeverity := ''Critical'', ixEvidence := ''Resource successfully accessed without any authentication.''\<rparr>))
      else Inl ''unknown task type'')"

definition override :: "string \<Rightarrow> string \<Rightarrow> string" where
  "override new old = (if new \<noteq> [] then new else old)"

text \<open>The findings of task number \<open>k\<close>, or a panic.\<close>

definition analyzeTask ::
  "idor_env \<Rightarrow> idor_lib \<Rightarrow> idor_config \<Rightarrow> nat \<Rightarrow> analysis_task \<Rightarrow> (string, idor_finding list) result" where
  "analyzeTask env lib cfg k t =
     (case prepare_task lib cfg t of
        Inl e \<Rightarrow> Inr []
      | Inr (None, r, f) \<Rightarrow> Inl ''panic: nil session''
      | Inr (Some s, r, f) \<Rightarrow>
          (let req = ApplyToRequest s r in
           case env_send env k req of
             None \<Rightarrow> Inr []
           | Some (resp, body) \<Rightarrow>
               (case prResponse (tkPair t) of
                  None \<Rightarrow> Inl ''panic: nil response''
                | Some orig \<Rightarrow>
                    (case evaluateResponse env cfg (tkPair t) orig resp body (tkType t) (tkIdentifier t) (tkValue t) of
                       None \<Rightarrow> Inr []
                     | Some ev \<Rightarrow>
                         Inr (if evVulnerable ev
                              then [f\<lparr>ixURL := env_url env (rqURL req), ixMethod := rqMethod req, ixStatus := rsStatus resp,
                                      ixComparison := evComparison ev, ixSeverity := override (evSeverity ev) (ixSeverity f),
                                      ixTestType := override (evTestType ev) (ixTestType f),
                                      ixEvidence := override (evEvidence ev) (ixEvidence f)\<rparr>]
                              else [])))))"

text \<open>The tasks of an identifier and of a pair, as the producer loop makes them.\<close>

definition identifier_tasks :: "idor_lib \<Rightarrow> idor_config \<Rightarrow> IdentifierPool \<Rightarrow> traffic_pair \<Rightarrow> ObservedIdentifier \<Rightarrow> analysis_task list" where
  "identifier_tasks lib cfg pool pair i =
     (case GenerateTestValues lib (Some pool) i of
        Inl e \<Rightarrow> []
      | Inr vals \<Rightarrow>
          concat (map (\<lambda>v.
            (if \<not> SkipManipulation cfg
             then [\<lparr>tkPair = pair, tkType = ''Manipulation'', tkIdentifier = Some i, tkValue = v\<rparr>] else [])
            @ (if \<not> SkipHorizontalManipulation cfg
               then [\<lparr>tkPair = pair, tkType = ''HorizontalManipulation'', tkIdentifier = Some i, tkValue = v\<rparr>] else [])) vals))"

definition pair_tasks :: "idor_lib \<Rightarrow> idor_config \<Rightarrow> IdentifierPool \<Rightarrow> traffic_pair \<Rightarrow> analysis_task list option" where
  "pair_tasks lib cfg pool pair =
     (if shouldSkipRequest (prRequest pair) (AllowUnsafeMethods cfg) then Some []
      else if \<not> isSuccessful (prResponse pair) then Some []
      else
        let plain = (\<lambda>ty. \<lparr>tkPair = pair, tkType = ty, tkIdentifier = None, tkValue = []\<rparr>);
            first = (if \<not> SkipUnauthenticated cfg then [plain ''Unauthenticated''] else [])
                    @ (if \<not> SkipHorizontal cfg then [plain ''Horizontal''] else []) in
        if \<not> SkipManipulation cfg \<or> \<not> SkipHorizontalManipulation cfg
        then map_option (\<lambda>is. first @ concat (map (identifier_tasks lib cfg pool pair) is))
               (ExtractIdentifiers lib (prRequest pair))
        else Some first)"

fun all_tasks :: "idor_lib \<Rightarrow> idor_config \<Rightarrow> IdentifierPool \<Rightarrow> traffic_pair list \<Rightarrow> analysis_task list option" where
  "all_tasks lib cfg pool [] = Some []"
| "all_tasks lib cfg pool (p # ps) =
     Option.bind (pair_tasks lib cfg pool p) (\<lambda>ts. map_option (\<lambda>us. ts @ us) (all_tasks lib cfg pool ps))"

fun run_tasks :: "idor_env \<Rightarrow> idor_lib \<Rightarrow> idor_config \<Rightarrow> nat \<Rightarrow> analysis_task list \<Rightarrow> (string, idor_finding list) result" where
  "run_tasks env lib cfg k [] = Inr []"
| "run_tasks env lib cfg k (t # ts) =
     bindR (analyzeTask env lib cfg k t) (\<lambda>fs. bindR (run_tasks env lib cfg (Suc k) ts) (\<lambda>gs. Inr (fs @ gs)))"

section \<open>Findings\<close>

definition finding_key :: "idor_finding \<Rightarrow> string" where
  "finding_key f =
     ixMethod f @ ''|'' @ ixURL f @ ''|'' @ ixTestType f
     @ (case ixIdentifier f of None \<Rightarrow> [] | Some i \<Rightarrow> ''|'' @ identifier_String i)"

text \<open>Severities are compared as strings.\<close>

fun keep_finding :: "idor_finding \<Rightarrow> idor_finding list \<Rightarrow> idor_finding list" where
  "keep_finding f [] = [f]"
| "keep_finding f (g # gs) =
     (if finding_key g = finding_key f then (if ixSeverity g < ixSeverity f then f else g) # gs else g # keep_finding f gs)"

definition collect_findings :: "idor_finding list \<Rightarrow> idor_finding list" where
  "collect_findings fs = fold keep_finding fs []"

text \<open>\<open>arrival\<close> is the order in which the findings come out of the channel.\<close>

definition Detect ::
  "idor_env \<Rightarrow> idor_lib \<Rightarrow> (idor_finding list \<Rightarrow> idor_finding list) \<Rightarrow> idor_config \<Rightarrow> IdentifierPool \<Rightarrow> traffic_pair list
   \<Rightarrow> (string, idor_finding list) result option" where
  "Detect env lib arrival cfg pool traffic =
     map_option (\<lambda>ts. bindR (run_tasks env lib cfg 0 ts) (\<lambda>fs. Inr (collect_findings (arrival fs))))
       (all_tasks lib cfg (env_pool env pool) traffic)"

fun populateIdentifierPool :: "idor_lib \<Rightarrow> traffic_pair list \<Rightarrow> IdentifierPool \<Rightarrow> IdentifierPool option" where
  "populateIdentifierPool lib [] pool = Some pool"
| "populateIdentifierPool lib (p # ps) pool =
     Option.bind (ExtractIdentifiers lib (prRequest p))
       (\<lambda>is. populateIdentifierPool lib ps
          (fold pool_Add (is @ ExtractIdentifiersFromResponse lib (prResponse p) (prResponseBody p)) pool))"

definition all_skipped :: "idor_config \<Rightarrow> bool" where
  "all_skipped cfg = (SkipHorizontal cfg \<and> SkipManipulation cfg \<and> SkipUnauthenticated cfg \<and> SkipHorizontalManipulation cfg)"

text \<open>\<open>None\<close> where the analysis does not return.\<close>

definition AnalyzeTraffic ::
  "idor_env \<Rightarrow> idor_lib \<Rightarrow> (idor_finding list \<Rightarrow> idor_finding list) \<Rightarrow> idor_config \<Rightarrow> traffic_pair list
   \<Rightarrow> (string, idor_finding list) result option" where
  "AnalyzeTraffic env lib arrival cfg traffic =
     (if traffic = [] then Some (Inr [])
      else case validateAndConfigure (env_cpus env) cfg of
        Inl e \<Rightarrow> Some (Inl e)
      | Inr c \<Rightarrow>
          if all_skipped c then Some (Inr [])
          else Option.bind (populateIdentifierPool lib traffic NewIdentifierPool) (\<lambda>pool. Detect env lib arrival c pool traffic))"

section \<open>What is found\<close>

text \<open>A set-up with the strategies it leaves enabled has the sessions they need.\<close>

lemma validate_sessions:
  assumes "validateAndConfigure cpus cfg = Inr c"
  shows "\<not> SkipManipulation c \<Longrightarrow> authenticated (Session c)"
    and "\<not> SkipHorizontal c \<or> \<not> SkipHorizontalManipulation c \<Longrightarrow> authenticated (Session c) \<and> authenticated (SecondSession c)"
  using assms by (auto simp: validateAndConfigure_def disable_unavailable_def Let_def split: if_splits)

definition task_ok :: "idor_lib \<Rightarrow> idor_config \<Rightarrow> traffic_pair list \<Rightarrow> analysis_task \<Rightarrow> bool" where
  "task_ok lib c traffic t \<longleftrightarrow>
     tkPair t \<in> set traffic \<and> isSuccessful (prResponse (tkPair t))
     \<and> \<not> shouldSkipRequest (prRequest (tkPair t)) (AllowUnsafeMethods c)
     \<and> (tkType t = ''Unauthenticated'' \<and> \<not> SkipUnauthenticated c
        \<or> tkType t = ''Horizontal'' \<and> \<not> SkipHorizontal c
        \<or> (tkType t = ''Manipulation'' \<and> \<not> SkipManipulation c
           \<or> tkType t = ''HorizontalManipulation'' \<and> \<not> SkipHorizontalManipulation c)
          \<and> (\<exists>is i. ExtractIdentifiers lib (prRequest (tkPair t)) = Some is \<and> i \<in> set is \<and> tkIdentifier t = Some i))"

lemma identifier_tasks_ok:
  assumes "t \<in> set (identifier_tasks lib c pool pair i)" and "pair \<in> set traffic" and "isSuccessful (prResponse pair)"
    and "\<not> shouldSkipRequest (prRequest pair) (AllowUnsafeMethods c)"
    and "ExtractIdentifiers lib (prRequest pair) = Some is" and "i \<in> set is"
  shows "task_ok lib c traffic t"
proof -
  have "tkPair t = pair \<and> tkIdentifier t = Some i
      \<and> (tkType t = ''Manipulation'' \<and> \<not> SkipManipulation c \<or> tkType t = ''HorizontalManipulation'' \<and> \<not> SkipHorizontalManipulation c)"
    using assms(1) by (auto simp: identifier_tasks_def split: sum.splits if_splits)
  then show ?thesis using assms unfolding task_ok_def by blast
qed

lemma pair_tasks_ok:
  assumes "pair_tasks lib c pool pair = Some ts" and "pair \<in> set traffic" and "t \<in> set ts"
  shows "task_ok lib c traffic t"
proof -
  have skip: "\<not> shouldSkipRequest (prRequest pair) (AllowUnsafeMethods c)" "isSuccessful (prResponse pair)"
    using assms(1,3) by (auto simp: pair_tasks_def split: if_splits)
  then consider (plain) "tkPair t = pair" "tkType t = ''Unauthenticated'' \<and> \<not> SkipUnauthenticated c \<or> tkType t = ''Horizontal'' \<and> \<not> SkipHorizontal c"
    | (ident) "is" i where "ExtractIdentifiers lib (prRequest pair) = Some is" "i \<in> set is" "t \<in> set (identifier_tasks lib c pool pair i)"
    using assms(1,3) unfolding pair_tasks_def Let_def by (fastforce split: if_splits)
  then show ?thesis
  proof cases
    case plain
    then show ?thesis using skip assms(2) unfolding task_ok_def by auto
  next
    case ident
    then show ?thesis using identifier_tasks_ok skip assms(2) by blast
  qed
qed

lemma all_tasks_ok:
  "all_tasks lib c pool ps = Some ts \<Longrightarrow> set ps \<subseteq> set traffic \<Longrightarrow> t \<in> set ts \<Longrightarrow> task_ok lib c traffic t"
proof (induction ps arbitrary: ts)
  case (Cons p ps)
  then obtain us vs where "pair_tasks lib c pool p = Some us" "all_tasks lib c pool ps = Some vs" "ts = us @ vs"
    by (auto simp: Option.bind_eq_Some_conv)
  then show ?case using Cons pair_tasks_ok [of lib c pool p us traffic t] by auto
qed simp

text \<open>No credentials: none of the session's headers and cookies, and none of the usual headers.\<close>

definition standard_headers :: "string list" where
  "standard_headers = [''Authorization'', ''X-Api-Key'', ''X-Auth-Token'', ''X-CSRF-Token'', ''X-XSRF-Token'']"

definition no_credentials :: "session \<Rightarrow> request \<Rightarrow> bool" where
  "no_credentials s r \<longleftrightarrow>
     list_all (\<lambda>h. header_get (rqHeader r) h = []) (HeaderNames s @ standard_headers)
     \<and> list_all (\<lambda>(n, v). CookieNames s \<noteq> [] \<and> n \<notin> set (CookieNames s)) (rqCookies r)"

lemma map_of_filter_key: "map_of (filter (\<lambda>(k, v). P k) h) k = (if P k then map_of h k else None)"
  by (induction h) auto

lemma header_get_del: "header_get (header_del key h) k = (if CanonicalHeaderKey k = CanonicalHeaderKey key then [] else header_get h k)"
  by (simp add: header_get_def header_del_def map_of_filter_key)

lemma header_get_fold_del:
  "header_get (fold header_del keys h) k = (if CanonicalHeaderKey k \<in> CanonicalHeaderKey ` set keys then [] else header_get h k)"
  by (induction keys arbitrary: h) (auto simp: header_get_del)

lemma sanitize_no_credentials:
  "no_credentials s (sanitizeRequest (HeaderNames s) (CookieNames s) req)"
proof -
  have f: "rqHeader (sanitizeRequest (HeaderNames s) (CookieNames s) req) = fold header_del (HeaderNames s @ standard_headers) (rqHeader req)"
    by (simp add: sanitizeRequest_def standard_headers_def)
  show ?thesis
    unfolding no_credentials_def list_all_iff f header_get_fold_del
    by (auto simp: sanitizeRequest_def)
qed

text \<open>What a response must show for a test of a type to count.\<close>

definition verdict :: "idor_env \<Rightarrow> idor_config \<Rightarrow> traffic_pair \<Rightarrow> response \<Rightarrow> response \<Rightarrow> string \<Rightarrow> string \<Rightarrow> idor_finding \<Rightarrow> bool" where
  "verdict env c pair orig resp body ty f \<longleftrightarrow>
     (rsStatus resp \<in> {401, 403} \<and> manipulation ty \<and> (rsStatus resp = 403 \<longrightarrow> rqMethod (prRequest pair) = ''GET'')
        \<and> ixSeverity f = ''Low'' \<and> ixTestType f = ''ResourceEnumeration'')
     \<or> (is_redirect (rsStatus resp) \<and> ixTestType f = ty
        \<and> (\<not> is_redirect (rsStatus orig)
             \<and> env_resolve env (rsRequestURL resp) (header_get (rsHeader resp) ''Location'') = Some (env_url env (rqURL (prRequest pair)))
           \<or> is_redirect (rsStatus orig) \<and> ty \<noteq> ''Unauthenticated''
             \<and> header_get (rsHeader resp) ''Location'' = header_get (rsHeader orig) ''Location''))
     \<or> (200 \<le> rsStatus resp \<and> rsStatus resp < 300 \<and> ixTestType f = ty
        \<and> (if ty = ''Horizontal'' \<or> structured (env_media env (header_get (rsHeader orig) ''Content-Type''))
           then \<exists>opts r. env_compare env (prResponseBody pair) body opts = Some r \<and> AreEquivalent r
             \<and> (\<not> manipulation ty \<longrightarrow> opts = ComparisonOptions c)
             \<and> (\<forall>i. manipulation ty \<and> ixIdentifier f = Some i \<longrightarrow>
                  NormalizeAllValuesForStructure opts \<and> {oValue i, ixTested f} \<subseteq> SpecificValuesToIgnore opts)
           else prResponseBody pair = [] \<or>
             20 * \<bar>int (length (prResponseBody pair)) - int (length body)\<bar> \<le> 3 * int (length (prResponseBody pair))))"

definition replayed :: "idor_lib \<Rightarrow> idor_config \<Rightarrow> traffic_pair \<Rightarrow> string \<Rightarrow> idor_finding \<Rightarrow> request \<Rightarrow> bool" where
  "replayed lib c pair ty f r \<longleftrightarrow>
     (ty = ''Unauthenticated'' \<and> \<not> SkipUnauthenticated c
        \<and> rqMethod r = rqMethod (prRequest pair) \<and> rqURL r = rqURL (prRequest pair) \<and> rqBody r = rqBody (prRequest pair)
        \<and> no_credentials (if authenticated (Session c) then the (Session c) else NilSession) r)
     \<or> (ty = ''Horizontal'' \<and> \<not> SkipHorizontal c
        \<and> (\<exists>s. SecondSession c = Some s \<and> IsAuthenticated s \<and> r = ApplyToRequest s (prRequest pair)))
     \<or> (\<exists>is i s r0. ExtractIdentifiers lib (prRequest pair) = Some is \<and> i \<in> set is \<and> ixIdentifier f = Some i
        \<and> ApplyTestValue lib (prRequest pair) i (ixTested f) = Inr r0 \<and> r = ApplyToRequest s r0 \<and> IsAuthenticated s
        \<and> (ty = ''Manipulation'' \<and> \<not> SkipManipulation c \<and> Session c = Some s
           \<or> ty = ''HorizontalManipulation'' \<and> \<not> SkipHorizontalManipulation c \<and> SecondSession c = Some s))"

definition idor_justified :: "idor_env \<Rightarrow> idor_lib \<Rightarrow> idor_config \<Rightarrow> traffic_pair list \<Rightarrow> idor_finding \<Rightarrow> bool" where
  "idor_justified env lib c traffic f \<longleftrightarrow>
     (\<exists>pair orig ty k r resp body. pair \<in> set traffic \<and> prResponse pair = Some orig \<and> 200 \<le> rsStatus orig \<and> rsStatus orig < 400
        \<and> (AllowUnsafeMethods c \<or> rqMethod (prRequest pair) = ''GET'')
        \<and> replayed lib c pair ty f r \<and> env_send env k r = Some (resp, body)
        \<and> ixURL f = env_url env (rqURL r) \<and> ixMethod f = rqMethod r \<and> ixStatus f = rsStatus resp
        \<and> verdict env c pair orig resp body ty f)"

lemma override_simps [simp]: "override [] old = old" "new \<noteq> [] \<Longrightarrow> override new old = new"
  by (simp_all add: override_def)

lemma not_vulnerable_simps [simp]:
  "\<not> evVulnerable not_vulnerable" "evSeverity not_vulnerable = []" "evTestType not_vulnerable = []" "evEvidence not_vulnerable = []"
  by (simp_all add: not_vulnerable_def)

lemma lengths_evaluation_verdict:
  assumes "evVulnerable (lengths_evaluation media orig replay)"
  shows "(orig = [] \<or> 20 * \<bar>int (length orig) - int (length replay)\<bar> \<le> 3 * int (length orig))
    \<and> evSeverity (lengths_evaluation media orig replay) = [] \<and> evTestType (lengths_evaluation media orig replay) = []"
  using assms by (auto simp: lengths_evaluation_def Let_def split: if_splits)

lemma body_evaluation_verdict:
  assumes "body_evaluation env orig a b opts = Some ev" and "evVulnerable ev"
  shows "evTestType ev = [] \<and>
    (if structured (env_media env (header_get (rsHeader orig) ''Content-Type''))
     then \<exists>r. env_compare env a b opts = Some r \<and> AreEquivalent r
     else a = [] \<or> 20 * \<bar>int (length a) - int (length b)\<bar> \<le> 3 * int (length a))"
  using assms lengths_evaluation_verdict by (auto simp: body_evaluation_def Let_def split: if_splits)

lemma horizontal_evaluation_verdict:
  assumes "horizontal_evaluation env a b opts = Some ev" and "evVulnerable ev"
  shows "evTestType ev = [] \<and> (\<exists>r. env_compare env a b opts = Some r \<and> AreEquivalent r)"
  using assms by (auto simp: horizontal_evaluation_def split: option.splits if_splits)

lemma redirect_evaluation_verdict:
  assumes "evVulnerable (redirect_evaluation env pair orig resp ty)"
  shows "evTestType (redirect_evaluation env pair orig resp ty) = [] \<and>
    (\<not> is_redirect (rsStatus orig)
       \<and> env_resolve env (rsRequestURL resp) (header_get (rsHeader resp) ''Location'') = Some (env_url env (rqURL (prRequest pair)))
     \<or> is_redirect (rsStatus orig) \<and> ty \<noteq> ''Unauthenticated''
       \<and> header_get (rsHeader resp) ''Location'' = header_get (rsHeader orig) ''Location'')"
  using assms by (auto simp: redirect_evaluation_def Let_def split: if_splits)

lemma oracle_evaluation_verdict:
  assumes "evVulnerable (oracle_evaluation pair st ty val)"
  shows "manipulation ty \<and> (st = 403 \<longrightarrow> rqMethod (prRequest pair) = ''GET'')
    \<and> evSeverity (oracle_evaluation pair st ty val) = ''Low'' \<and> evTestType (oracle_evaluation pair st ty val) = ''ResourceEnumeration''"
  using assms by (auto simp: oracle_evaluation_def isSafeMethod_def split: if_splits)

lemma evaluate_verdict:
  assumes ev: "evaluateResponse env c pair orig resp body ty ident val = Some ev" "evVulnerable ev"
    and f: "ixSeverity f = override (evSeverity ev) sev" "ixTestType f = override (evTestType ev) ty"
      "manipulation ty \<Longrightarrow> ident \<noteq> None \<and> ixIdentifier f = ident \<and> ixTested f = val"
  shows "verdict env c pair orig resp body ty f"
proof -
  consider (denied) "rsStatus resp \<in> {401, 403}" "ev = oracle_evaluation pair (rsStatus resp) ty val"
    | (redirect) "is_redirect (rsStatus resp)" "ev = redirect_evaluation env pair orig resp ty"
    | (horizontal) "200 \<le> rsStatus resp" "rsStatus resp < 300" "ty = ''Horizontal''"
        "horizontal_evaluation env (prResponseBody pair) body (ComparisonOptions c) = Some ev"
    | (body) "200 \<le> rsStatus resp" "rsStatus resp < 300" "ty \<noteq> ''Horizontal''"
        "body_evaluation env orig (prResponseBody pair) body (body_options (ComparisonOptions c) ty ident val) = Some ev"
    using ev by (auto simp: evaluateResponse_def isSuccessful_def is_redirect_def split: if_splits)
  then show ?thesis
  proof cases
    case denied
    then show ?thesis using oracle_evaluation_verdict [of pair "rsStatus resp" ty val] ev(2) f by (simp add: verdict_def)
  next
    case redirect
    then show ?thesis using redirect_evaluation_verdict [of env pair orig resp ty] ev(2) f by (simp add: verdict_def)
  next
    case horizontal
    have "\<not> manipulation ty" using horizontal(3) by (simp add: manipulation_def)
    then show ?thesis
      using horizontal horizontal_evaluation_verdict [OF horizontal(4) ev(2)] f(2) by (auto simp: verdict_def)
  next
    case body
    define opts where "opts = body_options (ComparisonOptions c) ty ident val"
    have o: "\<not> manipulation ty \<longrightarrow> opts = ComparisonOptions c"
      "\<forall>i. manipulation ty \<and> ixIdentifier f = Some i \<longrightarrow>
         NormalizeAllValuesForStructure opts \<and> {oValue i, ixTested f} \<subseteq> SpecificValuesToIgnore opts"
      using f(3) by (auto simp: opts_def body_options_def split: option.splits)
    note v = body_evaluation_verdict [OF body(4) ev(2), folded opts_def]
    show ?thesis
    proof (cases "structured (env_media env (header_get (rsHeader orig) ''Content-Type''))")
      case True
      then show ?thesis using body v o f(2) unfolding verdict_def by auto
    next
      case False
      then show ?thesis using body v f(2) unfolding verdict_def by auto
    qed
  qed
qed

lemma analyzeTask_justified:
  assumes c: "validateAndConfigure cpus cfg = Inr c" and t: "task_ok lib c traffic t"
  shows "\<exists>fs. analyzeTask env lib c k t = Inr fs \<and> list_all (idor_justified env lib c traffic) fs"
proof -
  obtain orig where orig: "prResponse (tkPair t) = Some orig" "200 \<le> rsStatus orig" "rsStatus orig < 400"
    using t by (auto simp: task_ok_def isSuccessful_def split: option.splits)
  have safe: "AllowUnsafeMethods c \<or> rqMethod (prRequest (tkPair t)) = ''GET''" "tkPair t \<in> set traffic"
    using t by (auto simp: task_ok_def shouldSkipRequest_def isSafeMethod_def split: if_splits)
  note sess = validate_sessions [OF c]
  show ?thesis
  proof (cases "prepare_task lib c t")
    case (Inl e)
    then show ?thesis by (simp add: analyzeTask_def)
  next
    case (Inr q)
    obtain so r0 f0 where q: "q = (so, r0, f0)" by (cases q)
    have prep: "\<exists>s. so = Some s \<and> replayed lib c (tkPair t) (tkType t)
          (f0\<lparr>ixURL := u, ixMethod := m, ixStatus := st, ixComparison := cmp, ixSeverity := sv, ixTestType := ty, ixEvidence := evd\<rparr>)
          (ApplyToRequest s r0)
        \<and> ixTestType f0 = tkType t
        \<and> (manipulation (tkType t) \<longrightarrow> tkIdentifier t \<noteq> None \<and> ixIdentifier f0 = tkIdentifier t \<and> ixTested f0 = tkValue t)"
      for u m st cmp sv ty evd
    proof -
      consider (unauth) "tkType t = ''Unauthenticated''" "\<not> SkipUnauthenticated c"
        | (horiz) "tkType t = ''Horizontal''" "\<not> SkipHorizontal c"
        | (manip) obs i where "tkType t = ''Manipulation'' \<and> \<not> SkipManipulation c
             \<or> tkType t = ''HorizontalManipulation'' \<and> \<not> SkipHorizontalManipulation c"
             "ExtractIdentifiers lib (prRequest (tkPair t)) = Some obs" "i \<in> set obs" "tkIdentifier t = Some i"
        using t unfolding task_ok_def by blast
      then show ?thesis
      proof cases
        case unauth
        define s where "s = (if authenticated (Session c) then the (Session c) else NilSession)"
        have "so = Some NilSession" "r0 = sanitizeRequest (HeaderNames s) (CookieNames s) (prRequest (tkPair t))" "ixTestType f0 = tkType t"
          using Inr q unauth by (auto simp: prepare_task_def new_finding_def Let_def s_def)
        then show ?thesis
          using unauth sanitize_no_credentials [of s] unfolding s_def [symmetric]
          by (auto simp: replayed_def NilSession_def manipulation_def sanitizeRequest_def s_def)
      next
        case horiz
        then obtain s where s: "SecondSession c = Some s" "IsAuthenticated s"
          using sess(2) by (auto simp: authenticated_def split: option.splits)
        have "so = Some s" "r0 = prRequest (tkPair t)" "ixTestType f0 = tkType t"
          using Inr q horiz s by (auto simp: prepare_task_def new_finding_def Let_def)
        then show ?thesis using horiz s by (auto simp: replayed_def manipulation_def)
      next
        case (manip obs i)
        obtain s where s: "tkType t = ''Manipulation'' \<and> \<not> SkipManipulation c \<and> Session c = Some s
            \<or> tkType t = ''HorizontalManipulation'' \<and> \<not> SkipHorizontalManipulation c \<and> SecondSession c = Some s" "IsAuthenticated s"
          using manip(1) sess by (auto simp: authenticated_def split: option.splits)
        have "so = Some s" "ApplyTestValue lib (prRequest (tkPair t)) i (tkValue t) = Inr r0" "ixTestType f0 = tkType t"
          "ixIdentifier f0 = Some i" "ixTested f0 = tkValue t"
          using Inr q s manip(4) by (auto simp: prepare_task_def new_finding_def Let_def)
        then show ?thesis using s manip unfolding replayed_def by auto
      qed
    qed
    then obtain s where s: "so = Some s" by blast
    define req where "req = ApplyToRequest s r0"
    show ?thesis
    proof (cases "env_send env k req")
      case None
      then show ?thesis using Inr q s by (simp add: analyzeTask_def req_def)
    next
      case (Some rb)
      obtain resp body where rb: "rb = (resp, body)" by (cases rb)
      show ?thesis
      proof (cases "evaluateResponse env c (tkPair t) orig resp body (tkType t) (tkIdentifier t) (tkValue t)")
        case None
        then show ?thesis using Inr q s Some rb orig by (simp add: analyzeTask_def req_def)
      next
        case (Some ev)
        define f where "f = f0\<lparr>ixURL := env_url env (rqURL req), ixMethod := rqMethod req, ixStatus := rsStatus resp,
            ixComparison := evComparison ev, ixSeverity := override (evSeverity ev) (ixSeverity f0),
            ixTestType := override (evTestType ev) (ixTestType f0), ixEvidence := override (evEvidence ev) (ixEvidence f0)\<rparr>"
        have a: "analyzeTask env lib c k t = Inr (if evVulnerable ev then [f] else [])"
          using Inr q s \<open>env_send env k req = Some rb\<close> rb orig Some by (simp add: analyzeTask_def req_def f_def Let_def)
        have p: "replayed lib c (tkPair t) (tkType t) f req" "ixTestType f0 = tkType t"
          "manipulation (tkType t) \<Longrightarrow> tkIdentifier t \<noteq> None \<and> ixIdentifier f = tkIdentifier t \<and> ixTested f = tkValue t"
          using prep [where u = "env_url env (rqURL req)" and m = "rqMethod req" and st = "rsStatus resp" and cmp = "evComparison ev"
              and sv = "override (evSeverity ev) (ixSeverity f0)" and ty = "override (evTestType ev) (ixTestType f0)"
              and evd = "override (evEvidence ev) (ixEvidence f0)"] s
          by (auto simp: f_def req_def)
        have "idor_justified env lib c traffic f" if "evVulnerable ev"
        proof -
          have "verdict env c (tkPair t) orig resp body (tkType t) f"
            by (rule evaluate_verdict [OF Some that _ _ p(3)]) (simp_all add: f_def p(2))
          then show ?thesis
            unfolding idor_justified_def
            using safe orig p(1) \<open>env_send env k req = Some rb\<close> rb by (fastforce simp: f_def)
        qed
        then show ?thesis using a by simp
      qed
    qed
  qed
qed

lemma run_tasks_justified:
  assumes c: "validateAndConfigure cpus cfg = Inr c"
  shows "list_all (task_ok lib c traffic) ts \<Longrightarrow>
    \<exists>fs. run_tasks env lib c k ts = Inr fs \<and> list_all (idor_justified env lib c traffic) fs"
proof (induction ts arbitrary: k)
  case (Cons t ts)
  obtain fs where "analyzeTask env lib c k t = Inr fs" "list_all (idor_justified env lib c traffic) fs"
    using analyzeTask_justified [OF c] Cons.prems by fastforce
  moreover obtain gs where "run_tasks env lib c (Suc k) ts = Inr gs" "list_all (idor_justified env lib c traffic) gs"
    using Cons by fastforce
  ultimately show ?case by simp
qed simp

lemma keep_finding_set: "set (keep_finding f gs) \<subseteq> insert f (set gs)"
  by (induction f gs rule: keep_finding.induct) auto

lemma collect_findings_set: "set (collect_findings fs) \<subseteq> set fs"
proof -
  have "set (fold keep_finding fs gs) \<subseteq> set fs \<union> set gs" for gs
  proof (induction fs arbitrary: gs)
    case (Cons f fs)
    then show ?case using keep_finding_set [of f gs] by fastforce
  qed simp
  then show ?thesis by (fastforce simp: collect_findings_def)
qed

section \<open>Properties\<close>

text \<open>
  C6. Every finding of the IDOR analysis is justified. It comes from a recorded request whose response
  was a success and whose method is GET unless unsafe methods are allowed. The request that was
  replayed is, for the unauthenticated test, the recorded one without any credential of the session,
  for the horizontal test the recorded one under the second session, and for the manipulation tests
  the recorded one with a value in the place of an identifier found in it, under the session of the
  test; the strategy was enabled. Its response passed the test's verdict: 401 or 403 only as an
  authorisation oracle of low severity, a redirect only back to the resource or to where the
  recorded response led, and a success only with an equivalent body, or a body of similar length
  where neither JSON nor XML was recorded. The analysis returns an error only when the configuration
  is rejected, so no task panics on a missing session or response.
\<close>

theorem idor_findings_justified:
  assumes "\<And>xs. set (arrival xs) \<subseteq> set xs"
  shows "(\<forall>fs f. AnalyzeTraffic env lib arrival cfg traffic = Some (Inr fs) \<and> f \<in> set fs \<longrightarrow>
      (\<exists>c. validateAndConfigure (env_cpus env) cfg = Inr c \<and> idor_justified env lib c traffic f))
    \<and> (\<forall>e. AnalyzeTraffic env lib arrival cfg traffic = Some (Inl e) \<longrightarrow> validateAndConfigure (env_cpus env) cfg = Inl e)"
proof -
  have main: "\<exists>fs. res = Inr fs \<and> list_all (idor_justified env lib c traffic) fs"
    if c: "validateAndConfigure (env_cpus env) cfg = Inr c" and d: "Detect env lib arrival c pool traffic = Some res" for c pool res
  proof -
    obtain ts where ts: "all_tasks lib c (env_pool env pool) traffic = Some ts"
      "res = bindR (run_tasks env lib c 0 ts) (\<lambda>fs. Inr (collect_findings (arrival fs)))"
      using d by (auto simp: Detect_def)
    have "list_all (task_ok lib c traffic) ts" using all_tasks_ok [OF ts(1)] by (auto simp: list_all_iff)
    then obtain fs where fs: "run_tasks env lib c 0 ts = Inr fs" "list_all (idor_justified env lib c traffic) fs"
      using run_tasks_justified [OF c] by blast
    have "set (collect_findings (arrival fs)) \<subseteq> set fs" using collect_findings_set [of "arrival fs"] assms [of fs] by blast
    then show ?thesis using fs ts(2) by (auto simp: list_all_iff)
  qed
  show ?thesis
  proof (cases "validateAndConfigure (env_cpus env) cfg")
    case (Inl e)
    then show ?thesis by (auto simp: AnalyzeTraffic_def)
  next
    case (Inr c)
    have "\<exists>fs. res = Inr fs \<and> list_all (idor_justified env lib c traffic) fs"
      if "AnalyzeTraffic env lib arrival cfg traffic = Some res" for res
      using that Inr main [OF Inr] by (auto simp: AnalyzeTraffic_def Option.bind_eq_Some_conv split: if_splits)
    then show ?thesis using Inr by (fastforce simp: list_all_iff)
  qed
qed

lemma severity_order: "''Critical'' < ''High''" "''High'' < ''Low''" "''Low'' < ''Medium''"
  by (simp_all add: less_char_def)

text \<open>
  C40. Three weak spots. Severities are compared as strings, so that of two findings with one key a
  medium one replaces a high or critical one, in either order of arrival. A recorded empty body that
  is neither JSON nor XML is equivalent to any body of a successful response. And a horizontal test
  answered by the recorded redirect gives a finding with no severity and no evidence.
\<close>

theorem idor_weak_verdicts:
  "(finding_key f = finding_key g \<and> ixSeverity f = ''Medium'' \<and> ixSeverity g \<in> {''High'', ''Critical'', ''Low''} \<longrightarrow>
      collect_findings [f, g] = [f] \<and> collect_findings [g, f] = [f])
   \<and> (prResponseBody pair = [] \<and> \<not> structured (env_media env (header_get (rsHeader orig) ''Content-Type''))
      \<and> 200 \<le> rsStatus resp \<and> rsStatus resp < 300 \<longrightarrow>
      (\<exists>ev. evaluateResponse env c pair orig resp body ''Unauthenticated'' None [] = Some ev \<and> evVulnerable ev))
   \<and> (is_redirect (rsStatus orig) \<and> is_redirect (rsStatus resp) \<and> header_get (rsHeader orig) ''Location'' \<noteq> []
      \<and> header_get (rsHeader resp) ''Location'' = header_get (rsHeader orig) ''Location''
      \<and> SecondSession c = Some s \<and> prResponse pair = Some orig
      \<and> env_send env k (ApplyToRequest s (prRequest pair)) = Some (resp, body) \<longrightarrow>
      (\<exists>h. analyzeTask env lib c k \<lparr>tkPair = pair, tkType = ''Horizontal'', tkIdentifier = None, tkValue = []\<rparr> = Inr [h]
         \<and> ixSeverity h = [] \<and> ixEvidence h = []))"
proof (intro conjI impI)
  assume k: "finding_key f = finding_key g \<and> ixSeverity f = ''Medium'' \<and> ixSeverity g \<in> {''High'', ''Critical'', ''Low''}"
  then have "ixSeverity g < ixSeverity f" using severity_order by (auto simp: less_char_def)
  then show "collect_findings [f, g] = [f]" "collect_findings [g, f] = [f]"
    using k by (auto simp: collect_findings_def)
next
  assume a: "prResponseBody pair = [] \<and> \<not> structured (env_media env (header_get (rsHeader orig) ''Content-Type''))
      \<and> 200 \<le> rsStatus resp \<and> rsStatus resp < 300"
  then have "evaluateResponse env c pair orig resp body ''Unauthenticated'' None [] =
      Some (lengths_evaluation (env_media env (header_get (rsHeader orig) ''Content-Type'')) [] body)"
    by (auto simp: evaluateResponse_def is_redirect_def isSuccessful_def body_evaluation_def Let_def body_options_def)
  moreover have "evVulnerable (lengths_evaluation (env_media env (header_get (rsHeader orig) ''Content-Type'')) [] body)"
    by (simp add: lengths_evaluation_def Let_def)
  ultimately show "\<exists>ev. evaluateResponse env c pair orig resp body ''Unauthenticated'' None [] = Some ev \<and> evVulnerable ev" by blast
next
  assume a: "is_redirect (rsStatus orig) \<and> is_redirect (rsStatus resp) \<and> header_get (rsHeader orig) ''Location'' \<noteq> []
      \<and> header_get (rsHeader resp) ''Location'' = header_get (rsHeader orig) ''Location''
      \<and> SecondSession c = Some s \<and> prResponse pair = Some orig
      \<and> env_send env k (ApplyToRequest s (prRequest pair)) = Some (resp, body)"
  then have "evaluateResponse env c pair orig resp body ''Horizontal'' None [] = Some (redirect_evaluation env pair orig resp ''Horizontal'')"
    by (auto simp: evaluateResponse_def is_redirect_def)
  moreover have "evVulnerable (redirect_evaluation env pair orig resp ''Horizontal'')"
    "evSeverity (redirect_evaluation env pair orig resp ''Horizontal'') = []" "evEvidence (redirect_evaluation env pair orig resp ''Horizontal'') = []"
    using a by (auto simp: redirect_evaluation_def Let_def)
  ultimately show "\<exists>h. analyzeTask env lib c k \<lparr>tkPair = pair, tkType = ''Horizontal'', tkIdentifier = None, tkValue = []\<rparr> = Inr [h]
         \<and> ixSeverity h = [] \<and> ixEvidence h = []"
    using a by (simp add: analyzeTask_def prepare_task_def Let_def new_finding_def)
qed

section \<open>Instances\<close>

definition example_session :: session where
  "example_session = \<lparr>IsAuthenticated = True, ApplyToRequest = (\<lambda>r. r), HeaderNames = [''X-Sess''], CookieNames = [''sid'']\<rparr>"

definition example_idor_config :: idor_config where
  "example_idor_config =
     \<lparr>Session = Some example_session, SecondSession = Some example_session, SkipHorizontal = True, SkipManipulation = True,
      SkipUnauthenticated = False, SkipHorizontalManipulation = True, AllowUnsafeMethods = False,
      ComparisonOptions = DefaultOptions, ConcurrencyLevel = 4\<rparr>"

definition example_get :: request where
  "example_get =
     \<lparr>rqMethod = ''GET'', rqURL = \<lparr>uPath = ''/me'', uQuery = [], uRest = []\<rparr>, rqHeader = [(''X-Sess'', [''t''])],
      rqCookies = [(''sid'', ''v''), (''lang'', ''en'')], rqBody = []\<rparr>"

definition ok_response :: "int \<Rightarrow> response" where
  "ok_response st = \<lparr>rsStatus = st, rsHeader = [(''Location'', [''/login''])], rsRequestURL = rqURL example_get\<rparr>"

definition example_pair :: "int \<Rightarrow> string \<Rightarrow> traffic_pair" where
  "example_pair st body = \<lparr>prRequest = example_get, prResponse = Some (ok_response st), prResponseBody = body\<rparr>"

definition example_idor_env :: "int \<Rightarrow> idor_env" where
  "example_idor_env st =
     \<lparr>env_send = (\<lambda>k r. Some (ok_response st, ''ok'')), env_compare = (\<lambda>a b opts. Some (plain_result (a = b) [])),
      env_url = uPath, env_resolve = (\<lambda>u l. Some l), env_media = (\<lambda>t. ''text/html''), env_cpus = 4, env_pool = id\<rparr>"

lemma example_pool: "populateIdentifierPool example_idor_lib [example_pair 200 ''ok''] NewIdentifierPool = Some NewIdentifierPool"
proof -
  have "ExtractIdentifiers example_idor_lib example_get = Some []" by code_simp
  moreover have "ExtractIdentifiersFromResponse example_idor_lib (Some (ok_response 200)) ''ok'' = []" by code_simp
  ultimately show ?thesis by (simp add: example_pair_def)
qed

lemma example_validated: "validateAndConfigure 4 example_idor_config = Inr example_idor_config"
  by (simp add: validateAndConfigure_def disable_unavailable_def example_idor_config_def authenticated_def example_session_def
      default_concurrency_def DefaultOptions_def DefaultRules_def Let_def)

lemma example_task:
  "all_tasks example_idor_lib example_idor_config NewIdentifierPool [example_pair 200 ''ok''] =
     Some [\<lparr>tkPair = example_pair 200 ''ok'', tkType = ''Unauthenticated'', tkIdentifier = None, tkValue = []\<rparr>]"
proof -
  have "\<not> shouldSkipRequest example_get False" by code_simp
  then show ?thesis
    by (simp add: pair_tasks_def example_pair_def example_idor_config_def isSuccessful_def ok_response_def Let_def)
qed

lemma example_evaluation:
  "evaluateResponse (example_idor_env 200) example_idor_config (example_pair 200 ''ok'') (ok_response 200) (ok_response 200) ''ok''
     ''Unauthenticated'' None [] = Some (lengths_evaluation ''text/html'' ''ok'' ''ok'')"
  "evVulnerable (lengths_evaluation ''text/html'' ''ok'' ''ok'')" "evSeverity (lengths_evaluation ''text/html'' ''ok'' ''ok'') = []"
proof -
  have "\<not> structured ''text/html''" by code_simp
  then show "evaluateResponse (example_idor_env 200) example_idor_config (example_pair 200 ''ok'') (ok_response 200) (ok_response 200) ''ok''
     ''Unauthenticated'' None [] = Some (lengths_evaluation ''text/html'' ''ok'' ''ok'')"
    by (simp add: evaluateResponse_def is_redirect_def isSuccessful_def body_evaluation_def body_options_def Let_def
        ok_response_def example_idor_env_def example_pair_def)
qed (simp_all add: lengths_evaluation_def Let_def)

theorem idor_findings_justified_witness:
  "\<exists>f. AnalyzeTraffic (example_idor_env 200) example_idor_lib id example_idor_config [example_pair 200 ''ok''] = Some (Inr [f])
     \<and> ixSeverity f = ''Critical''
     \<and> idor_justified (example_idor_env 200) example_idor_lib example_idor_config [example_pair 200 ''ok''] f"
proof -
  define t where "t = \<lparr>tkPair = example_pair 200 ''ok'', tkType = ''Unauthenticated'', tkIdentifier = None, tkValue = []\<rparr>"
  obtain f where f: "analyzeTask (example_idor_env 200) example_idor_lib example_idor_config 0 t = Inr [f]" "ixSeverity f = ''Critical''"
    using example_evaluation
    by (simp add: analyzeTask_def t_def prepare_task_def Let_def new_finding_def example_idor_env_def [of 200] example_pair_def)
  have e: "env_cpus (example_idor_env 200) = 4" "env_pool (example_idor_env 200) = id" by (simp_all add: example_idor_env_def)
  have "\<not> all_skipped example_idor_config" by (simp add: all_skipped_def example_idor_config_def)
  then have a: "AnalyzeTraffic (example_idor_env 200) example_idor_lib id example_idor_config [example_pair 200 ''ok''] = Some (Inr [f])"
    using f(1) example_task example_pool example_validated
    by (simp add: AnalyzeTraffic_def e Detect_def t_def collect_findings_def)
  have "set (id xs) \<subseteq> set xs" for xs :: "idor_finding list" by simp
  from idor_findings_justified [where arrival = id, OF this, of "example_idor_env 200" example_idor_lib example_idor_config
      "[example_pair 200 ''ok'']"] a
  have "idor_justified (example_idor_env 200) example_idor_lib example_idor_config [example_pair 200 ''ok''] f"
    unfolding e example_validated by auto
  with a f(2) show ?thesis by blast
qed

theorem idor_weak_verdicts_witness:
  "collect_findings [(new_finding ''Manipulation'')\<lparr>ixSeverity := ''High''\<rparr>, (new_finding ''Manipulation'')\<lparr>ixSeverity := ''Medium''\<rparr>]
     = [(new_finding ''Manipulation'')\<lparr>ixSeverity := ''Medium''\<rparr>]
   \<and> (\<exists>ev. evaluateResponse (example_idor_env 200) example_idor_config (example_pair 200 []) (ok_response 200) (ok_response 200) ''ok''
        ''Unauthenticated'' None [] = Some ev \<and> evVulnerable ev)
   \<and> (\<exists>h. analyzeTask (example_idor_env 302) example_idor_lib example_idor_config 0
        \<lparr>tkPair = example_pair 302 [], tkType = ''Horizontal'', tkIdentifier = None, tkValue = []\<rparr> = Inr [h] \<and> ixSeverity h = [])"
proof -
  let ?f = "(new_finding ''Manipulation'')\<lparr>ixSeverity := ''Medium''\<rparr>" and ?g = "(new_finding ''Manipulation'')\<lparr>ixSeverity := ''High''\<rparr>"
  have k: "finding_key ?f = finding_key ?g \<and> ixSeverity ?f = ''Medium'' \<and> ixSeverity ?g \<in> {''High'', ''Critical'', ''Low''}"
    by (simp add: finding_key_def)
  have m: "\<not> structured ''text/html''" by code_simp
  have st: "rsStatus (ok_response st) = st" for st by (simp add: ok_response_def)
  have l: "header_get (rsHeader (ok_response st)) ''Location'' = ''/login''" for st
  proof -
    have "header_get [(''Location'', [''/login''])] ''Location'' = ''/login''" by code_simp
    then show ?thesis by (simp add: ok_response_def)
  qed
  have "prResponseBody (example_pair 200 []) = []
      \<and> \<not> structured (env_media (example_idor_env 200) (header_get (rsHeader (ok_response 200)) ''Content-Type''))
      \<and> 200 \<le> rsStatus (ok_response 200) \<and> rsStatus (ok_response 200) < 300"
    using m by (simp add: example_pair_def example_idor_env_def ok_response_def)
  moreover have "is_redirect (rsStatus (ok_response 302)) \<and> is_redirect (rsStatus (ok_response 302))
      \<and> header_get (rsHeader (ok_response 302)) ''Location'' \<noteq> []
      \<and> header_get (rsHeader (ok_response 302)) ''Location'' = header_get (rsHeader (ok_response 302)) ''Location''
      \<and> SecondSession example_idor_config = Some example_session \<and> prResponse (example_pair 302 []) = Some (ok_response 302)
      \<and> env_send (example_idor_env 302) 0 (ApplyToRequest example_session (prRequest (example_pair 302 []))) = Some (ok_response 302, ''ok'')"
    using l [of 302] st [of 302] by (simp add: is_redirect_def example_idor_config_def example_pair_def example_idor_env_def)
  ultimately show ?thesis
    using idor_weak_verdicts [of ?f ?g] k idor_weak_verdicts [where pair = "example_pair 200 []" and env = "example_idor_env 200"
        and orig = "ok_response 200" and resp = "ok_response 200" and c = example_idor_config and body = "''ok''"]
      idor_weak_verdicts [where pair = "example_pair 302 []" and env = "example_idor_env 302" and orig = "ok_response 302"
        and resp = "ok_response 302" and c = example_idor_config and body = "''ok''" and s = example_session and k = 0 and lib = example_idor_lib]
    by blast
qed

end
