(* ===== verification/Spec2Isabelle.thy ===== *)
theory Spec2Isabelle
  imports Prelude KnowledgeGraph JsFingerprinter JsTermination Bus Results JsonCompare Headers Jwt DiscoveryEngine TaintProbing
    PanScanner TaintPipeline IdorDetect
begin

text \<open>
  A verification library for Scalpel, a security scanner written in Go. The scanner discovers the
  pages of a target, drives a browser over them while it injects probes, analyses the scripts and
  the traffic it sees, and turns the findings into reports; what it learns is kept in a knowledge
  graph. The library models the parts of the program whose behaviour is decided by its own code
  and states what makes each of them correct, including the inputs on which they are not.

  \<^bold>\<open>How the parts interact.\<close> The discovery engine (\<^verbatim>\<open>internal/discovery\<close>) crawls the target, records what
  it finds in the knowledge graph and sends tasks. Workers run analysers on the tasks. The passive
  analysers (\<^verbatim>\<open>analysis/passive/headers\<close>, \<^verbatim>\<open>analysis/static/jwt\<close>) read recorded traffic through an
  analysis context (\<^verbatim>\<open>analysis/core\<close>) and append findings to it. The active taint analyser
  (\<^verbatim>\<open>analysis/active/taint\<close>) injects probes into a browser session, receives events from it and from an
  out-of-band server, and correlates them with its probes and with the findings of the static
  JavaScript analyser (\<^verbatim>\<open>analysis/static/javascript\<close>) for the scripts of the page. The IDOR
  analyser (\<^verbatim>\<open>analysis/auth/idor\<close>) replays recorded traffic with other identifiers and sessions and
  compares the responses with \<^verbatim>\<open>internal/jsoncompare\<close>. Findings go through the results pipeline
  (\<^verbatim>\<open>internal/results\<close>). The two autonomous subsystems (\<^verbatim>\<open>internal/evolution\<close>, \<^verbatim>\<open>internal/agent\<close>) talk
  over message buses.

  \<^bold>\<open>Theories.\<close>

  \<^item> \<^verbatim>\<open>Prelude\<close>: the collections \<open>inv_intros\<close> and the like, the result type of fallible functions, the parts
    of Go's \<^verbatim>\<open>strings\<close>, \<^verbatim>\<open>strconv\<close> and \<^verbatim>\<open>sort\<close> the code uses, and the locale \<open>slice_sorter\<close> for \<^verbatim>\<open>sort.Slice\<close>,
    which promises a sorted permutation and nothing on ties.

  \<^item> \<^verbatim>\<open>Regex\<close>: regular expressions with Go's leftmost-first matching, as far as the program's patterns
    need it.

  \<^item> \<^verbatim>\<open>KnowledgeGraph\<close>: \<^verbatim>\<open>InMemoryKG\<close> of \<^verbatim>\<open>knowledgegraph.go\<close>. Its maps are the fields of the record, each
    operation holds the mutex throughout and is one function of the state. What reads return
    after any history of updates; the errors of \<^verbatim>\<open>AddEdge\<close>; the history query. The locale
    \<open>graph_client\<close> is what a client may rely on.

  \<^item> \<^verbatim>\<open>JsCore\<close>, \<^verbatim>\<open>JsTaint\<close>, \<^verbatim>\<open>JsTree\<close>, \<^verbatim>\<open>JsWalker\<close>, \<^verbatim>\<open>JsFingerprinter\<close>: the static JavaScript analyser. \<^verbatim>\<open>JsCore\<close>
    has the tables of \<^verbatim>\<open>core/definitions.go\<close> and their lookups. \<^verbatim>\<open>JsTaint\<close> has the taint states of
    \<^verbatim>\<open>state.go\<close> on an explicit heap, since object states are shared and updated in place, with \<open>Merge\<close>
    proved to be a join. \<^verbatim>\<open>JsTree\<close> has syntax trees with the observations the code makes of tree-sitter
    nodes. \<^verbatim>\<open>JsWalker\<close> has one definition per method of \<^verbatim>\<open>astWalker\<close>, in a state and error monad;
    \<^verbatim>\<open>JsFingerprinter\<close> the two passes over a file. \<^verbatim>\<open>JsWalkerLaws\<close> proves what holds of every walk
    (locales \<open>walker_effects\<close> and \<open>walker_reports\<close>), \<^verbatim>\<open>JsFlows\<close> which flows are reported and which are
    stopped, \<^verbatim>\<open>JsQuiet\<close> that code without sources gives no report, \<^verbatim>\<open>JsTermination\<close> that both passes return on
    files that build no taint objects, \<^verbatim>\<open>JsDefects\<close> where the analysis fails.

  \<^item> \<^verbatim>\<open>Bus\<close>: \<^verbatim>\<open>evolution/bus/bus.go\<close> and \<^verbatim>\<open>agent/cognitive_bus.go\<close> as one transition system over the atomic
    steps of posts, subscriptions, consumers and shutdown; the record \<open>bus_variant\<close> holds what differs.
    Channel contents, wait-group counters and program counters of the goroutines are explicit.

  \<^item> \<^verbatim>\<open>Results\<close>: normalisation, enrichment, prioritisation, the report and the provider store.

  \<^item> \<^verbatim>\<open>JsonCompare\<close>: rules, heuristics, normalisation and comparison of JSON bodies; two bodies have the
    same normal form exactly when they agree up to what the rules ignore, and the options given to
    the difference library keep the contract its documentation asks for.

  \<^item> \<^verbatim>\<open>AnalysisContext\<close>, \<^verbatim>\<open>Headers\<close>, \<^verbatim>\<open>Jwt\<close>: the contract of a passive analyser (locale \<open>analyzer\<close>: findings are
    only appended, and storable) and the two analysers that meet it, each proved to report exactly
    what its checks call for.

  \<^item> \<^verbatim>\<open>Discovery\<close>, \<^verbatim>\<open>DiscoveryEngine\<close>: scope and normalisation of URLs, and the crawler as a transition
    system over its workers, passive sources and channels: safety in every interleaving,
    termination and completeness of an uncancelled session, and how a cancellation can crash it.

  \<^item> \<^verbatim>\<open>TaintProbes\<close>, \<^verbatim>\<open>PanScanner\<close>, \<^verbatim>\<open>TaintAnalyzer\<close>, \<^verbatim>\<open>TaintProbing\<close>, \<^verbatim>\<open>TaintPipeline\<close>: the active taint
    analyser. Flow rules, probes, canaries and payloads; the card number scanner; what is reported
    for each event; the probing phases with the calls they make of the browser; and the event
    channel with its producers, workers and shutdown as a transition system. A probe that was
    injected and reaches a sink unchanged, behind nothing but whole canaries and other text, is reported, every report has a registered probe and
    obeys the rules, and the pipeline loses no accepted event.

  \<^item> \<^verbatim>\<open>IdorIdentifiers\<close>, \<^verbatim>\<open>IdorDetect\<close>: the IDOR analyser (\<^verbatim>\<open>analysis/auth/idor\<close>). Identifiers are found in every part of a
    request, with the paths that lead to them; the pool and the values that are tried; putting a
    value back, which changes the identifier's place and nothing else. Then the tasks derived from
    recorded traffic, what each replays, how responses are judged and findings deduplicated:
    every finding has a replayed request and a passed verdict behind it.

  \<^bold>\<open>Parameters.\<close> Code outside the repository is an argument of the definitions that use it: the
  tree-sitter parser, \<^verbatim>\<open>encoding/json\<close>, \<^verbatim>\<open>net/url\<close>, the public suffix list, \<^verbatim>\<open>golang-jwt\<close>, \<^verbatim>\<open>uuid\<close> and
  \<^verbatim>\<open>time\<close> parsing, the order in which Go ranges over a map, fresh identifiers and the clock. What is
  relied on is a hypothesis, and each property with one has a witness that instantiates it.

  \<^bold>\<open>Recursion and fuel.\<close> The walker's recursions take fuel, \<open>node_fuel\<close>: one more than the height of the
  tree they start at, which is enough for every tree (lemma \<^verbatim>\<open>walker_recursion\<close>). Reads of taint
  states take one more than the size of the heap; on the heaps the invariant allows this is
  enough, and on a state that contains itself no fuel is, as the Go code does not return. The loop over the parts of a multipart body is a partial
  function, whose \<open>None\<close> is not returning. Key
  renaming in \<^verbatim>\<open>JsonCompare\<close> tries one name more than there are keys, of which one is free. Other recursions are
  structural or have a measure. Goroutines are steps of transition systems; termination of a
  session or a shutdown is stated for their schedules.

  \<^bold>\<open>Numbers.\<close> Go's \<^verbatim>\<open>int\<close> is 64 bits wide; counters and lengths here stay far below its bounds and are
  \<open>nat\<close> or \<open>int\<close>; where a value of a request is computed with (\<^verbatim>\<open>IdorIdentifiers\<close>), the wrap-around is written out. Floating-point entropies are real numbers. Strings are lists of bytes.

  \<^bold>\<open>Not modelled.\<close> Code whose behaviour is that of another system: browser automation over CDP, the
  network stack of \<^verbatim>\<open>pkg\<close> (sockets, TLS, HTTP/2 and HTTP/3 frames), the timing of the race-condition
  tester, the browser runs of the account take-over tester, SQL stores, LLM clients and the agents
  that prompt them, the autofix and evolution tool chains that run git and the go compiler, the
  command line and the wiring of services. The semantic fingerprinter works on the SSA form of a
  library outside the repository. Logging, contexts' deadlines and metrics are left out everywhere.
\<close>

end
